(* ===== verification/Go_Prelude.thy ===== *)
theory Go_Prelude
  imports Main "HOL-Library.Word" "HOL-Library.Monad_Syntax" "HOL-Library.Multiset"
begin

text \<open>
  What the other theories share: how Go's slices, loops and run-time panics are read in HOL.

  \<^item> A Go \<open>int\<close> that is an index, a length, a counter or a point identifier is an \<^typ>\<open>int\<close>:
    it is bounded by the length of a slice, so it never wraps. Integers that do wrap (the bits
    of a \<open>float64\<close>, the words of the random source) are words of their width.
  \<^item> A Go function that may panic returns an \<open>option\<close>: \<^term>\<open>None\<close> is "the call does not
    return a value" (an index out of range, \<open>Intn\<close> of a non-positive argument), and the
    \<open>do\<close> notation propagates it as the unwinding of the stack would.
  \<^item> A Go slice is a list. \<open>go_nth\<close> and \<open>go_set\<close> are the checked read and write.
  \<^item> A \<open>for range\<close> loop over a slice is \<open>go_range\<close>: a left fold that stops at a panic.
\<close>

named_theorems go_simps \<open>unfoldings of the shared Go operations\<close>

section \<open>Slices\<close>

definition go_nth :: "'a list \<Rightarrow> int \<Rightarrow> 'a option" where
  "go_nth xs i = (if 0 \<le> i \<and> i < int (length xs) then Some (xs ! nat i) else None)"

definition go_set :: "'a list \<Rightarrow> int \<Rightarrow> 'a \<Rightarrow> 'a list option" where
  "go_set xs i v = (if 0 \<le> i \<and> i < int (length xs) then Some (xs[nat i := v]) else None)"

text \<open>The slice expression \<open>xs[lo:hi]\<close>.\<close>

definition go_slice :: "'a list \<Rightarrow> int \<Rightarrow> int \<Rightarrow> 'a list option" where
  "go_slice xs lo hi =
     (if 0 \<le> lo \<and> lo \<le> hi \<and> hi \<le> int (length xs)
      then Some (take (nat hi - nat lo) (drop (nat lo) xs)) else None)"

section \<open>Loops\<close>

fun go_range :: "('a \<Rightarrow> 's \<Rightarrow> 's option) \<Rightarrow> 'a list \<Rightarrow> 's \<Rightarrow> 's option" where
  "go_range body [] s = Some s"
| "go_range body (x # xs) s = do { s' \<leftarrow> body x s; go_range body xs s' }"

text \<open>\<open>for i, x := range xs\<close>: the elements with their indices.\<close>

definition go_enum :: "'a list \<Rightarrow> (int \<times> 'a) list" where
  "go_enum xs = zip (map int [0..<length xs]) xs"

section \<open>Facts on slices and loops\<close>

lemma go_nth_Some_iff: "go_nth xs i = Some x \<longleftrightarrow> 0 \<le> i \<and> i < int (length xs) \<and> x = xs ! nat i"
  by (auto simp: go_nth_def)

lemma go_nth_in [simp]: "0 \<le> i \<Longrightarrow> i < int (length xs) \<Longrightarrow> go_nth xs i = Some (xs ! nat i)"
  by (simp add: go_nth_def)

lemma go_nth_int [simp]: "i < length xs \<Longrightarrow> go_nth xs (int i) = Some (xs ! i)"
  by (simp add: go_nth_def)

lemma go_nth_SomeD: "go_nth xs i = Some x \<Longrightarrow> x \<in> set xs"
  by (auto simp: go_nth_Some_iff)

lemma go_set_Some_iff:
  "go_set xs i v = Some ys \<longleftrightarrow> 0 \<le> i \<and> i < int (length xs) \<and> ys = xs[nat i := v]"
  by (auto simp: go_set_def)

lemma go_set_in [simp]: "0 \<le> i \<Longrightarrow> i < int (length xs) \<Longrightarrow> go_set xs i v = Some (xs[nat i := v])"
  by (simp add: go_set_def)

lemma go_slice_Some_iff:
  "go_slice xs lo hi = Some ys \<longleftrightarrow>
     0 \<le> lo \<and> lo \<le> hi \<and> hi \<le> int (length xs) \<and> ys = take (nat hi - nat lo) (drop (nat lo) xs)"
  by (auto simp: go_slice_def)

lemma go_nth_last: "xs \<noteq> [] \<Longrightarrow> go_nth xs (int (length xs) - 1) = Some (last xs)"
  by (cases xs rule: rev_cases) (simp_all add: go_nth_def nth_append)

lemma go_slice_to: "0 \<le> n \<Longrightarrow> n \<le> int (length xs) \<Longrightarrow> go_slice xs 0 n = Some (take (nat n) xs)"
  by (simp add: go_slice_def)

lemma go_slice_from:
  "0 \<le> n \<Longrightarrow> n \<le> int (length xs) \<Longrightarrow> go_slice xs n (int (length xs)) = Some (drop (nat n) xs)"
  by (simp add: go_slice_def)

lemma go_range_append:
  "go_range body (xs @ ys) s = do { s' \<leftarrow> go_range body xs s; go_range body ys s' }"
proof (induction xs arbitrary: s)
  case Nil
  then show ?case by simp
next
  case (Cons x xs)
  then show ?case by (cases "body x s") simp_all
qed

lemma go_range_map: "go_range body (map f xs) s = go_range (\<lambda>x. body (f x)) xs s"
proof (induction xs arbitrary: s)
  case (Cons x xs)
  then show ?case by (cases "body (f x) s") simp_all
qed simp

text \<open>An invariant of the loop body is an invariant of the loop, and a body that always returns
  under the invariant makes a loop that always returns.\<close>

lemma go_range_inv:
  assumes "go_range body xs s = Some t" "I s"
    and "\<And>x s s'. x \<in> set xs \<Longrightarrow> I s \<Longrightarrow> body x s = Some s' \<Longrightarrow> I s'"
  shows "I t"
  using assms
proof (induction xs arbitrary: s)
  case Nil
  then show ?case by simp
next
  case (Cons x xs)
  from Cons.prems(1) obtain s' where s': "body x s = Some s'" and t: "go_range body xs s' = Some t"
    by (auto simp: bind_eq_Some_conv)
  have "I s'" by (rule Cons.prems(3) [OF _ Cons.prems(2) s']) simp
  with t show ?case using Cons.prems(3) by (intro Cons.IH) auto
qed

lemma go_range_total:
  assumes "I s" and "\<And>x s. x \<in> set xs \<Longrightarrow> I s \<Longrightarrow> \<exists>s'. body x s = Some s' \<and> I s'"
  shows "\<exists>t. go_range body xs s = Some t \<and> I t"
  using assms
proof (induction xs arbitrary: s)
  case Nil
  then show ?case by simp
next
  case (Cons x xs)
  obtain s' where "body x s = Some s'" "I s'" using Cons.prems by force
  then show ?case using Cons.IH [of s'] Cons.prems(2) by auto
qed

text \<open>A counting loop whose invariant speaks of the counter.\<close>

lemma go_range_upto:
  assumes "I k s" "k \<le> n"
    and "\<And>i s. k \<le> i \<Longrightarrow> i < n \<Longrightarrow> I i s \<Longrightarrow> \<exists>s'. body (int i) s = Some s' \<and> I (Suc i) s'"
  shows "\<exists>t. go_range body [int k..int n - 1] s = Some t \<and> I n t"
  using assms
proof (induction "n - k" arbitrary: k s)
  case 0
  then show ?case by simp
next
  case (Suc m)
  then have k: "k < n" by simp
  obtain s' where s': "body (int k) s = Some s'" "I (Suc k) s'" using Suc.prems(3) [OF le_refl k Suc.prems(1)] by blast
  have "[int k..int n - 1] = int k # [int (Suc k)..int n - 1]" using k by (simp add: upto_rec1 add.commute)
  moreover have "\<exists>t. go_range body [int (Suc k)..int n - 1] s' = Some t \<and> I n t"
  proof (rule Suc.hyps(1) [of "Suc k"])
    show "m = n - Suc k" using Suc.hyps(2) by simp
    show "I (Suc k) s'" by (rule s'(2))
    show "Suc k \<le> n" using k by simp
    show "\<exists>t. body (int i) s = Some t \<and> I (Suc i) t" if "Suc k \<le> i" "i < n" "I i s" for i s
      using Suc.prems(3) [of i s] that by simp
  qed
  ultimately show ?case using s'(1) by simp
qed

lemma go_range_cong [fundef_cong]:
  assumes "xs = ys" "s = t" "\<And>x s. x \<in> set ys \<Longrightarrow> f x s = g x s"
  shows "go_range f xs s = go_range g ys t"
proof -
  have "(\<And>x s. x \<in> set ys \<Longrightarrow> f x s = g x s) \<Longrightarrow> go_range f ys t = go_range g ys t"
  proof (induction ys arbitrary: t)
    case Nil
    then show ?case by simp
  next
    case (Cons y ys)
    then show ?case by (cases "g y t") auto
  qed
  with assms show ?thesis by simp
qed

lemma set_go_enum: "set (go_enum xs) = {(int i, xs ! i) | i. i < length xs}"
proof -
  have "go_enum xs = map (\<lambda>i. (int i, xs ! i)) [0..<length xs]"
    by (rule nth_equalityI) (simp_all add: go_enum_def)
  then show ?thesis by auto
qed

lemma go_enum_Nil [simp]: "go_enum [] = []"
  by (simp add: go_enum_def)

lemma length_go_enum [simp]: "length (go_enum xs) = length xs"
  by (simp add: go_enum_def)

lemma map_snd_go_enum [simp]: "map snd (go_enum xs) = xs"
  by (simp add: go_enum_def)

section \<open>64-bit words\<close>

unbundle bit_operations_syntax

lemma unat_take_bit_64: "unat (take_bit n (v :: 64 word)) = unat v mod 2 ^ n"
  by (simp only: unsigned_take_bit_eq) (simp add: take_bit_eq_mod)

lemma unat_drop_bit_64: "unat (drop_bit n (v :: 64 word)) = unat v div 2 ^ n"
  by (simp only: unat_drop_bit_eq) (simp add: drop_bit_eq_div)

lemma unat_64_less [simp]: "unat (v :: 64 word) < 2 ^ 64"
  using unsigned_less [of v] by simp

lemma bit_63_iff: "bit (v :: 64 word) 63 \<longleftrightarrow> 2 ^ 63 \<le> unat v"
proof -
  have lt: "unat v < 2 ^ 64" by (rule unat_64_less)
  have "bit v 63 \<longleftrightarrow> odd (unat v div 2 ^ 63)"
    by (simp only: flip: bit_iff_odd) (simp add: bit_unsigned_iff)
  also have "\<dots> \<longleftrightarrow> 2 ^ 63 \<le> unat v"
  proof (cases "2 ^ 63 \<le> unat v")
    case True
    then have "unat v div 2 ^ 63 = 1" using lt by (intro div_nat_eqI) auto
    with True show ?thesis by simp
  next
    case False
    then have "unat v div 2 ^ 63 = 0" by (intro div_less) simp
    with False show ?thesis by simp
  qed
  finally show ?thesis .
qed

lemma and_sign_bit:
  "(v :: 64 word) AND 0x8000000000000000 = (if bit v 63 then 0x8000000000000000 else 0)"
proof -
  have "v AND 2 ^ 63 = (if bit v 63 then 2 ^ 63 else 0)"
    by (rule bit_word_eqI) (auto simp: bit_simps simp del: push_bit_numeral power_numeral)
  then show ?thesis by simp
qed

lemma and_mask_52: "(v :: 64 word) AND 0xFFFFFFFFFFFFF = take_bit 52 v"
  by (simp add: take_bit_eq_mask mask_eq_exp_minus_1)

lemma and_mask_11: "(v :: 64 word) AND 0x7FF = take_bit 11 v"
  by (simp add: take_bit_eq_mask mask_eq_exp_minus_1)

end
