(* ===== verification/Go_Float64.thy ===== *)
theory Go_Float64
  imports Go_Prelude
begin

unbundle bit_operations_syntax

text \<open>
  \<open>float64\<close> arithmetic: the software implementation that the repository's Go distribution
  carries (\<open>src/go/src/runtime/softfloat64.go\<close>) and the software square root
  (\<open>src/go/src/math/sqrt.go\<close>). A \<open>float64\<close> is its 64 bits; the program's \<open>+\<close>, \<open>-\<close>, \<open>*\<close>, \<open>/\<close>
  and comparisons on \<open>float64\<close> are \<open>fadd64\<close>, \<open>fsub64\<close>, \<open>fmul64\<close>, \<open>fdiv64\<close>, \<open>fgt64\<close>, \<open>fge64\<close> and \<open>feq64\<close>.
\<close>

type_synonym f64 = "64 word"

section \<open>Constants\<close>

abbreviation (input) mantbits64 :: nat where "mantbits64 \<equiv> 52"
abbreviation (input) expbits64 :: nat where "expbits64 \<equiv> 11"
abbreviation (input) bias64 :: int where "bias64 \<equiv> -1023"

definition nan64 :: f64 where "nan64 = 0x7FF8000000000000"
definition inf64 :: f64 where "inf64 = 0x7FF0000000000000"

lemma nan64_bits: "nan64 = push_bit mantbits64 (2 ^ expbits64 - 1) + push_bit (mantbits64 - 1) 1"
  by (simp add: nan64_def)

lemma inf64_bits: "inf64 = push_bit mantbits64 (2 ^ expbits64 - 1)"
  by (simp add: inf64_def)

text \<open>The sign bit, \<open>1 << (mantbits64 + expbits64)\<close>, and the bit above the mantissa, \<open>1 << mantbits64\<close>.\<close>

abbreviation neg64 :: f64 where "neg64 \<equiv> 0x8000000000000000"
abbreviation top64 :: f64 where "top64 \<equiv> 0x10000000000000"

section \<open>Unpacking and packing\<close>

lemma unat_push_bit_1: "v < top64 \<Longrightarrow> unat (push_bit 1 v) = 2 * unat v"
  by (simp add: push_bit_eq_mult unat_word_ariths word_less_nat_alt)

text \<open>
  \<open>for mant < 1<<mantbits64 { mant <<= 1; exp-- }\<close>. Both callers have checked \<open>mant != 0\<close>, without
  which the loop would not end; the guard repeats the check.
\<close>

function norm_up :: "f64 \<Rightarrow> int \<Rightarrow> f64 \<times> int" where
  "norm_up mant e =
     (if mant < top64 \<and> mant \<noteq> 0 then norm_up (push_bit 1 mant) (e - 1) else (mant, e))"
  by pat_completeness auto
termination
proof (relation "measure (\<lambda>(mant, e). 2 ^ 52 - unat mant)", goal_cases)
  case 1 show ?case by simp
next
  case (2 mant e)
  then have "0 < unat mant" "unat mant < 2 ^ 52" by (simp_all add: word_less_nat_alt unat_gt_0)
  with 2 show ?case using unat_push_bit_1 [of mant] by simp
qed

declare norm_up.simps [simp del]

text \<open>\<open>for mant >= 4<<mantbits64 { trunc |= mant & 1; mant >>= 1; exp++ }\<close>\<close>

function norm_down :: "f64 \<Rightarrow> int \<Rightarrow> f64 \<Rightarrow> f64 \<times> int \<times> f64" where
  "norm_down mant e trunc =
     (if 4 * top64 \<le> mant then norm_down (drop_bit 1 mant) (e + 1) (trunc OR (mant AND 1))
      else (mant, e, trunc))"
  by pat_completeness auto
termination
proof (relation "measure (\<lambda>(mant, e, trunc). unat mant)", goal_cases)
  case 1 show ?case by simp
next
  case (2 mant e trunc)
  then have "0 < unat mant" by (auto simp: word_le_nat_alt)
  then show ?case by (simp add: drop_bit_eq_div unat_div)
qed

declare norm_down.simps [simp del]

text \<open>\<open>for exp < bias64 { trunc |= mant & 1; mant >>= 1; exp++ }\<close>\<close>

function denorm :: "f64 \<Rightarrow> int \<Rightarrow> f64 \<Rightarrow> f64 \<times> int \<times> f64" where
  "denorm mant e trunc =
     (if e < bias64 then denorm (drop_bit 1 mant) (e + 1) (trunc OR (mant AND 1))
      else (mant, e, trunc))"
  by pat_completeness auto
termination by (relation "measure (\<lambda>(mant, e, trunc). nat (bias64 - e))") auto

declare denorm.simps [simp del]

definition funpack64 :: "f64 \<Rightarrow> f64 \<times> f64 \<times> int \<times> bool \<times> bool" where
  "funpack64 f =
     (let sign = f AND neg64;
          mant = f AND 0xFFFFFFFFFFFFF;
          e = uint (drop_bit mantbits64 f AND 0x7FF)
      in if e = 2047 then (if mant \<noteq> 0 then (sign, mant, e, False, True) else (sign, mant, e, True, False))
         else if e = 0 then
           (if mant \<noteq> 0 then (let (mant', e') = norm_up mant (e + (bias64 + 1)) in (sign, mant', e', False, False))
            else (sign, mant, e, False, False))
         else (sign, mant OR top64, e + bias64, False, False))"

definition fpack64 :: "f64 \<Rightarrow> f64 \<Rightarrow> int \<Rightarrow> f64 \<Rightarrow> f64" where
  "fpack64 sign mant0 exp0 trunc0 =
     (if mant0 = 0 then sign
      else
        let (mant, e) = norm_up mant0 exp0;
            (mant, e, trunc) = norm_down mant e trunc0;
            (mant, e) =
              (if 2 * top64 \<le> mant then
                 let (mant, e) =
                   (if mant AND 1 \<noteq> 0 \<and> (trunc \<noteq> 0 \<or> mant AND 2 \<noteq> 0) then
                      (if 4 * top64 \<le> mant + 1 then (drop_bit 1 (mant + 1), e + 1) else (mant + 1, e))
                    else (mant, e))
                 in (drop_bit 1 mant, e + 1)
               else (mant, e))
        in if 2047 + bias64 \<le> e then sign XOR inf64
           else if e < bias64 + 1 then
             (if e < bias64 - int mantbits64 then sign OR 0
              else
                let (mant, e, trunc) = denorm mant0 exp0 trunc0;
                    mant = (if mant AND 1 \<noteq> 0 \<and> (trunc \<noteq> 0 \<or> mant AND 2 \<noteq> 0) then mant + 1 else mant);
                    mant = drop_bit 1 mant;
                    e = e + 1
                in if mant < top64 then sign OR mant
                   else sign OR push_bit mantbits64 (word_of_int (e - bias64)) OR (mant AND 0xFFFFFFFFFFFFF))
           else sign OR push_bit mantbits64 (word_of_int (e - bias64)) OR (mant AND 0xFFFFFFFFFFFFF))"

section \<open>Arithmetic\<close>

definition fadd64 :: "f64 \<Rightarrow> f64 \<Rightarrow> f64" where
  "fadd64 f g =
     (let (fs, fm, fe, fi, fn) = funpack64 f;
          (gs, gm, ge, gi, gn) = funpack64 g
      in if fn \<or> gn then nan64
         else if fi \<and> gi \<and> fs \<noteq> gs then nan64
         else if fi then f
         else if gi then g
         else if fm = 0 \<and> gm = 0 \<and> fs \<noteq> 0 \<and> gs \<noteq> 0 then f
         else if fm = 0 then (if gm = 0 then g XOR gs else g)
         else if gm = 0 then f
         else
           let (f, g, fs, fm, fe, gs, gm, ge) =
                 (if fe < ge \<or> fe = ge \<and> fm < gm then (g, f, gs, gm, ge, fs, fm, fe)
                  else (f, g, fs, fm, fe, gs, gm, ge));
               shift = nat (fe - ge);
               fm = push_bit 2 fm;
               gm = push_bit 2 gm;
               trunc = gm AND (push_bit shift 1 - 1);
               gm = drop_bit shift gm;
               fm = (if fs = gs then fm + gm else if trunc \<noteq> 0 then fm - gm - 1 else fm - gm);
               fs = (if fm = 0 then 0 else fs)
           in fpack64 fs fm (fe - 2) trunc)"

definition fneg64 :: "f64 \<Rightarrow> f64" where
  "fneg64 f = f XOR neg64"

definition fsub64 :: "f64 \<Rightarrow> f64 \<Rightarrow> f64" where
  "fsub64 f g = fadd64 f (fneg64 g)"

text \<open>64 by 64 to 128 bit product: the low and the high word.\<close>

definition mullu :: "f64 \<Rightarrow> f64 \<Rightarrow> f64 \<times> f64" where
  "mullu u v =
     (let u0 = u AND 0xFFFFFFFF; u1 = drop_bit 32 u;
          v0 = v AND 0xFFFFFFFF; v1 = drop_bit 32 v;
          w0 = u0 * v0;
          t = u1 * v0 + drop_bit 32 w0;
          w1 = t AND 0xFFFFFFFF;
          w2 = drop_bit 32 t;
          w1 = w1 + u0 * v1
      in (u * v, u1 * v1 + w2 + drop_bit 32 w1))"

definition fmul64 :: "f64 \<Rightarrow> f64 \<Rightarrow> f64" where
  "fmul64 f g =
     (let (fs, fm, fe, fi, fn) = funpack64 f;
          (gs, gm, ge, gi, gn) = funpack64 g
      in if fn \<or> gn then nan64
         else if fi \<and> gi then f XOR gs
         else if fi \<and> gm = 0 \<or> fm = 0 \<and> gi then nan64
         else if fm = 0 then f XOR gs
         else if gm = 0 then g XOR fs
         else
           let (lo, hi) = mullu fm gm;
               shift = mantbits64 - 1;
               trunc = lo AND (push_bit shift 1 - 1);
               mant = push_bit (64 - shift) hi OR drop_bit shift lo
           in fpack64 (fs XOR gs) mant (fe + ge - 1) trunc)"

text \<open>\<open>for v&(1<<63) == 0 { s++; v <<= 1 }\<close>; the caller's divisor is not zero.\<close>

function nlz_shift :: "nat \<Rightarrow> f64 \<Rightarrow> nat \<times> f64" where
  "nlz_shift s v =
     (if v AND neg64 = 0 \<and> v \<noteq> 0 then nlz_shift (Suc s) (push_bit 1 v) else (s, v))"
  by pat_completeness auto
termination
proof (relation "measure (\<lambda>(s, v). 2 ^ 64 - unat v)", goal_cases)
  case 1 show ?case by simp
next
  case (2 s v)
  have "\<not> bit v 63" using 2 by (auto simp: and_sign_bit split: if_splits)
  then have "unat v < 2 ^ 63" by (simp add: bit_63_iff)
  moreover have "0 < unat v" using 2 by (simp add: unat_gt_0)
  moreover have "unat (push_bit 1 v) = 2 * unat v"
    using \<open>unat v < 2 ^ 63\<close> by (simp add: push_bit_eq_mult unat_word_ariths)
  ultimately show ?case by simp
qed

declare nlz_shift.simps [simp del]

text \<open>
  The correction loop of \<open>divlu\<close> (labels \<open>again1\<close> and \<open>again2\<close>): the estimated quotient digit is
  lowered while it is too large.
\<close>

function divlu_again :: "f64 \<Rightarrow> f64 \<Rightarrow> f64 \<Rightarrow> f64 \<Rightarrow> f64 \<Rightarrow> f64" where
  "divlu_again q rhat vn1 vn0 un =
     (if 0x100000000 \<le> q \<or> 0x100000000 * rhat + un < q * vn0 then
        (if rhat + vn1 < 0x100000000 then divlu_again (q - 1) (rhat + vn1) vn1 vn0 un else q - 1)
      else q)"
  by pat_completeness auto
termination
proof (relation "measure (\<lambda>(q, rhat, vn1, vn0, un). unat q)", goal_cases)
  case 1 show ?case by simp
next
  case (2 q rhat vn1 vn0 un)
  then have "q \<noteq> 0" by auto
  then show ?case by (simp add: unat_minus_one unat_gt_0)
qed

declare divlu_again.simps [simp del]

definition divlu :: "f64 \<Rightarrow> f64 \<Rightarrow> f64 \<Rightarrow> f64 \<times> f64" where
  "divlu u1 u0 v0 =
     (if v0 \<le> u1 then (-1, -1)
      else
        let (s, v) = nlz_shift 0 v0;
            vn1 = drop_bit 32 v;
            vn0 = v AND 0xFFFFFFFF;
            un32 = push_bit s u1 OR drop_bit (64 - s) u0;
            un10 = push_bit s u0;
            un1 = drop_bit 32 un10;
            un0 = un10 AND 0xFFFFFFFF;
            q1 = un32 div vn1;
            rhat = un32 - q1 * vn1;
            q1 = divlu_again q1 rhat vn1 vn0 un1;
            un21 = un32 * 0x100000000 + un1 - q1 * v;
            q0 = un21 div vn1;
            rhat = un21 - q0 * vn1;
            q0 = divlu_again q0 rhat vn1 vn0 un0
        in (q1 * 0x100000000 + q0, drop_bit s (un21 * 0x100000000 + un0 - q0 * v)))"

definition fdiv64 :: "f64 \<Rightarrow> f64 \<Rightarrow> f64" where
  "fdiv64 f g =
     (let (fs, fm, fe, fi, fn) = funpack64 f;
          (gs, gm, ge, gi, gn) = funpack64 g
      in if fn \<or> gn then nan64
         else if fi \<and> gi then nan64
         else if \<not> fi \<and> \<not> gi \<and> fm = 0 \<and> gm = 0 then nan64
         else if fi \<or> \<not> gi \<and> gm = 0 then fs XOR gs XOR inf64
         else if gi \<or> fm = 0 then fs XOR gs XOR 0
         else
           let shift = mantbits64 + 2;
               (q, r) = divlu (drop_bit (64 - shift) fm) (push_bit shift fm) gm
           in fpack64 (fs XOR gs) q (fe - ge - 2) r)"

section \<open>Comparison\<close>

definition fcmp64 :: "f64 \<Rightarrow> f64 \<Rightarrow> int \<times> bool" where
  "fcmp64 f g =
     (let (fs, fm, _, fi, fn) = funpack64 f;
          (gs, gm, _, gi, gn) = funpack64 g
      in if fn \<or> gn then (0, True)
         else if \<not> fi \<and> \<not> gi \<and> fm = 0 \<and> gm = 0 then (0, False)
         else if fs > gs then (-1, False)
         else if fs < gs then (1, False)
         else if fs = 0 \<and> f < g \<or> fs \<noteq> 0 \<and> f > g then (-1, False)
         else if fs = 0 \<and> f > g \<or> fs \<noteq> 0 \<and> f < g then (1, False)
         else (0, False))"

definition feq64 :: "f64 \<Rightarrow> f64 \<Rightarrow> bool" where
  "feq64 x y = (let (cmp, nan) = fcmp64 x y in cmp = 0 \<and> \<not> nan)"

definition fgt64 :: "f64 \<Rightarrow> f64 \<Rightarrow> bool" where
  "fgt64 x y = (let (cmp, nan) = fcmp64 x y in cmp \<ge> 1 \<and> \<not> nan)"

definition fge64 :: "f64 \<Rightarrow> f64 \<Rightarrow> bool" where
  "fge64 x y = (let (cmp, nan) = fcmp64 x y in cmp \<ge> 0 \<and> \<not> nan)"

text \<open>Go's \<open>x < y\<close> and \<open>x <= y\<close> are \<open>y > x\<close> and \<open>y >= x\<close>.\<close>

abbreviation flt64 :: "f64 \<Rightarrow> f64 \<Rightarrow> bool" where "flt64 x y \<equiv> fgt64 y x"
abbreviation fle64 :: "f64 \<Rightarrow> f64 \<Rightarrow> bool" where "fle64 x y \<equiv> fge64 y x"

section \<open>Square root\<close>

definition MaxFloat64 :: f64 where "MaxFloat64 = 0x7FEFFFFFFFFFFFFF"

text \<open>\<open>IsNaN(f)\<close>, \<open>IsInf(f, 1)\<close> and \<open>NaN()\<close> of \<open>src/go/src/math/bits.go\<close>.\<close>

definition IsNaN :: "f64 \<Rightarrow> bool" where "IsNaN f \<longleftrightarrow> \<not> feq64 f f"
definition IsInf1 :: "f64 \<Rightarrow> bool" where "IsInf1 f \<longleftrightarrow> fgt64 f MaxFloat64"
definition uvnan :: f64 where "uvnan = 0x7FF8000000000001"

text \<open>\<open>for ix&(1<<shift) == 0 { ix <<= 1; exp-- }\<close>, for a subnormal that is not zero.\<close>

function sqrt_norm :: "f64 \<Rightarrow> int \<Rightarrow> f64 \<times> int" where
  "sqrt_norm ix e =
     (if ix AND top64 = 0 \<and> ix < top64 \<and> ix \<noteq> 0 then sqrt_norm (push_bit 1 ix) (e - 1) else (ix, e))"
  by pat_completeness auto
termination
proof (relation "measure (\<lambda>(ix, e). 2 ^ 52 - unat ix)", goal_cases)
  case 1 show ?case by simp
next
  case (2 ix e)
  then have "0 < unat ix" "unat ix < 2 ^ 52" by (simp_all add: word_less_nat_alt unat_gt_0)
  with 2 show ?case using unat_push_bit_1 [of ix] by simp
qed

declare sqrt_norm.simps [simp del]

text \<open>
  The result bit by bit: \<open>q\<close> is the root so far, \<open>s\<close> twice the root, \<open>r\<close> the moving bit.
\<close>

function sqrt_bits :: "f64 \<Rightarrow> f64 \<Rightarrow> f64 \<Rightarrow> f64 \<Rightarrow> f64 \<times> f64" where
  "sqrt_bits ix q s r =
     (if r \<noteq> 0 then
        let t = s + r;
            (s, ix, q) = (if t \<le> ix then (t + r, ix - t, q + r) else (s, ix, q))
        in sqrt_bits (push_bit 1 ix) q s (drop_bit 1 r)
      else (ix, q))"
  by pat_completeness auto
termination
proof (relation "measure (\<lambda>(ix, q, s, r). unat r)", goal_cases)
  case 1 show ?case by simp
next
  case (2 ix q s r)
  then have "0 < unat r" by (simp add: unat_gt_0)
  then show ?case by (simp add: unat_drop_bit_64)
qed

declare sqrt_bits.simps [simp del]

definition Sqrt :: "f64 \<Rightarrow> f64" where
  "Sqrt x =
     (if feq64 x 0 \<or> IsNaN x \<or> IsInf1 x then x
      else if flt64 x 0 then uvnan
      else
        let ix = x;
            e = uint (drop_bit 52 ix AND 0x7FF);
            (ix, e) = (if e = 0 then (let (ix, e) = sqrt_norm ix e in (ix, e + 1)) else (ix, e));
            e = e - 1023;
            ix = ix AND NOT (push_bit 52 0x7FF);
            ix = ix OR top64;
            ix = (if e mod 2 = 1 then push_bit 1 ix else ix);
            e = e div 2;
            ix = push_bit 1 ix;
            (ix, q) = sqrt_bits ix 0 0 (2 ^ 53);
            q = (if ix \<noteq> 0 then q + (q AND 1) else q)
        in drop_bit 1 q + push_bit 52 (word_of_int (e - 1 + 1023)))"

end
