(* ===== verification/Go_Float64_Order.thy ===== *)
theory Go_Float64_Order
  imports Go_Float64
begin

text \<open>
  The order that \<open>fcmp64\<close> computes. A \<open>float64\<close> that is not a NaN has an integer key (its magnitude
  bits, negated when the sign bit is set), and the three comparisons are the comparisons of the
  keys; a comparison with a NaN is false. Everything the development needs of the order of floats
  (it is a strict partial order, it has no infinite descent) follows from the key.
\<close>

definition f64_mag :: "f64 \<Rightarrow> nat" where
  "f64_mag f = unat f mod 2 ^ 63"

definition f64_nan :: "f64 \<Rightarrow> bool" where
  "f64_nan f \<longleftrightarrow> 2047 * 2 ^ 52 < f64_mag f"

definition f64_key :: "f64 \<Rightarrow> int" where
  "f64_key f = (if bit f 63 then - int (f64_mag f) else int (f64_mag f))"

section \<open>The fields of a float\<close>

lemma f64_exponent: "uint (drop_bit 52 f AND 0x7FF) = int (f64_mag f div 2 ^ 52)"
proof -
  have "unat (drop_bit 52 f AND 0x7FF) = unat f div 2 ^ 52 mod 2 ^ 11"
    by (simp only: and_mask_11 unat_take_bit_64 unat_drop_bit_64)
  also have "\<dots> = f64_mag f div 2 ^ 52"
    unfolding f64_mag_def by (simp only: div_exp_mod_exp_eq) simp
  finally show ?thesis by (simp add: uint_nat)
qed

lemma f64_mantissa: "unat (f AND 0xFFFFFFFFFFFFF) = f64_mag f mod 2 ^ 52"
  by (simp add: f64_mag_def and_mask_52 unat_take_bit_64 mod_mod_cancel)

lemma unat_f64: "unat f = (if bit f 63 then 2 ^ 63 else 0) + f64_mag f"
  using unat_64_less [of f] by (auto simp: f64_mag_def bit_63_iff mod_if le_mod_geq)

lemma f64_mag_less: "f64_mag f < 2 ^ 63"
  by (simp add: f64_mag_def)

lemma norm_up_nonzero: "mant \<noteq> 0 \<Longrightarrow> fst (norm_up mant e) \<noteq> 0"
proof (induction mant e rule: norm_up.induct)
  case (1 mant e)
  show ?case
  proof (cases "mant < top64")
    case True
    have "push_bit 1 mant \<noteq> 0"
    proof -
      have "unat (push_bit 1 mant) = 2 * unat mant" using True by (rule unat_push_bit_1)
      with \<open>mant \<noteq> 0\<close> show ?thesis by (metis mult_is_0 unat_eq_0 zero_neq_numeral)
    qed
    with 1 True show ?thesis by (simp add: norm_up.simps [of mant e])
  next
    case False
    with 1 show ?thesis by (simp add: norm_up.simps [of mant e])
  qed
qed

lemma split_exponent:
  fixes M :: nat
  assumes "M = E * 2 ^ 52 + r" "r < 2 ^ 52" "E \<le> 2047"
  shows "2047 * 2 ^ 52 < M \<longleftrightarrow> E = 2047 \<and> r \<noteq> 0" "M = 2047 * 2 ^ 52 \<longleftrightarrow> E = 2047 \<and> r = 0"
  using assms by (cases "E = 2047"; simp; linarith)+

lemma funpack64_class:
  assumes "funpack64 f = (s, m, e, i, n)"
  shows "s = (if bit f 63 then neg64 else 0)" "n \<longleftrightarrow> f64_nan f"
    "i \<longleftrightarrow> f64_mag f = 2047 * 2 ^ 52" "\<not> n \<Longrightarrow> \<not> i \<Longrightarrow> m = 0 \<longleftrightarrow> f64_mag f = 0"
proof -
  let ?M = "f AND 0xFFFFFFFFFFFFF" and ?E = "f64_mag f div 2 ^ 52"
  have M: "?M = 0 \<longleftrightarrow> f64_mag f mod 2 ^ 52 = 0"
    by (metis f64_mantissa unat_eq_0)
  have split: "f64_mag f = ?E * 2 ^ 52 + f64_mag f mod 2 ^ 52" "f64_mag f mod 2 ^ 52 < 2 ^ 52"
    by simp_all
  have E: "?E \<le> 2047"
    using f64_mag_less [of f] less_mult_imp_div_less [of "f64_mag f" 2048 "2 ^ 52"] by simp
  have top: "?M OR top64 \<noteq> 0"
  proof
    assume "?M OR top64 = 0"
    moreover have "bit (?M OR top64) 52" by (simp add: bit_or_iff)
    ultimately show False by simp
  qed
  show "s = (if bit f 63 then neg64 else 0)"
    using assms by (auto simp: funpack64_def Let_def and_sign_bit split: if_splits prod.splits)
  have nan: "f64_nan f \<longleftrightarrow> ?E = 2047 \<and> f64_mag f mod 2 ^ 52 \<noteq> 0"
    and inf: "f64_mag f = 2047 * 2 ^ 52 \<longleftrightarrow> ?E = 2047 \<and> f64_mag f mod 2 ^ 52 = 0"
    using split_exponent [OF split E] by (simp_all only: f64_nan_def)
  show "n \<longleftrightarrow> f64_nan f" "i \<longleftrightarrow> f64_mag f = 2047 * 2 ^ 52"
    using assms unfolding nan inf
    by (auto simp: M funpack64_def Let_def f64_exponent split: if_splits prod.splits)
  show "\<not> n \<Longrightarrow> \<not> i \<Longrightarrow> m = 0 \<longleftrightarrow> f64_mag f = 0"
    using assms M split top norm_up_nonzero [of ?M "bias64 + 1"]
    by (auto simp: funpack64_def Let_def f64_exponent split: if_splits prod.splits)
qed

section \<open>Comparison is comparison of keys\<close>

lemma fcmp64_nan: "f64_nan f \<or> f64_nan g \<Longrightarrow> fcmp64 f g = (0, True)"
  using funpack64_class(2) [of f] funpack64_class(2) [of g]
  by (cases "funpack64 f"; cases "funpack64 g") (auto simp: fcmp64_def)

lemma fcmp64_key:
  assumes "\<not> f64_nan f" "\<not> f64_nan g"
  shows "fcmp64 f g = (sgn (f64_key f - f64_key g), False)"
proof -
  obtain fs fm fe fi fn where f: "funpack64 f = (fs, fm, fe, fi, fn)" by (metis prod_cases5)
  obtain gs gm ge gi gn where g: "funpack64 g = (gs, gm, ge, gi, gn)" by (metis prod_cases5)
  note cf = funpack64_class [OF f] and cg = funpack64_class [OF g]
  have zero: "\<not> fi \<and> \<not> gi \<and> fm = 0 \<and> gm = 0 \<longleftrightarrow> f64_mag f = 0 \<and> f64_mag g = 0"
    using cf cg assms by auto
  have nan: "\<not> (fn \<or> gn)" using cf cg assms by simp
  have less: "f < g \<longleftrightarrow> unat f < unat g" "f > g \<longleftrightarrow> unat f > unat g"
    by (simp_all add: word_less_nat_alt)
  show ?thesis
    using f64_mag_less [of f] f64_mag_less [of g]
    by (simp only: fcmp64_def f g prod.case Let_def nan zero if_False cf(1) cg(1) less unat_f64 [of f] unat_f64 [of g])
      (auto simp: f64_key_def sgn_if)
qed

lemma fgt64_iff: "fgt64 x y \<longleftrightarrow> \<not> f64_nan x \<and> \<not> f64_nan y \<and> f64_key y < f64_key x"
  by (cases "f64_nan x \<or> f64_nan y") (auto simp: fgt64_def fcmp64_nan fcmp64_key sgn_if)

lemma fge64_iff: "fge64 x y \<longleftrightarrow> \<not> f64_nan x \<and> \<not> f64_nan y \<and> f64_key y \<le> f64_key x"
  by (cases "f64_nan x \<or> f64_nan y") (auto simp: fge64_def fcmp64_nan fcmp64_key sgn_if)

lemma feq64_iff: "feq64 x y \<longleftrightarrow> \<not> f64_nan x \<and> \<not> f64_nan y \<and> f64_key x = f64_key y"
  by (cases "f64_nan x \<or> f64_nan y") (auto simp: feq64_def fcmp64_nan fcmp64_key sgn_if)

lemma f64_key_bounds: "- (2 ^ 63) < f64_key f" "f64_key f < 2 ^ 63"
  using f64_mag_less [of f] by (auto simp: f64_key_def)

end
