(* ===== verification/Models.thy ===== *)
theory Models
  imports Go_Float64_Order
begin

text \<open>
  The data model of the program (\<open>src/models.go\<close>): points, instances and solutions, with the
  methods of \<open>Instance\<close> and \<open>Solution\<close>. A pointer to a point that is never written after the
  parse is the point itself; a pointer to a solution is the solution, passed and returned.
\<close>

section \<open>Data\<close>

datatype NodeType = TypeHotel | TypeSite

text \<open>\<open>iota\<close> numbers the constants in the order of their declaration.\<close>

instantiation NodeType :: linorder
begin
fun less_eq_NodeType :: "NodeType \<Rightarrow> NodeType \<Rightarrow> bool" where
  "less_eq_NodeType TypeSite TypeHotel = False"
| "less_eq_NodeType _ _ = True"
definition less_NodeType :: "NodeType \<Rightarrow> NodeType \<Rightarrow> bool" where
  "less_NodeType x y = (x \<le> y \<and> x \<noteq> y)"
instance
proof
  fix x y z :: NodeType
  show "x < y \<longleftrightarrow> x \<le> y \<and> \<not> y \<le> x" by (cases x; cases y) (simp_all add: less_NodeType_def)
  show "x \<le> x" by (cases x) simp_all
  show "x \<le> y \<Longrightarrow> y \<le> z \<Longrightarrow> x \<le> z" by (cases x; cases y; cases z) simp_all
  show "x \<le> y \<Longrightarrow> y \<le> x \<Longrightarrow> x = y" by (cases x; cases y) simp_all
  show "x \<le> y \<or> y \<le> x" by (cases x; cases y) simp_all
qed
end

record Point =
  pID :: int
  pType :: NodeType
  pX :: f64
  pY :: f64
  pScore :: f64
  pOpenTime :: f64
  pCloseTime :: f64
  pServiceTime :: f64

record Instance =
  Name :: string
  NbDays :: int
  MaxDist :: f64
  MaxDistPerDay :: "f64 list"
  Points :: "Point list"
  HotelIDs :: "int list"
  SiteIDs :: "int list"
  DistMatrix :: "f64 list list"
  StartHotelID :: int
  EndHotelID :: int

record Step =
  PointID :: int
  Arrival :: f64
  Wait :: f64
  Departure :: f64
  DistFromPrev :: f64

record DayTour =
  Steps :: "Step list"
  DistTotal :: f64
  TimeTotal :: f64

record Solution =
  SolInstance :: Instance
  Days :: "DayTour list"
  TotalScore :: f64
  TotalDist :: f64

section \<open>Distances\<close>

definition Distance :: "Point \<Rightarrow> Point \<Rightarrow> f64" where
  "Distance p1 p2 =
     Sqrt (fadd64 (fmul64 (fsub64 (pX p1) (pX p2)) (fsub64 (pX p1) (pX p2)))
                  (fmul64 (fsub64 (pY p1) (pY p2)) (fsub64 (pY p1) (pY p2))))"

text \<open>\<open>inst.DistMatrix[i][j]\<close>, read and written.\<close>

definition dist_at :: "Instance \<Rightarrow> int \<Rightarrow> int \<Rightarrow> f64 option" where
  "dist_at inst i j = do { row \<leftarrow> go_nth (DistMatrix inst) i; go_nth row j }"

definition mat_set :: "f64 list list \<Rightarrow> int \<Rightarrow> int \<Rightarrow> f64 \<Rightarrow> f64 list list option" where
  "mat_set m i j v = do { row \<leftarrow> go_nth m i; row' \<leftarrow> go_set row j v; go_set m i row' }"

definition ComputeDistMatrix :: "Instance \<Rightarrow> Instance option" where
  "ComputeDistMatrix inst = do {
     let n = int (length (Points inst));
     m \<leftarrow> go_range (\<lambda>i m. do {
            m \<leftarrow> mat_set m i i 0;
            go_range (\<lambda>j m. do {
              p \<leftarrow> go_nth (Points inst) i;
              q \<leftarrow> go_nth (Points inst) j;
              let dist = Distance p q;
              m \<leftarrow> mat_set m i j dist;
              mat_set m j i dist }) [i + 1..n - 1] m })
          [0..n - 1] (DistMatrix inst);
     Some (inst\<lparr>DistMatrix := m\<rparr>) }"

definition DayMaxDist :: "Instance \<Rightarrow> int \<Rightarrow> f64 option" where
  "DayMaxDist inst dayIdx =
     (if dayIdx < int (length (MaxDistPerDay inst)) then go_nth (MaxDistPerDay inst) dayIdx
      else Some (MaxDist inst))"

section \<open>Copying a solution\<close>

text \<open>
  \<open>make\<close> gives zeroed slices, and the loop copies each day, with \<open>copy\<close> for the steps.
\<close>

definition zeroStep :: Step where
  "zeroStep = \<lparr>PointID = 0, Arrival = 0, Wait = 0, Departure = 0, DistFromPrev = 0\<rparr>"

definition go_copy :: "'a list \<Rightarrow> 'a list \<Rightarrow> 'a list" where
  "go_copy dst src = take (length dst) src @ drop (length src) dst"

definition Clone :: "Solution \<Rightarrow> Solution option" where
  "Clone s = do {
     let newDays = replicate (length (Days s)) \<lparr>Steps = [], DistTotal = 0, TimeTotal = 0\<rparr>;
     newDays \<leftarrow> go_range (\<lambda>(i, day) newDays.
         go_set newDays i
           \<lparr>Steps = go_copy (replicate (length (Steps day)) zeroStep) (Steps day),
            DistTotal = DistTotal day, TimeTotal = TimeTotal day\<rparr>)
       (go_enum (Days s)) newDays;
     Some \<lparr>SolInstance = SolInstance s, Days = newDays,
           TotalScore = TotalScore s, TotalDist = TotalDist s\<rparr> }"

end
