(* ===== verification/Day_Eval.thy ===== *)
theory Day_Eval
  imports Models
begin

text \<open>
  The evaluation of one day by the local search (\<open>evalDay\<close>, \<open>evalDayFast\<close> and
  \<open>extractDayPoints\<close> of \<open>src/optimizer.go\<close>).
\<close>

section \<open>Translation\<close>

text \<open>
  The visit of one point at time \<open>t\<close>: the wait and the time of departure, or \<open>None\<close> where the code
  returns \<open>false\<close> (the site has closed, or the day ends too late). A hotel takes no time.
\<close>

definition visit :: "Point \<Rightarrow> f64 \<Rightarrow> f64 \<Rightarrow> (f64 \<times> f64) option" where
  "visit pt maxDist t =
     (if pType pt = TypeSite then
        let wait = (if flt64 t (pOpenTime pt) then fsub64 (pOpenTime pt) t else 0);
            startVisit = fadd64 t wait;
            t' = fadd64 startVisit (pServiceTime pt)
        in if fgt64 startVisit (pCloseTime pt) then None
           else if fgt64 t' maxDist then None
           else Some (wait, t')
      else Some (0, t))"

text \<open>
  The drive to the point \<open>p\<close> from \<open>dayPoints[i-1]\<close>; \<open>None\<close> for \<open>i = 0\<close>, which drives nowhere. The
  result is the distance driven, the distance so far and the time.
\<close>

definition drive :: "Instance \<Rightarrow> int option \<Rightarrow> int \<Rightarrow> f64 \<Rightarrow> f64 \<Rightarrow> (f64 \<times> f64 \<times> f64) option" where
  "drive inst prev p dist t =
     (case prev of None \<Rightarrow> Some (0, dist, t)
      | Some q \<Rightarrow> do { d \<leftarrow> dist_at inst q p; Some (d, fadd64 dist d, fadd64 t d) })"

text \<open>
  The loop of \<open>evalDay\<close>: \<open>dist\<close> and \<open>t\<close> are its variables, the steps from here on are the result.
\<close>

fun evalDayLoop ::
  "Instance \<Rightarrow> f64 \<Rightarrow> int option \<Rightarrow> int list \<Rightarrow> f64 \<Rightarrow> f64 \<Rightarrow> (bool \<times> f64 \<times> Step list) option" where
  "evalDayLoop inst maxDist prev [] dist t = Some (True, dist, [])"
| "evalDayLoop inst maxDist prev (p # ps) dist t = do {
     pt \<leftarrow> go_nth (Points inst) p;
     (d, dist, t) \<leftarrow> drive inst prev p dist t;
     if prev \<noteq> None \<and> fgt64 t maxDist then Some (False, 0, [])
     else case visit pt maxDist t of None \<Rightarrow> Some (False, 0, [])
     | Some (wait, t') \<Rightarrow> do {
         (ok, len, steps) \<leftarrow> evalDayLoop inst maxDist (Some p) ps dist t';
         if ok then Some (True, len,
           \<lparr>PointID = p, Arrival = t, Wait = wait, Departure = t', DistFromPrev = d\<rparr> # steps)
         else Some (False, 0, []) } }"

definition evalDay :: "Instance \<Rightarrow> int \<Rightarrow> int list \<Rightarrow> (bool \<times> f64 \<times> Step list) option" where
  "evalDay inst dayIdx dayPoints = do {
     maxDist \<leftarrow> DayMaxDist inst dayIdx;
     evalDayLoop inst maxDist None dayPoints 0 0 }"

fun evalDayFastLoop ::
  "Instance \<Rightarrow> f64 \<Rightarrow> int option \<Rightarrow> int list \<Rightarrow> f64 \<Rightarrow> f64 \<Rightarrow> (bool \<times> f64) option" where
  "evalDayFastLoop inst maxDist prev [] dist t = Some (True, dist)"
| "evalDayFastLoop inst maxDist prev (p # ps) dist t = do {
     pt \<leftarrow> go_nth (Points inst) p;
     (_, dist, t) \<leftarrow> drive inst prev p dist t;
     if prev \<noteq> None \<and> fgt64 t maxDist then Some (False, 0)
     else case visit pt maxDist t of None \<Rightarrow> Some (False, 0)
     | Some (_, t') \<Rightarrow> evalDayFastLoop inst maxDist (Some p) ps dist t' }"

definition evalDayFast :: "Instance \<Rightarrow> int \<Rightarrow> int list \<Rightarrow> (bool \<times> f64) option" where
  "evalDayFast inst dayIdx dayPoints = do {
     maxDist \<leftarrow> DayMaxDist inst dayIdx;
     evalDayFastLoop inst maxDist None dayPoints 0 0 }"

text \<open>The buffer argument only saves an allocation: \<open>buf[:0]\<close> drops its contents.\<close>

definition extractDayPoints :: "DayTour \<Rightarrow> int list" where
  "extractDayPoints day = map PointID (Steps day)"

section \<open>The fast evaluation is the evaluation without the steps\<close>

text \<open>An infeasible day is reported as \<open>(false, 0, nil)\<close> at every return.\<close>

lemma evalDayLoop_False:
  "evalDayLoop inst maxDist prev ps dist t = Some (False, len, steps) \<Longrightarrow> len = 0 \<and> steps = []"
  by (cases ps) (auto simp: bind_eq_Some_conv split: option.splits prod.splits if_splits)

lemma evalDayFastLoop_eq:
  "evalDayFastLoop inst maxDist prev ps dist t =
     map_option (\<lambda>(ok, len, steps). (ok, len)) (evalDayLoop inst maxDist prev ps dist t)"
proof (induction ps arbitrary: prev dist t)
  case Nil
  then show ?case by simp
next
  case (Cons p ps)
  show ?case
    by (simp add: Cons.IH split: option.split prod.split Option.bind_split)
      (auto dest: evalDayLoop_False)
qed

lemma evalDayFast_eq:
  "evalDayFast inst dayIdx ps = map_option (\<lambda>(ok, len, steps). (ok, len)) (evalDay inst dayIdx ps)"
  by (simp add: evalDay_def evalDayFast_def evalDayFastLoop_eq split: Option.bind_split)

end
