(* ===== verification/Evaluator.thy ===== *)
theory Evaluator
  imports Models
begin

text \<open>
  \<open>src/evaluator.go\<close>: the score and the distance of a solution, summed over its steps.
\<close>

definition EvaluateScore :: "Solution \<Rightarrow> Solution option" where
  "EvaluateScore s = do {
     (totalScore, totalDist) \<leftarrow> go_range (\<lambda>day (totalScore, totalDist). do {
         (distDay, totalScore) \<leftarrow> go_range (\<lambda>step (distDay, totalScore). do {
             let distDay = fadd64 distDay (DistFromPrev step);
             p \<leftarrow> go_nth (Points (SolInstance s)) (PointID step);
             Some (distDay, if pType p = TypeSite then fadd64 totalScore (pScore p) else totalScore)
           }) (Steps day) (0, totalScore);
         Some (totalScore, fadd64 totalDist distDay) })
       (Days s) (0, 0);
     Some (s\<lparr>TotalScore := totalScore, TotalDist := totalDist\<rparr>) }"

end
