(* ===== verification/Validator.thy ===== *)
theory Validator
  imports Evaluator
begin

text \<open>
  \<open>src/validator.go\<close>: \<open>EvaluateSolution\<close> replays a solution day by day, rewrites the times of its
  steps and reports the first rule it breaks. The solution is written in place, so the model
  returns it beside the verdict, also when the verdict is an error.
\<close>

section \<open>The verdicts\<close>

text \<open>One constructor per \<open>fmt.Errorf\<close>, with the values it prints.\<close>

datatype valid_error =
    StartNotHotel int int
  | BadStart int int
  | SiteRevisited int int
  | LateArrival int int f64 f64
  | EndNotHotel int int
  | BadEnd int int
  | OverBudget int f64 f64

section \<open>One day\<close>

text \<open>
  The loop over the steps after the first one. The arguments after \<open>dayIdx\<close> are the previous
  step, \<open>currentDayDist\<close>, \<open>currentDayTime\<close>, \<open>visitedSites\<close> and \<open>totalScore\<close>; the result holds
  the rewritten steps and either the error of an early return or the state after the loop.
\<close>

fun EvaluateSteps ::
  "Instance \<Rightarrow> int \<Rightarrow> Step \<Rightarrow> Step list \<Rightarrow> f64 \<Rightarrow> f64 \<Rightarrow> int set \<Rightarrow> f64 \<Rightarrow>
   (Step list \<times> (valid_error + f64 \<times> f64 \<times> int set \<times> f64)) option" where
  "EvaluateSteps inst dayIdx prevStep [] dayDist dayTime visited score =
     Some ([], Inr (dayDist, dayTime, visited, score))"
| "EvaluateSteps inst dayIdx prevStep (currStep # rest) dayDist dayTime visited score = do {
     currPt \<leftarrow> go_nth (Points inst) (PointID currStep);
     prevPt \<leftarrow> go_nth (Points inst) (PointID prevStep);
     dist \<leftarrow> dist_at inst (pID prevPt) (pID currPt);
     let dayDist = fadd64 dayDist dist;
     let dayTime = fadd64 dayTime dist;
     let currStep = currStep\<lparr>DistFromPrev := dist, Arrival := dayTime\<rparr>;
     if pType currPt = TypeSite then
       if pID currPt \<in> visited then Some (currStep # rest, Inl (SiteRevisited (dayIdx + 1) (pID currPt)))
       else do {
         let wait = (if flt64 (Arrival currStep) (pOpenTime currPt)
                     then fsub64 (pOpenTime currPt) (Arrival currStep) else 0);
         let currStep = currStep\<lparr>Wait := wait\<rparr>;
         let startVisit = fadd64 (Arrival currStep) wait;
         if fgt64 startVisit (pCloseTime currPt)
         then Some (currStep # rest, Inl (LateArrival (dayIdx + 1) (pID currPt) startVisit (pCloseTime currPt)))
         else do {
           let visited = insert (pID currPt) visited;
           let score = fadd64 score (pScore currPt);
           let dayTime = fadd64 startVisit (pServiceTime currPt);
           let currStep = currStep\<lparr>Departure := dayTime\<rparr>;
           (rest', r) \<leftarrow> EvaluateSteps inst dayIdx currStep rest dayDist dayTime visited score;
           Some (currStep # rest', r) } }
     else do {
       let currStep = currStep\<lparr>Wait := 0, Departure := dayTime\<rparr>;
       (rest', r) \<leftarrow> EvaluateSteps inst dayIdx currStep rest dayDist dayTime visited score;
       Some (currStep # rest', r) } }"

text \<open>
  One iteration of the loop over the days: the day as it is left in the solution, and the error
  of an early return or the visited sites, the score and the distance of the day.
\<close>

definition EvaluateDay ::
  "Instance \<Rightarrow> int \<Rightarrow> DayTour \<Rightarrow> int set \<Rightarrow> f64 \<Rightarrow> f64 \<Rightarrow>
   (DayTour \<times> (valid_error + int set \<times> f64 \<times> f64)) option" where
  "EvaluateDay inst dayIdx day visited score distGlobal =
     (case Steps day of
        [] \<Rightarrow> Some (day, Inr (visited, score, distGlobal))
      | firstStep # rest \<Rightarrow> do {
          firstPt \<leftarrow> go_nth (Points inst) (PointID firstStep);
          if pType firstPt \<noteq> TypeHotel then Some (day, Inl (StartNotHotel (dayIdx + 1) (pID firstPt)))
          else if dayIdx = 0 \<and> pID firstPt \<noteq> StartHotelID inst
          then Some (day, Inl (BadStart (StartHotelID inst) (pID firstPt)))
          else do {
            let firstStep = firstStep\<lparr>Arrival := 0, Wait := 0, Departure := 0, DistFromPrev := 0\<rparr>;
            (rest', r) \<leftarrow> EvaluateSteps inst dayIdx firstStep rest 0 0 visited score;
            let day = day\<lparr>Steps := firstStep # rest'\<rparr>;
            case r of Inl e \<Rightarrow> Some (day, Inl e)
            | Inr (dayDist, dayTime, visited, score) \<Rightarrow> do {
                lastPt \<leftarrow> go_nth (Points inst) (PointID (last (Steps day)));
                if pType lastPt \<noteq> TypeHotel then Some (day, Inl (EndNotHotel (dayIdx + 1) (pID lastPt)))
                else if dayIdx = NbDays inst - 1 \<and> pID lastPt \<noteq> EndHotelID inst
                then Some (day, Inl (BadEnd (EndHotelID inst) (pID lastPt)))
                else do {
                  budgetMax \<leftarrow> DayMaxDist inst dayIdx;
                  if fgt64 dayTime budgetMax then Some (day, Inl (OverBudget (dayIdx + 1) dayTime budgetMax))
                  else Some (day\<lparr>DistTotal := dayDist, TimeTotal := dayTime\<rparr>,
                             Inr (visited, score, fadd64 distGlobal dayDist)) } } } })"

section \<open>The whole solution\<close>

fun EvaluateDays ::
  "Instance \<Rightarrow> int \<Rightarrow> DayTour list \<Rightarrow> int set \<Rightarrow> f64 \<Rightarrow> f64 \<Rightarrow>
   (DayTour list \<times> (valid_error + f64 \<times> f64)) option" where
  "EvaluateDays inst dayIdx [] visited score distGlobal = Some ([], Inr (score, distGlobal))"
| "EvaluateDays inst dayIdx (day # days) visited score distGlobal = do {
     (day', r) \<leftarrow> EvaluateDay inst dayIdx day visited score distGlobal;
     case r of Inl e \<Rightarrow> Some (day' # days, Inl e)
     | Inr (visited, score, distGlobal) \<Rightarrow> do {
         (days', r) \<leftarrow> EvaluateDays inst (dayIdx + 1) days visited score distGlobal;
         Some (day' # days', r) } }"

definition EvaluateSolution :: "Solution \<Rightarrow> (Solution \<times> valid_error option) option" where
  "EvaluateSolution sol = do {
     (days, r) \<leftarrow> EvaluateDays (SolInstance sol) 0 (Days sol) {} 0 0;
     let sol = sol\<lparr>Days := days\<rparr>;
     case r of Inl e \<Rightarrow> Some (sol, Some e)
     | Inr (score, dist) \<Rightarrow> Some (sol\<lparr>TotalScore := score, TotalDist := dist\<rparr>, None) }"

end
