(* ===== verification/Tour_Spec.thy ===== *)
theory Tour_Spec
  imports Day_Eval Validator
begin

text \<open>
  What a tour promises, stated once: the timetable of a route and the rules of a valid tour, as
  total functions on lists of point identifiers, for an instance as the parser builds it. The
  evaluation of the local search and the validator are proved to compute them.
\<close>

section \<open>Well-formed instances\<close>

definition in_range :: "Instance \<Rightarrow> int \<Rightarrow> bool" where
  "in_range inst p \<longleftrightarrow> 0 \<le> p \<and> p < int (length (Points inst))"

abbreviation pt :: "Instance \<Rightarrow> int \<Rightarrow> Point" where "pt inst p \<equiv> Points inst ! nat p"

abbreviation D :: "Instance \<Rightarrow> int \<Rightarrow> int \<Rightarrow> f64" where "D inst p q \<equiv> DistMatrix inst ! nat p ! nat q"

definition hotel :: "Instance \<Rightarrow> int \<Rightarrow> bool" where
  "hotel inst p \<longleftrightarrow> in_range inst p \<and> pType (pt inst p) = TypeHotel"

definition site :: "Instance \<Rightarrow> int \<Rightarrow> bool" where
  "site inst p \<longleftrightarrow> in_range inst p \<and> pType (pt inst p) = TypeSite"

definition wf_inst :: "Instance \<Rightarrow> bool" where
  "wf_inst inst \<longleftrightarrow>
     (\<forall>i < length (Points inst). pID (Points inst ! i) = int i) \<and>
     length (DistMatrix inst) = length (Points inst) \<and>
     (\<forall>row \<in> set (DistMatrix inst). length row = length (Points inst)) \<and>
     set (HotelIDs inst) = {p. hotel inst p} \<and>
     set (SiteIDs inst) = {p. site inst p} \<and> distinct (SiteIDs inst) \<and>
     in_range inst (StartHotelID inst) \<and> in_range inst (EndHotelID inst)"

lemma hotel_in_range [dest]: "hotel inst p \<Longrightarrow> in_range inst p"
  by (simp add: hotel_def)

lemma site_in_range [dest]: "site inst p \<Longrightarrow> in_range inst p"
  by (simp add: site_def)

lemma not_hotel_site: "in_range inst p \<Longrightarrow> \<not> hotel inst p \<longleftrightarrow> site inst p"
  by (cases "pType (pt inst p)") (simp_all add: hotel_def site_def)

lemma site_not_hotel [simp]: "site inst p \<Longrightarrow> \<not> hotel inst p"
  by (simp add: hotel_def site_def)

lemma go_nth_Points [simp]: "in_range inst p \<Longrightarrow> go_nth (Points inst) p = Some (pt inst p)"
  by (simp add: in_range_def)

lemma go_nth_Points_None: "\<not> in_range inst p \<Longrightarrow> go_nth (Points inst) p = None"
  by (simp add: in_range_def go_nth_def)

lemma dist_at_D [simp]:
  assumes "wf_inst inst" "in_range inst p" "in_range inst q"
  shows "dist_at inst p q = Some (D inst p q)"
proof -
  have p: "nat p < length (DistMatrix inst)" and q: "nat q < length (Points inst)"
    using assms by (auto simp: wf_inst_def in_range_def)
  have "length (DistMatrix inst ! nat p) = length (Points inst)"
    using assms(1) p by (simp add: wf_inst_def)
  then show ?thesis using p q assms by (simp add: dist_at_def in_range_def)
qed

lemma pID_pt [simp]: "wf_inst inst \<Longrightarrow> in_range inst p \<Longrightarrow> pID (pt inst p) = p"
  by (auto simp: wf_inst_def in_range_def)

text \<open>The budget of a day, where the day has an index.\<close>

definition budget :: "Instance \<Rightarrow> int \<Rightarrow> f64" where
  "budget inst d =
     (if d < int (length (MaxDistPerDay inst)) then MaxDistPerDay inst ! nat d else MaxDist inst)"

lemma DayMaxDist_budget [simp]: "0 \<le> d \<Longrightarrow> DayMaxDist inst d = Some (budget inst d)"
  by (simp add: DayMaxDist_def budget_def)

section \<open>Flags\<close>

text \<open>The flags of \<open>visited\<close> are a set of points.\<close>

definition marks :: "Instance \<Rightarrow> bool list \<Rightarrow> int set \<Rightarrow> bool" where
  "marks inst visited V \<longleftrightarrow>
     length visited = length (Points inst) \<and> (\<forall>i < length visited. visited ! i \<longleftrightarrow> int i \<in> V)"

lemma marks_nth: "marks inst visited V \<Longrightarrow> in_range inst i \<Longrightarrow> visited ! nat i \<longleftrightarrow> i \<in> V"
  by (auto simp: marks_def in_range_def)

lemma marks_set:
  assumes "marks inst visited V" "in_range inst i"
  shows "go_set visited i True = Some (visited[nat i := True]) \<and> marks inst (visited[nat i := True]) (insert i V)"
proof -
  have "int j \<in> insert i V \<longleftrightarrow> visited[nat i := True] ! j" if "j < length visited" for j
    using assms that by (cases "j = nat i") (auto simp: marks_def in_range_def)
  then show ?thesis using assms by (simp add: marks_def in_range_def)
qed

section \<open>Timetables\<close>

text \<open>
  At a point reached at time \<open>t\<close>: the wait for the opening, the start of the visit and the departure.
\<close>

definition wait_at :: "Instance \<Rightarrow> int \<Rightarrow> f64 \<Rightarrow> f64" where
  "wait_at inst p t =
     (if pType (pt inst p) = TypeSite \<and> flt64 t (pOpenTime (pt inst p))
      then fsub64 (pOpenTime (pt inst p)) t else 0)"

definition start_at :: "Instance \<Rightarrow> int \<Rightarrow> f64 \<Rightarrow> f64" where
  "start_at inst p t = fadd64 t (wait_at inst p t)"

definition leave_at :: "Instance \<Rightarrow> int \<Rightarrow> f64 \<Rightarrow> f64" where
  "leave_at inst p t =
     (if pType (pt inst p) = TypeSite then fadd64 (start_at inst p t) (pServiceTime (pt inst p)) else t)"

definition open_at :: "Instance \<Rightarrow> int \<Rightarrow> f64 \<Rightarrow> bool" where
  "open_at inst p t \<longleftrightarrow>
     (pType (pt inst p) = TypeSite \<longrightarrow> \<not> fgt64 (start_at inst p t) (pCloseTime (pt inst p)))"

text \<open>
  For the rest \<open>qs\<close> of a route that has left \<open>p\<close> at time \<open>t\<close>: the time at its end, its length, its
  steps, whether every site is reached before it closes, and whether no arrival or departure is
  later than the budget.
\<close>

fun route_time :: "Instance \<Rightarrow> f64 \<Rightarrow> int \<Rightarrow> int list \<Rightarrow> f64" where
  "route_time inst t p [] = t"
| "route_time inst t p (q # qs) = route_time inst (leave_at inst q (fadd64 t (D inst p q))) q qs"

fun route_dist :: "Instance \<Rightarrow> f64 \<Rightarrow> int \<Rightarrow> int list \<Rightarrow> f64" where
  "route_dist inst d p [] = d"
| "route_dist inst d p (q # qs) = route_dist inst (fadd64 d (D inst p q)) q qs"

fun route_steps :: "Instance \<Rightarrow> f64 \<Rightarrow> int \<Rightarrow> int list \<Rightarrow> Step list" where
  "route_steps inst t p [] = []"
| "route_steps inst t p (q # qs) =
     (let a = fadd64 t (D inst p q); l = leave_at inst q a
      in \<lparr>PointID = q, Arrival = a, Wait = wait_at inst q a, Departure = l, DistFromPrev = D inst p q\<rparr>
         # route_steps inst l q qs)"

fun on_time :: "Instance \<Rightarrow> f64 \<Rightarrow> int \<Rightarrow> int list \<Rightarrow> bool" where
  "on_time inst t p [] = True"
| "on_time inst t p (q # qs) =
     (open_at inst q (fadd64 t (D inst p q)) \<and>
      on_time inst (leave_at inst q (fadd64 t (D inst p q))) q qs)"

fun within :: "Instance \<Rightarrow> f64 \<Rightarrow> f64 \<Rightarrow> int \<Rightarrow> int list \<Rightarrow> bool" where
  "within inst b t p [] = True"
| "within inst b t p (q # qs) =
     (let a = fadd64 t (D inst p q); l = leave_at inst q a
      in \<not> fgt64 a b \<and> \<not> fgt64 l b \<and> within inst b l q qs)"

definition first_step :: "int \<Rightarrow> Step" where
  "first_step p = \<lparr>PointID = p, Arrival = 0, Wait = 0, Departure = 0, DistFromPrev = 0\<rparr>"

text \<open>The whole day of a route that starts at a hotel.\<close>

definition plan :: "Instance \<Rightarrow> int list \<Rightarrow> Step list" where
  "plan inst ps = (case ps of [] \<Rightarrow> [] | p # qs \<Rightarrow> first_step p # route_steps inst 0 p qs)"

definition feasible :: "Instance \<Rightarrow> f64 \<Rightarrow> int list \<Rightarrow> bool" where
  "feasible inst b ps =
     (case ps of [] \<Rightarrow> True | p # qs \<Rightarrow> on_time inst 0 p qs \<and> within inst b 0 p qs)"

definition length_of :: "Instance \<Rightarrow> int list \<Rightarrow> f64" where
  "length_of inst ps = (case ps of [] \<Rightarrow> 0 | p # qs \<Rightarrow> route_dist inst 0 p qs)"

definition time_of :: "Instance \<Rightarrow> int list \<Rightarrow> f64" where
  "time_of inst ps = (case ps of [] \<Rightarrow> 0 | p # qs \<Rightarrow> route_time inst 0 p qs)"

lemma PointID_route_steps [simp]: "map PointID (route_steps inst t p qs) = qs"
  by (induction qs arbitrary: t p) (simp_all add: Let_def)

lemma PointID_plan [simp]: "map PointID (plan inst ps) = ps"
  by (cases ps) (simp_all add: plan_def first_step_def)

lemma plan_eq_Nil [simp]: "plan inst ps = [] \<longleftrightarrow> ps = []"
  by (cases ps) (simp_all add: plan_def)

lemma length_plan [simp]: "length (plan inst ps) = length ps"
  by (metis PointID_plan length_map)

text \<open>The budget is only checked at the end of the day by the validator; the end is one of the times.\<close>

lemma within_route_time: "within inst b t p qs \<Longrightarrow> qs \<noteq> [] \<Longrightarrow> \<not> fgt64 (route_time inst t p qs) b"
proof (induction qs arbitrary: t p)
  case Nil
  then show ?case by simp
next
  case (Cons q qs)
  then show ?case by (cases qs) (simp_all add: Let_def)
qed

lemma route_time_append [simp]:
  "route_time inst t p (qs @ rs) = route_time inst (route_time inst t p qs) (last (p # qs)) rs"
  by (induction qs arbitrary: t p) simp_all

lemma route_dist_append [simp]:
  "route_dist inst d p (qs @ rs) = route_dist inst (route_dist inst d p qs) (last (p # qs)) rs"
  by (induction qs arbitrary: d p) simp_all

lemma route_steps_append [simp]:
  "route_steps inst t p (qs @ rs) =
     route_steps inst t p qs @ route_steps inst (route_time inst t p qs) (last (p # qs)) rs"
  by (induction qs arbitrary: t p) (simp_all add: Let_def)

lemma on_time_append [simp]:
  "on_time inst t p (qs @ rs) \<longleftrightarrow>
     on_time inst t p qs \<and> on_time inst (route_time inst t p qs) (last (p # qs)) rs"
  by (induction qs arbitrary: t p) simp_all

lemma within_append [simp]:
  "within inst b t p (qs @ rs) \<longleftrightarrow>
     within inst b t p qs \<and> within inst b (route_time inst t p qs) (last (p # qs)) rs"
  by (induction qs arbitrary: t p) (simp_all add: Let_def)

text \<open>The last step of a timetable.\<close>

lemma last_route_steps:
  "qs \<noteq> [] \<Longrightarrow> PointID (last (route_steps inst t p qs)) = last qs \<and>
     Departure (last (route_steps inst t p qs)) = route_time inst t p qs"
proof (induction qs arbitrary: t p)
  case (Cons q qs)
  then show ?case by (cases qs) (simp_all add: Let_def)
qed simp

lemma last_plan:
  "PointID (last (first_step p # route_steps inst 0 p qs)) = last (p # qs)"
  "Departure (last (first_step p # route_steps inst 0 p qs)) = route_time inst 0 p qs"
proof -
  have ne: "route_steps inst 0 p qs \<noteq> []" if "qs \<noteq> []"
    using that PointID_route_steps [of inst 0 p qs] by force
  show "PointID (last (first_step p # route_steps inst 0 p qs)) = last (p # qs)"
    "Departure (last (first_step p # route_steps inst 0 p qs)) = route_time inst 0 p qs"
    using last_route_steps [of qs inst 0 p] ne by (cases "qs = []"; simp add: first_step_def)+
qed

section \<open>The local search computes the timetable\<close>

lemma visit_spec:
  "visit (pt inst p) b t =
     (if open_at inst p t \<and> (pType (pt inst p) = TypeSite \<longrightarrow> \<not> fgt64 (leave_at inst p t) b)
      then Some (wait_at inst p t, leave_at inst p t) else None)"
  by (auto simp: visit_def open_at_def leave_at_def start_at_def wait_at_def Let_def)

lemma evalDayLoop_spec:
  assumes "wf_inst inst" "in_range inst p" "\<forall>q \<in> set qs. in_range inst q"
  shows "evalDayLoop inst b (Some p) qs d t =
    Some (if on_time inst t p qs \<and> within inst b t p qs
          then (True, route_dist inst d p qs, route_steps inst t p qs) else (False, 0, []))"
  using assms
proof (induction qs arbitrary: p d t)
  case Nil
  then show ?case by simp
next
  case (Cons q qs)
  let ?a = "fadd64 t (D inst p q)"
  have "leave_at inst q ?a = ?a" if "pType (pt inst q) \<noteq> TypeSite"
    using that by (simp add: leave_at_def)
  with Cons show ?case by (auto simp: drive_def visit_spec Let_def)
qed

theorem evalDay_spec:
  assumes "wf_inst inst" "hotel inst p" "\<forall>q \<in> set qs. in_range inst q" "0 \<le> d"
  shows "evalDay inst d (p # qs) =
    Some (if feasible inst (budget inst d) (p # qs) then (True, length_of inst (p # qs), plan inst (p # qs))
          else (False, 0, []))"
  using assms evalDayLoop_spec [of inst p qs "budget inst d" 0 0]
  by (auto simp: evalDay_def drive_def visit_spec open_at_def leave_at_def wait_at_def feasible_def
      length_of_def plan_def first_step_def hotel_def)

lemma evalDayFast_spec:
  assumes "wf_inst inst" "hotel inst p" "\<forall>q \<in> set qs. in_range inst q" "0 \<le> d"
  shows "evalDayFast inst d (p # qs) =
    Some (if feasible inst (budget inst d) (p # qs) then (True, length_of inst (p # qs)) else (False, 0))"
  using evalDay_spec [OF assms] by (simp add: evalDayFast_eq)

end
