(* ===== verification/Validator_Spec.thy ===== *)
theory Validator_Spec
  imports Tour_Spec
begin

text \<open>
  The rules of a valid tour, stated without the validator's loops, and the proof that
  \<open>EvaluateSolution\<close> accepts exactly the tours that keep them, that it never panics on point
  identifiers of the instance, and what it writes into the solution.
\<close>

section \<open>Rules\<close>

definition sites :: "Instance \<Rightarrow> int list \<Rightarrow> int list" where
  "sites inst ps = filter (site inst) ps"

definition route :: "DayTour \<Rightarrow> int list" where
  "route day = map PointID (Steps day)"

definition routes :: "Solution \<Rightarrow> int list list" where
  "routes sol = map route (Days sol)"

definition day_rules :: "Instance \<Rightarrow> int \<Rightarrow> int list \<Rightarrow> bool" where
  "day_rules inst d ps \<longleftrightarrow> ps = [] \<or>
     (hotel inst (hd ps) \<and> (d = 0 \<longrightarrow> hd ps = StartHotelID inst) \<and>
      hotel inst (last ps) \<and> (d = NbDays inst - 1 \<longrightarrow> last ps = EndHotelID inst) \<and>
      on_time inst 0 (hd ps) (tl ps) \<and> \<not> fgt64 (time_of inst ps) (budget inst d))"

fun days_rules :: "Instance \<Rightarrow> int \<Rightarrow> int list list \<Rightarrow> bool" where
  "days_rules inst d [] = True"
| "days_rules inst d (ps # rs) = (day_rules inst d ps \<and> days_rules inst (d + 1) rs)"

definition valid_routes :: "Instance \<Rightarrow> int list list \<Rightarrow> bool" where
  "valid_routes inst rs \<longleftrightarrow> days_rules inst 0 rs \<and> distinct (sites inst (concat rs))"

text \<open>The score in the order in which the sites are visited.\<close>

definition add_score :: "Instance \<Rightarrow> int \<Rightarrow> f64 \<Rightarrow> f64" where
  "add_score inst p s = (if site inst p then fadd64 s (pScore (pt inst p)) else s)"

definition score_from :: "Instance \<Rightarrow> f64 \<Rightarrow> int list \<Rightarrow> f64" where
  "score_from inst s ps = fold (add_score inst) ps s"

definition sum_lengths :: "Instance \<Rightarrow> f64 \<Rightarrow> int list list \<Rightarrow> f64" where
  "sum_lengths inst d rs = fold (\<lambda>ps d. if ps = [] then d else fadd64 d (length_of inst ps)) rs d"

text \<open>A day with its timetable written out; an empty day is skipped.\<close>

definition replan :: "Instance \<Rightarrow> DayTour \<Rightarrow> DayTour" where
  "replan inst day =
     (if Steps day = [] then day
      else day\<lparr>Steps := plan inst (route day), DistTotal := length_of inst (route day),
               TimeTotal := time_of inst (route day)\<rparr>)"

lemma sites_Nil [simp]: "sites inst [] = []" by (simp add: sites_def)

lemma sites_Cons [simp]: "sites inst (p # ps) = (if site inst p then p # sites inst ps else sites inst ps)"
  by (simp add: sites_def)

lemma sites_append [simp]: "sites inst (ps @ qs) = sites inst ps @ sites inst qs"
  by (simp add: sites_def)

lemma set_sites: "set (sites inst ps) = {p \<in> set ps. site inst p}"
  by (auto simp: sites_def)

lemma score_from_simps [simp]:
  "score_from inst s [] = s"
  "score_from inst s (p # ps) = score_from inst (add_score inst p s) ps"
  "score_from inst s (ps @ qs) = score_from inst (score_from inst s ps) qs"
  by (simp_all add: score_from_def)

lemma add_score_hotel [simp]: "hotel inst p \<Longrightarrow> add_score inst p s = s"
  by (auto simp: add_score_def)

section \<open>The loops of the validator\<close>

text \<open>One iteration, in the terms of the timetable.\<close>

lemma EvaluateSteps_site:
  assumes "wf_inst inst" "in_range inst (PointID st)" "site inst (PointID c)"
  shows "EvaluateSteps inst d st (c # steps) dist t V s =
    (let q = PointID c; a = fadd64 t (D inst (PointID st) q) in
     if q \<in> V then Some (c\<lparr>DistFromPrev := D inst (PointID st) q, Arrival := a\<rparr> # steps,
       Inl (SiteRevisited (d + 1) q))
     else if fgt64 (start_at inst q a) (pCloseTime (pt inst q))
     then Some (c\<lparr>DistFromPrev := D inst (PointID st) q, Arrival := a, Wait := wait_at inst q a\<rparr> # steps,
       Inl (LateArrival (d + 1) q (start_at inst q a) (pCloseTime (pt inst q))))
     else do {
       let c' = c\<lparr>DistFromPrev := D inst (PointID st) q, Arrival := a, Wait := wait_at inst q a,
         Departure := leave_at inst q a\<rparr>;
       (rest', r) \<leftarrow> EvaluateSteps inst d c' steps (fadd64 dist (D inst (PointID st) q))
         (leave_at inst q a) (insert q V) (fadd64 s (pScore (pt inst q)));
       Some (c' # rest', r) })"
proof -
  have "in_range inst (PointID c)" "pType (pt inst (PointID c)) = TypeSite"
    using assms(3) by (simp_all add: site_def)
  then show ?thesis
    using assms
    by (cases "flt64 (fadd64 t (D inst (PointID st) (PointID c))) (pOpenTime (pt inst (PointID c)))")
      (simp_all add: Let_def leave_at_def start_at_def wait_at_def)
qed

lemma EvaluateSteps_hotel:
  assumes "wf_inst inst" "in_range inst (PointID st)" "hotel inst (PointID c)"
  shows "EvaluateSteps inst d st (c # steps) dist t V s = do {
       let q = PointID c;
       let a = fadd64 t (D inst (PointID st) q);
       let c' = c\<lparr>DistFromPrev := D inst (PointID st) q, Arrival := a, Wait := 0, Departure := a\<rparr>;
       (rest', r) \<leftarrow> EvaluateSteps inst d c' steps (fadd64 dist (D inst (PointID st) q)) a V s;
       Some (c' # rest', r) }"
  using assms by (simp add: Let_def hotel_def)

declare EvaluateSteps.simps(2) [simp del]

lemma hotel_times [simp]:
  "hotel inst q \<Longrightarrow> wait_at inst q a = 0" "hotel inst q \<Longrightarrow> leave_at inst q a = a"
  "hotel inst q \<Longrightarrow> open_at inst q a"
  by (simp_all add: wait_at_def leave_at_def open_at_def hotel_def)

lemma open_at_site: "site inst q \<Longrightarrow> open_at inst q a \<longleftrightarrow> \<not> fgt64 (start_at inst q a) (pCloseTime (pt inst q))"
  by (simp add: open_at_def site_def)

lemma hotel_or_site: "in_range inst q \<Longrightarrow> (hotel inst q \<and> \<not> site inst q) \<or> (site inst q \<and> \<not> hotel inst q)"
  by (cases "pType (pt inst q)") (simp_all add: hotel_def site_def)

lemma EvaluateSteps_ok:
  assumes "wf_inst inst" "in_range inst (PointID st)" "\<forall>s \<in> set steps. in_range inst (PointID s)"
    and "on_time inst t (PointID st) (map PointID steps)"
    and "distinct (sites inst (map PointID steps))" "set (sites inst (map PointID steps)) \<inter> V = {}"
  shows "EvaluateSteps inst d st steps dist t V s =
    Some (route_steps inst t (PointID st) (map PointID steps),
      Inr (route_dist inst dist (PointID st) (map PointID steps),
           route_time inst t (PointID st) (map PointID steps),
           V \<union> set (sites inst (map PointID steps)), score_from inst s (map PointID steps)))"
  using assms
proof (induction steps arbitrary: st dist t V s)
  case Nil
  then show ?case by simp
next
  case (Cons c steps)
  have q: "in_range inst (PointID c)" using Cons.prems by simp
  from hotel_or_site [OF q] show ?case
  proof
    assume h: "hotel inst (PointID c) \<and> \<not> site inst (PointID c)"
    then show ?thesis
      using Cons q by (simp add: EvaluateSteps_hotel Let_def)
  next
    assume h: "site inst (PointID c) \<and> \<not> hotel inst (PointID c)"
    then show ?thesis
      using Cons q by (simp add: EvaluateSteps_site open_at_site Let_def add_score_def)
  qed
qed

lemma EvaluateSteps_err:
  assumes "wf_inst inst" "in_range inst (PointID st)" "\<forall>s \<in> set steps. in_range inst (PointID s)"
    and "\<not> (on_time inst t (PointID st) (map PointID steps) \<and>
      distinct (sites inst (map PointID steps)) \<and> set (sites inst (map PointID steps)) \<inter> V = {})"
  shows "\<exists>steps' e. EvaluateSteps inst d st steps dist t V s = Some (steps', Inl e) \<and>
    map PointID steps' = map PointID steps"
  using assms
proof (induction steps arbitrary: st dist t V s)
  case Nil
  then show ?case by simp
next
  case (Cons c steps)
  let ?q = "PointID c" and ?a = "fadd64 t (D inst (PointID st) (PointID c))"
  let ?c = "c\<lparr>DistFromPrev := D inst (PointID st) ?q, Arrival := ?a,
    Wait := wait_at inst ?q ?a, Departure := leave_at inst ?q ?a\<rparr>"
  have q: "in_range inst ?q" using Cons.prems by simp
  from hotel_or_site [OF q] show ?case
  proof
    assume h: "hotel inst ?q \<and> \<not> site inst ?q"
    then have "\<exists>steps' e. EvaluateSteps inst d ?c steps (fadd64 dist (D inst (PointID st) ?q)) ?a V s =
        Some (steps', Inl e) \<and> map PointID steps' = map PointID steps"
      using Cons.prems q by (intro Cons.IH) auto
    then show ?thesis
      using Cons.prems h q by (auto simp: EvaluateSteps_hotel Let_def)
  next
    assume h: "site inst ?q \<and> \<not> hotel inst ?q"
    show ?thesis
    proof (cases "?q \<in> V \<or> fgt64 (start_at inst ?q ?a) (pCloseTime (pt inst ?q))")
      case True
      then show ?thesis
        using Cons.prems h by (auto simp: EvaluateSteps_site Let_def)
    next
      case False
      then have "\<exists>steps' e. EvaluateSteps inst d ?c steps (fadd64 dist (D inst (PointID st) ?q))
          (leave_at inst ?q ?a) (insert ?q V) (fadd64 s (pScore (pt inst ?q))) =
          Some (steps', Inl e) \<and> map PointID steps' = map PointID steps"
        using Cons.prems q h by (intro Cons.IH) (auto simp: open_at_site)
      then show ?thesis
        using Cons.prems h q False by (auto simp: EvaluateSteps_site Let_def)
    qed
  qed
qed

lemma last_route: "Steps day \<noteq> [] \<Longrightarrow> PointID (last (Steps day)) = last (route day)"
  by (simp add: route_def last_map)

text \<open>A day whose first step is right and whose steps were all accepted: the checks at its end.\<close>

lemma EvaluateDay_end:
  assumes "wf_inst inst" "0 \<le> d" "Steps day = c # steps"
    and "hotel inst (PointID c)" "d = 0 \<longrightarrow> PointID c = StartHotelID inst"
    and "EvaluateSteps inst d (first_step (PointID c)) steps 0 0 V s = Some (rest, Inr (dist, t, V', s'))"
    and "map PointID rest = map PointID steps" "in_range inst (last (route day))"
  shows "EvaluateDay inst d day V s g =
    (let l = last (route day); day = day\<lparr>Steps := first_step (PointID c) # rest\<rparr> in
     if \<not> hotel inst l then Some (day, Inl (EndNotHotel (d + 1) l))
     else if d = NbDays inst - 1 \<and> l \<noteq> EndHotelID inst then Some (day, Inl (BadEnd (EndHotelID inst) l))
     else if fgt64 t (budget inst d) then Some (day, Inl (OverBudget (d + 1) t (budget inst d)))
     else Some (day\<lparr>DistTotal := dist, TimeTotal := t\<rparr>, Inr (V', s', fadd64 g dist)))"
proof -
  have first: "c\<lparr>Arrival := 0, Wait := 0, Departure := 0, DistFromPrev := 0\<rparr> = first_step (PointID c)"
    by (simp add: first_step_def)
  have "PointID (last (first_step (PointID c) # rest)) = last (map PointID (first_step (PointID c) # rest))"
    by (rule last_map [symmetric]) simp
  also have "map PointID (first_step (PointID c) # rest) = route day"
    using assms(3,7) by (simp add: route_def first_step_def)
  finally have l: "PointID (last (first_step (PointID c) # rest)) = last (route day)" .
  have start: "(d = 0 \<and> PointID c \<noteq> StartHotelID inst) = False" using assms(5) by blast
  show ?thesis
    using assms(1-4,6-8) l
    by (simp add: EvaluateDay_def first hotel_def Let_def start del: last.simps de_Morgan_conj)
qed

lemma EvaluateDay_ok:
  assumes "wf_inst inst" "0 \<le> d" "\<forall>p \<in> set (route day). in_range inst p" "day_rules inst d (route day)"
    and "distinct (sites inst (route day))" "set (sites inst (route day)) \<inter> V = {}"
  shows "EvaluateDay inst d day V s g =
    Some (replan inst day,
      Inr (V \<union> set (sites inst (route day)), score_from inst s (route day),
           if route day = [] then g else fadd64 g (length_of inst (route day))))"
proof (cases "Steps day")
  case Nil
  then show ?thesis by (simp add: EvaluateDay_def replan_def route_def)
next
  case (Cons c steps)
  let ?qs = "map PointID steps"
  have r: "route day = PointID c # ?qs" using Cons by (simp add: route_def)
  have h: "hotel inst (PointID c)" "d = 0 \<longrightarrow> PointID c = StartHotelID inst"
    using assms(4) r by (simp_all add: day_rules_def)
  have steps: "EvaluateSteps inst d (first_step (PointID c)) steps 0 0 V s =
    Some (route_steps inst 0 (PointID c) ?qs,
      Inr (length_of inst (route day), time_of inst (route day),
           V \<union> set (sites inst (route day)), score_from inst s (route day)))"
    using EvaluateSteps_ok [of inst "first_step (PointID c)" steps 0 V d 0 s] assms h r
    by (auto simp: length_of_def time_of_def day_rules_def first_step_def)
  have last: "hotel inst (last (route day))" "d = NbDays inst - 1 \<longrightarrow> last (route day) = EndHotelID inst"
      "\<not> fgt64 (time_of inst (route day)) (budget inst d)"
    using assms(4) r by (auto simp: day_rules_def)
  have "replan inst day = day\<lparr>Steps := first_step (PointID c) # route_steps inst 0 (PointID c) ?qs,
      DistTotal := length_of inst (route day), TimeTotal := time_of inst (route day)\<rparr>"
    using Cons r by (simp add: replan_def plan_def)
  moreover have "route day \<noteq> []" using r by simp
  ultimately show ?thesis
    using EvaluateDay_end [OF assms(1,2) Cons h steps] last by (simp add: Let_def hotel_in_range)
qed

lemma EvaluateDay_err:
  assumes "wf_inst inst" "0 \<le> d" "\<forall>p \<in> set (route day). in_range inst p"
    and "\<not> (day_rules inst d (route day) \<and>
      distinct (sites inst (route day)) \<and> set (sites inst (route day)) \<inter> V = {})"
  shows "\<exists>day' e. EvaluateDay inst d day V s g = Some (day', Inl e) \<and> route day' = route day"
proof (cases "Steps day")
  case Nil
  then show ?thesis using assms(4) by (simp add: day_rules_def route_def)
next
  case (Cons c steps)
  let ?qs = "map PointID steps" and ?st = "first_step (PointID c)"
  have r: "route day = PointID c # ?qs" using Cons by (simp add: route_def)
  have c: "in_range inst (PointID c)" using assms(3) r by simp
  have first: "c\<lparr>Arrival := 0, Wait := 0, Departure := 0, DistFromPrev := 0\<rparr> = ?st"
    by (simp add: first_step_def)
  have st [simp]: "PointID ?st = PointID c" by (simp add: first_step_def)
  show ?thesis
  proof (cases "hotel inst (PointID c) \<and> (d = 0 \<longrightarrow> PointID c = StartHotelID inst)")
    case False
    then show ?thesis using Cons c assms(1) by (auto simp: EvaluateDay_def hotel_def)
  next
    case h: True
    then have ns: "\<not> site inst (PointID c)" by auto
    show ?thesis
    proof (cases "on_time inst 0 (PointID c) ?qs \<and> distinct (sites inst ?qs) \<and> set (sites inst ?qs) \<inter> V = {}")
      case False
      then obtain steps' e where "EvaluateSteps inst d ?st steps 0 0 V s = Some (steps', Inl e)"
        "map PointID steps' = ?qs"
        using EvaluateSteps_err [of inst ?st steps 0 V d 0 s] assms r by auto
      then show ?thesis
        using Cons h c assms(1) by (auto simp: EvaluateDay_def hotel_def Let_def route_def first)
    next
      case True
      let ?rest = "route_steps inst 0 (PointID c) ?qs"
      have steps: "EvaluateSteps inst d ?st steps 0 0 V s =
        Some (?rest, Inr (route_dist inst 0 (PointID c) ?qs, time_of inst (route day),
           V \<union> set (sites inst ?qs), score_from inst s ?qs))"
        using EvaluateSteps_ok [of inst ?st steps 0 V d 0 s] assms r True by (auto simp: time_of_def)
      have lr: "in_range inst (last (route day))" using assms(3) r by (metis last_in_set list.distinct(1))
      have "\<not> (hotel inst (last (route day)) \<and> (d = NbDays inst - 1 \<longrightarrow> last (route day) = EndHotelID inst) \<and>
          \<not> fgt64 (time_of inst (route day)) (budget inst d))"
        using assms(4) h ns True r by (auto simp: day_rules_def)
      moreover have "route (day\<lparr>Steps := ?st # ?rest\<rparr>) = route day" using r by (simp add: route_def)
      ultimately show ?thesis
        using EvaluateDay_end [OF assms(1,2) Cons _ _ steps _ lr] h by (auto simp: Let_def)
    qed
  qed
qed

section \<open>The whole validator\<close>

definition rules_from :: "Instance \<Rightarrow> int \<Rightarrow> int set \<Rightarrow> int list list \<Rightarrow> bool" where
  "rules_from inst d V rs \<longleftrightarrow>
     days_rules inst d rs \<and> distinct (sites inst (concat rs)) \<and> set (sites inst (concat rs)) \<inter> V = {}"

lemma EvaluateDays_ok:
  assumes "wf_inst inst" "0 \<le> d" "\<forall>day \<in> set days. \<forall>p \<in> set (route day). in_range inst p"
    and "rules_from inst d V (map route days)"
  shows "EvaluateDays inst d days V s g =
    Some (map (replan inst) days, Inr (score_from inst s (concat (map route days)),
      sum_lengths inst g (map route days)))"
  using assms
proof (induction days arbitrary: d V s g)
  case Nil
  then show ?case by (simp add: sum_lengths_def)
next
  case (Cons day days)
  have day: "day_rules inst d (route day)" "distinct (sites inst (route day))"
      "set (sites inst (route day)) \<inter> V = {}"
    and days: "rules_from inst (d + 1) (V \<union> set (sites inst (route day))) (map route days)"
    using Cons.prems(4) by (auto simp: rules_from_def)
  show ?case
    using Cons.prems(1-3) EvaluateDay_ok [OF Cons.prems(1,2) _ day] Cons.IH [OF Cons.prems(1) _ _ days]
    by (auto simp: sum_lengths_def)
qed

lemma EvaluateDays_err:
  assumes "wf_inst inst" "0 \<le> d" "\<forall>day \<in> set days. \<forall>p \<in> set (route day). in_range inst p"
    and "\<not> rules_from inst d V (map route days)"
  shows "\<exists>days' e. EvaluateDays inst d days V s g = Some (days', Inl e) \<and> map route days' = map route days"
  using assms
proof (induction days arbitrary: d V s g)
  case Nil
  then show ?case by (simp add: rules_from_def)
next
  case (Cons day days)
  have range: "\<forall>p \<in> set (route day). in_range inst p" using Cons.prems(3) by simp
  show ?case
  proof (cases "day_rules inst d (route day) \<and> distinct (sites inst (route day)) \<and>
      set (sites inst (route day)) \<inter> V = {}")
    case False
    from EvaluateDay_err [OF Cons.prems(1,2) range False, of s g] show ?thesis by auto
  next
    case True
    then have "\<not> rules_from inst (d + 1) (V \<union> set (sites inst (route day))) (map route days)"
      using Cons.prems(4) by (auto simp: rules_from_def)
    then have "\<exists>days' e. EvaluateDays inst (d + 1) days (V \<union> set (sites inst (route day)))
        (score_from inst s (route day))
        (if route day = [] then g else fadd64 g (length_of inst (route day))) = Some (days', Inl e) \<and>
        map route days' = map route days"
      using Cons.prems by (intro Cons.IH) auto
    moreover have "route (replan inst day) = route day" by (simp add: replan_def route_def)
    ultimately show ?thesis
      using EvaluateDay_ok [OF Cons.prems(1,2) range, of V s g] True by auto
  qed
qed

definition known_points :: "Solution \<Rightarrow> bool" where
  "known_points sol \<longleftrightarrow> (\<forall>ps \<in> set (routes sol). \<forall>p \<in> set ps. in_range (SolInstance sol) p)"

text \<open>What an accepted solution looks like afterwards.\<close>

definition revalued :: "Solution \<Rightarrow> Solution" where
  "revalued sol = sol\<lparr>Days := map (replan (SolInstance sol)) (Days sol),
     TotalScore := score_from (SolInstance sol) 0 (concat (routes sol)),
     TotalDist := sum_lengths (SolInstance sol) 0 (routes sol)\<rparr>"

lemma EvaluateSolution_ok:
  assumes "wf_inst (SolInstance sol)" "known_points sol" "valid_routes (SolInstance sol) (routes sol)"
  shows "EvaluateSolution sol = Some (revalued sol, None)"
  using assms EvaluateDays_ok [of "SolInstance sol" 0 "Days sol" "{}" 0 0]
  by (simp add: EvaluateSolution_def rules_from_def valid_routes_def known_points_def routes_def
      revalued_def Let_def)

lemma EvaluateSolution_err:
  assumes "wf_inst (SolInstance sol)" "known_points sol" "\<not> valid_routes (SolInstance sol) (routes sol)"
  shows "\<exists>sol' e. EvaluateSolution sol = Some (sol', Some e) \<and> routes sol' = routes sol \<and>
    SolInstance sol' = SolInstance sol"
proof -
  obtain days' e where "EvaluateDays (SolInstance sol) 0 (Days sol) {} 0 0 = Some (days', Inl e)"
    "map route days' = routes sol"
    using assms EvaluateDays_err [of "SolInstance sol" 0 "Days sol" "{}" 0 0]
    by (auto simp: rules_from_def valid_routes_def known_points_def routes_def)
  then show ?thesis by (simp add: EvaluateSolution_def Let_def routes_def)
qed

lemma route_replan [simp]: "route (replan inst day) = route day"
  by (simp add: replan_def route_def)

lemma replan_replan [simp]: "replan inst (replan inst day) = replan inst day"
  by (simp add: replan_def route_def)

lemma routes_revalued [simp]: "routes (revalued sol) = routes sol"
  by (simp add: revalued_def routes_def comp_def)

lemma SolInstance_revalued [simp]: "SolInstance (revalued sol) = SolInstance sol"
  by (simp add: revalued_def)

lemma revalued_idem [simp]: "revalued (revalued sol) = revalued sol"
  by (simp add: revalued_def routes_def comp_def)

section \<open>The evaluator agrees with the validator\<close>

definition steps_dist :: "f64 \<Rightarrow> Step list \<Rightarrow> f64" where
  "steps_dist d steps = fold (\<lambda>st d. fadd64 d (DistFromPrev st)) steps d"

lemma EvaluateScore_day:
  assumes "\<forall>st \<in> set steps. in_range inst (PointID st)"
  shows "go_range (\<lambda>step (distDay, totalScore). do {
             let distDay = fadd64 distDay (DistFromPrev step);
             p \<leftarrow> go_nth (Points inst) (PointID step);
             Some (distDay, if pType p = TypeSite then fadd64 totalScore (pScore p) else totalScore)
           }) steps (d, s) = Some (steps_dist d steps, score_from inst s (map PointID steps))"
  using assms
proof (induction steps arbitrary: d s)
  case Nil
  then show ?case by (simp add: steps_dist_def)
next
  case (Cons st steps)
  then show ?case by (simp add: steps_dist_def add_score_def site_def)
qed

lemma EvaluateScore_days:
  assumes "\<forall>day \<in> set days. \<forall>p \<in> set (route day). in_range inst p"
  shows "go_range (\<lambda>day (totalScore, totalDist). do {
         (distDay, totalScore) \<leftarrow> go_range (\<lambda>step (distDay, totalScore). do {
             let distDay = fadd64 distDay (DistFromPrev step);
             p \<leftarrow> go_nth (Points inst) (PointID step);
             Some (distDay, if pType p = TypeSite then fadd64 totalScore (pScore p) else totalScore)
           }) (Steps day) (0, totalScore);
         Some (totalScore, fadd64 totalDist distDay) }) days (s, d) =
     Some (score_from inst s (concat (map route days)),
           fold (\<lambda>day d. fadd64 d (steps_dist 0 (Steps day))) days d)"
  using assms
proof (induction days arbitrary: d s)
  case Nil
  then show ?case by simp
next
  case (Cons day days)
  have "\<forall>st \<in> set (Steps day). in_range inst (PointID st)"
    using Cons.prems by (simp add: route_def)
  note day = EvaluateScore_day [OF this, of 0]
  have days: "\<forall>day \<in> set days. \<forall>p \<in> set (route day). in_range inst p"
    using Cons.prems by simp
  show ?case
    by (simp only: go_range.simps prod.case day Option.bind.simps Cons.IH [OF days])
      (simp add: route_def)
qed

lemma EvaluateScore_spec:
  assumes "known_points sol"
  shows "EvaluateScore sol = Some (sol\<lparr>
    TotalScore := score_from (SolInstance sol) 0 (concat (routes sol)),
    TotalDist := fold (\<lambda>day d. fadd64 d (steps_dist 0 (Steps day))) (Days sol) 0\<rparr>)"
proof -
  have "\<forall>day \<in> set (Days sol). \<forall>p \<in> set (route day). in_range (SolInstance sol) p"
    using assms by (simp add: known_points_def routes_def)
  from EvaluateScore_days [OF this] show ?thesis
    by (simp only: EvaluateScore_def Option.bind.simps prod.case routes_def)
qed

lemma steps_dist_route_steps [simp]:
  "steps_dist d (route_steps inst t p qs) = route_dist inst d p qs"
  by (induction qs arbitrary: d t p) (simp_all add: steps_dist_def Let_def)

lemma fadd64_0_0 [simp]: "fadd64 0 0 = 0"
  by (simp add: fadd64_def funpack64_def)

lemma steps_dist_plan [simp]: "steps_dist 0 (plan inst ps) = length_of inst ps"
proof (cases ps)
  case Nil
  then show ?thesis by (simp add: plan_def length_of_def steps_dist_def)
next
  case (Cons p qs)
  have "steps_dist 0 (first_step p # route_steps inst 0 p qs) = steps_dist 0 (route_steps inst 0 p qs)"
    by (simp add: steps_dist_def first_step_def)
  with Cons show ?thesis by (simp add: plan_def length_of_def)
qed

lemma EvaluateScore_revalued:
  assumes "known_points sol" "\<forall>day \<in> set (Days sol). Steps day \<noteq> []"
  shows "EvaluateScore (revalued sol) = Some (revalued sol)"
proof -
  have "known_points (revalued sol)" using assms(1) by (simp add: known_points_def)
  moreover have "fold (\<lambda>day d. fadd64 d (steps_dist 0 (Steps day))) (map (replan inst) days) d =
      sum_lengths inst d (map route days)"
    if "\<forall>day \<in> set days. Steps day \<noteq> []" for inst days d
    using that by (induction days arbitrary: d) (auto simp: sum_lengths_def replan_def route_def)
  ultimately show ?thesis
    using assms(2) by (simp add: EvaluateScore_spec) (simp add: revalued_def routes_def)
qed

end
