(* ===== verification/Search_State.thy ===== *)
theory Search_State
  imports Validator_Spec
begin

text \<open>
  The bookkeeping of the local search (\<open>SearchState\<close> of \<open>src/optimizer.go\<close>): which sites the solution
  visits, as flags and as the list of those it does not. The field \<open>sol\<close> is written and never read.
\<close>

section \<open>Translation\<close>

record SearchState =
  ssVisited :: "bool list"
  ssUnvisited :: "int list"

definition newSearchState :: "Solution \<Rightarrow> SearchState option" where
  "newSearchState sol = do {
     let inst = SolInstance sol;
     visited \<leftarrow> go_range (\<lambda>day visited. go_range (\<lambda>step visited. do {
           p \<leftarrow> go_nth (Points inst) (PointID step);
           if pType p = TypeSite then go_set visited (PointID step) True else Some visited })
         (Steps day) visited)
       (Days sol) (replicate (length (Points inst)) False);
     unvisited \<leftarrow> go_range (\<lambda>id unvisited. do {
         v \<leftarrow> go_nth visited id;
         Some (if \<not> v then unvisited @ [id] else unvisited) }) (SiteIDs inst) [];
     Some \<lparr>ssVisited = visited, ssUnvisited = unvisited\<rparr> }"

text \<open>The loop of \<open>markVisited\<close>: the last element replaces the site, and the slice is cut.\<close>

fun removeUnvisited :: "int \<Rightarrow> (int \<times> int) list \<Rightarrow> int list \<Rightarrow> int list option" where
  "removeUnvisited siteID [] us = Some us"
| "removeUnvisited siteID ((i, u) # rest) us =
     (if u = siteID then do {
        l \<leftarrow> go_nth us (int (length us) - 1);
        us \<leftarrow> go_set us i l;
        go_slice us 0 (int (length us) - 1) }
      else removeUnvisited siteID rest us)"

definition markVisited :: "int \<Rightarrow> SearchState \<Rightarrow> SearchState option" where
  "markVisited siteID ss = do {
     visited \<leftarrow> go_set (ssVisited ss) siteID True;
     unvisited \<leftarrow> removeUnvisited siteID (go_enum (ssUnvisited ss)) (ssUnvisited ss);
     Some (ss\<lparr>ssVisited := visited, ssUnvisited := unvisited\<rparr>) }"

definition markUnvisited :: "int \<Rightarrow> SearchState \<Rightarrow> SearchState option" where
  "markUnvisited siteID ss = do {
     visited \<leftarrow> go_set (ssVisited ss) siteID False;
     Some (ss\<lparr>ssVisited := visited, ssUnvisited := ssUnvisited ss @ [siteID]\<rparr>) }"

section \<open>The two views agree\<close>

text \<open>The state of a solution that visits exactly the sites \<open>V\<close>.\<close>

definition tracks :: "Instance \<Rightarrow> SearchState \<Rightarrow> int set \<Rightarrow> bool" where
  "tracks inst ss V \<longleftrightarrow>
     marks inst (ssVisited ss) V \<and> V \<subseteq> {p. site inst p} \<and>
     distinct (ssUnvisited ss) \<and> set (ssUnvisited ss) = {p. site inst p} - V"

lemma removeUnvisited_absent:
  "siteID \<notin> snd ` set is \<Longrightarrow> removeUnvisited siteID is us = Some us"
  by (induction siteID "is" us rule: removeUnvisited.induct) auto

lemma removeUnvisited_first:
  assumes "us = xs @ siteID # ys" "siteID \<notin> set xs" "is = zip (map int [k..<length us]) (drop k us)" "k \<le> length xs"
  shows "removeUnvisited siteID is us = Some (take (length us - 1) (us[length xs := last us]))"
  using assms(3,4)
proof (induction "length xs - k" arbitrary: k "is")
  case 0
  then have k: "k = length xs" by simp
  have "is = (int (length xs), siteID) # zip (map int [Suc k..<length us]) ys"
  proof -
    have "[length xs..<length us] = length xs # [Suc (length xs)..<length us]"
      using assms(1) by (intro upt_conv_Cons) simp
    moreover have "drop k us = siteID # ys" using assms(1) k by simp
    ultimately show ?thesis unfolding 0(2) k by simp
  qed
  moreover have ne: "us \<noteq> []" and lt: "length xs < length us" using assms(1) by simp_all
  moreover have "go_slice vs 0 (int (length vs) - 1) = Some (take (length vs - 1) vs)" if "vs \<noteq> []" for vs :: "int list"
    using that by (cases vs) (simp_all add: go_slice_to)
  note cut = this [of "us[length xs := last us]"]
  ultimately show ?case using cut by (simp add: go_nth_last del: go_nth_in)
next
  case (Suc n)
  then have k: "k < length xs" by simp
  have "drop k us = xs ! k # drop (Suc k) us"
    using k assms(1) by (metis Cons_nth_drop_Suc length_append nth_append trans_less_add1)
  then have is': "is = (int k, xs ! k) # zip (map int [Suc k..<length us]) (drop (Suc k) us)"
  proof -
    have "[k..<length us] = k # [Suc k..<length us]" using assms(1) k by (intro upt_conv_Cons) simp
    with \<open>drop k us = xs ! k # drop (Suc k) us\<close> show ?thesis unfolding Suc.prems(1) by simp
  qed
  have "xs ! k \<noteq> siteID" using assms(2) k nth_mem by metis
  then show ?case unfolding is' using Suc.hyps k by simp
qed

lemma removeUnvisited_mset:
  assumes "siteID \<in> set us" "distinct us"
  shows "\<exists>us'. removeUnvisited siteID (go_enum us) us = Some us' \<and> distinct us' \<and> set us' = set us - {siteID}"
proof -
  obtain xs ys where us: "us = xs @ siteID # ys" "siteID \<notin> set xs" using assms(1) by (meson split_list_first)
  have r: "removeUnvisited siteID (go_enum us) us = Some (take (length us - 1) (us[length xs := last us]))"
    by (rule removeUnvisited_first [OF us, of _ 0]) (simp_all add: go_enum_def)
  show ?thesis
  proof (cases ys rule: rev_cases)
    case Nil
    then show ?thesis using r us assms(2) by auto
  next
    case (snoc zs z)
    then have "take (length us - 1) (us[length xs := last us]) = xs @ z # zs" using us by simp
    then show ?thesis using r us snoc assms(2) by auto
  qed
qed

lemma markVisited_tracks:
  assumes "tracks inst ss V" "site inst u" "u \<notin> V"
  shows "\<exists>ss'. markVisited u ss = Some ss' \<and> tracks inst ss' (insert u V)"
proof -
  have m: "marks inst (ssVisited ss) V" and u: "u \<in> set (ssUnvisited ss)" "distinct (ssUnvisited ss)"
    using assms by (simp_all add: tracks_def)
  obtain us' where "removeUnvisited u (go_enum (ssUnvisited ss)) (ssUnvisited ss) = Some us'"
    "distinct us'" "set us' = set (ssUnvisited ss) - {u}"
    using removeUnvisited_mset [OF u] by blast
  with marks_set [OF m site_in_range [OF assms(2)]] assms show ?thesis
    by (auto simp: markVisited_def tracks_def)
qed

lemma marks_unset:
  assumes "marks inst visited V" "in_range inst i"
  shows "go_set visited i False = Some (visited[nat i := False]) \<and> marks inst (visited[nat i := False]) (V - {i})"
proof -
  have "int j \<in> V - {i} \<longleftrightarrow> visited[nat i := False] ! j" if "j < length visited" for j
    using assms that by (cases "j = nat i") (auto simp: marks_def in_range_def)
  then show ?thesis using assms by (simp add: marks_def in_range_def)
qed

lemma markUnvisited_tracks:
  assumes "tracks inst ss V" "site inst u" "u \<in> V"
  shows "\<exists>ss'. markUnvisited u ss = Some ss' \<and> tracks inst ss' (V - {u})"
proof -
  have m: "marks inst (ssVisited ss) V" using assms by (simp add: tracks_def)
  from marks_unset [OF m site_in_range [OF assms(2)]] assms show ?thesis
    by (auto simp: markUnvisited_def tracks_def)
qed

section \<open>A new state tracks its solution\<close>

definition visited_sites :: "Instance \<Rightarrow> int list list \<Rightarrow> int set" where
  "visited_sites inst rs = set (sites inst (concat rs))"

lemma mark_steps:
  assumes "\<forall>st \<in> set steps. in_range inst (PointID st)" "marks inst visited V"
  shows "\<exists>visited'. go_range (\<lambda>step visited. do {
           p \<leftarrow> go_nth (Points inst) (PointID step);
           if pType p = TypeSite then go_set visited (PointID step) True else Some visited })
         steps visited = Some visited' \<and> marks inst visited' (V \<union> set (sites inst (map PointID steps)))"
  using assms
proof (induction steps arbitrary: visited V)
  case Nil
  then show ?case by simp
next
  case (Cons st steps)
  have r: "in_range inst (PointID st)" using Cons.prems(1) by simp
  show ?case
  proof (cases "site inst (PointID st)")
    case True
    note s = marks_set [OF Cons.prems(2) r]
    obtain visited' where "go_range (\<lambda>step visited. do {
           p \<leftarrow> go_nth (Points inst) (PointID step);
           if pType p = TypeSite then go_set visited (PointID step) True else Some visited })
         steps (visited[nat (PointID st) := True]) = Some visited'"
      "marks inst visited' (insert (PointID st) V \<union> set (sites inst (map PointID steps)))"
      using Cons.IH [of "visited[nat (PointID st) := True]" "insert (PointID st) V"] Cons.prems(1) s by auto
    then show ?thesis using True r s by (simp add: site_def)
  next
    case False
    then have "pType (pt inst (PointID st)) \<noteq> TypeSite" using r by (simp add: site_def)
    then show ?thesis using False r Cons.IH [OF _ Cons.prems(2)] Cons.prems(1) by simp
  qed
qed

lemma mark_days:
  assumes "\<forall>day \<in> set days. \<forall>p \<in> set (route day). in_range inst p" "marks inst visited V"
  shows "\<exists>visited'. go_range (\<lambda>day visited. go_range (\<lambda>step visited. do {
           p \<leftarrow> go_nth (Points inst) (PointID step);
           if pType p = TypeSite then go_set visited (PointID step) True else Some visited })
         (Steps day) visited) days visited = Some visited' \<and>
      marks inst visited' (V \<union> visited_sites inst (map route days))"
  using assms
proof (induction days arbitrary: visited V)
  case Nil
  then show ?case by (simp add: visited_sites_def)
next
  case (Cons day days)
  have "\<forall>st \<in> set (Steps day). in_range inst (PointID st)" using Cons.prems(1) by (simp add: route_def)
  from mark_steps [OF this Cons.prems(2)] obtain visited1 where
    1: "go_range (\<lambda>step visited. do {
           p \<leftarrow> go_nth (Points inst) (PointID step);
           if pType p = TypeSite then go_set visited (PointID step) True else Some visited })
         (Steps day) visited = Some visited1"
    "marks inst visited1 (V \<union> set (sites inst (route day)))"
    by (auto simp: route_def)
  from Cons.IH [OF _ 1(2)] Cons.prems(1) 1(1) show ?case
    by (simp add: visited_sites_def Un_assoc)
qed

lemma collect_unvisited:
  assumes "marks inst visited V" "\<forall>p \<in> set ids. in_range inst p"
  shows "go_range (\<lambda>id unvisited. do {
         v \<leftarrow> go_nth visited id;
         Some (if \<not> v then unvisited @ [id] else unvisited) }) ids us = Some (us @ filter (\<lambda>p. p \<notin> V) ids)"
  using assms(2)
proof (induction ids arbitrary: us)
  case Nil
  then show ?case by simp
next
  case (Cons p ids)
  have "go_nth visited p = Some (p \<in> V)"
    using Cons.prems assms(1) marks_nth [OF assms(1), of p] by (simp add: marks_def in_range_def)
  with Cons show ?case by simp
qed

lemma newSearchState_tracks:
  assumes "wf_inst (SolInstance sol)" "known_points sol"
  shows "\<exists>ss. newSearchState sol = Some ss \<and> tracks (SolInstance sol) ss (visited_sites (SolInstance sol) (routes sol))"
proof -
  let ?inst = "SolInstance sol"
  have "marks ?inst (replicate (length (Points ?inst)) False) {}" by (simp add: marks_def)
  from mark_days [OF _ this, of "Days sol"] assms(2) obtain visited where
    v: "go_range (\<lambda>day visited. go_range (\<lambda>step visited. do {
           p \<leftarrow> go_nth (Points ?inst) (PointID step);
           if pType p = TypeSite then go_set visited (PointID step) True else Some visited })
         (Steps day) visited) (Days sol) (replicate (length (Points ?inst)) False) = Some visited"
    and m: "marks ?inst visited (visited_sites ?inst (routes sol))"
    by (auto simp: known_points_def routes_def)
  have ids: "set (SiteIDs ?inst) = {p. site ?inst p}" "distinct (SiteIDs ?inst)"
    using assms(1) by (simp_all add: wf_inst_def)
  then have r: "\<forall>p \<in> set (SiteIDs ?inst). in_range ?inst p" by auto
  have "newSearchState sol = Some \<lparr>ssVisited = visited,
      ssUnvisited = filter (\<lambda>p. p \<notin> visited_sites ?inst (routes sol)) (SiteIDs ?inst)\<rparr>"
    by (simp add: newSearchState_def Let_def v collect_unvisited [OF m r])
  with m ids show ?thesis by (auto simp: tracks_def visited_sites_def set_sites)
qed

end
