(* ===== verification/Tour_Shape.thy ===== *)
theory Tour_Shape
  imports Search_State
begin

text \<open>
  The shape every solution of the program has, and what a move of the local search may change: days
  that start and end at hotels with sites in between, chained from the start to the end hotel, with
  no site visited twice; a move replaces days by days that were evaluated as feasible.
\<close>

section \<open>Shape\<close>

definition wf_route :: "Instance \<Rightarrow> int list \<Rightarrow> bool" where
  "wf_route inst ps \<longleftrightarrow>
     2 \<le> length ps \<and> hotel inst (hd ps) \<and> hotel inst (last ps) \<and> (\<forall>q \<in> set (butlast (tl ps)). site inst q)"

fun linked :: "int \<Rightarrow> int list list \<Rightarrow> bool" where
  "linked p [] = True"
| "linked p (ps # rs) = (hd ps = p \<and> linked (last ps) rs)"

definition tour :: "Instance \<Rightarrow> int list list \<Rightarrow> bool" where
  "tour inst rs \<longleftrightarrow>
     (\<forall>ps \<in> set rs. wf_route inst ps) \<and> linked (StartHotelID inst) rs \<and>
     (rs \<noteq> [] \<longrightarrow> last (last rs) = EndHotelID inst) \<and> distinct (sites inst (concat rs)) \<and>
     length rs = nat (NbDays inst)"

lemma wf_route_iff:
  "wf_route inst ps \<longleftrightarrow>
     (\<exists>p qs e. ps = p # qs @ [e] \<and> hotel inst p \<and> hotel inst e \<and> (\<forall>q \<in> set qs. site inst q))"
proof
  assume w: "wf_route inst ps"
  then obtain p rest where ps: "ps = p # rest" "rest \<noteq> []"
    by (cases ps; cases "tl ps") (auto simp: wf_route_def)
  then obtain qs e where "rest = qs @ [e]" by (metis rev_exhaust)
  with w ps show "\<exists>p qs e. ps = p # qs @ [e] \<and> hotel inst p \<and> hotel inst e \<and> (\<forall>q \<in> set qs. site inst q)"
    by (auto simp: wf_route_def)
qed (auto simp: wf_route_def)

lemma wf_routeE:
  assumes "wf_route inst ps"
  obtains p qs e where "ps = p # qs @ [e]" "hotel inst p" "hotel inst e" "\<forall>q \<in> set qs. site inst q"
  using assms unfolding wf_route_iff by blast

lemma wf_route_in_range: "wf_route inst ps \<Longrightarrow> \<forall>q \<in> set ps. in_range inst q"
  by (elim wf_routeE) (use hotel_in_range site_in_range in auto)

lemma wf_route_ne: "wf_route inst ps \<Longrightarrow> ps \<noteq> []"
  by (auto simp: wf_route_def)

lemma sites_wf_route:
  assumes "hotel inst p" "hotel inst e" "\<forall>q \<in> set qs. site inst q"
  shows "sites inst (p # qs @ [e]) = qs"
  using assms by (auto simp: sites_def filter_id_conv)

lemma linked_cong:
  "map hd rs = map hd rs' \<Longrightarrow> map last rs = map last rs' \<Longrightarrow> linked p rs = linked p rs'"
proof (induction rs arbitrary: rs' p)
  case (Cons ps rs)
  then obtain ps' rs'' where "rs' = ps' # rs''" "hd ps = hd ps'" "last ps = last ps'"
    "map hd rs = map hd rs''" "map last rs = map last rs''" by (cases rs') auto
  with Cons.IH [of rs''] show ?case by simp
qed simp

lemma linked_first: "linked p rs \<Longrightarrow> rs \<noteq> [] \<Longrightarrow> hd (rs ! 0) = p"
  by (cases rs) auto

lemma tour_known: "tour inst rs \<Longrightarrow> ps \<in> set rs \<Longrightarrow> \<forall>q \<in> set ps. in_range inst q"
  unfolding tour_def using wf_route_in_range by blast

lemma tour_known_points: "tour (SolInstance sol) (routes sol) \<Longrightarrow> known_points sol"
  using tour_known by (force simp: known_points_def)

text \<open>Replacing one day, with the same hotels and the sites accounted for.\<close>

lemma mset_sites_update:
  assumes "d < length rs"
  shows "mset (sites inst (concat (rs[d := ps]))) + mset (sites inst (rs ! d)) =
    mset (sites inst (concat rs)) + mset (sites inst ps)"
proof -
  have "rs = take d rs @ rs ! d # drop (Suc d) rs" using assms by (rule id_take_nth_drop)
  then have "mset (sites inst (concat rs)) =
      mset (sites inst (concat (take d rs))) + mset (sites inst (rs ! d)) + mset (sites inst (concat (drop (Suc d) rs)))"
    by (metis concat.simps(2) concat_append mset_append sites_append union_assoc)
  then show ?thesis using assms by (simp add: upd_conv_take_nth_drop)
qed

lemma tour_update:
  assumes "tour inst rs" "d < length rs" "wf_route inst ps" "hd ps = hd (rs ! d)" "last ps = last (rs ! d)"
    and "distinct (sites inst (concat (rs[d := ps])))"
  shows "tour inst (rs[d := ps])"
proof -
  have "map hd (rs[d := ps]) = map hd rs" "map last (rs[d := ps]) = map last rs"
    using assms(2,4,5) by (simp_all add: map_update) (metis list_update_id nth_map)+
  note l = linked_cong [OF this]
  have "last (last (rs[d := ps])) = last (last rs)" if "rs \<noteq> []"
    using that assms(5) by (cases "d = length rs - 1") (simp_all add: last_conv_nth nth_list_update)
  with assms l show ?thesis
    by (auto simp: tour_def dest: set_update_subset_insert [THEN subsetD])
qed

lemma tour_nth:
  assumes "tour inst rs" "d < length rs"
  shows "wf_route inst (rs ! d)" "d = 0 \<Longrightarrow> hd (rs ! d) = StartHotelID inst"
    "int d = NbDays inst - 1 \<Longrightarrow> last (rs ! d) = EndHotelID inst" "length rs = nat (NbDays inst)"
proof -
  show "wf_route inst (rs ! d)" "length rs = nat (NbDays inst)" using assms by (simp_all add: tour_def)
  show "hd (rs ! d) = StartHotelID inst" if "d = 0"
  proof -
    have "rs \<noteq> []" "linked (StartHotelID inst) rs" using assms by (auto simp: tour_def)
    then show ?thesis using that linked_first by blast
  qed
  show "last (rs ! d) = EndHotelID inst" if "int d = NbDays inst - 1"
  proof -
    have ne: "rs \<noteq> []" "d = length rs - 1" using assms that by (auto simp: tour_def)
    then have "rs ! d = last rs" by (simp add: last_conv_nth)
    then show ?thesis using assms ne(1) by (simp add: tour_def)
  qed
qed

section \<open>Moves\<close>

text \<open>A day as a move leaves it: with the timetable of a feasible route.\<close>

definition planned :: "Instance \<Rightarrow> int \<Rightarrow> DayTour \<Rightarrow> bool" where
  "planned inst d day \<longleftrightarrow>
     Steps day = plan inst (route day) \<and> DistTotal day = length_of inst (route day) \<and>
     feasible inst (budget inst d) (route day)"

definition replanned :: "Solution \<Rightarrow> Solution \<Rightarrow> bool" where
  "replanned sol sol' \<longleftrightarrow>
     SolInstance sol' = SolInstance sol \<and> length (Days sol') = length (Days sol) \<and>
     (\<forall>d < length (Days sol). Days sol' ! d = Days sol ! d \<or> planned (SolInstance sol) (int d) (Days sol' ! d))"

lemma replanned_refl [simp]: "replanned sol sol"
  by (simp add: replanned_def)

lemma replanned_trans: "replanned a b \<Longrightarrow> replanned b c \<Longrightarrow> replanned a c"
  by (fastforce simp: replanned_def)

lemma replanned_totals [simp]:
  "replanned sol (sol'\<lparr>TotalScore := s\<rparr>) = replanned sol sol'"
  "replanned sol (sol'\<lparr>TotalDist := t\<rparr>) = replanned sol sol'"
  "replanned (sol\<lparr>TotalScore := s\<rparr>) sol' = replanned sol sol'"
  "replanned (sol\<lparr>TotalDist := t\<rparr>) sol' = replanned sol sol'"
  by (simp_all add: replanned_def)

lemma routes_totals [simp]:
  "routes (sol\<lparr>TotalScore := s\<rparr>) = routes sol" "routes (sol\<lparr>TotalDist := t\<rparr>) = routes sol"
  by (simp_all add: routes_def)

text \<open>A feasible route keeps the rules of its day.\<close>

lemma feasible_day_rules:
  assumes "wf_route inst ps" "feasible inst (budget inst d) ps"
    and "d = 0 \<Longrightarrow> hd ps = StartHotelID inst" "d = NbDays inst - 1 \<Longrightarrow> last ps = EndHotelID inst"
  shows "day_rules inst d ps"
proof -
  obtain p qs e where ps: "ps = p # qs @ [e]" "hotel inst p" "hotel inst e"
    using assms(1) by (elim wf_routeE)
  have f: "on_time inst 0 p (qs @ [e])" "within inst (budget inst d) 0 p (qs @ [e])"
    using assms(2) ps by (simp_all add: feasible_def)
  have "\<not> fgt64 (time_of inst ps) (budget inst d)"
    using within_route_time [OF f(2)] ps by (simp add: time_of_def)
  with f(1) ps assms(3,4) show ?thesis by (simp add: day_rules_def)
qed

lemma days_rules_nth: "days_rules inst d rs \<longleftrightarrow> (\<forall>i < length rs. day_rules inst (d + int i) (rs ! i))"
proof (induction rs arbitrary: d)
  case (Cons ps rs)
  have "(\<forall>i < length (ps # rs). day_rules inst (d + int i) ((ps # rs) ! i)) \<longleftrightarrow>
      day_rules inst d ps \<and> (\<forall>i < length rs. day_rules inst (d + 1 + int i) (rs ! i))"
    by (subst length_Cons, subst All_less_Suc2) (simp add: algebra_simps)
  with Cons.IH show ?case by simp
qed simp

lemma routes_nth: "d < length (Days sol) \<Longrightarrow> routes sol ! d = route (Days sol ! d)"
  by (simp add: routes_def)

lemma length_routes [simp]: "length (routes sol) = length (Days sol)"
  by (simp add: routes_def)

theorem replanned_valid:
  assumes "replanned sol sol'" "tour (SolInstance sol) (routes sol')" "valid_routes (SolInstance sol) (routes sol)"
  shows "valid_routes (SolInstance sol) (routes sol')"
proof -
  let ?inst = "SolInstance sol"
  have len: "length (Days sol') = length (Days sol)" using assms(1) by (simp add: replanned_def)
  have "day_rules ?inst (int i) (routes sol' ! i)" if i: "i < length (Days sol)" for i
  proof (cases "Days sol' ! i = Days sol ! i")
    case True
    have "day_rules ?inst (0 + int i) (routes sol ! i)"
      using assms(3) i by (simp add: valid_routes_def days_rules_nth)
    with True show ?thesis using i len by (simp add: routes_nth)
  next
    case False
    then have "planned ?inst (int i) (Days sol' ! i)" using assms(1) i by (auto simp: replanned_def)
    then have f: "feasible ?inst (budget ?inst (int i)) (routes sol' ! i)"
      using i len by (simp add: planned_def routes_nth)
    have "i < length (routes sol')" using i len by simp
    note t = tour_nth [OF assms(2) this]
    show ?thesis by (rule feasible_day_rules [OF t(1) f]) (use t(2,3) in auto)
  qed
  then show ?thesis using assms(2) len by (simp add: valid_routes_def days_rules_nth tour_def)
qed

text \<open>The assignments \<open>sol.Days[d].Steps = steps\<close> and \<open>sol.Days[d].DistTotal = dist\<close>.\<close>

definition set_day :: "int \<Rightarrow> Step list \<Rightarrow> f64 \<Rightarrow> Solution \<Rightarrow> Solution option" where
  "set_day d steps dist sol = do {
     day \<leftarrow> go_nth (Days sol) d;
     days \<leftarrow> go_set (Days sol) d (day\<lparr>Steps := steps, DistTotal := dist\<rparr>);
     Some (sol\<lparr>Days := days\<rparr>) }"

lemma set_day_planned:
  assumes "d < length (Days sol)" "feasible (SolInstance sol) (budget (SolInstance sol) (int d)) ps"
  shows "\<exists>sol'. set_day (int d) (plan (SolInstance sol) ps) (length_of (SolInstance sol) ps) sol = Some sol' \<and>
    replanned sol sol' \<and> routes sol' = (routes sol)[d := ps] \<and> TotalScore sol' = TotalScore sol \<and>
    DistTotal (Days sol' ! d) = length_of (SolInstance sol) ps \<and> planned (SolInstance sol) (int d) (Days sol' ! d) \<and>
    (\<forall>i. i \<noteq> d \<longrightarrow> Days sol' ! i = Days sol ! i)"
proof -
  let ?day = "(Days sol ! d)\<lparr>Steps := plan (SolInstance sol) ps, DistTotal := length_of (SolInstance sol) ps\<rparr>"
  have r: "route ?day = ps" by (simp add: route_def)
  then have p: "planned (SolInstance sol) (int d) ?day" using assms(2) by (simp add: planned_def)
  then have "replanned sol (sol\<lparr>Days := (Days sol)[d := ?day]\<rparr>)"
    using assms(1) by (simp add: replanned_def nth_list_update)
  moreover have "routes (sol\<lparr>Days := (Days sol)[d := ?day]\<rparr>) = (routes sol)[d := ps]"
    by (simp add: routes_def map_update r)
  moreover have "set_day (int d) (plan (SolInstance sol) ps) (length_of (SolInstance sol) ps) sol =
      Some (sol\<lparr>Days := (Days sol)[d := ?day]\<rparr>)"
    using assms(1) by (simp add: set_day_def)
  ultimately show ?thesis using assms(1) p by simp
qed

section \<open>Inserting a point into a route\<close>

text \<open>\<open>append(append(buf[:0], xs[:pos]...), u), xs[pos:]...)\<close>\<close>

definition go_insert :: "int list \<Rightarrow> int \<Rightarrow> int \<Rightarrow> int list option" where
  "go_insert xs pos u = do {
     l \<leftarrow> go_slice xs 0 pos;
     r \<leftarrow> go_slice xs pos (int (length xs));
     Some (l @ u # r) }"

definition insert_at :: "int list \<Rightarrow> nat \<Rightarrow> int \<Rightarrow> int list" where
  "insert_at xs pos u = take pos xs @ u # drop pos xs"

lemma go_insert_in: "pos \<le> length xs \<Longrightarrow> go_insert xs (int pos) u = Some (insert_at xs pos u)"
  by (simp add: go_insert_def insert_at_def go_slice_to go_slice_from)

lemma insert_at_route:
  assumes "wf_route inst ps" "site inst u" "0 < pos" "pos < length ps"
  shows "wf_route inst (insert_at ps pos u)" "hd (insert_at ps pos u) = hd ps" "last (insert_at ps pos u) = last ps"
    "mset (sites inst (insert_at ps pos u)) = add_mset u (mset (sites inst ps))"
proof -
  obtain p qs e where ps: "ps = p # qs @ [e]" "hotel inst p" "hotel inst e" "\<forall>q \<in> set qs. site inst q"
    using assms(1) by (elim wf_routeE)
  obtain k where k: "pos = Suc k" "k \<le> length qs" using assms(3,4) ps by (cases pos) auto
  have i: "insert_at ps pos u = p # (take k qs @ u # drop k qs) @ [e]"
    using ps k by (simp add: insert_at_def)
  have s: "\<forall>q \<in> set (take k qs @ u # drop k qs). site inst q"
    using ps(4) assms(2) by (auto dest: in_set_takeD in_set_dropD)
  show "wf_route inst (insert_at ps pos u)" unfolding wf_route_iff i using ps s by blast
  show "hd (insert_at ps pos u) = hd ps" "last (insert_at ps pos u) = last ps" using i ps(1) by simp_all
  have "sites inst (insert_at ps pos u) = take k qs @ u # drop k qs"
    unfolding i by (rule sites_wf_route [OF ps(2,3) s])
  moreover have "mset (take k qs) + mset (drop k qs) = mset qs" by (metis append_take_drop_id mset_append)
  ultimately show "mset (sites inst (insert_at ps pos u)) = add_mset u (mset (sites inst ps))"
    using sites_wf_route [OF ps(2-4)] ps(1) by (simp add: union_mset_add_mset_right)
qed

lemma tour_insert:
  assumes "tour inst rs" "d < length rs" "site inst u" "u \<notin> visited_sites inst rs" "0 < pos" "pos < length (rs ! d)"
  shows "tour inst (rs[d := insert_at (rs ! d) pos u])"
    "mset (sites inst (concat (rs[d := insert_at (rs ! d) pos u]))) = add_mset u (mset (sites inst (concat rs)))"
    "visited_sites inst (rs[d := insert_at (rs ! d) pos u]) = insert u (visited_sites inst rs)"
proof -
  note w = tour_nth(1) [OF assms(1,2)]
  note i = insert_at_route [OF w assms(3,5,6)]
  show m: "mset (sites inst (concat (rs[d := insert_at (rs ! d) pos u]))) = add_mset u (mset (sites inst (concat rs)))"
    using mset_sites_update [OF assms(2), of inst "insert_at (rs ! d) pos u"] i(4) by simp
  have "distinct (u # sites inst (concat rs))" using assms(1,4) by (simp add: tour_def visited_sites_def)
  then have "distinct (sites inst (concat (rs[d := insert_at (rs ! d) pos u])))"
    using m by (metis mset.simps(2) mset_eq_imp_distinct_iff)
  then show "tour inst (rs[d := insert_at (rs ! d) pos u])" by (rule tour_update [OF assms(1,2) i(1-3)])
  show "visited_sites inst (rs[d := insert_at (rs ! d) pos u]) = insert u (visited_sites inst rs)"
    using m by (metis mset.simps(2) mset_eq_setD list.simps(15) visited_sites_def)
qed

section \<open>Evaluating a route\<close>

lemma evalDay_route:
  assumes "wf_inst inst" "wf_route inst ps" "0 \<le> d"
  shows "evalDayFast inst d ps = Some (if feasible inst (budget inst d) ps then (True, length_of inst ps) else (False, 0))"
    "evalDay inst d ps = Some (if feasible inst (budget inst d) ps then (True, length_of inst ps, plan inst ps)
       else (False, 0, []))"
proof -
  obtain p rest where ps: "ps = p # rest" "hotel inst p" using assms(2) by (auto simp: wf_route_iff)
  have "\<forall>q \<in> set rest. in_range inst q" using wf_route_in_range [OF assms(2)] ps by simp
  then show "evalDayFast inst d ps = Some (if feasible inst (budget inst d) ps then (True, length_of inst ps) else (False, 0))"
    "evalDay inst d ps = Some (if feasible inst (budget inst d) ps then (True, length_of inst ps, plan inst ps)
       else (False, 0, []))"
    using evalDayFast_spec [OF assms(1) ps(2) _ assms(3)] evalDay_spec [OF assms(1) ps(2) _ assms(3)] ps(1)
    by simp_all
qed

end
