(* ===== verification/Best_Choice.thy ===== *)
theory Best_Choice
  imports Go_Float64_Order Go_Prelude
begin

text \<open>
  The loops that search for the best move all work alike: a variable holds the best move so far, and
  a candidate replaces it when it is better. The interface of such a loop is its order, which is only
  asked to be transitive, so that it may be a comparison of floats with NaN among them.
\<close>

locale best_choice =
  fixes better :: "'b \<Rightarrow> 'b \<Rightarrow> bool"
  assumes better_trans: "better a b \<Longrightarrow> better b c \<Longrightarrow> better a c"
begin

definition improves :: "'b \<Rightarrow> 'b \<Rightarrow> bool" where
  "improves t s \<longleftrightarrow> t = s \<or> better t s"

lemma improves_refl: "improves s s"
  by (simp add: improves_def)

lemma improves_trans: "improves a b \<Longrightarrow> improves b c \<Longrightarrow> improves a c"
  using better_trans by (auto simp: improves_def)

lemma not_better: "\<not> better c s \<Longrightarrow> improves t s \<Longrightarrow> \<not> better c t"
  using better_trans by (auto simp: improves_def)

text \<open>
  A loop whose body keeps the invariant, never trades the best for a worse one and leaves no
  candidate of its element better than the best, ends with a best of all candidates.
\<close>

lemma search:
  assumes "I s"
    and "\<And>x s. x \<in> set xs \<Longrightarrow> I s \<Longrightarrow>
      \<exists>s'. body x s = Some s' \<and> I s' \<and> improves s' s \<and> (\<forall>c \<in> C x. \<not> better c s')"
  shows "\<exists>t. go_range body xs s = Some t \<and> I t \<and> improves t s \<and> (\<forall>x \<in> set xs. \<forall>c \<in> C x. \<not> better c t)"
  using assms
proof (induction xs arbitrary: s)
  case Nil
  then show ?case by (simp add: improves_refl)
next
  case (Cons x xs)
  obtain s' where s': "body x s = Some s'" "I s'" "improves s' s" "\<forall>c \<in> C x. \<not> better c s'"
    using Cons.prems(2) [of x s] Cons.prems(1) by auto
  obtain t where t: "go_range body xs s' = Some t" "I t" "improves t s'" "\<forall>x \<in> set xs. \<forall>c \<in> C x. \<not> better c t"
    using Cons.IH [OF s'(2)] Cons.prems(2) by auto
  have "\<forall>c \<in> C x. \<not> better c t" using s'(4) t(3) not_better by blast
  with s' t improves_trans show ?case by auto
qed

end

text \<open>
  The order of the search for a move: a greater gain, or the same gain and a shorter day. The moves
  carry what they do in further components.
\<close>

definition better_move :: "f64 \<times> f64 \<times> 'm \<Rightarrow> f64 \<times> f64 \<times> 'm \<Rightarrow> bool" where
  "better_move x y \<longleftrightarrow>
     fgt64 (fst x) (fst y) \<or> (feq64 (fst x) (fst y) \<and> flt64 (fst (snd x)) (fst (snd y)))"

interpretation move: best_choice better_move
  by unfold_locales (auto simp: better_move_def fgt64_iff feq64_iff)

text \<open>The order of the search for a position: none yet, or a shorter day.\<close>

definition better_place :: "f64 \<times> int \<Rightarrow> f64 \<times> int \<Rightarrow> bool" where
  "better_place x y \<longleftrightarrow> snd x \<noteq> -1 \<and> (snd y = -1 \<or> flt64 (fst x) (fst y))"

interpretation place: best_choice better_place
  by unfold_locales (auto simp: better_place_def fgt64_iff)

end
