(* ===== verification/Insertion.thy ===== *)
theory Insertion
  imports Tour_Shape Best_Choice
begin

text \<open>
  The first neighbourhood (\<open>bestInsertion\<close> of \<open>src/optimizer.go\<close>): every unvisited site of positive
  score at every position of every day, and the best of the feasible insertions is applied.
\<close>

section \<open>Translation\<close>

text \<open>The variables \<open>bestScore\<close>, \<open>bestDist\<close>, \<open>bestDayIdx\<close>, \<open>bestSiteID\<close> and \<open>bestSteps\<close>.\<close>

type_synonym ins_best = "f64 \<times> f64 \<times> int \<times> int \<times> Step list"

text \<open>One iteration of the loop over the positions.\<close>

definition tryInsertion ::
  "Instance \<Rightarrow> int \<Rightarrow> f64 \<Rightarrow> int \<Rightarrow> f64 \<Rightarrow> int list \<Rightarrow> int \<Rightarrow> ins_best \<Rightarrow> ins_best option" where
  "tryInsertion inst u uScore dIdx distTotal ptsBuf pos = (\<lambda>(bestScore, bestDist, best). do {
     prevID \<leftarrow> go_nth ptsBuf (pos - 1);
     nextID \<leftarrow> go_nth ptsBuf pos;
     d1 \<leftarrow> dist_at inst prevID u;
     d2 \<leftarrow> dist_at inst u nextID;
     d3 \<leftarrow> dist_at inst prevID nextID;
     let deltaDist = fsub64 (fadd64 d1 d2) d3;
     maxd \<leftarrow> DayMaxDist inst dIdx;
     if fgt64 (fadd64 distTotal deltaDist) maxd then Some (bestScore, bestDist, best)
     else do {
       newPts \<leftarrow> go_insert ptsBuf pos u;
       (feasible, newDist) \<leftarrow> evalDayFast inst dIdx newPts;
       if \<not> feasible then Some (bestScore, bestDist, best)
       else if fgt64 uScore bestScore \<or> (feq64 uScore bestScore \<and> flt64 newDist bestDist) then do {
         (_, _, steps) \<leftarrow> evalDay inst dIdx newPts;
         Some (uScore, newDist, dIdx, u, steps) }
       else Some (bestScore, bestDist, best) } })"

definition searchInsertion :: "Solution \<Rightarrow> int list \<Rightarrow> ins_best option" where
  "searchInsertion sol unvisited =
     (let inst = SolInstance sol in
      go_range (\<lambda>u best. do {
        p \<leftarrow> go_nth (Points inst) u;
        let uScore = pScore p;
        if fle64 uScore 0 then Some best
        else go_range (\<lambda>(dIdx, day) best. do {
            let ptsBuf = extractDayPoints day;
            go_range (tryInsertion inst u uScore dIdx (DistTotal day) ptsBuf) [1..int (length ptsBuf) - 1] best })
          (go_enum (Days sol)) best })
      unvisited (0, 0, -1, -1, []))"

definition bestInsertion :: "Solution \<Rightarrow> SearchState \<Rightarrow> (bool \<times> Solution \<times> SearchState) option" where
  "bestInsertion sol state = do {
     (bestScore, bestDist, bestDayIdx, bestSiteID, bestSteps) \<leftarrow> searchInsertion sol (ssUnvisited state);
     if bestDayIdx < 0 then Some (False, sol, state)
     else do {
       sol \<leftarrow> set_day bestDayIdx bestSteps bestDist sol;
       let sol = sol\<lparr>TotalScore := fadd64 (TotalScore sol) bestScore\<rparr>;
       state \<leftarrow> markVisited bestSiteID state;
       Some (True, sol, state) } }"

section \<open>The insertions that are considered\<close>

text \<open>The quick bound on the length of the day, which prunes some insertions without an evaluation.\<close>

definition ins_pruned :: "Instance \<Rightarrow> int \<Rightarrow> f64 \<Rightarrow> int list \<Rightarrow> nat \<Rightarrow> int \<Rightarrow> bool" where
  "ins_pruned inst d distTotal ps pos u \<longleftrightarrow>
     (let p = ps ! (pos - 1); q = ps ! pos
      in fgt64 (fadd64 distTotal (fsub64 (fadd64 (D inst p u) (D inst u q)) (D inst p q))) (budget inst d))"

definition insertion :: "Solution \<Rightarrow> int \<Rightarrow> nat \<Rightarrow> nat \<Rightarrow> bool" where
  "insertion sol u d pos \<longleftrightarrow>
     (let inst = SolInstance sol; ps = routes sol ! d in
      \<not> fle64 (pScore (pt inst u)) 0 \<and> d < length (Days sol) \<and> 0 < pos \<and> pos < length ps \<and>
      \<not> ins_pruned inst (int d) (DistTotal (Days sol ! d)) ps pos u \<and>
      feasible inst (budget inst (int d)) (insert_at ps pos u))"

definition ins_value :: "Solution \<Rightarrow> int \<Rightarrow> nat \<Rightarrow> nat \<Rightarrow> ins_best" where
  "ins_value sol u d pos =
     (let inst = SolInstance sol; ps = insert_at (routes sol ! d) pos u
      in (pScore (pt inst u), length_of inst ps, int d, u, plan inst ps))"

definition no_insertion :: ins_best where
  "no_insertion = (0, 0, -1, -1, [])"

definition ins_inv :: "Solution \<Rightarrow> int set \<Rightarrow> ins_best \<Rightarrow> bool" where
  "ins_inv sol U best \<longleftrightarrow>
     best = no_insertion \<or> (\<exists>u \<in> U. \<exists>d pos. insertion sol u d pos \<and> best = ins_value sol u d pos)"

lemma tryInsertion_step:
  assumes "wf_inst (SolInstance sol)" "d < length (Days sol)" "wf_route (SolInstance sol) (routes sol ! d)"
    and "site (SolInstance sol) u" "u \<in> U" "\<not> fle64 (pScore (pt (SolInstance sol) u)) 0"
    and "0 < pos" "pos < length (routes sol ! d)" "ins_inv sol U best"
  shows "\<exists>best'. tryInsertion (SolInstance sol) u (pScore (pt (SolInstance sol) u)) (int d) (DistTotal (Days sol ! d))
      (routes sol ! d) (int pos) best = Some best' \<and> ins_inv sol U best' \<and> move.improves best' best \<and>
    (\<forall>c \<in> {ins_value sol u d pos | _ :: unit. insertion sol u d pos}. \<not> better_move c best')"
proof -
  let ?inst = "SolInstance sol" and ?ps = "routes sol ! d"
  obtain bs bd b where best: "best = (bs, bd, b)" by (cases best)
  have range: "\<forall>q \<in> set ?ps. in_range ?inst q" by (rule wf_route_in_range [OF assms(3)])
  have prev: "go_nth ?ps (int pos - 1) = Some (?ps ! (pos - 1))"
    using assms(7,8) by (simp add: go_nth_def nat_diff_distrib)
  have r: "in_range ?inst (?ps ! (pos - 1))" "in_range ?inst (?ps ! pos)" "in_range ?inst u"
    using range assms(4,7,8) by auto
  have ins: "go_insert ?ps (int pos) u = Some (insert_at ?ps pos u)" using assms(8) by (simp add: go_insert_in)
  note eval = evalDay_route [OF assms(1) insert_at_route(1) [OF assms(3,4,7,8)], of "int d"]
  have val: "tryInsertion ?inst u (pScore (pt ?inst u)) (int d) (DistTotal (Days sol ! d)) ?ps (int pos) best =
    Some (if insertion sol u d pos \<and> better_move (ins_value sol u d pos) best then ins_value sol u d pos else best)"
    unfolding best tryInsertion_def
    using prev r assms(1,2,6-8) ins eval
    by (simp add: insertion_def ins_pruned_def ins_value_def better_move_def Let_def)
  show ?thesis
    unfolding val using assms(5,9)
    by (auto simp: ins_inv_def move.improves_def) (auto simp: better_move_def fgt64_iff)
qed

lemma searchInsertion_best:
  assumes "wf_inst (SolInstance sol)" "\<forall>ps \<in> set (routes sol). wf_route (SolInstance sol) ps"
    and "\<forall>u \<in> set us. site (SolInstance sol) u"
  shows "\<exists>best. searchInsertion sol us = Some best \<and> ins_inv sol (set us) best \<and> move.improves best no_insertion \<and>
    (\<forall>u \<in> set us. \<forall>d pos. insertion sol u d pos \<longrightarrow> \<not> better_move (ins_value sol u d pos) best)"
proof -
  let ?inst = "SolInstance sol"
  let ?C3 = "\<lambda>u d pos. {ins_value sol u d pos | _ :: unit. insertion sol u d pos}"
  let ?C2 = "\<lambda>u (d, day :: DayTour). \<Union>pos. ?C3 u (nat d) pos"
  let ?C1 = "\<lambda>u. \<Union>d pos. ?C3 u d pos"
  have days: "\<exists>best'. go_range (tryInsertion ?inst u (pScore (pt ?inst u)) d (DistTotal day) (extractDayPoints day))
        [1..int (length (extractDayPoints day)) - 1] best = Some best' \<and>
      ins_inv sol (set us) best' \<and> move.improves best' best \<and> (\<forall>c \<in> ?C2 u (d, day). \<not> better_move c best')"
    if u: "u \<in> set us" "\<not> fle64 (pScore (pt ?inst u)) 0" and d: "(d, day) \<in> set (go_enum (Days sol))"
      and inv: "ins_inv sol (set us) best" for u d day best
  proof -
    obtain i where i: "d = int i" "i < length (Days sol)" "day = Days sol ! i" using d by (auto simp: set_go_enum)
    have ps: "extractDayPoints day = routes sol ! i" using i by (simp add: extractDayPoints_def routes_nth route_def)
    have wf: "wf_route ?inst (routes sol ! i)" using assms(2) i by simp
    obtain best' where b: "go_range (tryInsertion ?inst u (pScore (pt ?inst u)) (int i) (DistTotal (Days sol ! i)) (routes sol ! i))
        [1..int (length (routes sol ! i)) - 1] best = Some best'"
      "ins_inv sol (set us) best'" "move.improves best' best"
      "\<forall>pos \<in> set [1..int (length (routes sol ! i)) - 1]. \<forall>c \<in> ?C3 u i (nat pos). \<not> better_move c best'"
    proof (atomize_elim, rule move.search [where I = "ins_inv sol (set us)", OF inv], goal_cases)
      case (1 pos best)
      then have "0 < nat pos" "nat pos < length (routes sol ! i)" "int (nat pos) = pos" by auto
      then show ?case
        using tryInsertion_step [OF assms(1) i(2) wf _ u, of "nat pos" best] assms(3) u(1) 1(2) by auto
    qed
    have "\<not> better_move c best'" if c: "c \<in> ?C3 u i pos" for c pos
    proof -
      have "int pos \<in> set [1..int (length (routes sol ! i)) - 1]" using c by (auto simp: insertion_def Let_def)
      with b(4) c show ?thesis by (metis nat_int)
    qed
    with b(1-3) show ?thesis using ps [unfolded i(3)] unfolding i(1,3) by (intro exI [of _ best']) simp
  qed
  have "\<exists>best'. searchInsertion sol us = Some best' \<and> ins_inv sol (set us) best' \<and> move.improves best' no_insertion \<and>
      (\<forall>u \<in> set us. \<forall>c \<in> ?C1 u. \<not> better_move c best')"
    unfolding searchInsertion_def Let_def no_insertion_def [symmetric]
  proof (rule move.search [where I = "ins_inv sol (set us)"], goal_cases)
    case 1
    then show ?case by (simp add: ins_inv_def)
  next
    case (2 u best)
    have "in_range ?inst u" using assms(3) 2(1) by auto
    then have p: "go_nth (Points ?inst) u = Some (pt ?inst u)" by simp
    show ?case
    proof (cases "fle64 (pScore (pt ?inst u)) 0")
      case True
      then have "?C1 u = {}" by (auto simp: insertion_def Let_def)
      with True p 2(2) show ?thesis by (simp add: move.improves_refl)
    next
      case False
      obtain best' where b: "go_range (\<lambda>(dIdx, day) best. go_range (tryInsertion ?inst u (pScore (pt ?inst u)) dIdx (DistTotal day) (extractDayPoints day))
          [1..int (length (extractDayPoints day)) - 1] best) (go_enum (Days sol)) best = Some best'"
        "ins_inv sol (set us) best'" "move.improves best' best"
        "\<forall>x \<in> set (go_enum (Days sol)). \<forall>c \<in> ?C2 u x. \<not> better_move c best'"
        by (atomize_elim, rule move.search [where I = "ins_inv sol (set us)", OF 2(2)]) (use days 2(1) False in auto)
      have cover: "\<exists>x \<in> set (go_enum (Days sol)). c \<in> ?C2 u x" if mem: "c \<in> ?C1 u" for c
      proof -
        obtain d pos where c: "c = ins_value sol u d pos" "insertion sol u d pos" using mem by blast
        then have "d < length (Days sol)" by (simp add: insertion_def Let_def)
        with c show ?thesis by (intro bexI [of _ "(int d, Days sol ! d)"]) (auto simp: set_go_enum)
      qed
      have "\<forall>c \<in> ?C1 u. \<not> better_move c best'" using cover b(4) by blast
      with b(1-3) p False show ?thesis by (intro exI [of _ best']) simp
    qed
  qed
  then obtain best' where b: "searchInsertion sol us = Some best'" "ins_inv sol (set us) best'"
    "move.improves best' no_insertion" "\<forall>u \<in> set us. \<forall>c \<in> ?C1 u. \<not> better_move c best'" by (elim exE conjE)
  have "\<not> better_move (ins_value sol u d pos) best'" if "u \<in> set us" "insertion sol u d pos" for u d pos
    using b(4) that by auto
  with b(1-3) show ?thesis by (intro exI [of _ best']) simp
qed

section \<open>The move\<close>

lemma visited_sites_site: "visited_sites inst rs \<subseteq> {p. site inst p}"
  by (auto simp: visited_sites_def set_sites)

lemma tracks_unvisited:
  "tracks inst ss V \<Longrightarrow> u \<in> set (ssUnvisited ss) \<longleftrightarrow> site inst u \<and> u \<notin> V"
  by (simp add: tracks_def)

text \<open>The insertion that is applied: of positive score, and no other one is better.\<close>

definition best_insertion :: "Solution \<Rightarrow> int \<Rightarrow> nat \<Rightarrow> nat \<Rightarrow> bool" where
  "best_insertion sol u d pos \<longleftrightarrow>
     (let inst = SolInstance sol; V = visited_sites inst (routes sol) in
      site inst u \<and> u \<notin> V \<and> insertion sol u d pos \<and> fgt64 (pScore (pt inst u)) 0 \<and>
      (\<forall>u' d' pos'. site inst u' \<longrightarrow> u' \<notin> V \<longrightarrow> insertion sol u' d' pos' \<longrightarrow>
         \<not> better_move (ins_value sol u' d' pos') (ins_value sol u d pos)))"

theorem bestInsertion_spec:
  assumes "wf_inst (SolInstance sol)" "tour (SolInstance sol) (routes sol)"
    and "tracks (SolInstance sol) ss (visited_sites (SolInstance sol) (routes sol))"
  shows "\<exists>b sol' ss'. bestInsertion sol ss = Some (b, sol', ss') \<and> replanned sol sol' \<and>
    tour (SolInstance sol) (routes sol') \<and>
    tracks (SolInstance sol) ss' (visited_sites (SolInstance sol) (routes sol')) \<and>
    (if b then \<exists>u d pos. best_insertion sol u d pos \<and>
         routes sol' = (routes sol)[d := insert_at (routes sol ! d) pos u] \<and>
         visited_sites (SolInstance sol) (routes sol') = insert u (visited_sites (SolInstance sol) (routes sol)) \<and>
         TotalScore sol' = fadd64 (TotalScore sol) (pScore (pt (SolInstance sol) u))
     else sol' = sol \<and> ss' = ss \<and>
       (\<forall>u d pos. site (SolInstance sol) u \<longrightarrow> u \<notin> visited_sites (SolInstance sol) (routes sol) \<longrightarrow>
          insertion sol u d pos \<longrightarrow> \<not> fgt64 (pScore (pt (SolInstance sol) u)) 0))"
proof -
  let ?inst = "SolInstance sol" and ?V = "visited_sites (SolInstance sol) (routes sol)"
  note tr = tracks_unvisited [OF assms(3)]
  have wf: "\<forall>ps \<in> set (routes sol). wf_route ?inst ps" using assms(2) by (simp add: tour_def)
  obtain best where best: "searchInsertion sol (ssUnvisited ss) = Some best" "ins_inv sol (set (ssUnvisited ss)) best"
      "move.improves best no_insertion"
    "\<forall>u \<in> set (ssUnvisited ss). \<forall>d pos. insertion sol u d pos \<longrightarrow> \<not> better_move (ins_value sol u d pos) best"
    using searchInsertion_best [OF assms(1) wf, of "ssUnvisited ss"] tr by auto
  show ?thesis
  proof (cases "best = no_insertion")
    case True
    then have "bestInsertion sol ss = Some (False, sol, ss)"
      using best(1) by (simp add: bestInsertion_def no_insertion_def)
    moreover have "\<not> fgt64 (pScore (pt ?inst u)) 0" if "site ?inst u" "u \<notin> ?V" "insertion sol u d pos" for u d pos
      using best(4) that tr True by (auto simp: better_move_def ins_value_def no_insertion_def Let_def)
    ultimately show ?thesis using assms by auto
  next
    case False
    then obtain u d pos where u: "u \<in> set (ssUnvisited ss)" "insertion sol u d pos" "best = ins_value sol u d pos"
      using best(2) by (auto simp: ins_inv_def)
    then have su: "site ?inst u" "u \<notin> ?V" using tr by blast+
    let ?ps = "insert_at (routes sol ! d) pos u"
    have d: "d < length (Days sol)" "0 < pos" "pos < length (routes sol ! d)" "feasible ?inst (budget ?inst (int d)) ?ps"
      using u(2) by (simp_all add: insertion_def Let_def)
    obtain sol1 where s1: "set_day (int d) (plan ?inst ?ps) (length_of ?inst ?ps) sol = Some sol1" "replanned sol sol1"
      "routes sol1 = (routes sol)[d := ?ps]" "TotalScore sol1 = TotalScore sol"
      using set_day_planned [OF d(1,4)] by auto
    have "d < length (routes sol)" using d(1) by simp
    note t = tour_insert [OF assms(2) this su d(2,3)]
    obtain ss' where ss': "markVisited u ss = Some ss'" "tracks ?inst ss' (insert u ?V)"
      using markVisited_tracks [OF assms(3) su] by blast
    let ?sol' = "sol1\<lparr>TotalScore := fadd64 (TotalScore sol1) (pScore (pt ?inst u))\<rparr>"
    have run: "bestInsertion sol ss = Some (True, ?sol', ss')"
      using best(1) u(3) s1(1) ss'(1) by (simp add: bestInsertion_def ins_value_def Let_def)
    have best': "\<not> better_move (ins_value sol u' d' pos') (ins_value sol u d pos)"
      if "site ?inst u'" "u' \<notin> ?V" "insertion sol u' d' pos'" for u' d' pos'
      using best(4) that tr u(3) by blast
    have pos: "fgt64 (pScore (pt ?inst u)) 0"
      using best(3) False u(2) unfolding u(3)
      by (auto simp: move.improves_def better_move_def ins_value_def no_insertion_def insertion_def Let_def
          feq64_iff fge64_iff)
    have "best_insertion sol u d pos" using su u(2) best' pos by (simp add: best_insertion_def Let_def)
    with s1 t ss' have "\<exists>u d pos. best_insertion sol u d pos \<and>
         routes ?sol' = (routes sol)[d := insert_at (routes sol ! d) pos u] \<and>
         visited_sites ?inst (routes ?sol') = insert u ?V \<and>
         TotalScore ?sol' = fadd64 (TotalScore sol) (pScore (pt ?inst u))" by auto
    with run s1 t ss' show ?thesis by (intro exI [of _ True] exI [of _ ?sol'] exI [of _ ss']) simp
  qed
qed

end
