(* ===== verification/Go_Rand.thy ===== *)
theory Go_Rand
  imports Go_Prelude
begin

text \<open>
  The random numbers of the program: \<open>src/go/src/math/rand/rng.go\<close> (the additive lagged Fibonacci
  source) and the methods of \<open>rand.Rand\<close> that the program calls (\<open>src/go/src/math/rand/rand.go\<close>).
  A \<open>rand.Rand\<close> made by \<open>rand.New(rand.NewSource(seed))\<close> only holds its source, so it is the source;
  every draw returns the source after the draw. An \<open>int32\<close>, \<open>int64\<close> or \<open>uint32\<close> value that the code
  keeps in range is an \<^typ>\<open>int\<close>; the 64-bit words of the register wrap.
\<close>

section \<open>The source\<close>

definition rngLen :: int where "rngLen = 607"
definition rngTap :: int where "rngTap = 273"
definition int32max :: int where "int32max = 2 ^ 31 - 1"

definition rngCooked :: "64 word list" where
  "rngCooked = [
     -4181792142133755926, -4576982950128230565, 1395769623340756751, 5333664234075297259,
     -6347679516498800754, 9033628115061424579, 7143218595135194537, 4812947590706362721,
     7937252194349799378, 5307299880338848416, 8209348851763925077, -7107630437535961764,
     4593015457530856296, 8140875735541888011, -5903942795589686782, -603556388664454774,
     -7496297993371156308, 113108499721038619, 4569519971459345583, -4160538177779461077,
     -6835753265595711384, -6507240692498089696, 6559392774825876886, 7650093201692370310,
     7684323884043752161, -8965504200858744418, -2629915517445760644, 271327514973697897,
     -6433985589514657524, 1065192797246149621, 3344507881999356393, -4763574095074709175,
     7465081662728599889, 1014950805555097187, -4773931307508785033, -5742262670416273165,
     2418672789110888383, 5796562887576294778, 4484266064449540171, 3738982361971787048,
     -4699774852342421385, 10530508058128498, -589538253572429690, -6598062107225984180,
     8660405965245884302, 10162832508971942, -2682657355892958417, 7031802312784620857,
     6240911277345944669, 831864355460801054, -1218937899312622917, 2116287251661052151,
     2202309800992166967, 9161020366945053561, 4069299552407763864, 4936383537992622449,
     457351505131524928, -8881176990926596454, -6375600354038175299, -7155351920868399290,
     4368649989588021065, 887231587095185257, -3659780529968199312, -2407146836602825512,
     5616972787034086048, -751562733459939242, 1686575021641186857, -5177887698780513806,
     -4979215821652996885, -1375154703071198421, 5632136521049761902, -8390088894796940536,
     -193645528485698615, -5979788902190688516, -4907000935050298721, -285522056888777828,
     -2776431630044341707, 1679342092332374735, 6050638460742422078, -2229851317345194226,
     -1582494184340482199, 5881353426285907985, 812786550756860885, 4541845584483343330,
     -6497901820577766722, 4980675660146853729, -4012602956251539747, -329088717864244987,
     -2896929232104691526, 1495812843684243920, -2153620458055647789, 7370257291860230865,
     -2466442761497833547, 4706794511633873654, -1398851569026877145, 8549875090542453214,
     -9189721207376179652, -7894453601103453165, 7297902601803624459, 1011190183918857495,
     -6985347000036920864, 5147159997473910359, -8326859945294252826, 2659470849286379941,
     6097729358393448602, -7491646050550022124, -5117116194870963097, -896216826133240300,
     -745860416168701406, 5803876044675762232, -787954255994554146, -3234519180203704564,
     -4507534739750823898, -1657200065590290694, 505808562678895611, -4153273856159712438,
     -8381261370078904295, 572156825025677802, 1791881013492340891, 3393267094866038768,
     -5444650186382539299, 2352769483186201278, -7930912453007408350, -325464993179687389,
     -3441562999710612272, -6489413242825283295, 5092019688680754699, -227247482082248967,
     4234737173186232084, 5027558287275472836, 4635198586344772304, -536033143587636457,
     5907508150730407386, -8438615781380831356, 972392927514829904, -3801314342046600696,
     -4064951393885491917, -174840358296132583, 2407211146698877100, -1640089820333676239,
     3940796514530962282, -5882197405809569433, 3095313889586102949, -1818050141166537098,
     5832080132947175283, 7890064875145919662, 8184139210799583195, -8073512175445549678,
     -7758774793014564506, -4581724029666783935, 3516491885471466898, -8267083515063118116,
     6657089965014657519, 5220884358887979358, 1796677326474620641, 5340761970648932916,
     1147977171614181568, 5066037465548252321, 2574765911837859848, 1085848279845204775,
     -5873264506986385449, 6116438694366558490, 2107701075971293812, -7420077970933506541,
     2469478054175558874, -1855128755834809824, -5431463669011098282, -9038325065738319171,
     -6966276280341336160, 7217693971077460129, -8314322083775271549, 7196649268545224266,
     -3585711691453906209, -5267827091426810625, 8057528650917418961, -5084103596553648165,
     -2601445448341207749, -7850010900052094367, 6527366231383600011, 3507654575162700890,
     9202058512774729859, 1954818376891585542, -2582991129724600103, 8299563319178235687,
     -5321504681635821435, 7046310742295574065, -2376176645520785576, -7650733936335907755,
     8850422670118399721, 3631909142291992901, 5158881091950831288, -6340413719511654215,
     4763258931815816403, 6280052734341785344, -4979582628649810958, 2043464728020827976,
     -2678071570832690343, 4562580375758598164, 5495451168795427352, -7485059175264624713,
     553004618757816492, 6895160632757959823, -989748114590090637, 7139506338801360852,
     -672480814466784139, 5535668688139305547, 2430933853350256242, -3821430778991574732,
     -1063731997747047009, -3065878205254005442, 7632066283658143750, 6308328381617103346,
     3681878764086140361, 3289686137190109749, 6587997200611086848, 244714774258135476,
     -5143583659437639708, 8090302575944624335, 2945117363431356361, -8359047641006034763,
     3009039260312620700, -793344576772241777, 401084700045993341, -1968749590416080887,
     4707864159563588614, -3583123505891281857, -3240864324164777915, -5908273794572565703,
     -3719524458082857382, -5281400669679581926, 8118566580304798074, 3839261274019871296,
     7062410411742090847, -8481991033874568140, 6027994129690250817, -6725542042704711878,
     -2971981702428546974, -7854441788951256975, 8809096399316380241, 6492004350391900708,
     2462145737463489636, -8818543617934476634, -5070345602623085213, -8961586321599299868,
     -3758656652254704451, -8630661632476012791, 6764129236657751224, -709716318315418359,
     -3403028373052861600, -8838073512170985897, -3999237033416576341, -2920240395515973663,
     -2073249475545404416, 368107899140673753, -6108185202296464250, -6307735683270494757,
     4782583894627718279, 6718292300699989587, 8387085186914375220, 3387513132024756289,
     4654329375432538231, -292704475491394206, -3848998599978456535, 7623042350483453954,
     7725442901813263321, 9186225467561587250, -5132344747257272453, -6865740430362196008,
     2530936820058611833, 1636551876240043639, -3658707362519810009, 1452244145334316253,
     -7161729655835084979, -7943791770359481772, 9108481583171221009, -3200093350120725999,
     5007630032676973346, 2153168792952589781, 6720334534964750538, -3181825545719981703,
     3433922409283786309, 2285479922797300912, 3110614940896576130, -2856812446131932915,
     -3804580617188639299, 7163298419643543757, 4891138053923696990, 580618510277907015,
     1684034065251686769, 4429514767357295841, -8893025458299325803, -8103734041042601133,
     7177515271653460134, 4589042248470800257, -1530083407795771245, 143607045258444228,
     246994305896273627, -8356954712051676521, 6473547110565816071, 3092379936208876896,
     2058427839513754051, -4089587328327907870, 8785882556301281247, -3074039370013608197,
     -637529855400303673, 6137678347805511274, -7152924852417805802, 5708223427705576541,
     -3223714144396531304, 4358391411789012426, 325123008708389849, 6837621693887290924,
     4843721905315627004, -3212720814705499393, -3825019837890901156, 4602025990114250980,
     1044646352569048800, 9106614159853161675, -8394115921626182539, -4304087667751778808,
     2681532557646850893, 3681559472488511871, -3915372517896561773, -2889241648411946534,
     -6564663803938238204, -8060058171802589521, 581945337509520675, 3648778920718647903,
     -4799698790548231394, -7602572252857820065, 220828013409515943, -1072987336855386047,
     4287360518296753003, -4633371852008891965, 5513660857261085186, -2258542936462001533,
     -8744380348503999773, 8746140185685648781, 228500091334420247, 1356187007457302238,
     3019253992034194581, 3152601605678500003, -8793219284148773595, 5559581553696971176,
     4916432985369275664, -8559797105120221417, -5802598197927043732, 2868348622579915573,
     -7224052902810357288, -5894682518218493085, 2587672709781371173, -7706116723325376475,
     3092343956317362483, -5561119517847711700, 972445599196498113, -1558506600978816441,
     1708913533482282562, -2305554874185907314, -6005743014309462908, -6653329009633068701,
     -483583197311151195, 2488075924621352812, -4529369641467339140, -4663743555056261452,
     2997203966153298104, 1282559373026354493, 240113143146674385, 8665713329246516443,
     628141331766346752, -4651421219668005332, -7750560848702540400, 7596648026010355826,
     -3132152619100351065, 7834161864828164065, 7103445518877254909, 4390861237357459201,
     -4780718172614204074, -319889632007444440, 622261699494173647, -3186110786557562560,
     -8718967088789066690, -1948156510637662747, -8212195255998774408, -7028621931231314745,
     2623071828615234808, -4066058308780939700, -5484966924888173764, -6683604512778046238,
     -6756087640505506466, 5256026990536851868, 7841086888628396109, 6640857538655893162,
     -8021284697816458310, -7109857044414059830, -1689021141511844405, -4298087301956291063,
     -4077748265377282003, -998231156719803476, 2719520354384050532, 9132346697815513771,
     4332154495710163773, -2085582442760428892, 6994721091344268833, -2556143461985726874,
     -8567931991128098309, 59934747298466858, -3098398008776739403, -265597256199410390,
     2332206071942466437, -7522315324568406181, 3154897383618636503, -7585605855467168281,
     -6762850759087199275, 197309393502684135, -8579694182469508493, 2543179307861934850,
     4350769010207485119, -4468719947444108136, -7207776534213261296, -1224312577878317200,
     4287946071480840813, 8362686366770308971, 6486469209321732151, -5605644191012979782,
     -1669018511020473564, 4450022655153542367, -7618176296641240059, -3896357471549267421,
     -4596796223304447488, -6531150016257070659, -8982326463137525940, -4125325062227681798,
     -1306489741394045544, -8338554946557245229, 5329160409530630596, 7790979528857726136,
     4955070238059373407, -4304834761432101506, -6215295852904371179, 3007769226071157901,
     -6753025801236972788, 8928702772696731736, 7856187920214445904, -4748497451462800923,
     7900176660600710914, -7082800908938549136, -6797926979589575837, -6737316883512927978,
     4186670094382025798, 1883939007446035042, -414705992779907823, 3734134241178479257,
     4065968871360089196, 6953124200385847784, -7917685222115876751, -7585632937840318161,
     -5567246375906782599, -5256612402221608788, 3106378204088556331, -2894472214076325998,
     4565385105440252958, 1979884289539493806, -6891578849933910383, 3783206694208922581,
     8464961209802336085, 2843963751609577687, 3030678195484896323, -4429654462759003204,
     4459239494808162889, 402587895800087237, 8057891408711167515, 4541888170938985079,
     1042662272908816815, -3666068979732206850, 2647678726283249984, 2144477441549833761,
     -3417019821499388721, -2105601033380872185, 5916597177708541638, -8760774321402454447,
     8833658097025758785, 5970273481425315300, 563813119381731307, -6455022486202078793,
     1598828206250873866, -4016978389451217698, -2988328551145513985, -6071154634840136312,
     8469693267274066490, 125672920241807416, -3912292412830714870, -2559617104544284221,
     -486523741806024092, -4735332261862713930, 5923302823487327109, -9082480245771672572,
     -1808429243461201518, 7990420780896957397, 4317817392807076702, 3625184369705367340,
     -6482649271566653105, -3480272027152017464, -3225473396345736649, -368878695502291645,
     -3981164001421868007, -8522033136963788610, 7609280429197514109, 3020985755112334161,
     -2572049329799262942, 2635195723621160615, 5144520864246028816, -8188285521126945980,
     1567242097116389047, 8172389260191636581, -2885551685425483535, -7060359469858316883,
     -6480181133964513127, -7317004403633452381, 6011544915663598137, 5932255307352610768,
     2241128460406315459, -8327867140638080220, 3094483003111372717, 4583857460292963101,
     9079887171656594975, -384082854924064405, -3460631649611717935, 4225072055348026230,
     -7385151438465742745, 3801620336801580414, -399845416774701952, -7446754431269675473,
     7899055018877642622, 5421679761463003041, 5521102963086275121, -4975092593295409910,
     8735487530905098534, -7462844945281082830, -2080886987197029914, -1000715163927557685,
     -4253840471931071485, -5828896094657903328, 6424174453260338141, 359248545074932887,
     -5949720754023045210, -2426265837057637212, 3030918217665093212, -9077771202237461772,
     -3186796180789149575, 740416251634527158, -2142944401404840226, 6951781370868335478,
     399922722363687927, -8928469722407522623, -1378421100515597285, -8343051178220066766,
     -3030716356046100229, -8811767350470065420, 9026808440365124461, 6440783557497587732,
     4615674634722404292, 539897290441580544, 2096238225866883852, 8751955639408182687,
     -7316147128802486205, 7381039757301768559, 6157238513393239656, -1473377804940618233,
     8629571604380892756, 5280433031239081479, 7101611890139813254, 2479018537985767835,
     7169176924412769570, -1281305539061572506, -7865612307799218120, 2278447439451174845,
     3625338785743880657, 6477479539006708521, 8976185375579272206, -3712000482142939688,
     1326024180520890843, 7537449876596048829, 5464680203499696154, 3189671183162196045,
     6346751753565857109, -8982212049534145501, -6127578587196093755, -245039190118465649,
     -6320577374581628592, 7208698530190629697, 7276901792339343736, -7490986807540332668,
     4133292154170828382, 2918308698224194548, -7703910638917631350, -3929437324238184044,
     -4300543082831323144, -6344160503358350167, 5896236396443472108, -758328221503023383,
     -1894351639983151068, -307900319840287220, -6278469401177312761, -2171292963361310674,
     8382142935188824023, 9103922860780351547, 4152330101494654406]"

record rngSource =
  tap :: int
  feed :: int
  vec :: "64 word list"

text \<open>\<open>x / Q\<close> and \<open>x % Q\<close> truncate, which for the non-negative \<open>x\<close> of the code is \<open>div\<close> and \<open>mod\<close>.\<close>

definition seedrand :: "int \<Rightarrow> int" where
  "seedrand x =
     (let hi = x div 44488; lo = x mod 44488; x = 48271 * lo - 3399 * hi
      in if x < 0 then x + int32max else x)"

text \<open>The body of the loop of \<open>Seed\<close>, for the index \<open>i\<close> from \<open>-20\<close> on.\<close>

definition Seed_body :: "int \<Rightarrow> int \<times> 64 word list \<Rightarrow> (int \<times> 64 word list) option" where
  "Seed_body i = (\<lambda>(x, v). do {
     let x = seedrand x;
     if i \<ge> 0 then do {
       let u = push_bit 40 (word_of_int x);
       let x = seedrand x;
       let u = u XOR push_bit 20 (word_of_int x);
       let x = seedrand x;
       let u = u XOR word_of_int x;
       c \<leftarrow> go_nth rngCooked i;
       v \<leftarrow> go_set v i (u XOR c);
       Some (x, v) }
     else Some (x, v) })"

text \<open>\<open>seed % int32max\<close> truncates towards zero: the sign of the seed, then the correction.\<close>

definition Seed :: "int \<Rightarrow> rngSource option" where
  "Seed seed = do {
     let seed = sgn seed * (\<bar>seed\<bar> mod int32max);
     let seed = (if seed < 0 then seed + int32max else seed);
     let seed = (if seed = 0 then 89482311 else seed);
     (_, v) \<leftarrow> go_range Seed_body [-20..rngLen - 1] (seed, replicate (nat rngLen) 0);
     Some \<lparr>tap = 0, feed = rngLen - rngTap, vec = v\<rparr> }"

definition Uint64 :: "rngSource \<Rightarrow> (64 word \<times> rngSource) option" where
  "Uint64 rng = do {
     let t = tap rng - 1;
     let t = (if t < 0 then t + rngLen else t);
     let f = feed rng - 1;
     let f = (if f < 0 then f + rngLen else f);
     a \<leftarrow> go_nth (vec rng) f;
     b \<leftarrow> go_nth (vec rng) t;
     let x = a + b;
     v \<leftarrow> go_set (vec rng) f x;
     Some (x, \<lparr>tap = t, feed = f, vec = v\<rparr>) }"

definition Int63 :: "rngSource \<Rightarrow> (int \<times> rngSource) option" where
  "Int63 rng = do { (u, rng) \<leftarrow> Uint64 rng; Some (uint (take_bit 63 u), rng) }"

section \<open>Draws\<close>

definition Uint32 :: "rngSource \<Rightarrow> (int \<times> rngSource) option" where
  "Uint32 r = do { (v, r) \<leftarrow> Int63 r; Some (v div 2 ^ 31, r) }"

definition Int31 :: "rngSource \<Rightarrow> (int \<times> rngSource) option" where
  "Int31 r = do { (v, r) \<leftarrow> Int63 r; Some (v div 2 ^ 32, r) }"

text \<open>
  \<open>for v > max { v = draw() }\<close>: nothing bounds the number of rejected draws, so the loop is a partial
  function, and a loop that goes on forever returns \<open>None\<close>.
\<close>

partial_function (option) reject ::
  "(rngSource \<Rightarrow> (int \<times> rngSource) option) \<Rightarrow> int \<Rightarrow> int \<Rightarrow> rngSource \<Rightarrow> (int \<times> rngSource) option" where
  "reject draw m v r = (if v > m then do { (v, r) \<leftarrow> draw r; reject draw m v r } else Some (v, r))"

definition Int63n :: "int \<Rightarrow> rngSource \<Rightarrow> (int \<times> rngSource) option" where
  "Int63n n r =
     (if n \<le> 0 then None
      else if n AND (n - 1) = 0 then do { (v, r) \<leftarrow> Int63 r; Some (v AND (n - 1), r) }
      else do {
        let m = 2 ^ 63 - 1 - 2 ^ 63 mod n;
        (v, r) \<leftarrow> Int63 r;
        (v, r) \<leftarrow> reject Int63 m v r;
        Some (v mod n, r) })"

definition Int31n :: "int \<Rightarrow> rngSource \<Rightarrow> (int \<times> rngSource) option" where
  "Int31n n r =
     (if n \<le> 0 then None
      else if n AND (n - 1) = 0 then do { (v, r) \<leftarrow> Int31 r; Some (v AND (n - 1), r) }
      else do {
        let m = 2 ^ 31 - 1 - 2 ^ 31 mod n;
        (v, r) \<leftarrow> Int31 r;
        (v, r) \<leftarrow> reject Int31 m v r;
        Some (v mod n, r) })"

text \<open>The loop \<open>for low < thresh\<close> of \<open>int31n\<close>, which redraws the product.\<close>

partial_function (option) reject_low :: "int \<Rightarrow> int \<Rightarrow> int \<Rightarrow> rngSource \<Rightarrow> (int \<times> rngSource) option" where
  "reject_low n thresh pr r =
     (if pr mod 2 ^ 32 < thresh then do { (v, r) \<leftarrow> Uint32 r; reject_low n thresh (v * n) r }
      else Some (pr, r))"

definition int31n :: "int \<Rightarrow> rngSource \<Rightarrow> (int \<times> rngSource) option" where
  "int31n n r = do {
     (v, r) \<leftarrow> Uint32 r;
     let pr = v * n;
     (pr, r) \<leftarrow> (if pr mod 2 ^ 32 < n then reject_low n ((2 ^ 32 - n) mod n) pr r else Some (pr, r));
     Some (pr div 2 ^ 32, r) }"

definition Intn :: "int \<Rightarrow> rngSource \<Rightarrow> (int \<times> rngSource) option" where
  "Intn n r = (if n \<le> 0 then None else if n \<le> 2 ^ 31 - 1 then Int31n n r else Int63n n r)"

section \<open>Shuffle\<close>

text \<open>The two loops of the Fisher-Yates shuffle; \<open>swap\<close> acts on the state \<open>s\<close> of the caller.\<close>

function Shuffle_big ::
  "(int \<Rightarrow> int \<Rightarrow> 's \<Rightarrow> 's option) \<Rightarrow> int \<Rightarrow> 's \<Rightarrow> rngSource \<Rightarrow> (int \<times> 's \<times> rngSource) option" where
  "Shuffle_big swap i s r =
     (if i > 2 ^ 31 - 1 - 1 then do {
        (j, r) \<leftarrow> Int63n (i + 1) r;
        s \<leftarrow> swap i j s;
        Shuffle_big swap (i - 1) s r }
      else Some (i, s, r))"
  by pat_completeness auto
termination by (relation "measure (\<lambda>(_, i, _, _). nat i)") auto

function Shuffle_small ::
  "(int \<Rightarrow> int \<Rightarrow> 's \<Rightarrow> 's option) \<Rightarrow> int \<Rightarrow> 's \<Rightarrow> rngSource \<Rightarrow> ('s \<times> rngSource) option" where
  "Shuffle_small swap i s r =
     (if i > 0 then do {
        (j, r) \<leftarrow> int31n (i + 1) r;
        s \<leftarrow> swap i j s;
        Shuffle_small swap (i - 1) s r }
      else Some (s, r))"
  by pat_completeness auto
termination by (relation "measure (\<lambda>(_, i, _, _). nat i)") auto

declare Shuffle_big.simps [simp del] Shuffle_small.simps [simp del]

definition Shuffle :: "int \<Rightarrow> (int \<Rightarrow> int \<Rightarrow> 's \<Rightarrow> 's option) \<Rightarrow> 's \<Rightarrow> rngSource \<Rightarrow> ('s \<times> rngSource) option" where
  "Shuffle n swap s r =
     (if n < 0 then None
      else do {
        (i, s, r) \<leftarrow> Shuffle_big swap (n - 1) s r;
        Shuffle_small swap i s r })"

section \<open>The source never leaves its register\<close>

text \<open>
  A register whose entries all have zero low bits would keep them for ever; the draws of a shuffle may
  not end on it. Seeding never gives one.
\<close>

definition live :: "64 word list \<Rightarrow> bool" where
  "live v \<longleftrightarrow> (\<exists>x \<in> set v. take_bit 20 x \<noteq> 0)"

definition rng_ok :: "rngSource \<Rightarrow> bool" where
  "rng_ok r \<longleftrightarrow> 0 \<le> tap r \<and> tap r < rngLen \<and> 0 \<le> feed r \<and> feed r < rngLen \<and> tap r \<noteq> feed r \<and>
     int (length (vec r)) = rngLen \<and> live (vec r)"

lemma live_update:
  assumes "live v" "f < length v" "t < length v" "f \<noteq> t"
  shows "live (v[f := v ! f + v ! t])"
proof (rule ccontr)
  assume "\<not> live (v[f := v ! f + v ! t])"
  then have z: "take_bit 20 (v[f := v ! f + v ! t] ! p) = 0" if "p < length v" for p
    using that nth_mem [of p "v[f := v ! f + v ! t]"] unfolding live_def by (metis length_list_update)
  have t: "take_bit 20 (v ! t) = 0" using z [OF assms(3)] assms(4) by simp
  have e: "take_bit 20 x = 0 \<longleftrightarrow> unat x mod 2 ^ 20 = 0" for x :: "64 word"
    using unat_take_bit_64 [of 20 x] unat_eq_0 [of "take_bit 20 x"] by simp
  have "take_bit 20 (v ! f + v ! t) = 0" using z [OF assms(2)] assms(2) by simp
  then have "(unat (v ! f) + unat (v ! t)) mod 2 ^ 20 = 0" by (simp add: e unat_word_ariths mod_mod_cancel)
  moreover have "unat (v ! t) mod 2 ^ 20 = 0" using t by (simp add: e)
  ultimately have "unat (v ! f) mod 2 ^ 20 = 0" by (metis add_0_right mod_add_right_eq)
  then have "take_bit 20 (v ! f) = 0" by (simp add: e)
  then have "take_bit 20 (v ! p) = 0" if "p < length v" for p
    using z [OF that] by (cases "p = f") auto
  with assms(1) show False by (auto simp: live_def in_set_conv_nth)
qed

lemma Uint64_total:
  assumes "rng_ok r"
  shows "\<exists>x r'. Uint64 r = Some (x, r') \<and> rng_ok r'"
proof -
  define t where "t = (if tap r - 1 < 0 then tap r - 1 + rngLen else tap r - 1)"
  define f where "f = (if feed r - 1 < 0 then feed r - 1 + rngLen else feed r - 1)"
  have b: "0 \<le> t" "t < int (length (vec r))" "0 \<le> f" "f < int (length (vec r))" "t \<noteq> f"
    using assms by (auto simp: t_def f_def rng_ok_def rngLen_def)
  let ?r = "\<lparr>tap = t, feed = f, vec = (vec r)[nat f := vec r ! nat f + vec r ! nat t]\<rparr>"
  have "Uint64 r = Some (vec r ! nat f + vec r ! nat t, ?r)"
    unfolding Uint64_def Let_def t_def [symmetric] f_def [symmetric] using b by simp
  moreover have "live (vec ?r)"
  proof -
    have "nat f < length (vec r)" "nat t < length (vec r)" "nat f \<noteq> nat t" using b by auto
    then show ?thesis using live_update [of "vec r" "nat f" "nat t"] assms by (simp add: rng_ok_def)
  qed
  ultimately show ?thesis using b assms by (simp add: rng_ok_def)
qed

lemma Int63_total:
  assumes "rng_ok r"
  shows "\<exists>v r'. Int63 r = Some (v, r') \<and> rng_ok r' \<and> 0 \<le> v \<and> v < 2 ^ 63"
proof -
  obtain x r' where x: "Uint64 r = Some (x, r')" "rng_ok r'" using Uint64_total [OF assms] by blast
  have "uint (take_bit 63 x) < 2 ^ 63"
    by (simp only: unsigned_take_bit_eq) (simp add: take_bit_eq_mod)
  with x show ?thesis by (simp add: Int63_def)
qed

lemma int_div_less:
  fixes m :: int
  assumes "0 < q" "m < n * q"
  shows "m div q < n"
proof -
  have "m div q * q \<le> m"
    using assms(1) pos_mod_sign [of q m] by (simp flip: minus_mod_eq_div_mult)
  with assms(2) have "m div q * q < n * q" by simp
  with assms(1) show ?thesis by (simp add: mult_less_cancel_right)
qed

lemma div_bounds:
  fixes v :: int
  assumes "0 \<le> v" "v < 2 ^ 63" "k \<le> 63"
  shows "0 \<le> v div 2 ^ k \<and> v div 2 ^ k < 2 ^ (63 - k)"
proof -
  have "(2::int) ^ (63 - k) * 2 ^ k = 2 ^ 63" using assms(3) by (simp flip: power_add)
  then have "v < 2 ^ (63 - k) * 2 ^ k" using assms(2) by simp
  then have "v div 2 ^ k < 2 ^ (63 - k)" by (intro int_div_less) simp_all
  with assms(1) show ?thesis by (simp add: pos_imp_zdiv_nonneg_iff)
qed

lemma Int31_total:
  assumes "rng_ok r"
  shows "\<exists>v r'. Int31 r = Some (v, r') \<and> rng_ok r' \<and> 0 \<le> v \<and> v < 2 ^ 31"
  using Int63_total [OF assms] div_bounds [where k = 32] by (fastforce simp: Int31_def)

lemma Uint32_total:
  assumes "rng_ok r"
  shows "\<exists>v r'. Uint32 r = Some (v, r') \<and> rng_ok r' \<and> 0 \<le> v \<and> v < 2 ^ 32"
  using Int63_total [OF assms] div_bounds [where k = 31] by (fastforce simp: Uint32_def)

section \<open>Bounds of the draws\<close>

lemma reject_ok:
  assumes draw: "\<And>r v r'. rng_ok r \<Longrightarrow> draw r = Some (v, r') \<Longrightarrow> rng_ok r' \<and> 0 \<le> v"
    and ret: "reject draw m v r = Some (w, r')" and pre: "rng_ok r" "0 \<le> v"
  shows "rng_ok r' \<and> 0 \<le> w"
proof -
  let ?good = "\<lambda>draw. \<forall>r v r'. rng_ok r \<longrightarrow> draw r = Some (v, r') \<longrightarrow> rng_ok r' \<and> (0 :: int) \<le> v"
  have "?good draw \<longrightarrow> rng_ok r \<longrightarrow> 0 \<le> v \<longrightarrow> rng_ok (snd (w, r')) \<and> 0 \<le> fst (w, r')"
  proof (rule reject.raw_induct [where P = "\<lambda>draw m v r x.
      ?good draw \<longrightarrow> rng_ok r \<longrightarrow> 0 \<le> v \<longrightarrow> rng_ok (snd x) \<and> 0 \<le> fst x", OF _ ret], intro impI)
    fix f :: "(rngSource \<Rightarrow> (int \<times> rngSource) option) \<Rightarrow> int \<Rightarrow> int \<Rightarrow> rngSource \<Rightarrow> (int \<times> rngSource) option"
      and draw m v r x
    assume IH: "\<And>draw m v r x. f draw m v r = Some x \<Longrightarrow>
        ?good draw \<longrightarrow> rng_ok r \<longrightarrow> 0 \<le> v \<longrightarrow> rng_ok (snd x) \<and> 0 \<le> fst x"
      and eq: "(if v > m then do { (v, r) \<leftarrow> draw r; f draw m v r } else Some (v, r)) = Some x"
      and good: "?good draw" and r: "rng_ok r" and v: "0 \<le> v"
    show "rng_ok (snd x) \<and> 0 \<le> fst x"
    proof (cases "v > m")
      case True
      with eq obtain v1 r1 where d: "draw r = Some (v1, r1)" and rest: "f draw m v1 r1 = Some x"
        by (auto simp: bind_eq_Some_conv)
      from good r d have "rng_ok r1" "0 \<le> v1" by blast+
      with IH [OF rest] good show ?thesis by blast
    next
      case False
      with eq r v show ?thesis by auto
    qed
  qed
  with assms show ?thesis by simp
qed

lemma reject_low_ok:
  assumes "reject_low n t pr r = Some (pr', r')" "rng_ok r" "0 < n" "0 \<le> pr" "pr < 2 ^ 32 * n"
  shows "rng_ok r' \<and> 0 \<le> pr' \<and> pr' < 2 ^ 32 * n"
proof -
  have "rng_ok r \<longrightarrow> 0 < n \<longrightarrow> 0 \<le> pr \<longrightarrow> pr < 2 ^ 32 * n \<longrightarrow>
    rng_ok (snd (pr', r')) \<and> 0 \<le> fst (pr', r') \<and> fst (pr', r') < 2 ^ 32 * n"
  proof (rule reject_low.raw_induct [where P = "\<lambda>n t pr r x. rng_ok r \<longrightarrow> 0 < n \<longrightarrow> 0 \<le> pr \<longrightarrow>
      pr < 2 ^ 32 * n \<longrightarrow> rng_ok (snd x) \<and> 0 \<le> fst x \<and> fst x < 2 ^ 32 * n", OF _ assms(1)],
      intro impI)
    fix f :: "int \<Rightarrow> int \<Rightarrow> int \<Rightarrow> rngSource \<Rightarrow> (int \<times> rngSource) option" and n t pr r x
    assume IH: "\<And>n t pr r x. f n t pr r = Some x \<Longrightarrow> rng_ok r \<longrightarrow> 0 < n \<longrightarrow> 0 \<le> pr \<longrightarrow>
        pr < 2 ^ 32 * n \<longrightarrow> rng_ok (snd x) \<and> 0 \<le> fst x \<and> fst x < 2 ^ 32 * n"
      and eq: "(if pr mod 2 ^ 32 < t then do { (v, r) \<leftarrow> Uint32 r; f n t (v * n) r } else Some (pr, r)) = Some x"
      and pre: "rng_ok r" "0 < n" "0 \<le> pr" "pr < 2 ^ 32 * n"
    show "rng_ok (snd x) \<and> 0 \<le> fst x \<and> fst x < 2 ^ 32 * n"
    proof (cases "pr mod 2 ^ 32 < t")
      case True
      obtain v r1 where v: "Uint32 r = Some (v, r1)" "rng_ok r1" "0 \<le> v" "v < 2 ^ 32"
        using Uint32_total [OF pre(1)] by blast
      have "f n t (v * n) r1 = Some x" using eq True v by simp
      from IH [OF this] v pre(2) show ?thesis by (simp add: mult_strict_right_mono)
    next
      case False
      with eq pre show ?thesis by auto
    qed
  qed
  with assms show ?thesis by simp
qed

lemma Int31n_ok:
  assumes "rng_ok r" "Int31n n r = Some (v, r')"
  shows "0 \<le> v \<and> v < n \<and> rng_ok r'"
proof (cases "n AND (n - 1) = 0")
  case True
  obtain w r1 where w: "Int31 r = Some (w, r1)" "rng_ok r1" "0 \<le> w" using Int31_total [OF assms(1)] by blast
  have n: "0 < n" using assms(2) by (auto simp: Int31n_def split: if_splits)
  with True w assms(2) have "v = w AND (n - 1)" "r' = r1" by (simp_all add: Int31n_def)
  with n w show ?thesis using AND_upper2 [of "n - 1" w] by auto
next
  case False
  then obtain w where "v = w mod n" "0 < n" "rng_ok r'"
    using assms Int31_total by (fastforce simp: Int31n_def Let_def bind_eq_Some_conv
        split: if_splits dest!: reject_ok [rotated])
  then show ?thesis by simp
qed

lemma Int63n_ok:
  assumes "rng_ok r" "Int63n n r = Some (v, r')"
  shows "0 \<le> v \<and> v < n \<and> rng_ok r'"
proof (cases "n AND (n - 1) = 0")
  case True
  obtain w r1 where w: "Int63 r = Some (w, r1)" "rng_ok r1" "0 \<le> w" using Int63_total [OF assms(1)] by blast
  have n: "0 < n" using assms(2) by (auto simp: Int63n_def split: if_splits)
  with True w assms(2) have "v = w AND (n - 1)" "r' = r1" by (simp_all add: Int63n_def)
  with n w show ?thesis using AND_upper2 [of "n - 1" w] by auto
next
  case False
  then obtain w where "v = w mod n" "0 < n" "rng_ok r'"
    using assms Int63_total by (fastforce simp: Int63n_def Let_def bind_eq_Some_conv
        split: if_splits dest!: reject_ok [rotated])
  then show ?thesis by simp
qed

lemma int31n_ok:
  assumes "rng_ok r" "0 < n" "int31n n r = Some (v, r')"
  shows "0 \<le> v \<and> v < n \<and> rng_ok r'"
proof -
  obtain w r1 where w: "Uint32 r = Some (w, r1)" "rng_ok r1" "0 \<le> w" "w < 2 ^ 32"
    using Uint32_total [OF assms(1)] by blast
  have pr: "0 \<le> w * n" "w * n < 2 ^ 32 * n"
    using w(3,4) assms(2) by (simp_all add: mult_strict_right_mono)
  have "(if w * n mod 2 ^ 32 < n then reject_low n ((2 ^ 32 - n) mod n) (w * n) r1
      else Some (w * n, r1)) \<bind> (\<lambda>(pr, r). Some (pr div 2 ^ 32, r)) = Some (v, r')"
    using assms(3) w(1) by (simp only: int31n_def Option.bind.simps prod.case Let_def)
  then obtain pr' where pr': "v = pr' div 2 ^ 32"
    and "(if w * n mod 2 ^ 32 < n then reject_low n ((2 ^ 32 - n) mod n) (w * n) r1
      else Some (w * n, r1)) = Some (pr', r')"
    by (auto simp: bind_eq_Some_conv)
  then have "rng_ok r' \<and> 0 \<le> pr' \<and> pr' < 2 ^ 32 * n"
    using w(2) pr reject_low_ok [OF _ w(2) assms(2) pr] by (auto split: if_splits)
  with pr' show ?thesis
    using int_div_less [of "2 ^ 32" pr' n] by (simp add: pos_imp_zdiv_nonneg_iff mult.commute)
qed

lemma Intn_ok:
  assumes "rng_ok r" "Intn n r = Some (v, r')"
  shows "0 \<le> v \<and> v < n \<and> rng_ok r'"
proof (cases "n \<le> 2 ^ 31 - 1")
  case True
  with assms(2) have "Int31n n r = Some (v, r')" by (simp add: Intn_def split: if_splits)
  then show ?thesis by (rule Int31n_ok [OF assms(1)])
next
  case False
  with assms(2) have "Int63n n r = Some (v, r')" by (simp add: Intn_def split: if_splits)
  then show ?thesis by (rule Int63n_ok [OF assms(1)])
qed

section \<open>Schrage's method\<close>

text \<open>\<open>seedrand\<close> computes \<open>48271 * x mod (2^31 - 1)\<close> without leaving 32 bits.\<close>

lemma seedrand_correct:
  assumes "0 < x" "x < int32max"
  shows "seedrand x = 48271 * x mod int32max" "0 < seedrand x" "seedrand x < int32max"
proof -
  define h l where "h = x div 44488" and "l = x mod 44488"
  have x: "x = 44488 * h + l" by (simp add: h_def l_def)
  have l: "0 \<le> l" "l < 44488" by (simp_all add: l_def)
  have h: "0 \<le> h" "h \<le> 48271" using x l assms by (simp_all add: int32max_def)
  define y where "y = 48271 * l - 3399 * h"
  have y: "- int32max < y" "y < int32max" using l h by (simp_all add: int32max_def y_def)
  have eq: "48271 * x = y + h * int32max" by (simp add: x y_def int32max_def)
  have seed: "seedrand x = (if y < 0 then y + int32max else y)"
    by (simp add: seedrand_def Let_def y_def h_def l_def)
  have range: "seedrand x = (48271 * x) mod int32max"
  proof (cases "y < 0")
    case True
    have "48271 * x = (y + int32max) + (h - 1) * int32max"
      using eq by (simp add: algebra_simps)
    then have "48271 * x mod int32max = (y + int32max) mod int32max" by (simp only: mod_mult_self1)
    also have "\<dots> = y + int32max" using True y by (intro mod_pos_pos_trivial) simp_all
    finally show ?thesis using True seed by simp
  next
    case False
    then show ?thesis using y eq seed by simp
  qed
  then show "seedrand x = 48271 * x mod int32max" .
  then show "seedrand x < int32max" by (simp add: int32max_def)
  have "\<not> int32max dvd 48271 * x"
  proof
    assume "int32max dvd 48271 * x"
    then have "int32max dvd 1899818559 * (48271 * x)" by (rule dvd_mult)
    moreover have "x = -42704 * x * int32max + 1899818559 * (48271 * x)" by (simp add: int32max_def)
    ultimately have "int32max dvd x" by (metis dvd_add dvd_triv_right)
    with assms show False by (simp add: zdvd_not_zless)
  qed
  then have "seedrand x \<noteq> 0" using range by (simp add: dvd_eq_mod_eq_0)
  moreover have "0 \<le> seedrand x" using range by (simp add: int32max_def)
  ultimately show "0 < seedrand x" by simp
qed

section \<open>Seeding\<close>

lemma Seed_body_warmup:
  assumes "i < 0" "0 < x" "x < int32max"
  shows "\<exists>y. Seed_body i (x, v) = Some (y, v) \<and> 0 < y \<and> y < int32max"
  using seedrand_correct [OF assms(2,3)] assms(1) by (simp add: Seed_body_def Let_def)

text \<open>One iteration that fills an entry: its low 20 bits are those of the third draw and of the table.\<close>

lemma Seed_body_fill:
  assumes "0 \<le> i" "i < rngLen" "0 < x" "x < int32max" "int (length v) = rngLen"
  shows "\<exists>y u. Seed_body i (x, v) = Some (y, v[nat i := u]) \<and> 0 < y \<and> y < int32max \<and>
    y = 112475747406511 * x mod int32max \<and>
    take_bit 20 u = take_bit 20 (word_of_int y) XOR take_bit 20 (rngCooked ! nat i)"
proof -
  have len: "int (length rngCooked) = rngLen" by (simp add: rngCooked_def rngLen_def)
  note s1 = seedrand_correct [OF assms(3,4)]
  note s2 = seedrand_correct [OF s1(2,3)]
  note s3 = seedrand_correct [OF s2(2,3)]
  let ?y = "seedrand (seedrand (seedrand x))"
  let ?u = "((push_bit 40 (word_of_int (seedrand x)) XOR push_bit 20 (word_of_int (seedrand (seedrand x)))) XOR
    word_of_int ?y) XOR rngCooked ! nat i"
  have run: "Seed_body i (x, v) = Some (?y, v[nat i := ?u])"
    using assms(1,2,5) len by (simp add: Seed_body_def Let_def)
  have "?y = 48271 * (48271 * (48271 * x)) mod int32max"
    by (subst s3(1), subst s2(1), subst s1(1)) (simp only: mod_mult_right_eq)
  then have y: "?y = 112475747406511 * x mod int32max" by simp
  have "take_bit 20 ?u = take_bit 20 (word_of_int ?y) XOR take_bit 20 (rngCooked ! nat i)"
    by (simp add: take_bit_push_bit take_bit_xor)
  with run y s3(2,3) show ?thesis by blast
qed

lemma cooked_low: "take_bit 20 (rngCooked ! 0) = word_of_int 589802" "take_bit 20 (rngCooked ! 1) = word_of_int 417627"
  by (simp_all add: rngCooked_def)

text \<open>
  The first two entries do not both have zero low bits: the two draws that they hold would then be
  known but for their high 11 bits, and no choice of those satisfies the recurrence.
\<close>

lemma first_draws:
  assumes "0 \<le> y" "y < int32max" "y mod 2 ^ 20 = 589802" "112475747406511 * y mod int32max mod 2 ^ 20 = 417627"
  shows False
proof -
  define z where "z = 112475747406511 * y mod int32max"
  define c where "c = 112475747406511 * y div int32max"
  define h where "h = y div 2 ^ 20"
  define g where "g = z div 2 ^ 20"
  have z: "0 \<le> z" "z < int32max" by (simp_all add: z_def int32max_def)
  have y: "y = 589802 + 1048576 * h" using assms(3) mult_div_mod_eq [of "2 ^ 20" y] by (simp add: h_def)
  have zg: "z = 417627 + 1048576 * g" using assms(4) mult_div_mod_eq [of "2 ^ 20" z] by (simp add: g_def z_def)
  have e: "112475747406511 * y = z + 2147483647 * c"
    using mult_div_mod_eq [of int32max "112475747406511 * y"] by (simp add: z_def c_def int32max_def)
  have b: "0 \<le> h" "h < 2048" "0 \<le> g" "g < 2048" using assms(1,2) z y zg by (simp_all add: int32max_def)
  define j where "j = -682885088105047565 + 22106112 * c - 1214063218071221975 * h + 10794 * g"
  have "46807 * h - 10794 * g = 172681715 + 2147483647 * j"
    using e unfolding y zg j_def by (simp add: algebra_simps)
  moreover have "- 22095318 \<le> 46807 * h - 10794 * g" "46807 * h - 10794 * g \<le> 95813929" using b by linarith+
  ultimately show False by (cases "0 \<le> j") linarith+
qed

lemma Seed_ok: "\<exists>r. Seed s = Some r \<and> rng_ok r"
proof -
  let ?start = "replicate (nat rngLen) (0 :: 64 word)"
  let ?s = "sgn s * (\<bar>s\<bar> mod int32max)"
  let ?t = "if ?s < 0 then ?s + int32max else ?s"
  define x where "x = (if ?t = 0 then 89482311 else ?t)"
  have x: "0 < x \<and> x < int32max"
    using pos_mod_sign [of int32max "\<bar>s\<bar>"] pos_mod_bound [of int32max "\<bar>s\<bar>"]
    by (cases s "0 :: int" rule: linorder_cases) (auto simp: x_def int32max_def)
  have up: "[-20..rngLen - 1] = [-20..-1] @ 0 # 1 # [2..rngLen - 1]"
    using upto_split3 [of "-20" 0 "rngLen - 1"] by (simp add: rngLen_def upto_rec1 [of 1])
  have "\<exists>t. go_range Seed_body [-20..-1] (x, ?start) = Some t \<and>
      (\<exists>y. t = (y, ?start) \<and> 0 < y \<and> y < int32max)"
    by (rule go_range_total) (use x Seed_body_warmup in fastforce)+
  then obtain y where y: "go_range Seed_body [-20..-1] (x, ?start) = Some (y, ?start)" "0 < y" "y < int32max" by blast
  have l: "int (length ?start) = rngLen" by (simp add: rngLen_def)
  obtain y0 u0 where y0: "Seed_body 0 (y, ?start) = Some (y0, ?start[nat 0 := u0])" "0 < y0" "y0 < int32max"
    "take_bit 20 u0 = take_bit 20 (word_of_int y0) XOR take_bit 20 (rngCooked ! nat 0)"
    using Seed_body_fill [of 0, OF _ _ y(2,3) l] by (auto simp: rngLen_def)
  have l0: "int (length (?start[nat 0 := u0])) = rngLen" using l by simp
  obtain y1 u1 where y1: "Seed_body 1 (y0, ?start[nat 0 := u0]) = Some (y1, ?start[nat 0 := u0, nat 1 := u1])"
    "0 < y1" "y1 < int32max" "y1 = 112475747406511 * y0 mod int32max"
    "take_bit 20 u1 = take_bit 20 (word_of_int y1) XOR take_bit 20 (rngCooked ! nat 1)"
    using Seed_body_fill [of 1, OF _ _ y0(2,3) l0] by (auto simp: rngLen_def)
  let ?I = "\<lambda>(z, v). 0 < z \<and> z < int32max \<and> int (length v) = rngLen \<and> v ! 0 = u0 \<and> v ! 1 = u1"
  have "\<exists>t. go_range Seed_body [2..rngLen - 1] (y1, ?start[nat 0 := u0, nat 1 := u1]) = Some t \<and> ?I t"
  proof (rule go_range_total [where I = ?I])
    show "?I (y1, ?start[nat 0 := u0, nat 1 := u1])" using l y1(2,3) by (auto simp: rngLen_def)
    fix i t assume "i \<in> set [2..rngLen - 1]" "?I t"
    then show "\<exists>t'. Seed_body i t = Some t' \<and> ?I t'"
      using Seed_body_fill [of i "fst t" "snd t"] by (auto simp: nth_list_update)
  qed
  then obtain z v where z: "go_range Seed_body [2..rngLen - 1] (y1, ?start[nat 0 := u0, nat 1 := u1]) = Some (z, v)"
    and v: "int (length v) = rngLen" "v ! 0 = u0" "v ! 1 = u1" by auto
  have run: "go_range Seed_body [-20..rngLen - 1] (x, ?start) = Some (z, v)"
    unfolding up go_range_append y(1) using y0(1) y1(1) z by simp
  have "Seed s = Some \<lparr>tap = 0, feed = rngLen - rngTap, vec = v\<rparr>"
    by (simp only: Seed_def Let_def x_def [symmetric] run Option.bind.simps prod.case)
  moreover have "live v"
  proof (rule ccontr)
    have mem: "u0 \<in> set v" "u1 \<in> set v" using v nth_mem [of 0 v] nth_mem [of 1 v] by (auto simp: rngLen_def)
    have e: "a XOR b = 0 \<Longrightarrow> a = b" for a b :: "64 word" by (metis xor.assoc xor.left_neutral xor.right_neutral xor_self_eq)
    assume "\<not> live v"
    then have "take_bit 20 u0 = 0" "take_bit 20 u1 = 0" using mem by (auto simp: live_def)
    then have "take_bit 20 (word_of_int y0 :: 64 word) = take_bit 20 (rngCooked ! 0)"
      "take_bit 20 (word_of_int y1 :: 64 word) = take_bit 20 (rngCooked ! 1)"
      using y0(4) y1(5) by (auto dest: e)
    then have "uint (take_bit 20 (word_of_int y0 :: 64 word)) = 589802" "uint (take_bit 20 (word_of_int y1 :: 64 word)) = 417627"
      by (simp_all only: cooked_low) simp_all
    moreover have "uint (take_bit 20 (word_of_int y :: 64 word)) = y mod 2 ^ 20" for y
      by (simp only: unsigned_take_bit_eq) (simp add: take_bit_eq_mod uint_word_of_int mod_mod_cancel)
    ultimately have "y0 mod 2 ^ 20 = 589802" "y1 mod 2 ^ 20 = 417627" by simp_all
    then show False using first_draws [of y0] y0(2,3) y1(4) by simp
  qed
  ultimately show ?thesis using v(1) by (simp add: rng_ok_def rngLen_def rngTap_def)
qed

section \<open>The interface of a draw\<close>

text \<open>
  What the callers of a draw rely on: it leaves the source in a good state and its value lies below
  the bound. The lemmas about shuffles and about picking an element are proved from this only.
\<close>

locale rand_draw =
  fixes draw :: "int \<Rightarrow> 'r \<Rightarrow> (int \<times> 'r) option" and good :: "'r \<Rightarrow> bool"
  assumes draw_bounds: "good r \<Longrightarrow> 0 < n \<Longrightarrow> draw n r = Some (v, r') \<Longrightarrow> 0 \<le> v \<and> v < n"
    and draw_good: "good r \<Longrightarrow> 0 < n \<Longrightarrow> draw n r = Some (v, r') \<Longrightarrow> good r'"
begin

lemma pick_member:
  assumes "good r" "xs \<noteq> []" "draw (int (length xs)) r = Some (i, r')"
  shows "\<exists>x \<in> set xs. go_nth xs i = Some x"
  using draw_bounds [OF assms(1) _ assms(3)] assms(2) by (auto simp: nth_mem)

lemma pick_index:
  assumes "good r" "0 < n" "draw n r = Some (i, r')" "n \<le> int (length xs)"
  shows "go_nth xs i \<noteq> None"
  using draw_bounds [OF assms(1-3)] assms(4) by simp

end

interpretation intn: rand_draw Intn rng_ok
  by unfold_locales (blast dest: Intn_ok)+

interpretation lemire: rand_draw int31n rng_ok
  by unfold_locales (blast dest: int31n_ok)+

interpretation int63n: rand_draw Int63n rng_ok
  by unfold_locales (blast dest: Int63n_ok)+

section \<open>A shuffle is a sequence of swaps\<close>

lemma Shuffle_big_inv:
  assumes "Shuffle_big swap i s r = Some (i', s', r')" "rng_ok r" "I s" "i < n"
    and "\<And>a b s s'. 0 \<le> a \<Longrightarrow> a < n \<Longrightarrow> 0 \<le> b \<Longrightarrow> b \<le> a \<Longrightarrow> I s \<Longrightarrow> swap a b s = Some s' \<Longrightarrow> I s'"
  shows "I s' \<and> rng_ok r' \<and> i' < n"
  using assms
proof (induction swap i s r rule: Shuffle_big.induct)
  case (1 swap i s r)
  show ?case
  proof (cases "i > 2 ^ 31 - 1 - 1")
    case True
    with "1.prems"(1) obtain j r1 s1 where j: "Int63n (i + 1) r = Some (j, r1)"
      and s1: "swap i j s = Some s1" and rest: "Shuffle_big swap (i - 1) s1 r1 = Some (i', s', r')"
      by (subst (asm) Shuffle_big.simps) (auto simp: bind_eq_Some_conv)
    have bounds: "0 \<le> j" "j < i + 1" "rng_ok r1"
      using int63n.draw_bounds [OF _ _ j] int63n.draw_good [OF _ _ j] "1.prems"(2) True by auto
    have "I s1" using "1.prems"(5) [OF _ "1.prems"(4) _ _ "1.prems"(3) s1] bounds True by auto
    then show ?thesis
      by (intro "1.IH" [OF True j refl s1 rest bounds(3) _ _ "1.prems"(5)]) (use "1.prems"(4) in auto)
  next
    case False
    with "1.prems" show ?thesis by (subst (asm) Shuffle_big.simps) auto
  qed
qed

lemma Shuffle_small_inv:
  assumes "Shuffle_small swap i s r = Some (s', r')" "rng_ok r" "I s" "i < n"
    and "\<And>a b s s'. 0 \<le> a \<Longrightarrow> a < n \<Longrightarrow> 0 \<le> b \<Longrightarrow> b \<le> a \<Longrightarrow> I s \<Longrightarrow> swap a b s = Some s' \<Longrightarrow> I s'"
  shows "I s' \<and> rng_ok r'"
  using assms
proof (induction swap i s r rule: Shuffle_small.induct)
  case (1 swap i s r)
  show ?case
  proof (cases "i > 0")
    case True
    with "1.prems"(1) obtain j r1 s1 where j: "int31n (i + 1) r = Some (j, r1)"
      and s1: "swap i j s = Some s1" and rest: "Shuffle_small swap (i - 1) s1 r1 = Some (s', r')"
      by (subst (asm) Shuffle_small.simps) (auto simp: bind_eq_Some_conv)
    have bounds: "0 \<le> j" "j < i + 1" "rng_ok r1"
      using lemire.draw_bounds [OF _ _ j] lemire.draw_good [OF _ _ j] "1.prems"(2) True by auto
    have "I s1" using "1.prems"(5) [OF _ "1.prems"(4) _ _ "1.prems"(3) s1] bounds True by auto
    then show ?thesis
      by (intro "1.IH" [OF True j refl s1 rest bounds(3) _ _ "1.prems"(5)]) (use "1.prems"(4) in auto)
  next
    case False
    with "1.prems" show ?thesis by (subst (asm) Shuffle_small.simps) auto
  qed
qed

lemma Shuffle_inv:
  assumes "Shuffle n swap s r = Some (s', r')" "rng_ok r" "I s"
    and "\<And>a b s s'. 0 \<le> a \<Longrightarrow> a < n \<Longrightarrow> 0 \<le> b \<Longrightarrow> b \<le> a \<Longrightarrow> I s \<Longrightarrow> swap a b s = Some s' \<Longrightarrow> I s'"
  shows "I s' \<and> rng_ok r'"
proof -
  obtain i1 s1 r1 where big: "Shuffle_big swap (n - 1) s r = Some (i1, s1, r1)"
    and small: "Shuffle_small swap i1 s1 r1 = Some (s', r')"
    using assms(1) by (auto simp: Shuffle_def bind_eq_Some_conv split: if_splits)
  have "I s1 \<and> rng_ok r1 \<and> i1 < n"
    by (rule Shuffle_big_inv [where I = I and n = n, OF big assms(2,3) _ assms(4)]) simp
  then show ?thesis
    by (intro Shuffle_small_inv [where I = I and n = n, OF small _ _ _ assms(4)]) auto
qed

text \<open>The exchange of two elements of a slice, as the closures given to \<open>Shuffle\<close> write it.\<close>

definition go_swap :: "int \<Rightarrow> int \<Rightarrow> 'a list \<Rightarrow> 'a list option" where
  "go_swap i j xs = do {
     x \<leftarrow> go_nth xs i;
     y \<leftarrow> go_nth xs j;
     xs \<leftarrow> go_set xs i y;
     go_set xs j x }"

lemma go_swap_mset: "go_swap i j xs = Some ys \<Longrightarrow> mset ys = mset xs"
  by (auto simp: go_swap_def bind_eq_Some_conv go_nth_Some_iff go_set_Some_iff mset_swap)

lemma Shuffle_permutes:
  assumes "Shuffle n go_swap xs r = Some (ys, r')" "rng_ok r"
  shows "mset ys = mset xs"
proof -
  have "mset ys = mset xs \<and> rng_ok r'"
    by (rule Shuffle_inv [where I = "\<lambda>ys. mset ys = mset xs", OF assms]) (simp_all add: go_swap_mset)
  then show ?thesis by blast
qed

end
