(* ===== verification/Go_Sort.thy ===== *)
theory Go_Sort
  imports Go_Rand
begin

text \<open>
  \<open>sort.Slice\<close> as the repository's Go distribution implements it: the pattern-defeating quicksort of
  \<open>src/go/src/sort/zsortfunc.go\<close>. The slice is a list; the \<open>Less\<close> closure of the program reads the
  two elements and compares them, so it is a predicate \<open>lt\<close> on elements, and \<open>Swap\<close> is the checked
  exchange \<^const>\<open>go_swap\<close>. Nothing is assumed of \<open>lt\<close>: with a NaN among the keys it is no order.
\<close>

definition less_at :: "('a \<Rightarrow> 'a \<Rightarrow> bool) \<Rightarrow> 'a list \<Rightarrow> int \<Rightarrow> int \<Rightarrow> bool option" where
  "less_at lt xs i j = do { x \<leftarrow> go_nth xs i; y \<leftarrow> go_nth xs j; Some (lt x y) }"

section \<open>Insertion sort\<close>

function insertion_inner :: "('a \<Rightarrow> 'a \<Rightarrow> bool) \<Rightarrow> int \<Rightarrow> int \<Rightarrow> 'a list \<Rightarrow> 'a list option" where
  "insertion_inner lt a j xs =
     (if j > a then do {
        l \<leftarrow> less_at lt xs j (j - 1);
        if l then do { xs \<leftarrow> go_swap j (j - 1) xs; insertion_inner lt a (j - 1) xs } else Some xs }
      else Some xs)"
  by pat_completeness auto
termination by (relation "measure (\<lambda>(_, a, j, _). nat (j - a))") auto

definition insertionSort_func :: "('a \<Rightarrow> 'a \<Rightarrow> bool) \<Rightarrow> 'a list \<Rightarrow> int \<Rightarrow> int \<Rightarrow> 'a list option" where
  "insertionSort_func lt xs a b = go_range (insertion_inner lt a) [a + 1..b - 1] xs"

section \<open>Heap sort\<close>

text \<open>Positions in the heap are natural numbers; \<open>first\<close> is the offset of its root.\<close>

function siftDown_func :: "('a \<Rightarrow> 'a \<Rightarrow> bool) \<Rightarrow> nat \<Rightarrow> nat \<Rightarrow> int \<Rightarrow> 'a list \<Rightarrow> 'a list option" where
  "siftDown_func lt root hi first xs =
     (let child = 2 * root + 1 in
      if child \<ge> hi then Some xs
      else do {
        l \<leftarrow> (if child + 1 < hi then less_at lt xs (first + int child) (first + int child + 1) else Some False);
        let child = (if l then child + 1 else child);
        l \<leftarrow> less_at lt xs (first + int root) (first + int child);
        if \<not> l then Some xs
        else do {
          xs \<leftarrow> go_swap (first + int root) (first + int child) xs;
          siftDown_func lt child hi first xs } })"
  by pat_completeness auto
termination by (relation "measure (\<lambda>(_, root, hi, _, _). hi - root)") (auto split: if_splits)

definition heapSort_func :: "('a \<Rightarrow> 'a \<Rightarrow> bool) \<Rightarrow> 'a list \<Rightarrow> int \<Rightarrow> int \<Rightarrow> 'a list option" where
  "heapSort_func lt xs a b = do {
     let first = a;
     let hi = nat (b - a);
     xs \<leftarrow> go_range (\<lambda>i xs. siftDown_func lt i hi first xs) (rev [0..<Suc ((hi - 1) div 2)]) xs;
     go_range (\<lambda>i xs. do {
         xs \<leftarrow> go_swap first (first + int i) xs;
         siftDown_func lt 0 i first xs }) (rev [0..<hi]) xs }"

section \<open>Partitions\<close>

text \<open>\<open>for i <= j && p(i) { i++ }\<close> and \<open>for i <= j && p(j) { j-- }\<close>, for a test that may panic.\<close>

function scan_up :: "(int \<Rightarrow> bool option) \<Rightarrow> int \<Rightarrow> int \<Rightarrow> int option" where
  "scan_up p i j =
     (if i \<le> j then do { l \<leftarrow> p i; if l then scan_up p (i + 1) j else Some i } else Some i)"
  by pat_completeness auto
termination by (relation "measure (\<lambda>(_, i, j). nat (j + 1 - i))") auto

function scan_down :: "(int \<Rightarrow> bool option) \<Rightarrow> int \<Rightarrow> int \<Rightarrow> int option" where
  "scan_down p i j =
     (if i \<le> j then do { l \<leftarrow> p j; if l then scan_down p i (j - 1) else Some j } else Some j)"
  by pat_completeness auto
termination by (relation "measure (\<lambda>(_, i, j). nat (j + 1 - i))") auto

declare insertion_inner.simps [simp del] siftDown_func.simps [simp del]
  scan_up.simps [simp del] scan_down.simps [simp del]

lemma scan_up_le: "scan_up p i j = Some i' \<Longrightarrow> i \<le> i' \<and> (i \<le> j + 1 \<longrightarrow> i' \<le> j + 1)"
proof (induction p i j rule: scan_up.induct)
  case (1 p i j)
  then show ?case
    by (subst (asm) (2) scan_up.simps) (fastforce simp: bind_eq_Some_conv split: if_splits)
qed

lemma scan_down_le: "scan_down p i j = Some j' \<Longrightarrow> j' \<le> j \<and> (i \<le> j + 1 \<longrightarrow> i \<le> j' + 1)"
proof (induction p i j rule: scan_down.induct)
  case (1 p i j)
  then show ?case
    by (subst (asm) (2) scan_down.simps) (fastforce simp: bind_eq_Some_conv split: if_splits)
qed

lemma scan_up_stop: "scan_up p i j = Some i' \<Longrightarrow> i' \<le> j \<Longrightarrow> p i' = Some False"
proof (induction p i j rule: scan_up.induct)
  case (1 p i j)
  then show ?case
    by (subst (asm) (2) scan_up.simps) (auto simp: bind_eq_Some_conv split: if_splits)
qed

lemma scan_down_stop: "scan_down p i j = Some j' \<Longrightarrow> i \<le> j' \<Longrightarrow> p j' = Some False"
proof (induction p i j rule: scan_down.induct)
  case (1 p i j)
  then show ?case
    by (subst (asm) (2) scan_down.simps) (auto simp: bind_eq_Some_conv split: if_splits)
qed

text \<open>
  The main loop of both partitions: advance \<open>i\<close> over what belongs left, move \<open>j\<close> down over what
  does not, exchange and go on. The test reads the slice as it is.
\<close>

definition scan_both :: "(int \<Rightarrow> bool option) \<Rightarrow> int \<Rightarrow> int \<Rightarrow> (int \<times> int) option" where
  "scan_both test i j = do {
     i \<leftarrow> scan_up test i j;
     j \<leftarrow> scan_down (\<lambda>k. map_option Not (test k)) i j;
     Some (i, j) }"

lemma scan_both_bounds:
  assumes "scan_both test i j = Some (i', j')" "i \<le> j + 1"
  shows "i \<le> i' \<and> i' \<le> j + 1 \<and> j' \<le> j \<and> i \<le> j' + 1 \<and> i' \<le> j' + 1 \<and> i' \<noteq> j'"
proof -
  from assms(1) have u: "scan_up test i j = Some i'"
    and d: "scan_down (\<lambda>k. map_option Not (test k)) i' j = Some j'"
    by (auto simp: scan_both_def bind_eq_Some_conv)
  have "i' \<noteq> j'"
  proof
    assume eq: "i' = j'"
    then have "i' \<le> j" using scan_down_le [OF d] by simp
    with scan_up_stop [OF u] scan_down_stop [OF d] eq show False by auto
  qed
  then show ?thesis using scan_up_le [OF u] scan_down_le [OF d] assms(2) by auto
qed

function partition_loop ::
  "('a list \<Rightarrow> int \<Rightarrow> bool option) \<Rightarrow> int \<Rightarrow> int \<Rightarrow> 'a list \<Rightarrow> (int \<times> int \<times> 'a list) option" where
  "partition_loop test i j xs = do {
     (i', j') \<leftarrow> scan_both (test xs) i j;
     if i' > j' then Some (i', j', xs)
     else do {
       xs \<leftarrow> go_swap i' j' xs;
       partition_loop test (i' + 1) (j' - 1) xs } }"
  by pat_completeness auto
termination
proof (relation "measure (\<lambda>(_, i, j, _). nat (j + 1 - i))", goal_cases)
  case (2 test i j xs ij i' j' ys)
  then have "scan_up (test xs) i j = Some i'" "scan_down (\<lambda>k. map_option Not (test xs k)) i' j = Some j'"
    by (auto simp: scan_both_def bind_eq_Some_conv)
  from scan_up_le [OF this(1)] scan_down_le [OF this(2)] 2 show ?case by auto
qed simp

declare partition_loop.simps [simp del]

lemma partition_loop_bounds:
  "partition_loop test i j xs = Some (i', j', ys) \<Longrightarrow> i \<le> j + 1 \<Longrightarrow>
     i \<le> i' \<and> i' \<le> j + 1 \<and> j' \<le> j \<and> i \<le> j' + 1"
proof (induction test i j xs rule: partition_loop.induct)
  case (1 test i j xs)
  from "1.prems"(1) obtain i1 j1 where ij: "scan_both (test xs) i j = Some (i1, j1)"
    by (subst (asm) partition_loop.simps) (auto simp: bind_eq_Some_conv)
  note le = scan_both_bounds [OF ij "1.prems"(2)]
  show ?case
  proof (cases "i1 > j1")
    case True
    with "1.prems"(1) ij le show ?thesis by (subst (asm) partition_loop.simps) auto
  next
    case False
    with "1.prems"(1) ij obtain zs where z: "go_swap i1 j1 xs = Some zs"
      and rest: "partition_loop test (i1 + 1) (j1 - 1) zs = Some (i', j', ys)"
      by (subst (asm) partition_loop.simps) (auto simp: bind_eq_Some_conv)
    from "1.IH" [OF ij refl False z rest] le False show ?thesis by auto
  qed
qed

definition partition_func ::
  "('a \<Rightarrow> 'a \<Rightarrow> bool) \<Rightarrow> 'a list \<Rightarrow> int \<Rightarrow> int \<Rightarrow> int \<Rightarrow> (int \<times> bool \<times> 'a list) option" where
  "partition_func lt xs a b pivot = do {
     xs \<leftarrow> go_swap a pivot xs;
     let test = (\<lambda>xs i. less_at lt xs i a);
     (i, j) \<leftarrow> scan_both (test xs) (a + 1) (b - 1);
     if i > j then do { xs \<leftarrow> go_swap j a xs; Some (j, True, xs) }
     else do {
       xs \<leftarrow> go_swap i j xs;
       (i, j, xs) \<leftarrow> partition_loop test (i + 1) (j - 1) xs;
       xs \<leftarrow> go_swap j a xs;
       Some (j, False, xs) } }"

definition partitionEqual_func ::
  "('a \<Rightarrow> 'a \<Rightarrow> bool) \<Rightarrow> 'a list \<Rightarrow> int \<Rightarrow> int \<Rightarrow> int \<Rightarrow> (int \<times> 'a list) option" where
  "partitionEqual_func lt xs a b pivot = do {
     xs \<leftarrow> go_swap a pivot xs;
     (i, j, xs) \<leftarrow> partition_loop (\<lambda>xs i. map_option Not (less_at lt xs a i)) (a + 1) (b - 1) xs;
     Some (i, xs) }"

lemma partition_func_bounds:
  assumes "partition_func lt xs a b pivot = Some (mid, al, ys)" "a < b"
  shows "a \<le> mid \<and> mid < b"
proof -
  let ?test = "\<lambda>xs i. less_at lt xs i a"
  from assms(1) obtain zs i j where ij: "scan_both (?test zs) (a + 1) (b - 1) = Some (i, j)"
    and rest: "(if i > j then do { xs \<leftarrow> go_swap j a zs; Some (j, True, xs) }
     else do {
       xs \<leftarrow> go_swap i j zs;
       (i, j, xs) \<leftarrow> partition_loop ?test (i + 1) (j - 1) xs;
       xs \<leftarrow> go_swap j a xs;
       Some (j, False, xs) }) = Some (mid, al, ys)"
    by (auto simp: partition_func_def bind_eq_Some_conv Let_def)
  have le: "a + 1 \<le> i" "i \<le> b" "j \<le> b - 1" "i \<le> j + 1" "i \<noteq> j"
    using scan_both_bounds [OF ij] assms(2) by auto
  show ?thesis
  proof (cases "i > j")
    case True
    with rest le show ?thesis by (auto simp: bind_eq_Some_conv)
  next
    case False
    with rest obtain us i' vs where "partition_loop ?test (i + 1) (j - 1) us = Some (i', mid, vs)"
      by (auto simp: bind_eq_Some_conv)
    from partition_loop_bounds [OF this] False le show ?thesis by auto
  qed
qed

lemma partitionEqual_func_bounds:
  assumes "partitionEqual_func lt xs a b pivot = Some (mid, ys)" "a < b"
  shows "a < mid \<and> mid \<le> b"
proof -
  from assms(1) obtain test zs j where "partition_loop test (a + 1) (b - 1) zs = Some (mid, j, ys)"
    by (auto simp: partitionEqual_func_def bind_eq_Some_conv)
  from partition_loop_bounds [OF this] assms(2) show ?thesis by auto
qed

section \<open>Partial insertion sort\<close>

function shift_left :: "('a \<Rightarrow> 'a \<Rightarrow> bool) \<Rightarrow> int \<Rightarrow> 'a list \<Rightarrow> 'a list option" where
  "shift_left lt j xs =
     (if j \<ge> 1 then do {
        l \<leftarrow> less_at lt xs j (j - 1);
        if \<not> l then Some xs else do { xs \<leftarrow> go_swap j (j - 1) xs; shift_left lt (j - 1) xs } }
      else Some xs)"
  by pat_completeness auto
termination by (relation "measure (\<lambda>(_, j, _). nat j)") auto

function shift_right :: "('a \<Rightarrow> 'a \<Rightarrow> bool) \<Rightarrow> int \<Rightarrow> int \<Rightarrow> 'a list \<Rightarrow> 'a list option" where
  "shift_right lt b j xs =
     (if j < b then do {
        l \<leftarrow> less_at lt xs j (j - 1);
        if \<not> l then Some xs else do { xs \<leftarrow> go_swap j (j - 1) xs; shift_right lt b (j + 1) xs } }
      else Some xs)"
  by pat_completeness auto
termination by (relation "measure (\<lambda>(_, b, j, _). nat (b - j))") auto

declare shift_left.simps [simp del] shift_right.simps [simp del]

text \<open>The loop over \<open>j < maxSteps\<close>, with the number of steps that are left.\<close>

fun partial_steps ::
  "('a \<Rightarrow> 'a \<Rightarrow> bool) \<Rightarrow> int \<Rightarrow> int \<Rightarrow> nat \<Rightarrow> int \<Rightarrow> 'a list \<Rightarrow> (bool \<times> 'a list) option" where
  "partial_steps lt a b 0 i xs = Some (False, xs)"
| "partial_steps lt a b (Suc n) i xs = do {
     i \<leftarrow> scan_up (\<lambda>i. map_option Not (less_at lt xs i (i - 1))) i (b - 1);
     if i = b then Some (True, xs)
     else if b - a < 50 then Some (False, xs)
     else do {
       xs \<leftarrow> go_swap i (i - 1) xs;
       xs \<leftarrow> (if i - a \<ge> 2 then shift_left lt (i - 1) xs else Some xs);
       xs \<leftarrow> (if b - i \<ge> 2 then shift_right lt b (i + 1) xs else Some xs);
       partial_steps lt a b n i xs } }"

definition partialInsertionSort_func ::
  "('a \<Rightarrow> 'a \<Rightarrow> bool) \<Rightarrow> 'a list \<Rightarrow> int \<Rightarrow> int \<Rightarrow> (bool \<times> 'a list) option" where
  "partialInsertionSort_func lt xs a b = partial_steps lt a b 5 (a + 1) xs"

section \<open>Breaking patterns\<close>

definition xorshift_Next :: "64 word \<Rightarrow> 64 word" where
  "xorshift_Next r =
     (let r = r XOR push_bit 13 r; r = r XOR drop_bit 7 r; r = r XOR push_bit 17 r in r)"

text \<open>The entries of \<open>len8tab\<close> are the bit lengths of the bytes.\<close>

fun len8tab :: "nat \<Rightarrow> int" where
  "len8tab x = (if x = 0 then 0 else 1 + len8tab (x div 2))"

declare len8tab.simps [simp del]

definition Len64 :: "64 word \<Rightarrow> int" where
  "Len64 x =
     (let (x, n) = (if x \<ge> 2 ^ 32 then (drop_bit 32 x, 32) else (x, 0));
          (x, n) = (if x \<ge> 2 ^ 16 then (drop_bit 16 x, n + 16) else (x, n));
          (x, n) = (if x \<ge> 2 ^ 8 then (drop_bit 8 x, n + 8) else (x, n))
      in n + len8tab (unat (take_bit 8 x)))"

definition nextPowerOfTwo :: "int \<Rightarrow> 64 word" where
  "nextPowerOfTwo len = push_bit (nat (Len64 (word_of_int len))) 1"

definition breakPatterns_func :: "'a list \<Rightarrow> int \<Rightarrow> int \<Rightarrow> 'a list option" where
  "breakPatterns_func xs a b = do {
     let len = b - a;
     if len \<ge> 8 then do {
       let modulus = nextPowerOfTwo len;
       (_, xs) \<leftarrow> go_range (\<lambda>idx (random, xs). do {
           let random = xorshift_Next random;
           let other = uint (random AND (modulus - 1));
           let other = (if other \<ge> len then other - len else other);
           xs \<leftarrow> go_swap idx (a + other) xs;
           Some (random, xs) })
         [a + len div 4 * 2 - 1..a + len div 4 * 2 + 1] (word_of_int len, xs);
       Some xs }
     else Some xs }"

section \<open>The pivot\<close>

datatype sortedHint = unknownHint | increasingHint | decreasingHint

definition order2_func :: "('a \<Rightarrow> 'a \<Rightarrow> bool) \<Rightarrow> 'a list \<Rightarrow> int \<Rightarrow> int \<Rightarrow> int \<Rightarrow> (int \<times> int \<times> int) option" where
  "order2_func lt xs a b swaps = do {
     l \<leftarrow> less_at lt xs b a;
     if l then Some (b, a, swaps + 1) else Some (a, b, swaps) }"

definition median_func ::
  "('a \<Rightarrow> 'a \<Rightarrow> bool) \<Rightarrow> 'a list \<Rightarrow> int \<Rightarrow> int \<Rightarrow> int \<Rightarrow> int \<Rightarrow> (int \<times> int) option" where
  "median_func lt xs a b c swaps = do {
     (a, b, swaps) \<leftarrow> order2_func lt xs a b swaps;
     (b, c, swaps) \<leftarrow> order2_func lt xs b c swaps;
     (a, b, swaps) \<leftarrow> order2_func lt xs a b swaps;
     Some (b, swaps) }"

definition medianAdjacent_func ::
  "('a \<Rightarrow> 'a \<Rightarrow> bool) \<Rightarrow> 'a list \<Rightarrow> int \<Rightarrow> int \<Rightarrow> (int \<times> int) option" where
  "medianAdjacent_func lt xs a swaps = median_func lt xs (a - 1) a (a + 1) swaps"

definition choosePivot_func ::
  "('a \<Rightarrow> 'a \<Rightarrow> bool) \<Rightarrow> 'a list \<Rightarrow> int \<Rightarrow> int \<Rightarrow> (int \<times> sortedHint) option" where
  "choosePivot_func lt xs a b = do {
     let l = b - a;
     let swaps = 0;
     let i = a + l div 4 * 1;
     let j = a + l div 4 * 2;
     let k = a + l div 4 * 3;
     (j, swaps) \<leftarrow> (if l \<ge> 8 then do {
         (i, j, k, swaps) \<leftarrow> (if l \<ge> 50 then do {
             (i, swaps) \<leftarrow> medianAdjacent_func lt xs i swaps;
             (j, swaps) \<leftarrow> medianAdjacent_func lt xs j swaps;
             (k, swaps) \<leftarrow> medianAdjacent_func lt xs k swaps;
             Some (i, j, k, swaps) }
           else Some (i, j, k, swaps));
         median_func lt xs i j k swaps }
       else Some (j, swaps));
     Some (j, if swaps = 0 then increasingHint else if swaps = 4 * 3 then decreasingHint else unknownHint) }"

function reverseRange_loop :: "int \<Rightarrow> int \<Rightarrow> 'a list \<Rightarrow> 'a list option" where
  "reverseRange_loop i j xs =
     (if i < j then do { xs \<leftarrow> go_swap i j xs; reverseRange_loop (i + 1) (j - 1) xs } else Some xs)"
  by pat_completeness auto
termination by (relation "measure (\<lambda>(i, j, _). nat (j - i))") auto

declare reverseRange_loop.simps [simp del]

definition reverseRange_func :: "'a list \<Rightarrow> int \<Rightarrow> int \<Rightarrow> 'a list option" where
  "reverseRange_func xs a b = reverseRange_loop a (b - 1) xs"

section \<open>The driver\<close>

text \<open>
  One round of the loop of \<open>pdqsort_func\<close> up to the partition: break the patterns of an unbalanced
  slice, choose the pivot, reverse a descending slice, and return early when the slice was almost
  sorted. \<open>Inl\<close> is that return, \<open>Inr\<close> the pivot and the limit to go on with.
\<close>

definition pdq_prepare ::
  "('a \<Rightarrow> 'a \<Rightarrow> bool) \<Rightarrow> int \<Rightarrow> int \<Rightarrow> int \<Rightarrow> bool \<Rightarrow> bool \<Rightarrow> 'a list \<Rightarrow> ('a list + int \<times> int \<times> 'a list) option" where
  "pdq_prepare lt a b limit wasBalanced wasPartitioned xs = do {
     (limit, xs) \<leftarrow> (if \<not> wasBalanced then do { xs \<leftarrow> breakPatterns_func xs a b; Some (limit - 1, xs) }
       else Some (limit, xs));
     (pivot, hint) \<leftarrow> choosePivot_func lt xs a b;
     (pivot, hint, xs) \<leftarrow> (if hint = decreasingHint then do {
         xs \<leftarrow> reverseRange_func xs a b;
         Some ((b - 1) - (pivot - a), increasingHint, xs) }
       else Some (pivot, hint, xs));
     if wasBalanced \<and> wasPartitioned \<and> hint = increasingHint then do {
       (sorted, xs) \<leftarrow> partialInsertionSort_func lt xs a b;
       Some (if sorted then Inl xs else Inr (pivot, limit, xs)) }
     else Some (Inr (pivot, limit, xs)) }"

text \<open>\<open>a > 0 && !data.Less(a-1, pivot)\<close>\<close>

definition pdq_equal :: "('a \<Rightarrow> 'a \<Rightarrow> bool) \<Rightarrow> 'a list \<Rightarrow> int \<Rightarrow> int \<Rightarrow> bool option" where
  "pdq_equal lt xs a pivot = (if a > 0 then map_option Not (less_at lt xs (a - 1) pivot) else Some False)"

lemmas bind_cong_rule [fundef_cong] = bind_option_cong

function pdqsort_func ::
  "('a \<Rightarrow> 'a \<Rightarrow> bool) \<Rightarrow> int \<Rightarrow> int \<Rightarrow> int \<Rightarrow> bool \<Rightarrow> bool \<Rightarrow> 'a list \<Rightarrow> 'a list option" where
  "pdqsort_func lt a b limit wasBalanced wasPartitioned xs =
     (if b - a \<le> 12 then insertionSort_func lt xs a b
      else if limit = 0 then heapSort_func lt xs a b
      else do {
        r \<leftarrow> pdq_prepare lt a b limit wasBalanced wasPartitioned xs;
        case r of Inl xs \<Rightarrow> Some xs
        | Inr (pivot, limit, xs) \<Rightarrow> do {
            eq \<leftarrow> pdq_equal lt xs a pivot;
            if eq then do {
              (mid, xs) \<leftarrow> partitionEqual_func lt xs a b pivot;
              pdqsort_func lt mid b limit wasBalanced wasPartitioned xs }
            else do {
              (mid, already, xs) \<leftarrow> partition_func lt xs a b pivot;
              if mid - a < b - mid then do {
                xs \<leftarrow> pdqsort_func lt a mid limit True True xs;
                pdqsort_func lt (mid + 1) b limit (mid - a \<ge> (b - a) div 8) already xs }
              else do {
                xs \<leftarrow> pdqsort_func lt (mid + 1) b limit True True xs;
                pdqsort_func lt a mid limit (b - mid \<ge> (b - a) div 8) already xs } } } })"
  by pat_completeness auto
termination
  by (relation "measure (\<lambda>(_, a, b, _). nat (b - a))")
    (auto dest!: partition_func_bounds partitionEqual_func_bounds)

declare pdqsort_func.simps [simp del]

definition Slice :: "('a \<Rightarrow> 'a \<Rightarrow> bool) \<Rightarrow> 'a list \<Rightarrow> 'a list option" where
  "Slice lt xs =
     (let len = int (length xs); limit = Len64 (word_of_int len)
      in pdqsort_func lt 0 len limit True True xs)"

section \<open>Every routine permutes the slice and never panics\<close>

text \<open>\<open>permuted xs r\<close>: the call returned, with a permutation of \<open>xs\<close>.\<close>

definition permuted :: "'a list \<Rightarrow> 'a list option \<Rightarrow> bool" where
  "permuted xs r \<longleftrightarrow> (\<exists>ys. r = Some ys \<and> mset ys = mset xs)"

lemma permuted_Some [simp]: "permuted xs (Some ys) \<longleftrightarrow> mset ys = mset xs"
  by (auto simp: permuted_def)

lemma permuted_bind:
  assumes "permuted xs r"
    and "\<And>ys. r = Some ys \<Longrightarrow> mset ys = mset xs \<Longrightarrow> length ys = length xs \<Longrightarrow> permuted ys (f ys)"
  shows "permuted xs (do { ys \<leftarrow> r; f ys })"
  using assms by (force simp: permuted_def dest: mset_eq_length)

lemma permuted_swap:
  assumes "0 \<le> i" "i < int (length xs)" "0 \<le> j" "j < int (length xs)"
  shows "permuted xs (go_swap i j xs)"
proof -
  obtain ys where ys: "go_swap i j xs = Some ys" using assms by (auto simp: go_swap_def)
  then show ?thesis by (simp add: go_swap_mset)
qed

lemma permuted_range:
  assumes "\<And>i ys. i \<in> set is \<Longrightarrow> mset ys = mset xs \<Longrightarrow> length ys = length xs \<Longrightarrow> permuted ys (f i ys)"
  shows "permuted xs (go_range f is xs)"
proof -
  have "\<exists>t. go_range f is xs = Some t \<and> mset t = mset xs"
    using assms by (intro go_range_total) (force simp: permuted_def dest: mset_eq_length)+
  then show ?thesis by (simp add: permuted_def)
qed

lemma less_at_in [simp]:
  "0 \<le> i \<Longrightarrow> i < int (length xs) \<Longrightarrow> 0 \<le> j \<Longrightarrow> j < int (length xs) \<Longrightarrow>
     less_at lt xs i j = Some (lt (xs ! nat i) (xs ! nat j))"
  by (simp add: less_at_def)

lemma permuted_insertion_inner:
  "0 \<le> a \<Longrightarrow> j < int (length xs) \<Longrightarrow> permuted xs (insertion_inner lt a j xs)"
proof (induction lt a j xs rule: insertion_inner.induct)
  case (1 lt a j xs)
  then show ?case
    by (subst insertion_inner.simps) (auto intro!: permuted_bind [OF permuted_swap])
qed

lemma permuted_insertionSort:
  "0 \<le> a \<Longrightarrow> b \<le> int (length xs) \<Longrightarrow> permuted xs (insertionSort_func lt xs a b)"
  unfolding insertionSort_func_def by (intro permuted_range permuted_insertion_inner) auto

lemma permuted_siftDown:
  "0 \<le> first \<Longrightarrow> first + int hi \<le> int (length xs) \<Longrightarrow> permuted xs (siftDown_func lt root hi first xs)"
proof (induction lt root hi first xs rule: siftDown_func.induct)
  case (1 lt root hi first xs)
  show ?case
  proof (cases "2 * root + 1 < hi")
    case True
    let ?l = "if 2 * root + 1 + 1 < hi then less_at lt xs (first + int (2 * root + 1)) (first + int (2 * root + 1) + 1)
      else Some False"
    obtain l where l: "?l = Some l" using True 1 by (cases "2 * root + 1 + 1 < hi") auto
    let ?c = "if l then 2 * root + 1 + 1 else 2 * root + 1"
    have c: "?c < hi" using True l by (auto split: if_splits)
    then obtain l2 where l2: "less_at lt xs (first + int root) (first + int ?c) = Some l2" using True 1 by auto
    have "l2 \<Longrightarrow> permuted xs (do { xs \<leftarrow> go_swap (first + int root) (first + int ?c) xs;
        siftDown_func lt ?c hi first xs })"
      using 1(1) [OF refl _ l refl l2] True c 1(2,3) by (auto intro!: permuted_bind [OF permuted_swap])
    with True l l2 show ?thesis by (subst siftDown_func.simps) (simp only: Let_def, auto)
  qed (subst siftDown_func.simps, simp)
qed

lemma permuted_heapSort:
  assumes "0 \<le> a" "a \<le> b" "b \<le> int (length xs)"
  shows "permuted xs (heapSort_func lt xs a b)"
  unfolding heapSort_func_def Let_def using assms
  by (intro permuted_bind permuted_range permuted_siftDown permuted_swap) auto

lemma scan_up_total:
  "(\<And>k. i \<le> k \<Longrightarrow> k \<le> j \<Longrightarrow> p k \<noteq> None) \<Longrightarrow> \<exists>i'. scan_up p i j = Some i'"
proof (induction p i j rule: scan_up.induct)
  case (1 p i j)
  show ?case
  proof (cases "i \<le> j")
    case True
    then obtain l where l: "p i = Some l" using "1.prems" by force
    show ?thesis
    proof (cases l)
      case True
      with l \<open>i \<le> j\<close> "1.prems" have "\<exists>k. scan_up p (i + 1) j = Some k" by (intro "1.IH") auto
      with True l \<open>i \<le> j\<close> show ?thesis by (subst scan_up.simps) simp
    qed (use l \<open>i \<le> j\<close> in \<open>subst scan_up.simps, simp\<close>)
  qed (subst scan_up.simps, simp)
qed

lemma scan_down_total:
  "(\<And>k. i \<le> k \<Longrightarrow> k \<le> j \<Longrightarrow> p k \<noteq> None) \<Longrightarrow> \<exists>j'. scan_down p i j = Some j'"
proof (induction p i j rule: scan_down.induct)
  case (1 p i j)
  show ?case
  proof (cases "i \<le> j")
    case True
    then obtain l where l: "p j = Some l" using "1.prems" by force
    show ?thesis
    proof (cases l)
      case True
      with l \<open>i \<le> j\<close> "1.prems" have "\<exists>k. scan_down p i (j - 1) = Some k" by (intro "1.IH") auto
      with True l \<open>i \<le> j\<close> show ?thesis by (subst scan_down.simps) simp
    qed (use l \<open>i \<le> j\<close> in \<open>subst scan_down.simps, simp\<close>)
  qed (subst scan_down.simps, simp)
qed

lemma scan_both_total:
  assumes "\<And>k. i \<le> k \<Longrightarrow> k \<le> j \<Longrightarrow> test k \<noteq> None"
  shows "\<exists>i' j'. scan_both test i j = Some (i', j')"
proof -
  obtain i' where i': "scan_up test i j = Some i'" using scan_up_total [of i j test] assms by auto
  then have "i \<le> i'" using scan_up_le by blast
  then obtain j' where "scan_down (\<lambda>k. map_option Not (test k)) i' j = Some j'"
    using scan_down_total [of i' j "\<lambda>k. map_option Not (test k)"] assms by force
  with i' show ?thesis by (simp add: scan_both_def)
qed

lemma partition_loop_permuted:
  assumes "\<And>k ys. length ys = length xs \<Longrightarrow> 0 \<le> k \<Longrightarrow> k < int (length ys) \<Longrightarrow> test ys k \<noteq> None"
    and "0 \<le> i" "j < int (length xs)" "i \<le> j + 1"
  shows "\<exists>i' j' ys. partition_loop test i j xs = Some (i', j', ys) \<and> mset ys = mset xs"
  using assms
proof (induction test i j xs rule: partition_loop.induct)
  case (1 test i j xs)
  obtain i1 j1 where ij: "scan_both (test xs) i j = Some (i1, j1)"
    using scan_both_total [of i j "test xs"] "1.prems" by fastforce
  note le = scan_both_bounds [OF ij "1.prems"(4)]
  show ?case
  proof (cases "i1 > j1")
    case True
    with ij show ?thesis by (subst partition_loop.simps) simp
  next
    case False
    have "permuted xs (go_swap i1 j1 xs)" using False le "1.prems" by (intro permuted_swap) auto
    then obtain zs where z: "go_swap i1 j1 xs = Some zs" and m: "mset zs = mset xs" by (auto simp: permuted_def)
    have "length zs = length xs" using m by (rule mset_eq_length)
    then have "\<exists>i' j' ys. partition_loop test (i1 + 1) (j1 - 1) zs = Some (i', j', ys) \<and> mset ys = mset zs"
      using False le "1.prems" by (intro "1.IH" [OF ij refl False z]) auto
    with False ij z m show ?thesis by (subst partition_loop.simps) auto
  qed
qed

lemma partition_func_permuted:
  assumes "0 \<le> a" "b \<le> int (length xs)" "a \<le> pivot" "pivot < b"
  shows "\<exists>mid al ys. partition_func lt xs a b pivot = Some (mid, al, ys) \<and> mset ys = mset xs"
proof -
  let ?test = "\<lambda>xs i. less_at lt xs i a"
  obtain zs where z: "go_swap a pivot xs = Some zs" and m: "mset zs = mset xs"
    using permuted_swap [of a xs pivot] assms by (auto simp: permuted_def)
  have len: "length zs = length xs" using m by (rule mset_eq_length)
  obtain i j where ij: "scan_both (?test zs) (a + 1) (b - 1) = Some (i, j)"
    using scan_both_total [of "a + 1" "b - 1" "?test zs"] assms len by fastforce
  have le: "a + 1 \<le> i" "i \<le> b" "j \<le> b - 1" "a \<le> j" "i \<le> j + 1" "i \<noteq> j"
    using scan_both_bounds [OF ij] assms by auto
  show ?thesis
  proof (cases "i > j")
    case True
    have "permuted zs (go_swap j a zs)" using le assms len by (intro permuted_swap) auto
    with True z ij m show ?thesis by (auto simp: partition_func_def permuted_def)
  next
    case False
    obtain us where u: "go_swap i j zs = Some us" and mu: "mset us = mset zs"
      using permuted_swap [of i zs j] le assms len False by (auto simp: permuted_def)
    have lu: "length us = length xs" using mset_eq_length [OF mu] len by simp
    obtain i2 j2 vs where p: "partition_loop ?test (i + 1) (j - 1) us = Some (i2, j2, vs)" and mv: "mset vs = mset us"
      using partition_loop_permuted [of us ?test "i + 1" "j - 1"] le False assms lu by fastforce
    have lv: "length vs = length xs" using mset_eq_length [OF mv] lu by simp
    have "permuted vs (go_swap j2 a vs)"
      using partition_loop_bounds [OF p] le False assms lv by (intro permuted_swap) auto
    with False z ij u p m mu mv show ?thesis by (auto simp: partition_func_def permuted_def)
  qed
qed

lemma partitionEqual_func_permuted:
  assumes "0 \<le> a" "b \<le> int (length xs)" "a \<le> pivot" "pivot < b"
  shows "\<exists>mid ys. partitionEqual_func lt xs a b pivot = Some (mid, ys) \<and> mset ys = mset xs"
proof -
  let ?test = "\<lambda>xs i. map_option Not (less_at lt xs a i)"
  obtain zs where z: "go_swap a pivot xs = Some zs" and m: "mset zs = mset xs"
    using permuted_swap [of a xs pivot] assms by (auto simp: permuted_def)
  have len: "length zs = length xs" using m by (rule mset_eq_length)
  obtain i2 j2 vs where "partition_loop ?test (a + 1) (b - 1) zs = Some (i2, j2, vs)" "mset vs = mset zs"
    using partition_loop_permuted [of zs ?test "a + 1" "b - 1"] assms len by fastforce
  with z m show ?thesis by (simp add: partitionEqual_func_def)
qed

lemma permuted_shift_left:
  "j < int (length xs) \<Longrightarrow> permuted xs (shift_left lt j xs)"
proof (induction lt j xs rule: shift_left.induct)
  case (1 lt j xs)
  then show ?case by (subst shift_left.simps) (auto intro!: permuted_bind [OF permuted_swap])
qed

lemma permuted_shift_right:
  "1 \<le> j \<Longrightarrow> b \<le> int (length xs) \<Longrightarrow> permuted xs (shift_right lt b j xs)"
proof (induction lt b j xs rule: shift_right.induct)
  case (1 lt b j xs)
  then show ?case by (subst shift_right.simps) (auto intro!: permuted_bind [OF permuted_swap])
qed

lemma partial_steps_permuted:
  "0 \<le> a \<Longrightarrow> a < i \<Longrightarrow> i \<le> b \<Longrightarrow> b \<le> int (length xs) \<Longrightarrow>
     \<exists>s ys. partial_steps lt a b n i xs = Some (s, ys) \<and> mset ys = mset xs"
proof (induction n arbitrary: i xs)
  case 0
  then show ?case by auto
next
  case (Suc n)
  let ?p = "\<lambda>i. map_option Not (less_at lt xs i (i - 1))"
  obtain k where k: "scan_up ?p i (b - 1) = Some k"
    using scan_up_total [of i "b - 1" ?p] Suc.prems by fastforce
  have le: "i \<le> k" "k \<le> b" using scan_up_le [OF k] Suc.prems by auto
  let ?rest = "do { xs \<leftarrow> go_swap k (k - 1) xs;
       xs \<leftarrow> (if k - a \<ge> 2 then shift_left lt (k - 1) xs else Some xs);
       (if b - k \<ge> 2 then shift_right lt b (k + 1) xs else Some xs) }"
  have "k \<noteq> b \<Longrightarrow> permuted xs ?rest"
    using le Suc.prems
    by (intro permuted_bind permuted_swap) (auto intro: permuted_shift_left permuted_shift_right)
  then have "k \<noteq> b \<Longrightarrow> \<exists>zs. ?rest = Some zs \<and> mset zs = mset xs" by (simp add: permuted_def)
  moreover have "\<exists>s ys. partial_steps lt a b n k zs = Some (s, ys) \<and> mset ys = mset xs"
    if "mset zs = mset xs" for zs
    using Suc.IH [of k zs] that le Suc.prems mset_eq_length [OF that] by auto
  ultimately show ?case using k by (fastforce simp: bind_eq_Some_conv)
qed

section \<open>Bit lengths and the pivot\<close>

lemma len8tab_shift: "2 ^ k \<le> n \<Longrightarrow> len8tab n = int k + len8tab (n div 2 ^ k)"
proof (induction k arbitrary: n)
  case (Suc k)
  have "n \<noteq> 0" using Suc.prems by (metis le_zero_eq power_not_zero zero_neq_numeral)
  then have "len8tab n = 1 + len8tab (n div 2)" by (simp add: len8tab.simps [of n])
  also have "len8tab (n div 2) = int k + len8tab (n div 2 div 2 ^ k)"
    using Suc.prems by (intro Suc.IH) (simp add: less_eq_div_iff_mult_less_eq mult.commute)
  finally show ?case by (simp add: div_mult2_eq)
qed simp

lemma len8tab_bounds: "0 < n \<Longrightarrow> \<exists>k. len8tab n = int (Suc k) \<and> 2 ^ k \<le> n \<and> n < 2 ^ Suc k"
proof (induction n rule: len8tab.induct)
  case (1 n)
  show ?case
  proof (cases "n = 1")
    case True
    then show ?thesis by (intro exI [of _ 0]) (simp add: len8tab.simps)
  next
    case False
    with 1 obtain k where "len8tab (n div 2) = int (Suc k)" "2 ^ k \<le> n div 2" "n div 2 < 2 ^ Suc k" by auto
    with 1 show ?thesis by (intro exI [of _ "Suc k"]) (auto simp: len8tab.simps [of n])
  qed
qed

lemma len8tab_skip:
  "(if 2 ^ k \<le> n then len8tab (n div 2 ^ k) + int k else len8tab n) = len8tab n"
  using len8tab_shift [of k n] by simp

lemma Len64_len8tab: "Len64 x = len8tab (unat x)"
proof -
  define n where "n = unat x"
  define n1 where "n1 = (if 2 ^ 32 \<le> n then n div 2 ^ 32 else n)"
  define n2 where "n2 = (if 2 ^ 16 \<le> n1 then n1 div 2 ^ 16 else n1)"
  define n3 where "n3 = (if 2 ^ 8 \<le> n2 then n2 div 2 ^ 8 else n2)"
  have n: "n < 2 ^ 64" by (simp add: n_def del: power_numeral)
  have n1: "n1 < 2 ^ 32" using n by (simp add: n1_def less_mult_imp_div_less)
  have n2: "n2 < 2 ^ 16" using n1 by (simp add: n2_def less_mult_imp_div_less)
  have n3: "n3 < 2 ^ 8" using n2 by (simp add: n3_def less_mult_imp_div_less)
  define x1 where "x1 = (if x \<ge> 2 ^ 32 then drop_bit 32 x else x)"
  define x2 where "x2 = (if x1 \<ge> 2 ^ 16 then drop_bit 16 x1 else x1)"
  define x3 where "x3 = (if x2 \<ge> 2 ^ 8 then drop_bit 8 x2 else x2)"
  have x1: "unat x1 = n1" by (simp add: x1_def n1_def n_def word_le_nat_alt unat_drop_bit_64)
  have x2: "unat x2 = n2" using x1 by (simp add: x2_def n2_def word_le_nat_alt unat_drop_bit_64)
  have x3: "unat x3 = n3" using x2 by (simp add: x3_def n3_def word_le_nat_alt unat_drop_bit_64)
  have "Len64 x = (if x \<ge> 2 ^ 32 then 32 else 0) + (if x1 \<ge> 2 ^ 16 then 16 else 0)
      + (if x2 \<ge> 2 ^ 8 then 8 else 0) + len8tab (unat (take_bit 8 x3))"
    by (simp add: Len64_def x1_def x2_def x3_def split: if_split)
  also have "unat (take_bit 8 x3) = n3" using n3 x3 by (simp add: unat_take_bit_64)
  also have "(if x \<ge> 2 ^ 32 then 32 else 0) = (if 2 ^ 32 \<le> n then 32 else (0 :: int))"
    by (simp add: n_def word_le_nat_alt)
  also have "(if x1 \<ge> 2 ^ 16 then 16 else 0) = (if 2 ^ 16 \<le> n1 then 16 else (0 :: int))"
    using x1 by (simp add: word_le_nat_alt)
  also have "(if x2 \<ge> 2 ^ 8 then 8 else 0) = (if 2 ^ 8 \<le> n2 then 8 else (0 :: int))"
    using x2 by (simp add: word_le_nat_alt)
  also have "(if 2 ^ 32 \<le> n then 32 else 0) + (if 2 ^ 16 \<le> n1 then 16 else 0)
      + (if 2 ^ 8 \<le> n2 then 8 else 0) + len8tab n3 = len8tab n"
    using len8tab_skip [of 8 n2] len8tab_skip [of 16 n1] len8tab_skip [of 32 n]
    by (simp add: n3_def n2_def n1_def split: if_splits)
  finally show ?thesis by (simp add: n_def)
qed

text \<open>The modulus of \<open>breakPatterns_func\<close> is the next power of two, so one subtraction brings the
  random offset back into the slice.\<close>

lemma nextPowerOfTwo_bounds:
  assumes "0 < n" "n < 2 ^ 62"
  shows "\<exists>k. nextPowerOfTwo n = 2 ^ k \<and> k < 63 \<and> n < 2 ^ k \<and> 2 ^ k \<le> 2 * n"
proof -
  have u: "unat (word_of_int n :: 64 word) = nat n"
    using assms by (simp add: unsigned_of_int take_bit_int_eq_self)
  obtain k where k: "len8tab (nat n) = int (Suc k)" "2 ^ k \<le> nat n" "nat n < 2 ^ Suc k"
    using len8tab_bounds [of "nat n"] assms by auto
  have "nextPowerOfTwo n = 2 ^ Suc k"
    by (simp only: nextPowerOfTwo_def Len64_len8tab u k(1) nat_int push_bit_of_1)
  moreover have "k < 62"
  proof -
    have "nat n < 2 ^ 62" using assms by (simp add: nat_less_iff)
    with k(2) have "(2 :: nat) ^ k < 2 ^ 62" by (rule order_le_less_trans)
    then show ?thesis by (rule power_less_imp_less_exp [rotated]) simp
  qed
  moreover have "n < 2 ^ Suc k" using k(3) assms by (simp add: zless_nat_conj nat_less_iff)
  moreover have "2 ^ Suc k \<le> 2 * n" using k(2) assms by (simp add: le_nat_iff)
  ultimately show ?thesis by (intro exI [of _ "Suc k"]) simp
qed

lemma permuted_breakPatterns:
  assumes "0 \<le> a" "b \<le> int (length xs)" "length xs < 2 ^ 62"
  shows "permuted xs (breakPatterns_func xs a b)"
proof (cases "b - a \<ge> 8")
  case True
  define n where "n = b - a"
  have n: "8 \<le> n" "n < 2 ^ 62" using True assms by (auto simp: n_def)
  obtain k where k: "nextPowerOfTwo n = 2 ^ k" "k < 63" "n < 2 ^ k" "2 ^ k \<le> 2 * n"
    using nextPowerOfTwo_bounds [of n] n by auto
  define other where "other r = uint (r AND (nextPowerOfTwo n - 1))" for r
  define pick where "pick r = (if other r \<ge> n then other r - n else other r)" for r
  have "other r < 2 ^ k" "0 \<le> other r" for r
    by (simp_all add: other_def k(1) flip: mask_eq_exp_minus_1 take_bit_eq_mask) (simp add: unsigned_take_bit_eq)
  then have pick: "0 \<le> pick r" "pick r < n" for r using k(3,4) n by (auto simp: pick_def intro: order_less_le_trans)
  let ?body = "\<lambda>idx (random, xs). do {
      let random = xorshift_Next random;
      xs \<leftarrow> go_swap idx (a + pick random) xs;
      Some (random, xs) }"
  have "\<exists>t. go_range ?body [a + n div 4 * 2 - 1..a + n div 4 * 2 + 1] (word_of_int n, xs) = Some t \<and>
      mset (snd t) = mset xs"
  proof (rule go_range_total)
    fix idx and s :: "64 word \<times> 'a list"
    assume idx: "idx \<in> set [a + n div 4 * 2 - 1..a + n div 4 * 2 + 1]" and m: "mset (snd s) = mset xs"
    obtain r ys where s: "s = (r, ys)" by (cases s)
    have len: "length ys = length xs" using m s by (auto dest: mset_eq_length)
    have "a \<le> idx \<and> idx < b" using idx n by (auto simp: n_def)
    moreover have "a + pick (xorshift_Next r) < b" "a \<le> a + pick (xorshift_Next r)"
      using pick [of "xorshift_Next r"] by (simp_all add: n_def)
    ultimately have "permuted ys (go_swap idx (a + pick (xorshift_Next r)) ys)"
      using assms len by (intro permuted_swap) auto
    then show "\<exists>s'. ?body idx s = Some s' \<and> mset (snd s') = mset xs"
      using m s by (auto simp: permuted_def)
  qed simp
  moreover have "breakPatterns_func xs a b = do {
      (_, xs) \<leftarrow> go_range ?body [a + n div 4 * 2 - 1..a + n div 4 * 2 + 1] (word_of_int n, xs); Some xs }"
    using n by (simp add: breakPatterns_func_def pick_def other_def Let_def cong: if_cong flip: n_def)
  ultimately show ?thesis by (auto simp: permuted_def)
qed (simp add: breakPatterns_func_def)

lemma median_func_in:
  assumes "S \<subseteq> {0..<int (length xs)}" "i \<in> S" "j \<in> S" "k \<in> S"
  shows "\<exists>m n. median_func lt xs i j k s = Some (m, n) \<and> m \<in> S"
proof -
  have ord: "\<exists>u' v' n. order2_func lt xs u v s = Some (u', v', n) \<and> u' \<in> S \<and> v' \<in> S"
    if "u \<in> S" "v \<in> S" for u v s
  proof -
    have "less_at lt xs v u = Some (lt (xs ! nat v) (xs ! nat u))"
      using that assms(1) by (intro less_at_in) auto
    then show ?thesis using that by (simp add: order2_func_def)
  qed
  obtain i1 j1 s1 where 1: "order2_func lt xs i j s = Some (i1, j1, s1)" "i1 \<in> S" "j1 \<in> S"
    using ord assms(2,3) by blast
  obtain j2 k2 s2 where 2: "order2_func lt xs j1 k s1 = Some (j2, k2, s2)" "j2 \<in> S"
    using ord 1(3) assms(4) by blast
  obtain i3 j3 s3 where 3: "order2_func lt xs i1 j2 s2 = Some (i3, j3, s3)" "j3 \<in> S"
    using ord 1(2) 2(2) by blast
  from 1 2 3 show ?thesis by (simp add: median_func_def)
qed

lemma choosePivot_in:
  assumes "0 \<le> a" "b \<le> int (length xs)" "a < b"
  shows "\<exists>p h. choosePivot_func lt xs a b = Some (p, h) \<and> a \<le> p \<and> p < b"
proof -
  let ?S = "{a..<b}" and ?l = "b - a"
  have S: "?S \<subseteq> {0..<int (length xs)}" using assms by auto
  note med = median_func_in [OF S, of _ _ _ lt]
  show ?thesis
  proof (cases "?l \<ge> 8")
    case False
    then have "a \<le> a + ?l div 4 * 2" "a + ?l div 4 * 2 < b" using assms by auto
    with False show ?thesis by (simp add: choosePivot_func_def Let_def)
  next
    case True
    have in3: "a + ?l div 4 * 1 \<in> ?S" "a + ?l div 4 * 2 \<in> ?S" "a + ?l div 4 * 3 \<in> ?S" using True by auto
    show ?thesis
    proof (cases "?l \<ge> 50")
      case False
      obtain m n where "median_func lt xs (a + ?l div 4 * 1) (a + ?l div 4 * 2) (a + ?l div 4 * 3) 0 = Some (m, n)"
        "m \<in> ?S" using med in3 by metis
      with True False show ?thesis by (simp add: choosePivot_func_def Let_def)
    next
      case long: True
      have adj: "\<exists>m n. medianAdjacent_func lt xs i s = Some (m, n) \<and> m \<in> ?S"
        if "i - 1 \<in> ?S" "i \<in> ?S" "i + 1 \<in> ?S" for i s
        unfolding medianAdjacent_func_def using that by (rule med)
      have q: "12 \<le> ?l div 4" "?l div 4 * 4 \<le> ?l" using long by auto
      obtain i1 s1 where i1: "medianAdjacent_func lt xs (a + ?l div 4 * 1) 0 = Some (i1, s1)" "i1 \<in> ?S"
        using adj [of "a + ?l div 4 * 1" 0] q by fastforce
      obtain i2 s2 where i2: "medianAdjacent_func lt xs (a + ?l div 4 * 2) s1 = Some (i2, s2)" "i2 \<in> ?S"
        using adj [of "a + ?l div 4 * 2" s1] q by fastforce
      obtain i3 s3 where i3: "medianAdjacent_func lt xs (a + ?l div 4 * 3) s2 = Some (i3, s3)" "i3 \<in> ?S"
        using adj [of "a + ?l div 4 * 3" s2] q by fastforce
      obtain m n where "median_func lt xs i1 i2 i3 s3 = Some (m, n)" "m \<in> ?S"
        using med i1(2) i2(2) i3(2) by metis
      with True long i1 i2 i3 show ?thesis by (simp add: choosePivot_func_def Let_def)
    qed
  qed
qed

lemma permuted_reverseRange_loop:
  "0 \<le> i \<Longrightarrow> j < int (length xs) \<Longrightarrow> permuted xs (reverseRange_loop i j xs)"
proof (induction i j xs rule: reverseRange_loop.induct)
  case (1 i j xs)
  then show ?case by (subst reverseRange_loop.simps) (auto intro!: permuted_bind [OF permuted_swap])
qed

lemma permuted_reverseRange:
  "0 \<le> a \<Longrightarrow> b \<le> int (length xs) \<Longrightarrow> permuted xs (reverseRange_func xs a b)"
  by (simp add: reverseRange_func_def permuted_reverseRange_loop)

text \<open>What one round hands to the partitions: a permuted slice and a pivot inside it.\<close>

definition prepared :: "int \<Rightarrow> int \<Rightarrow> 'a list \<Rightarrow> ('a list + int \<times> int \<times> 'a list) option \<Rightarrow> bool" where
  "prepared a b xs r \<longleftrightarrow>
     (\<exists>ys. mset ys = mset xs \<and>
        (r = Some (Inl ys) \<or> (\<exists>p l. r = Some (Inr (p, l, ys)) \<and> a \<le> p \<and> p < b)))"

lemma pdq_prepare_prepared:
  assumes "0 \<le> a" "b \<le> int (length xs)" "a < b" "length xs < 2 ^ 62"
  shows "prepared a b xs (pdq_prepare lt a b limit bal par xs)"
proof -
  obtain l1 ys where y: "(if \<not> bal then do { xs \<leftarrow> breakPatterns_func xs a b; Some (limit - 1, xs) }
      else Some (limit, xs)) = Some (l1, ys)" and my: "mset ys = mset xs"
    using permuted_breakPatterns [OF assms(1,2,4)] by (cases bal) (auto simp: permuted_def)
  have ly: "length ys = length xs" using my by (rule mset_eq_length)
  obtain p h where p: "choosePivot_func lt ys a b = Some (p, h)" "a \<le> p" "p < b"
    using choosePivot_in [of a b ys lt] assms ly by auto
  obtain p2 h2 zs where z: "(if h = decreasingHint then do {
         xs \<leftarrow> reverseRange_func ys a b;
         Some ((b - 1) - (p - a), increasingHint, xs) }
       else Some (p, h, ys)) = Some (p2, h2, zs)" and mz: "mset zs = mset ys" and p2: "a \<le> p2" "p2 < b"
  proof (cases "h = decreasingHint")
    case True
    from permuted_reverseRange [of a b ys] assms ly obtain zs
      where "reverseRange_func ys a b = Some zs" "mset zs = mset ys" by (auto simp: permuted_def)
    with True p show ?thesis by (intro that [of "(b - 1) - (p - a)" increasingHint zs]) auto
  next
    case False
    with p show ?thesis by (intro that [of p h ys]) auto
  qed
  have lz: "length zs = length xs" using mset_eq_length [OF mz] ly by simp
  obtain s us where "partialInsertionSort_func lt zs a b = Some (s, us)" "mset us = mset zs"
    using partial_steps_permuted [of a "a + 1" b zs lt 5] assms lz by (auto simp: partialInsertionSort_func_def)
  with y p z my mz p2 show ?thesis
    unfolding pdq_prepare_def prepared_def by (simp del: split_paired_Ex)
qed

theorem pdqsort_permuted:
  "0 \<le> a \<Longrightarrow> a \<le> b \<Longrightarrow> b \<le> int (length xs) \<Longrightarrow> length xs < 2 ^ 62 \<Longrightarrow>
     permuted xs (pdqsort_func lt a b limit bal par xs)"
proof (induction lt a b limit bal par xs rule: pdqsort_func.induct)
  case (1 lt a b limit bal par xs)
  note IH_eq = 1(1) and IH_l1 = 1(2) and IH_l2 = 1(3) and IH_r1 = 1(4) and IH_r2 = 1(5)
  show ?case
  proof (cases "b - a \<le> 12 \<or> limit = 0")
    case True
    with 1(6-9) show ?thesis
      by (subst pdqsort_func.simps) (auto simp: permuted_insertionSort permuted_heapSort)
  next
    case False
    from pdq_prepare_prepared [of a b xs lt limit bal par] False 1(6-9)
    have "prepared a b xs (pdq_prepare lt a b limit bal par xs)" by auto
    then consider ys where "pdq_prepare lt a b limit bal par xs = Some (Inl ys)" "mset ys = mset xs"
      | ys p l where "pdq_prepare lt a b limit bal par xs = Some (Inr (p, l, ys))" "mset ys = mset xs" "a \<le> p" "p < b"
      by (auto simp: prepared_def)
    then show ?thesis
    proof cases
      case 1
      with False show ?thesis by (subst pdqsort_func.simps) simp
    next
      case (2 ys p l)
      note ab = \<open>0 \<le> a\<close> \<open>a \<le> b\<close> \<open>b \<le> int (length xs)\<close>
      have ly: "length ys = length xs" using 2(2) by (rule mset_eq_length)
      obtain e where e: "pdq_equal lt ys a p = Some e"
        using 2 ab ly by (cases "a > 0") (auto simp: pdq_equal_def)
      from 2(1) have pr: "Inr (p, l, ys) \<in> set_option (pdq_prepare lt a b limit bal par xs)" by simp
      from e have es: "e \<in> set_option (pdq_equal lt ys a p)" by simp
      have no: "\<not> b - a \<le> 12" "limit \<noteq> 0" using False by auto
      show ?thesis
      proof (cases e)
        case True
        obtain mid zs where z: "partitionEqual_func lt ys a b p = Some (mid, zs)" and mz: "mset zs = mset ys"
          using partitionEqual_func_permuted [of a b ys p lt] 2 ab ly by auto
        have lz: "length zs = length xs" using mset_eq_length [OF mz] ly by simp
        have zs: "(mid, zs) \<in> set_option (partitionEqual_func lt ys a b p)" using z by simp
        have "permuted zs (pdqsort_func lt mid b l bal par zs)"
          using IH_eq [OF no pr refl refl refl es True zs refl] partitionEqual_func_bounds [OF z] no ab lz \<open>length xs < 2 ^ 62\<close> by auto
        with no 2 e True z mz show ?thesis by (subst pdqsort_func.simps) (simp add: permuted_def)
      next
        case False
        obtain mid al zs where z: "partition_func lt ys a b p = Some (mid, al, zs)" and mz: "mset zs = mset ys"
          using partition_func_permuted [of a b ys p lt] 2 ab ly by auto
        have lz: "length zs = length xs" using mset_eq_length [OF mz] ly by simp
        have zs: "(mid, al, zs) \<in> set_option (partition_func lt ys a b p)" using z by simp
        have mid: "a \<le> mid" "mid < b" using partition_func_bounds [OF z] no by auto
        show ?thesis
        proof (cases "mid - a < b - mid")
          case True
          have "permuted zs (do { xs \<leftarrow> pdqsort_func lt a mid l True True zs;
              pdqsort_func lt (mid + 1) b l (mid - a \<ge> (b - a) div 8) al xs })"
          proof (rule permuted_bind)
            show "permuted zs (pdqsort_func lt a mid l True True zs)"
              using IH_l1 [OF no pr refl refl refl es False zs refl refl True] mid ab lz \<open>length xs < 2 ^ 62\<close> by auto
            show "permuted us (pdqsort_func lt (mid + 1) b l (mid - a \<ge> (b - a) div 8) al us)"
              if "pdqsort_func lt a mid l True True zs = Some us" "length us = length zs" for us
              using IH_l2 [OF no pr refl refl refl es False zs refl refl True, of us] that mid ab lz \<open>length xs < 2 ^ 62\<close> by auto
          qed
          with no 2 e False z mz True show ?thesis by (subst pdqsort_func.simps) (simp add: permuted_def)
        next
          case right: False
          have "permuted zs (do { xs \<leftarrow> pdqsort_func lt (mid + 1) b l True True zs;
              pdqsort_func lt a mid l (b - mid \<ge> (b - a) div 8) al xs })"
          proof (rule permuted_bind)
            show "permuted zs (pdqsort_func lt (mid + 1) b l True True zs)"
              using IH_r1 [OF no pr refl refl refl es False zs refl refl right] mid ab lz \<open>length xs < 2 ^ 62\<close> by auto
            show "permuted us (pdqsort_func lt a mid l (b - mid \<ge> (b - a) div 8) al us)"
              if "pdqsort_func lt (mid + 1) b l True True zs = Some us" "length us = length zs" for us
              using IH_r2 [OF no pr refl refl refl es False zs refl refl right, of us] that mid ab lz \<open>length xs < 2 ^ 62\<close> by auto
          qed
          with no 2 e False z mz right show ?thesis by (subst pdqsort_func.simps) (simp add: permuted_def)
        qed
      qed
    qed
  qed
qed

theorem Slice_returns_permuted:
  assumes "length xs < 2 ^ 62"
  shows "\<exists>ys. Slice lt xs = Some ys \<and> mset ys = mset xs"
  using pdqsort_permuted [of 0 "int (length xs)" xs] assms by (simp add: Slice_def permuted_def Let_def)

end
