(* ===== verification/Two_Opt.thy ===== *)
theory Two_Opt
  imports Tour_Shape Go_Sort
begin

text \<open>
  The second neighbourhood (\<open>apply2OptAllDays\<close> of \<open>src/optimizer.go\<close>): in every day, segments between
  the hotels are reversed as long as that makes the day feasible and shorter.
\<close>

section \<open>Translation\<close>

text \<open>\<open>for a, b := i, j; a < b; a, b = a+1, b-1\<close>: the exchanging loop that the sort also uses.\<close>

definition reverseSegment :: "int \<Rightarrow> int \<Rightarrow> int list \<Rightarrow> int list option" where
  "reverseSegment i j pts = reverseRange_loop i j pts"

text \<open>
  The loops over \<open>j\<close> and \<open>i\<close> on the buffer: \<open>Inr\<close> is the \<open>break\<close> with the steps and the length of the
  improved day, \<open>Inl\<close> the buffer at the end of the loop.
\<close>

fun twoOptJ ::
  "Instance \<Rightarrow> int \<Rightarrow> f64 \<Rightarrow> int \<Rightarrow> int list \<Rightarrow> int list \<Rightarrow> (int list + Step list \<times> f64) option" where
  "twoOptJ inst dIdx distTotal i [] pts = Some (Inl pts)"
| "twoOptJ inst dIdx distTotal i (j # js) pts = do {
     pts \<leftarrow> reverseSegment i j pts;
     (feasible, newDist) \<leftarrow> evalDayFast inst dIdx pts;
     if feasible \<and> flt64 newDist distTotal then do {
       (_, _, newSteps) \<leftarrow> evalDay inst dIdx pts;
       Some (Inr (newSteps, newDist)) }
     else do {
       pts \<leftarrow> reverseSegment i j pts;
       twoOptJ inst dIdx distTotal i js pts } }"

fun twoOptI ::
  "Instance \<Rightarrow> int \<Rightarrow> f64 \<Rightarrow> int \<Rightarrow> int list \<Rightarrow> int list \<Rightarrow> (int list + Step list \<times> f64) option" where
  "twoOptI inst dIdx distTotal n [] pts = Some (Inl pts)"
| "twoOptI inst dIdx distTotal n (i # is) pts = do {
     r \<leftarrow> twoOptJ inst dIdx distTotal i [i + 1..n - 2] pts;
     case r of Inr found \<Rightarrow> Some (Inr found)
     | Inl pts \<Rightarrow> twoOptI inst dIdx distTotal n is pts }"

text \<open>\<open>for dayImproved\<close>: the loop of one day. It ends because the length goes down (below).\<close>

partial_function (option) twoOptDay :: "Instance \<Rightarrow> int \<Rightarrow> bool \<Rightarrow> DayTour \<Rightarrow> (bool \<times> DayTour) option" where
  "twoOptDay inst dIdx improved day = do {
     let pts = extractDayPoints day;
     let n = int (length pts);
     r \<leftarrow> twoOptI inst dIdx (DistTotal day) n [1..n - 3] pts;
     case r of Inl _ \<Rightarrow> Some (improved, day)
     | Inr (newSteps, newDist) \<Rightarrow>
         twoOptDay inst dIdx True (day\<lparr>Steps := newSteps, DistTotal := newDist\<rparr>) }"

definition apply2OptAllDays :: "Solution \<Rightarrow> (bool \<times> Solution) option" where
  "apply2OptAllDays sol = do {
     let inst = SolInstance sol;
     go_range (\<lambda>dIdx (improved, sol). do {
         day \<leftarrow> go_nth (Days sol) dIdx;
         if length (Steps day) \<le> 3 then Some (improved, sol)
         else do {
           (improved, day) \<leftarrow> twoOptDay inst dIdx improved day;
           days \<leftarrow> go_set (Days sol) dIdx day;
           Some (improved, sol\<lparr>Days := days\<rparr>) } })
       [0..int (length (Days sol)) - 1] (False, sol) }"

section \<open>Reversals\<close>

definition reverse_seg :: "nat \<Rightarrow> nat \<Rightarrow> 'a list \<Rightarrow> 'a list" where
  "reverse_seg i j xs = take i xs @ rev (take (Suc j - i) (drop i xs)) @ drop (Suc j) xs"

lemma go_swap_ends:
  "go_swap (int (length a)) (int (length a + length m + 1)) (a @ x # m @ y # b) = Some (a @ y # m @ x # b)"
proof -
  have "go_nth (a @ x # m @ y # b) (int (length a)) = Some x"
    by (simp add: go_nth_def nth_append)
  moreover have "go_nth (a @ x # m @ y # b) (int (length a + length m + 1)) = Some y"
    by (simp add: go_nth_def nth_append nat_add_distrib)
  ultimately show ?thesis
    by (simp add: go_swap_def go_set_def list_update_append nat_add_distrib)
qed

lemma reverseRange_loop_rev:
  "reverseRange_loop (int (length a)) (int (length a) + int (length m) - 1) (a @ m @ b) = Some (a @ rev m @ b)"
proof (induction "length m" arbitrary: a m b rule: less_induct)
  case less
  show ?case
  proof (cases "length m \<le> 1")
    case True
    then have "rev m = m" by (cases m) auto
    with True show ?thesis by (subst reverseRange_loop.simps) simp
  next
    case False
    then obtain x m' y where m: "m = x # m' @ [y]" by (cases m; cases "tl m" rule: rev_cases) auto
    have s: "go_swap (int (length a)) (int (length a) + int (length m) - 1) (a @ m @ b) = Some ((a @ [y]) @ m' @ x # b)"
      using go_swap_ends [of a m' x y b] m by (simp add: algebra_simps)
    have "reverseRange_loop (int (length (a @ [y]))) (int (length (a @ [y])) + int (length m') - 1) ((a @ [y]) @ m' @ x # b) =
        Some ((a @ [y]) @ rev m' @ x # b)"
      using m by (intro less) simp
    then have "reverseRange_loop (int (length a) + 1) (int (length a) + int (length m) - 1 - 1) ((a @ [y]) @ m' @ x # b) =
        Some (a @ rev m @ b)"
      using m by (simp add: algebra_simps)
    then show ?thesis using s False m by (subst reverseRange_loop.simps) simp
  qed
qed

lemma seg_split: "i \<le> j \<Longrightarrow> j < length xs \<Longrightarrow> xs = take i xs @ take (Suc j - i) (drop i xs) @ drop (Suc j) xs"
  by (metis Suc_leD Suc_le_eq add_diff_inverse_nat append_take_drop_id drop_drop le_SucI less_le_not_le linorder_not_less add.commute)

lemma reverseSegment_seg:
  assumes "i \<le> j" "j < length xs"
  shows "reverseSegment (int i) (int j) xs = Some (reverse_seg i j xs)"
proof -
  have l: "length (take i xs) = i" "length (take (Suc j - i) (drop i xs)) = Suc j - i" using assms by simp_all
  have "reverseRange_loop (int i) (int i + int (Suc j - i) - 1) xs = Some (reverse_seg i j xs)"
    using reverseRange_loop_rev [of "take i xs" "take (Suc j - i) (drop i xs)" "drop (Suc j) xs"]
    unfolding l seg_split [OF assms, symmetric] reverse_seg_def .
  then show ?thesis using assms by (simp add: reverseSegment_def of_nat_diff)
qed

lemma length_reverse_seg [simp]: "i \<le> j \<Longrightarrow> j < length xs \<Longrightarrow> length (reverse_seg i j xs) = length xs"
  by (simp add: reverse_seg_def)

lemma reverse_seg_twice: "i \<le> j \<Longrightarrow> j < length xs \<Longrightarrow> reverse_seg i j (reverse_seg i j xs) = xs"
proof -
  assume ij: "i \<le> j" "j < length xs"
  let ?a = "take i xs" and ?m = "take (Suc j - i) (drop i xs)" and ?b = "drop (Suc j) xs"
  have l: "length ?a = i" "length ?m = Suc j - i" using ij by simp_all
  have "reverse_seg i j (?a @ rev ?m @ ?b) = ?a @ ?m @ ?b"
    using ij by (simp add: reverse_seg_def min_absorb2 min_absorb1)
  then show ?thesis using seg_split [OF ij] by (simp add: reverse_seg_def)
qed

text \<open>Between the hotels, a reversal keeps the shape and the sites of a route.\<close>

lemma reverse_seg_route:
  assumes "wf_route inst ps" "0 < i" "i < j" "j < length ps - 1"
  shows "wf_route inst (reverse_seg i j ps)" "hd (reverse_seg i j ps) = hd ps" "last (reverse_seg i j ps) = last ps"
    "mset (reverse_seg i j ps) = mset ps"
proof -
  obtain p qs e where ps: "ps = p # qs @ [e]" "hotel inst p" "hotel inst e" "\<forall>q \<in> set qs. site inst q"
    using assms(1) by (elim wf_routeE)
  obtain i' j' where ij: "i = Suc i'" "j = Suc j'" "i' < j'" "j' < length qs"
    using assms(2-4) ps by (cases i; cases j) auto
  have r: "reverse_seg i j ps = p # reverse_seg i' j' qs @ [e]"
    using ij ps by (simp add: reverse_seg_def)
  have m: "mset (reverse_seg i' j' qs) = mset qs"
  proof -
    have "mset qs = mset (take i' qs @ take (Suc j' - i') (drop i' qs) @ drop (Suc j') qs)"
      using seg_split [of i' j' qs] ij by simp
    then show ?thesis by (simp add: reverse_seg_def)
  qed
  then have "\<forall>q \<in> set (reverse_seg i' j' qs). site inst q" using ps(4) by (metis mset_eq_setD)
  then show "wf_route inst (reverse_seg i j ps)" unfolding wf_route_iff r using ps by blast
  show "hd (reverse_seg i j ps) = hd ps" "last (reverse_seg i j ps) = last ps"
    "mset (reverse_seg i j ps) = mset ps" using r ps m by simp_all
qed

section \<open>One day\<close>

definition shorter :: "Instance \<Rightarrow> int \<Rightarrow> f64 \<Rightarrow> int list \<Rightarrow> bool" where
  "shorter inst d dist ps \<longleftrightarrow> feasible inst (budget inst d) ps \<and> flt64 (length_of inst ps) dist"

text \<open>What a search of the reversals \<open>ij\<close> returns: an improvement, or none and the buffer restored.\<close>

definition found :: "Instance \<Rightarrow> int \<Rightarrow> f64 \<Rightarrow> int list \<Rightarrow> (nat \<times> nat) set \<Rightarrow> (int list + Step list \<times> f64) \<Rightarrow> bool" where
  "found inst d dist ps IJ r \<longleftrightarrow>
     (case r of
        Inl pts \<Rightarrow> pts = ps \<and> (\<forall>(i, j) \<in> IJ. \<not> shorter inst d dist (reverse_seg i j ps))
      | Inr (steps, len) \<Rightarrow> \<exists>(i, j) \<in> IJ. shorter inst d dist (reverse_seg i j ps) \<and>
          steps = plan inst (reverse_seg i j ps) \<and> len = length_of inst (reverse_seg i j ps))"

lemma found_mono: "found inst d dist ps IJ (Inr f) \<Longrightarrow> IJ \<subseteq> IJ' \<Longrightarrow> found inst d dist ps IJ' (Inr f)"
  by (cases f) (simp add: found_def, blast)

lemma found_InrD: "found inst d dist ps IJ (Inr f) \<Longrightarrow>
    \<exists>i j. (i, j) \<in> IJ \<and> shorter inst d dist (reverse_seg i j ps) \<and>
      f = (plan inst (reverse_seg i j ps), length_of inst (reverse_seg i j ps))"
  by (cases f) (simp add: found_def, blast)

lemma twoOptJ_found:
  assumes "wf_inst inst" "wf_route inst ps" "0 \<le> d" "0 < i" "\<forall>j \<in> set js. i < j \<and> j < length ps - 1"
  shows "\<exists>r. twoOptJ inst d dist (int i) (map int js) ps = Some r \<and> found inst d dist ps {(i, j) | j. j \<in> set js} r"
  using assms(5)
proof (induction js)
  case Nil
  then show ?case by (simp add: found_def)
next
  case (Cons j js)
  let ?ps = "reverse_seg i j ps"
  have j: "i \<le> j" "j < length ps" "i < j" "j < length ps - 1" using Cons.prems by auto
  note w = reverse_seg_route(1) [OF assms(2,4) j(3,4)]
  note eval = evalDay_route [OF assms(1) w assms(3)]
  have r1: "reverseSegment (int i) (int j) ps = Some ?ps" by (rule reverseSegment_seg [OF j(1,2)])
  have r2: "reverseSegment (int i) (int j) ?ps = Some ps"
    using reverseSegment_seg [of i j ?ps] j reverse_seg_twice [OF j(1,2)] by simp
  show ?case
  proof (cases "shorter inst d dist ?ps")
    case True
    then show ?thesis using r1 eval by (auto simp: shorter_def found_def)
  next
    case False
    obtain r where r: "twoOptJ inst d dist (int i) (map int js) ps = Some r" "found inst d dist ps {(i, j) | j. j \<in> set js} r"
      using Cons by auto
    have "twoOptJ inst d dist (int i) (map int (j # js)) ps = Some r"
      using r1 r2 eval False r(1) by (auto simp: shorter_def)
    moreover have "found inst d dist ps {(i, j') | j'. j' \<in> set (j # js)} r"
      using r(2) False by (auto simp: found_def split: sum.splits)
    ultimately show ?thesis by blast
  qed
qed

lemma upto_int: "[int a..int b - 1] = map int [a..<b]"
proof (induction b)
  case (Suc b)
  then show ?case by (cases "a \<le> b") (simp_all add: upto_rec2)
qed simp

lemma twoOptI_found:
  assumes "wf_inst inst" "wf_route inst ps" "0 \<le> d" "\<forall>i \<in> set is. 0 < i \<and> i < length ps - 2"
  shows "\<exists>r. twoOptI inst d dist (int (length ps)) (map int is) ps = Some r \<and>
    found inst d dist ps {(i, j). i \<in> set is \<and> i < j \<and> j < length ps - 1} r"
  using assms(4)
proof (induction "is")
  case Nil
  then show ?case by (simp add: found_def)
next
  case (Cons i "is")
  let ?js = "[Suc i..<length ps - 1]"
  have up: "[int i + 1..int (length ps) - 2] = map int ?js"
  proof -
    have "int (length ps) - 2 = int (length ps - 1) - 1" "int i + 1 = int (Suc i)" using Cons.prems by auto
    then show ?thesis using upto_int [of "Suc i" "length ps - 1"] by (simp only:)
  qed
  obtain r where r: "twoOptJ inst d dist (int i) (map int ?js) ps = Some r" "found inst d dist ps {(i, j) | j. j \<in> set ?js} r"
    using twoOptJ_found [OF assms(1-3), of i ?js] Cons.prems by auto
  obtain r' where r': "twoOptI inst d dist (int (length ps)) (map int is) ps = Some r'"
    "found inst d dist ps {(i, j). i \<in> set is \<and> i < j \<and> j < length ps - 1} r'"
    using Cons by auto
  show ?case
  proof (cases r)
    case (Inl pts)
    then have "pts = ps" using r(2) by (simp add: found_def)
    then have "twoOptI inst d dist (int (length ps)) (map int (i # is)) ps = Some r'"
      using r r' Inl up by simp
    moreover have "found inst d dist ps {(i', j). i' \<in> set (i # is) \<and> i' < j \<and> j < length ps - 1} r'"
      using r(2) r'(2) Inl by (auto simp: found_def split: sum.splits)
    ultimately show ?thesis by blast
  next
    case (Inr f)
    then have "twoOptI inst d dist (int (length ps)) (map int (i # is)) ps = Some r" using r up by simp
    moreover have "found inst d dist ps {(i', j). i' \<in> set (i # is) \<and> i' < j \<and> j < length ps - 1} r"
      using r(2) unfolding Inr by (rule found_mono) auto
    ultimately show ?thesis by blast
  qed
qed


lemma flt64_key: "flt64 x y \<Longrightarrow> f64_key x < f64_key y"
  by (simp add: fgt64_iff)

text \<open>
  The loop of a day returns: each round that goes on has made the day strictly shorter, and there are
  finitely many floats below its length. At the end no reversal makes the day shorter.
\<close>

definition two_opt_of :: "Instance \<Rightarrow> int \<Rightarrow> DayTour \<Rightarrow> bool \<Rightarrow> DayTour \<Rightarrow> bool" where
  "two_opt_of inst d day changed day' \<longleftrightarrow>
     wf_route inst (route day') \<and> hd (route day') = hd (route day) \<and> last (route day') = last (route day) \<and>
     mset (route day') = mset (route day) \<and>
     (if changed then planned inst d day' \<and> flt64 (DistTotal day') (DistTotal day) else day' = day) \<and>
     (\<forall>i j. 0 < i \<longrightarrow> i < j \<longrightarrow> j < length (route day') - 1 \<longrightarrow>
        \<not> shorter inst d (DistTotal day') (reverse_seg i j (route day')))"

lemma twoOptDay_returns:
  assumes "wf_inst inst" "0 \<le> d" "wf_route inst (route day)"
  shows "\<exists>changed day'. twoOptDay inst d improved day = Some (improved \<or> changed, day') \<and>
    two_opt_of inst d day changed day'"
  using assms(3)
proof (induction "nat (f64_key (DistTotal day) + 2 ^ 63)" arbitrary: day improved rule: less_induct)
  case less
  let ?ps = "route day"
  let ?is = "[1..<length ?ps - 2]"
  have pts: "extractDayPoints day = ?ps" by (simp add: extractDayPoints_def route_def)
  have up: "[1..int (length ?ps) - 3] = map int ?is"
  proof -
    have "2 \<le> length ?ps" using less.prems by (simp add: wf_route_def)
    then have e: "int (length ?ps) - 3 = int (length ?ps - 2) - 1" by simp
    have "[int 1..int (length ?ps - 2) - 1] = map int ?is" by (rule upto_int)
    then show ?thesis unfolding e by (simp only: of_nat_1)
  qed
  have bnd: "\<forall>i \<in> set ?is. 0 < i \<and> i < length ?ps - 2" by simp
  obtain r where r: "twoOptI inst d (DistTotal day) (int (length ?ps)) (map int ?is) ?ps = Some r"
    "found inst d (DistTotal day) ?ps {(i, j). i \<in> set ?is \<and> i < j \<and> j < length ?ps - 1} r"
    using twoOptI_found [OF assms(1) less.prems assms(2) bnd, of "DistTotal day"] by blast
  show ?case
  proof (cases r)
    case (Inl pts')
    have "twoOptDay inst d improved day = Some (improved \<or> False, day)"
      using r(1) Inl pts up by (subst twoOptDay.simps) simp
    moreover have "\<not> shorter inst d (DistTotal day) (reverse_seg i j ?ps)"
      if "0 < i" "i < j" "j < length ?ps - 1" for i j
    proof -
      have "(i, j) \<in> {(i, j). i \<in> set ?is \<and> i < j \<and> j < length ?ps - 1}" using that by auto
      with r(2) show ?thesis unfolding Inl found_def by auto
    qed
    then have "two_opt_of inst d day False day" using less.prems by (simp add: two_opt_of_def)
    ultimately show ?thesis by blast
  next
    case (Inr f)
    obtain i j where mem: "(i, j) \<in> {(i, j). i \<in> set ?is \<and> i < j \<and> j < length ?ps - 1}"
      and sh: "shorter inst d (DistTotal day) (reverse_seg i j ?ps)"
      and f: "f = (plan inst (reverse_seg i j ?ps), length_of inst (reverse_seg i j ?ps))"
      using found_InrD [OF r(2) [unfolded Inr]] by blast
    from mem have "0 < i" "i < j" "j < length ?ps - 1" by auto
    note ij = this sh
    define day1 where "day1 = day\<lparr>Steps := plan inst (reverse_seg i j ?ps), DistTotal := length_of inst (reverse_seg i j ?ps)\<rparr>"
    note w = reverse_seg_route [OF less.prems ij(1-3)]
    have route1: "route day1 = reverse_seg i j ?ps" by (simp add: day1_def route_def)
    have dist1: "DistTotal day1 = length_of inst (route day1)" unfolding route1 by (simp add: day1_def)
    have lt: "flt64 (DistTotal day1) (DistTotal day)" using ij(4) unfolding dist1 route1 by (simp add: shorter_def)
    have pl: "planned inst d day1" using ij(4) dist1 route1 by (simp add: planned_def shorter_def day1_def)
    have "nat (f64_key (DistTotal day1) + 2 ^ 63) < nat (f64_key (DistTotal day) + 2 ^ 63)"
      using flt64_key [OF lt] f64_key_bounds [of "DistTotal day1"] by simp
    then obtain changed day' where IH: "twoOptDay inst d True day1 = Some (True \<or> changed, day')"
      "two_opt_of inst d day1 changed day'"
      using less.hyps [of day1 True] w(1) unfolding route1 by blast
    have "twoOptDay inst d improved day = Some (improved \<or> True, day')"
      using r(1) Inr f pts up IH(1) by (subst twoOptDay.simps) (simp add: day1_def)
    moreover have "flt64 (DistTotal day') (DistTotal day)"
      using IH(2) lt by (cases changed) (auto simp: two_opt_of_def fgt64_iff)
    then have "two_opt_of inst d day True day'"
      using IH(2) w pl unfolding two_opt_of_def route1 by (cases changed) auto
    ultimately show ?thesis by blast
  qed
qed

section \<open>All days\<close>

lemma two_opt_update:
  assumes "tour inst (routes sol)" "SolInstance sol = inst" "d < length (Days sol)"
    and "two_opt_of inst (int d) (Days sol ! d) changed day'"
  shows "replanned sol (sol\<lparr>Days := (Days sol)[d := day']\<rparr>)"
    "tour inst (routes (sol\<lparr>Days := (Days sol)[d := day']\<rparr>))"
    "visited_sites inst (routes (sol\<lparr>Days := (Days sol)[d := day']\<rparr>)) = visited_sites inst (routes sol)"
    "\<not> changed \<Longrightarrow> sol\<lparr>Days := (Days sol)[d := day']\<rparr> = sol"
proof -
  have routes: "routes (sol\<lparr>Days := (Days sol)[d := day']\<rparr>) = (routes sol)[d := route day']"
    by (simp add: routes_def map_update)
  have d: "d < length (routes sol)" using assms(3) by simp
  have "mset (route day') = mset (routes sol ! d)" using assms(3,4) by (simp add: two_opt_of_def routes_nth)
  then have "mset (sites inst (route day')) = mset (sites inst (routes sol ! d))"
    by (simp add: sites_def)
  then have m: "mset (sites inst (concat ((routes sol)[d := route day']))) = mset (sites inst (concat (routes sol)))"
    using mset_sites_update [OF d, of inst "route day'"] by simp
  show "replanned sol (sol\<lparr>Days := (Days sol)[d := day']\<rparr>)"
    using assms by (cases changed) (auto simp: replanned_def two_opt_of_def nth_list_update)
  have "distinct (sites inst (concat ((routes sol)[d := route day'])))"
    using m assms(1) by (metis mset_eq_imp_distinct_iff tour_def)
  then show "tour inst (routes (sol\<lparr>Days := (Days sol)[d := day']\<rparr>))"
    unfolding routes using assms d by (intro tour_update) (auto simp: two_opt_of_def routes_nth)
  show "visited_sites inst (routes (sol\<lparr>Days := (Days sol)[d := day']\<rparr>)) = visited_sites inst (routes sol)"
    unfolding routes visited_sites_def using m by (rule mset_eq_setD)
  show "sol\<lparr>Days := (Days sol)[d := day']\<rparr> = sol" if "\<not> changed"
    using assms(4) that by (simp add: two_opt_of_def)
qed

text \<open>The body of the loop over the days.\<close>

lemma two_opt_day:
  assumes "wf_inst inst" "tour inst (routes sol)" "SolInstance sol = inst" "d < length (Days sol)"
  shows "\<exists>changed day'. do {
         day \<leftarrow> go_nth (Days sol) (int d);
         if length (Steps day) \<le> 3 then Some (improved, sol)
         else do {
           (improved, day) \<leftarrow> twoOptDay inst (int d) improved day;
           days \<leftarrow> go_set (Days sol) (int d) day;
           Some (improved, sol\<lparr>Days := days\<rparr>) } } =
      Some (improved \<or> changed, sol\<lparr>Days := (Days sol)[d := day']\<rparr>) \<and>
    two_opt_of inst (int d) (Days sol ! d) changed day'"
proof -
  have w: "wf_route inst (route (Days sol ! d))"
    using tour_nth(1) [OF assms(2), of d] assms(4) by (simp add: routes_nth)
  show ?thesis
  proof (cases "length (Steps (Days sol ! d)) \<le> 3")
    case True
    then have "two_opt_of inst (int d) (Days sol ! d) False (Days sol ! d)"
    proof -
      have "length (route (Days sol ! d)) \<le> 3" using True by (simp add: route_def)
      then have "\<not> j < length (route (Days sol ! d)) - 1" if "0 < i" "i < j" for i j :: nat using that by linarith
      with w show ?thesis by (simp add: two_opt_of_def)
    qed
    then show ?thesis using True assms(4) by (intro exI [of _ False] exI [of _ "Days sol ! d"]) simp
  next
    case False
    obtain changed day' where "twoOptDay inst (int d) improved (Days sol ! d) = Some (improved \<or> changed, day')"
      "two_opt_of inst (int d) (Days sol ! d) changed day'"
      using twoOptDay_returns [OF assms(1) _ w, of "int d" improved] by auto
    with False assms(4) show ?thesis by (intro exI [of _ changed] exI [of _ day']) simp
  qed
qed

lemma two_opt_days:
  assumes "wf_inst inst" "tour inst (routes sol)" "SolInstance sol = inst" "\<forall>d \<in> set ds. d < length (Days sol)" "distinct ds"
  shows "\<exists>changed sol'. go_range (\<lambda>dIdx (improved, sol). do {
         day \<leftarrow> go_nth (Days sol) dIdx;
         if length (Steps day) \<le> 3 then Some (improved, sol)
         else do {
           (improved, day) \<leftarrow> twoOptDay inst dIdx improved day;
           days \<leftarrow> go_set (Days sol) dIdx day;
           Some (improved, sol\<lparr>Days := days\<rparr>) } }) (map int ds) (improved, sol) = Some (improved \<or> changed, sol') \<and>
    replanned sol sol' \<and> tour inst (routes sol') \<and> visited_sites inst (routes sol') = visited_sites inst (routes sol) \<and>
    TotalScore sol' = TotalScore sol \<and> (\<forall>d. d \<notin> set ds \<longrightarrow> Days sol' ! d = Days sol ! d) \<and>
    (\<forall>d \<in> set ds. \<exists>c. two_opt_of inst (int d) (Days sol ! d) c (Days sol' ! d)) \<and> (\<not> changed \<longrightarrow> sol' = sol)"
  using assms(2-5)
proof (induction ds arbitrary: improved sol)
  case Nil
  then show ?case by (intro exI [of _ False] exI [of _ sol]) simp
next
  case (Cons d ds)
  have d: "d < length (Days sol)" using Cons.prems by simp
  obtain ch day' where b: "do {
         day \<leftarrow> go_nth (Days sol) (int d);
         if length (Steps day) \<le> 3 then Some (improved, sol)
         else do {
           (improved, day) \<leftarrow> twoOptDay inst (int d) improved day;
           days \<leftarrow> go_set (Days sol) (int d) day;
           Some (improved, sol\<lparr>Days := days\<rparr>) } } =
      Some (improved \<or> ch, sol\<lparr>Days := (Days sol)[d := day']\<rparr>)"
    and t: "two_opt_of inst (int d) (Days sol ! d) ch day'"
    using two_opt_day [OF assms(1) Cons.prems(1,2) d, of improved] by auto
  define sol1 where "sol1 = sol\<lparr>Days := (Days sol)[d := day']\<rparr>"
  note u = two_opt_update [OF Cons.prems(1,2) d t, folded sol1_def]
  have s1: "SolInstance sol1 = inst" "\<forall>d \<in> set ds. d < length (Days sol1)" "distinct ds" "TotalScore sol1 = TotalScore sol"
    "Days sol1 = (Days sol)[d := day']"
    using Cons.prems by (simp_all add: sol1_def)
  obtain ch' sol' where IH: "go_range (\<lambda>dIdx (improved, sol). do {
         day \<leftarrow> go_nth (Days sol) dIdx;
         if length (Steps day) \<le> 3 then Some (improved, sol)
         else do {
           (improved, day) \<leftarrow> twoOptDay inst dIdx improved day;
           days \<leftarrow> go_set (Days sol) dIdx day;
           Some (improved, sol\<lparr>Days := days\<rparr>) } }) (map int ds) (improved \<or> ch, sol1) = Some ((improved \<or> ch) \<or> ch', sol')"
    "replanned sol1 sol'" "tour inst (routes sol')" "visited_sites inst (routes sol') = visited_sites inst (routes sol1)"
    "TotalScore sol' = TotalScore sol1" "\<forall>d. d \<notin> set ds \<longrightarrow> Days sol' ! d = Days sol1 ! d"
    "\<forall>d \<in> set ds. \<exists>c. two_opt_of inst (int d) (Days sol1 ! d) c (Days sol' ! d)" "\<not> ch' \<longrightarrow> sol' = sol1"
    using Cons.IH [OF u(2) s1(1-3), of "improved \<or> ch"] by auto
  have nd: "d \<notin> set ds" using Cons.prems by simp
  have "Days sol' ! d = day'" using IH(6) nd d s1(5) by simp
  then have "\<forall>i \<in> set (d # ds). \<exists>c. two_opt_of inst (int i) (Days sol ! i) c (Days sol' ! i)"
  proof -
    have "Days sol1 ! i = Days sol ! i" if "i \<in> set ds" for i using that nd s1(5) by (metis nth_list_update_neq)
    then show ?thesis using IH(7) t \<open>Days sol' ! d = day'\<close> by auto
  qed
  moreover have "\<forall>i. i \<notin> set (d # ds) \<longrightarrow> Days sol' ! i = Days sol ! i" using IH(6) s1(5) by simp
  ultimately show ?case
    using b IH(1-5,8) u s1(4) replanned_trans [OF u(1) IH(2)]
    by (intro exI [of _ "ch \<or> ch'"] exI [of _ sol']) (simp add: sol1_def [symmetric] disj_assoc)
qed

theorem apply2OptAllDays_spec:
  assumes "wf_inst (SolInstance sol)" "tour (SolInstance sol) (routes sol)"
  shows "\<exists>changed sol'. apply2OptAllDays sol = Some (changed, sol') \<and> replanned sol sol' \<and>
    tour (SolInstance sol) (routes sol') \<and>
    visited_sites (SolInstance sol) (routes sol') = visited_sites (SolInstance sol) (routes sol) \<and>
    TotalScore sol' = TotalScore sol \<and> (\<not> changed \<longrightarrow> sol' = sol) \<and>
    (\<forall>d < length (Days sol). \<exists>c. two_opt_of (SolInstance sol) (int d) (Days sol ! d) c (Days sol' ! d))"
proof -
  have "[0..int (length (Days sol)) - 1] = map int [0..<length (Days sol)]"
    using upto_int [of 0 "length (Days sol)"] by simp
  then show ?thesis
    using two_opt_days [OF assms(1,2) refl, of "[0..<length (Days sol)]" False]
    by (auto simp: apply2OptAllDays_def Let_def)
qed

end
