(* ===== verification/Swap_Move.thy ===== *)
theory Swap_Move
  imports Tour_Shape Best_Choice
begin

text \<open>
  The third neighbourhood (\<open>bestSwap\<close> of \<open>src/optimizer.go\<close>): a visited site is replaced by an unvisited
  one of a greater score, and the best of the feasible replacements is applied.
\<close>

section \<open>Translation\<close>

text \<open>The variables \<open>bestDelta\<close>, \<open>bestDist\<close>, \<open>bestDayIdx\<close>, \<open>bestNewID\<close>, \<open>bestOldID\<close> and \<open>bestSteps\<close>.\<close>

type_synonym swap_best = "f64 \<times> f64 \<times> int \<times> int \<times> int \<times> Step list"

text \<open>One iteration of the loop over the unvisited sites; the buffer is restored after each trial.\<close>

definition trySwap ::
  "Instance \<Rightarrow> int \<Rightarrow> f64 \<Rightarrow> int list \<Rightarrow> int \<Rightarrow> int \<Rightarrow> swap_best \<Rightarrow> swap_best option" where
  "trySwap inst dIdx distTotal ptsBuf pos u = (\<lambda>(bestDelta, bestDist, best). do {
     oldID \<leftarrow> go_nth ptsBuf pos;
     prevID \<leftarrow> go_nth ptsBuf (pos - 1);
     nextID \<leftarrow> go_nth ptsBuf (pos + 1);
     pu \<leftarrow> go_nth (Points inst) u;
     po \<leftarrow> go_nth (Points inst) oldID;
     let delta = fsub64 (pScore pu) (pScore po);
     if flt64 delta bestDelta then Some (bestDelta, bestDist, best)
     else do {
       d1 \<leftarrow> dist_at inst prevID u;
       d2 \<leftarrow> dist_at inst u nextID;
       d3 \<leftarrow> dist_at inst prevID oldID;
       d4 \<leftarrow> dist_at inst oldID nextID;
       let deltaDist = fsub64 (fadd64 d1 d2) (fadd64 d3 d4);
       maxd \<leftarrow> DayMaxDist inst dIdx;
       if fgt64 (fadd64 distTotal deltaDist) maxd then Some (bestDelta, bestDist, best)
       else do {
         newPts \<leftarrow> go_set ptsBuf pos u;
         (feasible, newDist) \<leftarrow> evalDayFast inst dIdx newPts;
         if \<not> feasible then Some (bestDelta, bestDist, best)
         else if fgt64 delta bestDelta \<or> (feq64 delta bestDelta \<and> flt64 newDist bestDist) then do {
           (_, _, steps) \<leftarrow> evalDay inst dIdx newPts;
           Some (delta, newDist, dIdx, u, oldID, steps) }
         else Some (bestDelta, bestDist, best) } } })"

definition searchSwap :: "Solution \<Rightarrow> int list \<Rightarrow> swap_best option" where
  "searchSwap sol unvisited =
     (let inst = SolInstance sol in
      go_range (\<lambda>(dIdx, day) best.
        if length (Steps day) \<le> 2 then Some best
        else
          let ptsBuf = extractDayPoints day in
          go_range (\<lambda>pos best. do {
            oldID \<leftarrow> go_nth ptsBuf pos;
            p \<leftarrow> go_nth (Points inst) oldID;
            if pType p \<noteq> TypeSite then Some best
            else go_range (trySwap inst dIdx (DistTotal day) ptsBuf pos) unvisited best })
          [1..int (length ptsBuf) - 2] best)
      (go_enum (Days sol)) (0, 0, -1, -1, -1, []))"

definition bestSwap :: "Solution \<Rightarrow> SearchState \<Rightarrow> (bool \<times> Solution \<times> SearchState) option" where
  "bestSwap sol state = do {
     (bestDelta, bestDist, bestDayIdx, bestNewID, bestOldID, bestSteps) \<leftarrow> searchSwap sol (ssUnvisited state);
     if bestDayIdx < 0 \<or> fle64 bestDelta 0 then Some (False, sol, state)
     else do {
       sol \<leftarrow> set_day bestDayIdx bestSteps bestDist sol;
       let sol = sol\<lparr>TotalScore := fadd64 (TotalScore sol) bestDelta\<rparr>;
       state \<leftarrow> markVisited bestNewID state;
       state \<leftarrow> markUnvisited bestOldID state;
       Some (True, sol, state) } }"

section \<open>Replacing a site\<close>

lemma wf_route_interior:
  assumes "wf_route inst ps" "0 < pos" "pos < length ps - 1"
  shows "site inst (ps ! pos)"
proof -
  obtain p qs e where ps: "ps = p # qs @ [e]" "\<forall>q \<in> set qs. site inst q"
    using assms(1) by (elim wf_routeE)
  then show ?thesis using assms(2,3) by (cases pos) (simp_all add: nth_append)
qed

lemma replace_route:
  assumes "wf_route inst ps" "site inst u" "0 < pos" "pos < length ps - 1"
  shows "wf_route inst (ps[pos := u])" "hd (ps[pos := u]) = hd ps" "last (ps[pos := u]) = last ps" "site inst (ps ! pos)"
    "add_mset (ps ! pos) (mset (sites inst (ps[pos := u]))) = add_mset u (mset (sites inst ps))"
proof -
  obtain p qs e where ps: "ps = p # qs @ [e]" "hotel inst p" "hotel inst e" "\<forall>q \<in> set qs. site inst q"
    using assms(1) by (elim wf_routeE)
  obtain k where k: "pos = Suc k" "k < length qs" using assms(3,4) ps by (cases pos) auto
  have r: "ps[pos := u] = p # qs[k := u] @ [e]" "ps ! pos = qs ! k"
    using ps k by (simp_all add: list_update_append nth_append)
  have s: "\<forall>q \<in> set (qs[k := u]). site inst q"
    using ps(4) assms(2) by (auto dest: set_update_subset_insert [THEN subsetD])
  show "wf_route inst (ps[pos := u])" unfolding wf_route_iff r using ps s by blast
  show "hd (ps[pos := u]) = hd ps" "last (ps[pos := u]) = last ps" using r ps(1) by simp_all
  show "site inst (ps ! pos)" using r ps(4) k by simp
  have "mset (qs[k := u]) = add_mset u (mset qs - {#qs ! k#})" using k by (simp add: mset_update)
  moreover have "qs ! k \<in># mset qs" using k by simp
  ultimately have "add_mset (qs ! k) (mset (qs[k := u])) = add_mset u (mset qs)"
    by (simp add: add_mset_commute)
  then show "add_mset (ps ! pos) (mset (sites inst (ps[pos := u]))) = add_mset u (mset (sites inst ps))"
    using sites_wf_route [OF ps(2-4)] sites_wf_route [OF ps(2,3) s] ps(1) r by simp
qed

lemma tour_replace:
  assumes "tour inst rs" "d < length rs" "site inst u" "u \<notin> visited_sites inst rs" "0 < pos" "pos < length (rs ! d) - 1"
  shows "tour inst (rs[d := (rs ! d)[pos := u]])" "rs ! d ! pos \<in> visited_sites inst rs"
    "visited_sites inst (rs[d := (rs ! d)[pos := u]]) = insert u (visited_sites inst rs) - {rs ! d ! pos}"
proof -
  let ?old = "rs ! d ! pos" and ?rs = "rs[d := (rs ! d)[pos := u]]"
  note w = tour_nth(1) [OF assms(1,2)]
  note r = replace_route [OF w assms(3,5,6)]
  have m: "add_mset ?old (mset (sites inst (concat ?rs))) = add_mset u (mset (sites inst (concat rs)))"
    using mset_sites_update [OF assms(2), of inst "(rs ! d)[pos := u]"] r(5)
    by (metis (no_types, lifting) add_right_cancel union_mset_add_mset_left union_mset_add_mset_right)
  have "?old \<in> set (concat rs)" using assms(2,6) by (auto intro!: bexI [of _ "rs ! d"])
  then show old: "?old \<in> visited_sites inst rs" using r(4) by (simp add: visited_sites_def set_sites)
  have "distinct (u # sites inst (concat rs))" using assms(1,4) by (simp add: tour_def visited_sites_def)
  then have d: "distinct (?old # sites inst (concat ?rs))"
    using m by (metis mset.simps(2) mset_eq_imp_distinct_iff)
  then show "tour inst ?rs" by (intro tour_update [OF assms(1,2) r(1-3)]) simp
  have "insert ?old (visited_sites inst ?rs) = insert u (visited_sites inst rs)"
    using m by (metis mset.simps(2) mset_eq_setD list.simps(15) visited_sites_def)
  moreover have "?old \<notin> visited_sites inst ?rs" using d by (simp add: visited_sites_def)
  ultimately show "visited_sites inst ?rs = insert u (visited_sites inst rs) - {?old}" by blast
qed

section \<open>The replacements that are considered\<close>

definition swap_pruned :: "Instance \<Rightarrow> int \<Rightarrow> f64 \<Rightarrow> int list \<Rightarrow> nat \<Rightarrow> int \<Rightarrow> bool" where
  "swap_pruned inst d distTotal ps pos u \<longleftrightarrow>
     (let p = ps ! (pos - 1); old = ps ! pos; q = ps ! Suc pos
      in fgt64 (fadd64 distTotal (fsub64 (fadd64 (D inst p u) (D inst u q)) (fadd64 (D inst p old) (D inst old q))))
           (budget inst d))"

definition swap :: "Solution \<Rightarrow> int \<Rightarrow> nat \<Rightarrow> nat \<Rightarrow> bool" where
  "swap sol u d pos \<longleftrightarrow>
     (let inst = SolInstance sol; ps = routes sol ! d in
      d < length (Days sol) \<and> 0 < pos \<and> pos < length ps - 1 \<and>
      \<not> swap_pruned inst (int d) (DistTotal (Days sol ! d)) ps pos u \<and>
      feasible inst (budget inst (int d)) (ps[pos := u]))"

definition swap_gain :: "Solution \<Rightarrow> int \<Rightarrow> nat \<Rightarrow> nat \<Rightarrow> f64" where
  "swap_gain sol u d pos =
     (let inst = SolInstance sol in fsub64 (pScore (pt inst u)) (pScore (pt inst (routes sol ! d ! pos))))"

definition swap_value :: "Solution \<Rightarrow> int \<Rightarrow> nat \<Rightarrow> nat \<Rightarrow> swap_best" where
  "swap_value sol u d pos =
     (let inst = SolInstance sol; ps = (routes sol ! d)[pos := u]
      in (swap_gain sol u d pos, length_of inst ps, int d, u, routes sol ! d ! pos, plan inst ps))"

definition no_swap :: swap_best where
  "no_swap = (0, 0, -1, -1, -1, [])"

definition swap_inv :: "Solution \<Rightarrow> int set \<Rightarrow> swap_best \<Rightarrow> bool" where
  "swap_inv sol U best \<longleftrightarrow>
     best = no_swap \<or> (\<exists>u \<in> U. \<exists>d pos. swap sol u d pos \<and> best = swap_value sol u d pos)"

definition swaps_at :: "Solution \<Rightarrow> nat \<Rightarrow> nat \<Rightarrow> int \<Rightarrow> swap_best set" where
  "swaps_at sol d pos u = (if swap sol u d pos then {swap_value sol u d pos} else {})"

lemma trySwap_step:
  assumes "wf_inst (SolInstance sol)" "d < length (Days sol)" "wf_route (SolInstance sol) (routes sol ! d)"
    and "site (SolInstance sol) u" "u \<in> U" "0 < pos" "pos < length (routes sol ! d) - 1" "swap_inv sol U best"
  shows "\<exists>best'. trySwap (SolInstance sol) (int d) (DistTotal (Days sol ! d)) (routes sol ! d) (int pos) u best = Some best' \<and>
    swap_inv sol U best' \<and> move.improves best' best \<and> (\<forall>c \<in> swaps_at sol d pos u. \<not> better_move c best')"
proof -
  let ?inst = "SolInstance sol" and ?ps = "routes sol ! d"
  obtain bs bd b where best: "best = (bs, bd, b)" by (cases best)
  have range: "\<forall>q \<in> set ?ps. in_range ?inst q" by (rule wf_route_in_range [OF assms(3)])
  have prev: "go_nth ?ps (int pos - 1) = Some (?ps ! (pos - 1))"
    using assms(6,7) by (simp add: go_nth_def nat_diff_distrib)
  have nxt: "go_nth ?ps (int pos + 1) = Some (?ps ! Suc pos)"
    using assms(7) by (simp add: go_nth_def nat_add_distrib)
  have r: "in_range ?inst (?ps ! (pos - 1))" "in_range ?inst (?ps ! pos)" "in_range ?inst (?ps ! Suc pos)" "in_range ?inst u"
    using range assms(4,6,7) by auto
  have set: "go_set ?ps (int pos) u = Some (?ps[pos := u])" "pos < length ?ps" using assms(7) by simp_all
  note eval = evalDay_route [OF assms(1) replace_route(1) [OF assms(3,4,6,7)], of "int d"]
  have skip: "flt64 (swap_gain sol u d pos) bs \<Longrightarrow> \<not> better_move (swap_value sol u d pos) best"
    by (auto simp: better_move_def swap_value_def best Let_def fgt64_iff feq64_iff)
  have val: "trySwap ?inst (int d) (DistTotal (Days sol ! d)) ?ps (int pos) u best =
    Some (if swap sol u d pos \<and> better_move (swap_value sol u d pos) best then swap_value sol u d pos else best)"
  proof (cases "flt64 (swap_gain sol u d pos) bs")
    case True
    then show ?thesis
      using skip prev nxt r set unfolding best trySwap_def by (simp add: swap_gain_def Let_def)
  next
    case False
    then show ?thesis
      using prev nxt r set assms(1,2,6,7) eval unfolding best trySwap_def
      by (simp add: swap_def swap_pruned_def swap_value_def swap_gain_def better_move_def Let_def)
  qed
  show ?thesis
    unfolding val using assms(5,8)
    by (auto simp: swap_inv_def move.improves_def swaps_at_def) (auto simp: better_move_def fgt64_iff)
qed

definition swaps_of_day :: "Solution \<Rightarrow> int set \<Rightarrow> nat \<Rightarrow> swap_best set" where
  "swaps_of_day sol U d = (\<Union>u \<in> U. \<Union>pos. swaps_at sol d pos u)"

lemma swap_day:
  assumes "wf_inst (SolInstance sol)" "d < length (Days sol)" "wf_route (SolInstance sol) (routes sol ! d)"
    and "\<forall>u \<in> set us. site (SolInstance sol) u" "swap_inv sol (set us) best"
  shows "\<exists>best'. go_range (\<lambda>pos best. do {
            oldID \<leftarrow> go_nth (routes sol ! d) pos;
            p \<leftarrow> go_nth (Points (SolInstance sol)) oldID;
            if pType p \<noteq> TypeSite then Some best
            else go_range (trySwap (SolInstance sol) (int d) (DistTotal (Days sol ! d)) (routes sol ! d) pos) us best })
          [1..int (length (routes sol ! d)) - 2] best = Some best' \<and>
    swap_inv sol (set us) best' \<and> move.improves best' best \<and> (\<forall>c \<in> swaps_of_day sol (set us) d. \<not> better_move c best')"
proof -
  let ?inst = "SolInstance sol" and ?ps = "routes sol ! d"
  obtain best' where b: "go_range (\<lambda>pos best. do {
            oldID \<leftarrow> go_nth ?ps pos;
            p \<leftarrow> go_nth (Points ?inst) oldID;
            if pType p \<noteq> TypeSite then Some best
            else go_range (trySwap ?inst (int d) (DistTotal (Days sol ! d)) ?ps pos) us best })
          [1..int (length ?ps) - 2] best = Some best'"
    "swap_inv sol (set us) best'" "move.improves best' best"
    "\<forall>pos \<in> set [1..int (length ?ps) - 2]. \<forall>c \<in> (\<Union>u \<in> set us. swaps_at sol d (nat pos) u). \<not> better_move c best'"
  proof (atomize_elim, rule move.search [where I = "swap_inv sol (set us)", OF assms(5)], goal_cases)
    case (1 pos best)
    then have pos: "0 < nat pos" "nat pos < length ?ps - 1" "int (nat pos) = pos" by auto
    have s: "site ?inst (?ps ! nat pos)" by (rule wf_route_interior [OF assms(3) pos(1,2)])
    have n: "go_nth ?ps pos = Some (?ps ! nat pos)" using pos by (simp add: go_nth_def)
    have p: "go_nth (Points ?inst) (?ps ! nat pos) = Some (pt ?inst (?ps ! nat pos))"
      "pType (pt ?inst (?ps ! nat pos)) = TypeSite"
      using s site_in_range [OF s] by (simp_all add: site_def)
    obtain best' where b: "go_range (trySwap ?inst (int d) (DistTotal (Days sol ! d)) ?ps (int (nat pos))) us best = Some best'"
      "swap_inv sol (set us) best'" "move.improves best' best"
      "\<forall>u \<in> set us. \<forall>c \<in> swaps_at sol d (nat pos) u. \<not> better_move c best'"
      using move.search [where I = "swap_inv sol (set us)", OF 1(2),
          of us "trySwap ?inst (int d) (DistTotal (Days sol ! d)) ?ps (int (nat pos))" "swaps_at sol d (nat pos)"]
        trySwap_step [OF assms(1-3) _ _ pos(1,2)] assms(4) by blast
    then show ?case using n p pos by (intro exI [of _ best']) simp
  qed
  have "\<not> better_move c best'" if c: "c \<in> swaps_at sol d pos u" "u \<in> set us" for c pos u
  proof -
    have "int pos \<in> set [1..int (length ?ps) - 2]" using c(1) by (auto simp: swaps_at_def swap_def Let_def split: if_splits)
    with b(4) c show ?thesis by (metis UN_I nat_int)
  qed
  then have "\<forall>c \<in> swaps_of_day sol (set us) d. \<not> better_move c best'" by (auto simp: swaps_of_day_def)
  with b(1-3) show ?thesis by blast
qed

lemma searchSwap_best:
  assumes "wf_inst (SolInstance sol)" "\<forall>ps \<in> set (routes sol). wf_route (SolInstance sol) ps"
    and "\<forall>u \<in> set us. site (SolInstance sol) u"
  shows "\<exists>best. searchSwap sol us = Some best \<and> swap_inv sol (set us) best \<and> move.improves best no_swap \<and>
    (\<forall>u \<in> set us. \<forall>d pos. swap sol u d pos \<longrightarrow> \<not> better_move (swap_value sol u d pos) best)"
proof -
  let ?inst = "SolInstance sol"
  obtain best where b: "searchSwap sol us = Some best" "swap_inv sol (set us) best" "move.improves best no_swap"
    "\<forall>x \<in> set (go_enum (Days sol)). \<forall>c \<in> swaps_of_day sol (set us) (nat (fst x)). \<not> better_move c best"
    unfolding searchSwap_def Let_def no_swap_def [symmetric]
  proof (atomize_elim, rule move.search [where I = "swap_inv sol (set us)"], goal_cases)
    case 1
    then show ?case by (simp add: swap_inv_def)
  next
    case (2 x best)
    then obtain d where d: "x = (int d, Days sol ! d)" "d < length (Days sol)" by (auto simp: set_go_enum)
    have ps: "extractDayPoints (Days sol ! d) = routes sol ! d" using d by (simp add: extractDayPoints_def routes_nth route_def)
    have wf: "wf_route ?inst (routes sol ! d)" using assms(2) d by simp
    show ?case
    proof (cases "length (Steps (Days sol ! d)) \<le> 2")
      case True
      then have "length (routes sol ! d) \<le> 2" using d by (simp add: routes_nth route_def)
      then have "swaps_of_day sol (set us) d = {}"
        by (auto simp: swaps_of_day_def swaps_at_def swap_def Let_def split: if_splits)
      with True d 2(2) show ?thesis by (simp add: move.improves_refl)
    next
      case False
      with swap_day [OF assms(1) d(2) wf assms(3) 2(2)] show ?thesis using d ps by (simp cong: if_cong)
    qed
  qed
  have "\<not> better_move (swap_value sol u d pos) best" if u: "u \<in> set us" "swap sol u d pos" for u d pos
  proof -
    have d: "d < length (Days sol)" using u(2) by (simp add: swap_def Let_def)
    then have "(int d, Days sol ! d) \<in> set (go_enum (Days sol))" by (auto simp: set_go_enum)
    moreover have "swap_value sol u d pos \<in> swaps_of_day sol (set us) d"
      using u by (auto simp: swaps_of_day_def swaps_at_def)
    ultimately show ?thesis using b(4) by fastforce
  qed
  with b(1-3) show ?thesis by blast
qed

section \<open>The move\<close>

text \<open>The replacement that is applied: it gains score, and no other one is better.\<close>

definition best_swap :: "Solution \<Rightarrow> int \<Rightarrow> nat \<Rightarrow> nat \<Rightarrow> bool" where
  "best_swap sol u d pos \<longleftrightarrow>
     (let inst = SolInstance sol; V = visited_sites inst (routes sol) in
      site inst u \<and> u \<notin> V \<and> swap sol u d pos \<and> fgt64 (swap_gain sol u d pos) 0 \<and>
      (\<forall>u' d' pos'. site inst u' \<longrightarrow> u' \<notin> V \<longrightarrow> swap sol u' d' pos' \<longrightarrow>
         \<not> better_move (swap_value sol u' d' pos') (swap_value sol u d pos)))"

theorem bestSwap_spec:
  assumes "wf_inst (SolInstance sol)" "tour (SolInstance sol) (routes sol)"
    and "tracks (SolInstance sol) ss (visited_sites (SolInstance sol) (routes sol))"
  shows "\<exists>b sol' ss'. bestSwap sol ss = Some (b, sol', ss') \<and> replanned sol sol' \<and>
    tour (SolInstance sol) (routes sol') \<and>
    tracks (SolInstance sol) ss' (visited_sites (SolInstance sol) (routes sol')) \<and>
    (if b then \<exists>u d pos. best_swap sol u d pos \<and>
         routes sol' = (routes sol)[d := (routes sol ! d)[pos := u]] \<and>
         visited_sites (SolInstance sol) (routes sol') =
           insert u (visited_sites (SolInstance sol) (routes sol)) - {routes sol ! d ! pos} \<and>
         TotalScore sol' = fadd64 (TotalScore sol) (swap_gain sol u d pos)
     else sol' = sol \<and> ss' = ss \<and>
       (\<forall>u d pos. site (SolInstance sol) u \<longrightarrow> u \<notin> visited_sites (SolInstance sol) (routes sol) \<longrightarrow>
          swap sol u d pos \<longrightarrow> \<not> fgt64 (swap_gain sol u d pos) 0))"
proof -
  let ?inst = "SolInstance sol" and ?V = "visited_sites (SolInstance sol) (routes sol)"
  have tr: "u \<in> set (ssUnvisited ss) \<longleftrightarrow> site ?inst u \<and> u \<notin> ?V" for u
    using assms(3) by (simp add: tracks_def)
  have wf: "\<forall>ps \<in> set (routes sol). wf_route ?inst ps" using assms(2) by (simp add: tour_def)
  obtain best where best: "searchSwap sol (ssUnvisited ss) = Some best" "swap_inv sol (set (ssUnvisited ss)) best"
    "move.improves best no_swap"
    "\<forall>u \<in> set (ssUnvisited ss). \<forall>d pos. swap sol u d pos \<longrightarrow> \<not> better_move (swap_value sol u d pos) best"
    using searchSwap_best [OF assms(1) wf, of "ssUnvisited ss"] tr by auto
  show ?thesis
  proof (cases "best = no_swap \<or> \<not> fgt64 (fst best) 0")
    case True
    have imp: "best = no_swap \<or> fgt64 (fst best) 0 \<or> feq64 (fst best) 0"
      using best(3) by (auto simp: move.improves_def better_move_def no_swap_def)
    then have "bestSwap sol ss = Some (False, sol, ss)"
      using best(1) True by (cases best) (auto simp: bestSwap_def no_swap_def feq64_iff fge64_iff)
    moreover have "\<not> fgt64 (swap_gain sol u d pos) 0" if "site ?inst u" "u \<notin> ?V" "swap sol u d pos" for u d pos
    proof -
      have "\<not> fgt64 (swap_gain sol u d pos) (fst best)"
        using best(4) that tr by (auto simp: better_move_def swap_value_def Let_def)
      with imp True show ?thesis by (auto simp: no_swap_def fgt64_iff feq64_iff)
    qed
    ultimately show ?thesis using assms by auto
  next
    case False
    then obtain u d pos where u: "u \<in> set (ssUnvisited ss)" "swap sol u d pos" "best = swap_value sol u d pos"
      using best(2) by (auto simp: swap_inv_def)
    then have su: "site ?inst u" "u \<notin> ?V" using tr by blast+
    have gain: "fgt64 (swap_gain sol u d pos) 0" using False u(3) by (simp add: swap_value_def Let_def)
    let ?ps = "(routes sol ! d)[pos := u]" and ?old = "routes sol ! d ! pos"
    have d: "d < length (Days sol)" "0 < pos" "pos < length (routes sol ! d) - 1" "feasible ?inst (budget ?inst (int d)) ?ps"
      using u(2) by (simp_all add: swap_def Let_def)
    obtain sol1 where s1: "set_day (int d) (plan ?inst ?ps) (length_of ?inst ?ps) sol = Some sol1" "replanned sol sol1"
      "routes sol1 = (routes sol)[d := ?ps]" "TotalScore sol1 = TotalScore sol"
      using set_day_planned [OF d(1,4)] by auto
    have "d < length (routes sol)" using d(1) by simp
    note t = tour_replace [OF assms(2) this su d(2,3)]
    have old: "site ?inst ?old" "?old \<in> insert u ?V" using t(2) by (auto simp: visited_sites_def set_sites)
    obtain ss1 where ss1: "markVisited u ss = Some ss1" "tracks ?inst ss1 (insert u ?V)"
      using markVisited_tracks [OF assms(3) su] by blast
    obtain ss' where ss': "markUnvisited ?old ss1 = Some ss'" "tracks ?inst ss' (insert u ?V - {?old})"
      using markUnvisited_tracks [OF ss1(2) old] by blast
    let ?sol' = "sol1\<lparr>TotalScore := fadd64 (TotalScore sol1) (swap_gain sol u d pos)\<rparr>"
    have "\<not> fle64 (swap_gain sol u d pos) 0" using gain by (simp add: fgt64_iff fge64_iff)
    then have run: "bestSwap sol ss = Some (True, ?sol', ss')"
      using best(1) u(3) s1(1) ss1(1) ss'(1) by (simp add: bestSwap_def swap_value_def Let_def)
    have "\<not> better_move (swap_value sol u' d' pos') (swap_value sol u d pos)"
      if "site ?inst u'" "u' \<notin> ?V" "swap sol u' d' pos'" for u' d' pos'
      using best(4) that tr u(3) by blast
    then have "best_swap sol u d pos" using su u(2) gain by (simp add: best_swap_def Let_def)
    with s1 t have "\<exists>u d pos. best_swap sol u d pos \<and>
         routes ?sol' = (routes sol)[d := (routes sol ! d)[pos := u]] \<and>
         visited_sites ?inst (routes ?sol') = insert u ?V - {routes sol ! d ! pos} \<and>
         TotalScore ?sol' = fadd64 (TotalScore sol) (swap_gain sol u d pos)"
      by (intro exI [of _ u] exI [of _ d] exI [of _ pos]) simp
    with run s1 t ss' show ?thesis by (intro exI [of _ True] exI [of _ ?sol'] exI [of _ ss']) simp
  qed
qed

end
