(* ===== verification/Go_Float64_Diff.thy ===== *)
theory Go_Float64_Diff
  imports Go_Float64_Order
begin

text \<open>
  The sign of a difference: where \<open>fsub64 a b\<close> is positive, \<open>a\<close> is greater than \<open>b\<close>. A gain that the
  search computes by subtraction is therefore a step up in the order of the keys, which has no
  infinite ascent.
\<close>

section \<open>The unpacked parts of a finite float\<close>

lemma norm_up_spec:
  assumes "norm_up m e = (m', e')" "m \<noteq> 0" "unat m < 2 ^ 53"
  shows "\<exists>k. unat m' = unat m * 2 ^ k \<and> e' = e - int k \<and> 2 ^ 52 \<le> unat m' \<and> unat m' < 2 ^ 53"
  using assms
proof (induction m e rule: norm_up.induct)
  case (1 m e)
  show ?case
  proof (cases "m < top64")
    case True
    then have lt: "unat m < 2 ^ 52" by (simp add: word_less_nat_alt)
    have p: "unat (push_bit 1 m) = 2 * unat m" using True by (rule unat_push_bit_1)
    then have ne: "push_bit 1 m \<noteq> 0" using "1.prems"(2) by (metis mult_is_0 unat_eq_0 zero_neq_numeral)
    have "norm_up (push_bit 1 m) (e - 1) = (m', e')"
      using "1.prems"(1,2) True by (subst (asm) norm_up.simps) simp
    from "1.IH" [OF _ this ne] True "1.prems"(2) p lt obtain k where
      "unat m' = unat (push_bit 1 m) * 2 ^ k" "e' = e - 1 - int k" "2 ^ 52 \<le> unat m'" "unat m' < 2 ^ 53" by auto
    then show ?thesis using p by (intro exI [of _ "Suc k"]) simp
  next
    case False
    then have "m' = m" "e' = e" using "1.prems"(1) by (simp_all add: norm_up.simps [of m e])
    then show ?thesis using False "1.prems"(3) by (intro exI [of _ 0]) (simp add: word_less_nat_alt)
  qed
qed

text \<open>A finite non-zero float: its mantissa is normalised, and exponent and mantissa give the magnitude.\<close>

definition parts :: "nat \<Rightarrow> int \<Rightarrow> nat \<Rightarrow> bool" where
  "parts m e mag \<longleftrightarrow> 2 ^ 52 \<le> m \<and> m < 2 ^ 53 \<and>
     (if - 1022 \<le> e then int mag = (e + 1022) * 2 ^ 52 + int m
      else \<exists>k. e = - 1022 - int k \<and> m = mag * 2 ^ k \<and> mag < 2 ^ 52)"

lemma funpack64_parts:
  assumes "funpack64 f = (s, m, e, False, False)" "m \<noteq> 0"
  shows "parts (unat m) e (f64_mag f)"
proof -
  let ?E = "f64_mag f div 2 ^ 52" and ?F = "f64_mag f mod 2 ^ 52" and ?M = "f AND 0xFFFFFFFFFFFFF"
  have split: "f64_mag f = ?E * 2 ^ 52 + ?F" "?F < 2 ^ 52" by simp_all
  show ?thesis
  proof (cases "?E = 0")
    case True
    then have mag: "f64_mag f = ?F" using split(1) by simp
    have M: "unat ?M = f64_mag f" using mag f64_mantissa [of f] by simp
    have ne: "?M \<noteq> 0"
      using assms True by (auto simp: funpack64_def Let_def f64_exponent split: if_splits prod.splits)
    have n: "norm_up ?M (- 1022) = (m, e)"
      using assms True ne by (auto simp: funpack64_def Let_def f64_exponent split: if_splits prod.splits)
    have "unat ?M < 2 ^ 52" unfolding M using mag split(2) by linarith
    then obtain k where k: "unat m = f64_mag f * 2 ^ k" "e = - 1022 - int k" "2 ^ 52 \<le> unat m" "unat m < 2 ^ 53"
      using norm_up_spec [OF n ne] M by auto
    have "f64_mag f < 2 ^ 52" using mag split(2) by linarith
    then have "k \<noteq> 0" using k by (cases k) auto
    then show ?thesis using k \<open>f64_mag f < 2 ^ 52\<close> unfolding parts_def by (intro conjI) auto
  next
    case False
    then have me: "m = ?M OR top64" "e = int ?E - 1023"
      using assms by (auto simp: funpack64_def Let_def f64_exponent split: if_splits prod.splits)
    have t: "(0x10000000000000 :: f64) = 2 ^ 52" by simp
    have "?M AND top64 = 0"
      unfolding t and_mask_52
      by (rule bit_word_eqI) (simp only: bit_and_iff bit_take_bit_iff bit_exp_iff bit_0_eq, simp)
    then have "?M OR top64 = ?M + top64" by (simp add: disjunctive_add_eq_or)
    then have "unat m = unat ?M + 2 ^ 52"
      using me(1) f64_mantissa [of f] split(2) by (simp add: unat_word_ariths)
    then have "unat m = ?F + 2 ^ 52" using f64_mantissa [of f] by simp
    moreover have "int (f64_mag f) = int ?E * 2 ^ 52 + int ?F"
      using split(1) by (metis of_nat_add of_nat_mult of_nat_power of_nat_numeral)
    ultimately show ?thesis using me(2) False split(2) by (simp add: parts_def)
  qed
qed

lemma parts_order:
  assumes "parts m e a" "parts n g b"
  shows "e < g \<or> e = g \<and> m < n \<longleftrightarrow> a < b"
proof -
  have m: "2 ^ 52 \<le> m" "m < 2 ^ 53" and n: "2 ^ 52 \<le> n" "n < 2 ^ 53" using assms by (simp_all add: parts_def)
  consider "- 1022 \<le> e" "- 1022 \<le> g" | "e < - 1022" "- 1022 \<le> g" | "- 1022 \<le> e" "g < - 1022" | "e < - 1022" "g < - 1022"
    by linarith
  then show ?thesis
  proof cases
    case 1
    then have "int a = (e + 1022) * 2 ^ 52 + int m" "int b = (g + 1022) * 2 ^ 52 + int n"
      using assms by (simp_all add: parts_def)
    then show ?thesis using m n by (cases "e < g"; cases "g < e") auto
  next
    case 2
    then have "a < 2 ^ 52" "int b = (g + 1022) * 2 ^ 52 + int n" using assms by (auto simp: parts_def)
    then show ?thesis using 2 n by auto
  next
    case 3
    then have "b < 2 ^ 52" "int a = (e + 1022) * 2 ^ 52 + int m" using assms by (auto simp: parts_def)
    then show ?thesis using 3 m by auto
  next
    case 4
    then obtain k l where k: "e = - 1022 - int k" "m = a * 2 ^ k" and l: "g = - 1022 - int l" "n = b * 2 ^ l"
      using assms by (auto simp: parts_def)
    have lt: "x < y" if "i < j" "x * 2 ^ j < 2 ^ 53" "2 ^ 52 \<le> y * 2 ^ i" for x y i j :: nat
    proof (rule ccontr)
      assume "\<not> x < y"
      then have "y * 2 ^ Suc i \<le> x * 2 ^ j" using that(1) by (intro mult_mono power_increasing) auto
      with that(2,3) show False by simp
    qed
    consider "k < l" | "k = l" | "l < k" by linarith
    then show ?thesis
    proof cases
      case 1
      then show ?thesis using k l m n lt [of k l b a] by auto
    next
      case 2
      then show ?thesis using k l by simp
    next
      case 3
      then show ?thesis using k l m n lt [of l k a b] by auto
    qed
  qed
qed

section \<open>The sign of a sum\<close>

lemma fpack64_negative: "bit (fpack64 neg64 m e t) 63"
proof -
  have n: "bit neg64 63" by (simp add: bit_63_iff)
  have i: "\<not> bit inf64 63" by (simp add: bit_63_iff inf64_def)
  have x: "bit (neg64 XOR inf64) 63" using n i unfolding bit_xor_iff by blast
  have o: "bit (neg64 OR y) 63" for y using n by (simp only: bit_or_iff) simp
  show ?thesis
    unfolding fpack64_def Let_def using n x o by (simp add: or.assoc split: prod.split)
qed

lemma positive_bits: "fgt64 x 0 \<Longrightarrow> \<not> f64_nan x \<and> \<not> bit x 63 \<and> 0 < f64_mag x"
  by (auto simp: fgt64_iff f64_key_def f64_mag_def split: if_splits)

lemma fneg64_bits: "bit (fneg64 b) 63 \<longleftrightarrow> \<not> bit b 63" "f64_mag (fneg64 b) = f64_mag b"
proof -
  have n: "bit neg64 i \<longleftrightarrow> i = 63" for i
  proof -
    have "neg64 = (2 ^ 63 :: f64)" by simp
    then show ?thesis by (simp only: bit_exp_iff) auto
  qed
  show "bit (fneg64 b) 63 \<longleftrightarrow> \<not> bit b 63" by (simp only: fneg64_def bit_xor_iff n) simp
  have "take_bit 63 (fneg64 b) = take_bit 63 b"
    by (rule bit_word_eqI) (auto simp only: fneg64_def bit_take_bit_iff bit_xor_iff n)
  then show "f64_mag (fneg64 b) = f64_mag b"
    unfolding f64_mag_def unat_take_bit_64 [symmetric] by simp
qed

text \<open>A positive sum of finite non-zero floats has a summand that is positive and, where the other is
  negative, larger in magnitude.\<close>

lemma fadd64_positive:
  assumes "fgt64 (fadd64 f g) 0"
    and "funpack64 f = (fs, fm, fe, False, False)" "funpack64 g = (gs, gm, ge, False, False)" "fm \<noteq> 0" "gm \<noteq> 0"
  shows "(\<not> bit f 63 \<and> (\<not> bit g 63 \<or> f64_mag g < f64_mag f)) \<or> (\<not> bit g 63 \<and> f64_mag f < f64_mag g)"
proof -
  have fs: "fs = (if bit f 63 then neg64 else 0)" and gs: "gs = (if bit g 63 then neg64 else 0)"
    using funpack64_class(1) [OF assms(2)] funpack64_class(1) [OF assms(3)] by simp_all
  have ord: "fe < ge \<or> fe = ge \<and> fm < gm \<longleftrightarrow> f64_mag f < f64_mag g"
    "ge < fe \<or> ge = fe \<and> gm < fm \<longleftrightarrow> f64_mag g < f64_mag f"
    using parts_order [OF funpack64_parts [OF assms(2,4)] funpack64_parts [OF assms(3,5)]]
      parts_order [OF funpack64_parts [OF assms(3,5)] funpack64_parts [OF assms(2,4)]]
    by (simp_all add: word_less_nat_alt)
  define pack where "pack = (\<lambda>fs fm fe gs gm ge.
    let shift = nat (fe - ge); fm = push_bit 2 fm; gm = push_bit 2 gm;
        trunc = gm AND (push_bit shift 1 - 1); gm = drop_bit shift gm;
        fm = (if fs = gs then fm + gm else if trunc \<noteq> 0 then fm - gm - 1 else fm - gm);
        fs = (if fm = 0 then 0 else fs)
    in fpack64 fs fm (fe - 2) trunc)"
  have r: "fadd64 f g = (if f64_mag f < f64_mag g then pack gs gm ge fs fm fe else pack fs fm fe gs gm ge)"
    using assms(4,5) unfolding fadd64_def assms(2,3) pack_def by (simp add: ord(1) [symmetric] Let_def)
  have sign: "s = 0" if "fgt64 (pack s m e s' m' e') 0" "s \<in> {0, neg64}" for s m e s' m' e'
    using positive_bits [OF that(1)] that(2) fpack64_negative
    by (auto simp: pack_def Let_def fpack64_def [of 0 0] f64_mag_def split: if_splits)
  show ?thesis
  proof (cases "f64_mag f < f64_mag g")
    case True
    then have "gs = 0" using sign [of gs] assms(1) r gs by simp
    then show ?thesis using True gs by (auto split: if_splits)
  next
    case False
    then have p: "fgt64 (pack fs fm fe gs gm ge) 0" using assms(1) r by simp
    have f: "fs = 0" using sign [OF p] fs by simp
    have "f64_mag g < f64_mag f" if "gs \<noteq> fs"
    proof (rule ccontr)
      assume "\<not> f64_mag g < f64_mag f"
      then have "fe = ge" "fm = gm" using False ord by auto
      then have "pack fs fm fe gs gm ge = 0" using that f by (simp add: pack_def Let_def fpack64_def [of 0 0])
      with p show False using positive_bits by (fastforce simp: f64_mag_def)
    qed
    then show ?thesis using f fs gs by (auto split: if_splits)
  qed
qed

theorem fsub64_positive:
  assumes "fgt64 (fsub64 a b) 0"
  shows "fgt64 a b"
proof -
  let ?g = "fneg64 b"
  obtain fs fm fe fi fn where f: "funpack64 a = (fs, fm, fe, fi, fn)" by (metis prod_cases5)
  obtain gs gm ge gi gn where g: "funpack64 ?g = (gs, gm, ge, gi, gn)" by (metis prod_cases5)
  note cf = funpack64_class [OF f] and cg = funpack64_class [OF g]
  have add: "fgt64 (fadd64 a ?g) 0" using assms by (simp add: fsub64_def)
  have nb: "f64_nan ?g \<longleftrightarrow> f64_nan b" by (simp add: f64_nan_def fneg64_bits)
  have nn: "\<not> fn" "\<not> gn"
    using positive_bits [OF add] f g by (auto simp: fadd64_def f64_nan_def f64_mag_def nan64_def)
  then have nan: "\<not> f64_nan a" "\<not> f64_nan b" using cf(2) cg(2) nb by simp_all
  have fin: "\<not> fi \<Longrightarrow> f64_mag a < 2047 * 2 ^ 52" "\<not> gi \<Longrightarrow> f64_mag b < 2047 * 2 ^ 52"
    using cf(3) cg(3) nan by (auto simp: f64_nan_def fneg64_bits)
  have "f64_key b < f64_key a"
  proof (cases "fi \<or> gi \<or> fm = 0 \<or> gm = 0")
    case True
    have e: "fadd64 a ?g = (if fi \<and> gi \<and> fs \<noteq> gs then nan64 else if fi then a else if gi then ?g
      else if fm = 0 \<and> gm = 0 \<and> fs \<noteq> 0 \<and> gs \<noteq> 0 then a
      else if fm = 0 then (if gm = 0 then ?g XOR gs else ?g) else a)"
      using True nn f g by (auto simp: fadd64_def)
    have mx: "f64_mag (?g XOR gs) = 0" if "gm = 0" "\<not> gi"
    proof -
      have "f64_mag ?g = 0" using cg(4) nn that by simp
      moreover have "?g XOR gs = (if bit ?g 63 then fneg64 ?g else ?g)" using cg(1) by (simp add: fneg64_def)
      ultimately show ?thesis using fneg64_bits(2) [of ?g] by simp
    qed
    have nn64: "f64_nan nan64" by (simp add: f64_nan_def f64_mag_def nan64_def)
    note p = positive_bits [OF add]
    show ?thesis
    proof (cases "fi \<or> gi")
      case True
      then show ?thesis
        using p e nn64 cf(1,3) cg(1,3) fin fneg64_bits [of b] by (auto simp: f64_key_def split: if_splits)
    next
      case False
      then show ?thesis
        using p e mx cf(4) cg(4) nn \<open>fi \<or> gi \<or> fm = 0 \<or> gm = 0\<close> fneg64_bits [of b] by (auto simp: f64_key_def split: if_splits)
    qed
  next
    case False
    then have "(\<not> bit a 63 \<and> (\<not> bit ?g 63 \<or> f64_mag ?g < f64_mag a)) \<or> (\<not> bit ?g 63 \<and> f64_mag a < f64_mag ?g)"
      using fadd64_positive [OF add] f g nn by simp
    moreover have "0 < f64_mag a" "0 < f64_mag b" using False cf(4) cg(4) nn by (auto simp: fneg64_bits)
    ultimately show ?thesis by (auto simp: f64_key_def fneg64_bits)
  qed
  with nan show ?thesis by (simp add: fgt64_iff)
qed

end
