(* ===== verification/Go_Strings.thy ===== *)
theory Go_Strings
  imports Go_Prelude "HOL-Library.Char_ord"
begin

text \<open>
  The part of Go's \<open>strings\<close> package that the program uses, with the decoding of UTF-8 and the space test
  of \<open>unicode\<close> that it falls back to (\<open>strings/strings.go\<close>, \<open>internal/stringslite/strings.go\<close>,
  \<open>unicode/utf8/utf8.go\<close>, \<open>unicode/graphic.go\<close>). A Go string is the list of its bytes.
\<close>

abbreviation byte :: "char \<Rightarrow> nat" where "byte c \<equiv> of_char c"

section \<open>UTF-8\<close>

definition RuneError :: nat where "RuneError = 0xFFFD"
definition RuneSelf :: nat where "RuneSelf = 0x80"

definition utf8_first :: "nat list" where
  "utf8_first = replicate 128 0xF0 @ replicate 64 0xF1 @ replicate 2 0xF1 @ replicate 30 0x02 @
     [0x13] @ replicate 12 0x03 @ [0x23, 0x03, 0x03] @ [0x34, 0x04, 0x04, 0x04, 0x44] @ replicate 11 0xF1"

definition acceptRanges :: "(nat \<times> nat) list" where
  "acceptRanges = [(0x80, 0xBF), (0xA0, 0xBF), (0x80, 0x9F), (0x90, 0xBF), (0x80, 0x8F)] @ replicate 11 (0, 0)"

text \<open>
  The masks keep low bits, and the bits that \<open>|\<close> puts together are disjoint, so they are remainders
  and a sum.
\<close>

definition decodeRuneInStringSlow :: "string \<Rightarrow> nat \<times> nat" where
  "decodeRuneInStringSlow s =
     (case s of [] \<Rightarrow> (RuneError, 0)
      | c0 # cs \<Rightarrow>
        let s0 = byte c0; x = utf8_first ! s0
        in if x \<ge> 0xF0 then ((if odd x then RuneError else s0), 1)
           else
             let sz = x mod 8; (lo, hi) = acceptRanges ! (x div 16)
             in if length s < sz then (RuneError, 1)
                else
                  let s1 = byte (s ! 1)
                  in if s1 < lo \<or> hi < s1 then (RuneError, 1)
                     else if sz \<le> 2 then (s0 mod 32 * 64 + s1 mod 64, 2)
                     else
                       let s2 = byte (s ! 2)
                       in if s2 < 0x80 \<or> 0xBF < s2 then (RuneError, 1)
                          else if sz \<le> 3 then (s0 mod 16 * 4096 + s1 mod 64 * 64 + s2 mod 64, 3)
                          else
                            let s3 = byte (s ! 3)
                            in if s3 < 0x80 \<or> 0xBF < s3 then (RuneError, 1)
                               else (s0 mod 8 * 262144 + s1 mod 64 * 4096 + s2 mod 64 * 64 + s3 mod 64, 4))"

definition DecodeRuneInString :: "string \<Rightarrow> nat \<times> nat" where
  "DecodeRuneInString s =
     (if s \<noteq> [] \<and> byte (hd s) < RuneSelf then (byte (hd s), 1) else decodeRuneInStringSlow s)"

definition RuneStart :: "char \<Rightarrow> bool" where
  "RuneStart b \<longleftrightarrow> byte b div 64 \<noteq> 2"

text \<open>\<open>for start--; start >= lim; start--\<close>, with the index one higher so that it is a natural number.\<close>

fun lastStart :: "string \<Rightarrow> nat \<Rightarrow> nat \<Rightarrow> nat" where
  "lastStart s lim 0 = 0"
| "lastStart s lim (Suc start) =
     (if start < lim \<or> RuneStart (s ! start) then start else lastStart s lim start)"

definition DecodeLastRuneInString :: "string \<Rightarrow> nat \<times> nat" where
  "DecodeLastRuneInString s =
     (if s = [] then (RuneError, 0)
      else
        let r = byte (last s)
        in if r < RuneSelf then (r, 1)
           else
             let start = lastStart s (length s - 4) (length s - 1);
                 (r, size) = DecodeRuneInString (drop start s)
             in if start + size \<noteq> length s then (RuneError, 1) else (r, size))"

section \<open>White space\<close>

definition asciiSpace :: "char \<Rightarrow> bool" where
  "asciiSpace c \<longleftrightarrow> byte c \<in> {9, 10, 11, 12, 13, 32}"

text \<open>The 16-bit ranges (low, high, stride) of \<open>White_Space\<close>; the first two are Latin.\<close>

definition White_Space :: "(nat \<times> nat \<times> nat) list" where
  "White_Space = [(0x0009, 0x000d, 1), (0x0020, 0x0085, 101), (0x00a0, 0x1680, 5600), (0x2000, 0x200a, 1),
     (0x2028, 0x2029, 1), (0x202f, 0x205f, 48), (0x3000, 0x3000, 1)]"

fun is16 :: "(nat \<times> nat \<times> nat) list \<Rightarrow> nat \<Rightarrow> bool" where
  "is16 [] r = False"
| "is16 ((lo, hi, stride) # rs) r =
     (if r < lo then False else if r \<le> hi then stride = 1 \<or> (r - lo) mod stride = 0 else is16 rs r)"

definition isExcludingLatin :: "(nat \<times> nat \<times> nat) list \<Rightarrow> nat \<Rightarrow> nat \<Rightarrow> bool" where
  "isExcludingLatin r16 off r \<longleftrightarrow>
     (if length r16 > off \<and> r \<le> fst (snd (last r16)) then is16 (drop off r16) r else False)"

definition IsSpace :: "nat \<Rightarrow> bool" where
  "IsSpace r \<longleftrightarrow>
     (if r \<le> 0xFF then r \<in> {9, 10, 11, 12, 13, 32, 0x85, 0xA0} else isExcludingLatin White_Space 2 r)"

section \<open>Ranging over the runes of a string\<close>

lemma decodeRune_size: "s \<noteq> [] \<Longrightarrow> 1 \<le> snd (DecodeRuneInString s) \<and> snd (DecodeRuneInString s) \<le> length s"
proof (cases s)
  case (Cons c cs)
  have sz: "x mod 8 \<le> length s \<Longrightarrow> sz = x mod 8 \<Longrightarrow> sz \<le> length s" for x sz :: nat by simp
  show ?thesis
  proof (cases "utf8_first ! byte c < 0xF0 \<and> utf8_first ! byte c mod 8 \<le> length s")
    case False
    then show ?thesis using Cons
      by (auto simp: DecodeRuneInString_def decodeRuneInStringSlow_def Let_def split: prod.splits)
  next
    case True
    have "byte c < 256" using of_char_mod_256 [of c] by (metis mod_less_divisor zero_less_numeral)
    moreover have "length utf8_first = 256" by (simp add: utf8_first_def)
    ultimately have "utf8_first ! byte c \<in> set utf8_first" by simp
    moreover have "\<forall>x \<in> set utf8_first. x < 0xF0 \<longrightarrow> 2 \<le> x mod 8 \<and> x mod 8 \<le> 4"
      by (auto simp: utf8_first_def)
    ultimately have "2 \<le> utf8_first ! byte c mod 8" "utf8_first ! byte c mod 8 \<le> 4" using True by blast+
    then show ?thesis using Cons True
      by (auto simp: DecodeRuneInString_def decodeRuneInStringSlow_def Let_def split: prod.splits)
  qed
qed simp

lemma lastStart_le: "lastStart s lim k \<le> k - 1"
  by (induction k) (auto simp: Let_def intro: le_trans)

lemma decodeLastRune_size: "s \<noteq> [] \<Longrightarrow> 1 \<le> snd (DecodeLastRuneInString s) \<and> snd (DecodeLastRuneInString s) \<le> length s"
proof -
  assume s: "s \<noteq> []"
  let ?k = "lastStart s (length s - 4) (length s - 1)"
  have "?k < length s" using lastStart_le [of s "length s - 4" "length s - 1"] s by (cases s) auto
  then have "drop ?k s \<noteq> []" by simp
  note d = decodeRune_size [OF this]
  show ?thesis
  proof (cases "byte (last s) < RuneSelf \<or> ?k + snd (DecodeRuneInString (drop ?k s)) \<noteq> length s")
    case True
    then show ?thesis using s by (cases s) (auto simp: DecodeLastRuneInString_def Let_def split: prod.splits)
  next
    case False
    then have "snd (DecodeLastRuneInString s) = snd (DecodeRuneInString (drop ?k s))"
      using s by (auto simp: DecodeLastRuneInString_def Let_def split: prod.splits)
    then show ?thesis using d diff_le_self [of "length s" ?k] le_trans by (metis length_drop)
  qed
qed

text \<open>\<open>for i, r := range s\<close>: the runes with the offsets of their first bytes.\<close>

function runesFrom :: "nat \<Rightarrow> string \<Rightarrow> (nat \<times> nat) list" where
  "runesFrom i s =
     (if s = [] then [] else (i, fst (DecodeRuneInString s)) # runesFrom (i + snd (DecodeRuneInString s)) (drop (snd (DecodeRuneInString s)) s))"
  by auto
termination
proof (relation "measure (\<lambda>(i, s). length s)")
  show "((i + snd (DecodeRuneInString s), drop (snd (DecodeRuneInString s)) s), i, s) \<in> measure (\<lambda>(i, s). length s)"
    if "s \<noteq> []" for i s
    using decodeRune_size [OF that] that by simp
qed simp

declare runesFrom.simps [simp del]

section \<open>Trimming\<close>

definition indexFunc :: "string \<Rightarrow> (nat \<Rightarrow> bool) \<Rightarrow> bool \<Rightarrow> nat option" where
  "indexFunc s f truth = map_option fst (List.find (\<lambda>(i, r). f r = truth) (runesFrom 0 s))"

text \<open>\<open>lastIndexFunc\<close>, for the prefix of \<open>s\<close> that is left; \<^const>\<open>None\<close> is \<open>-1\<close>.\<close>

function lastIndexFunc :: "string \<Rightarrow> (nat \<Rightarrow> bool) \<Rightarrow> bool \<Rightarrow> nat option" where
  "lastIndexFunc s f truth =
     (if s = [] then None
      else
        let (r, size) = DecodeLastRuneInString s; i = length s - size
        in if f r = truth then Some i else lastIndexFunc (take i s) f truth)"
  by auto
termination
proof (relation "measure (\<lambda>(s, f, truth). length s)")
  show "((take y s, f, truth), s, f, truth) \<in> measure (\<lambda>(s, f, truth). length s)"
    if "s \<noteq> []" "x = DecodeLastRuneInString s" "(r, size) = x" "y = length s - size" for s f truth x r size y
  proof -
    have "1 \<le> size" using decodeLastRune_size [OF that(1)] that(2,3) by (metis snd_conv)
    then show ?thesis using that(1,4) by (cases s) simp_all
  qed
qed simp

declare lastIndexFunc.simps [simp del]

definition TrimLeftFunc :: "string \<Rightarrow> (nat \<Rightarrow> bool) \<Rightarrow> string" where
  "TrimLeftFunc s f = (case indexFunc s f False of None \<Rightarrow> [] | Some i \<Rightarrow> drop i s)"

definition TrimRightFunc :: "string \<Rightarrow> (nat \<Rightarrow> bool) \<Rightarrow> string" where
  "TrimRightFunc s f =
     (case lastIndexFunc s f False of
        Some i \<Rightarrow> take (i + snd (DecodeRuneInString (drop i s))) s
      | None \<Rightarrow> [])"

definition TrimFunc :: "string \<Rightarrow> (nat \<Rightarrow> bool) \<Rightarrow> string" where
  "TrimFunc s f = TrimRightFunc (TrimLeftFunc s f) f"

text \<open>The inner loop of \<open>TrimSpace\<close>, over the reversed string; it ends at the latest at a byte that is not a space.\<close>

fun trimEnd :: "string \<Rightarrow> string" where
  "trimEnd [] = []"
| "trimEnd (c # rev_s) =
     (if byte c \<ge> RuneSelf then TrimRightFunc (rev (c # rev_s)) IsSpace
      else if \<not> asciiSpace c then rev (c # rev_s)
      else trimEnd rev_s)"

fun TrimSpace :: "string \<Rightarrow> string" where
  "TrimSpace [] = []"
| "TrimSpace (c # s) =
     (if byte c \<ge> RuneSelf then TrimFunc (c # s) IsSpace
      else if asciiSpace c then TrimSpace s
      else trimEnd (rev (c # s)))"

definition HasPrefix :: "string \<Rightarrow> string \<Rightarrow> bool" where
  "HasPrefix s prefx \<longleftrightarrow> length s \<ge> length prefx \<and> take (length prefx) s = prefx"

definition HasSuffix :: "string \<Rightarrow> string \<Rightarrow> bool" where
  "HasSuffix s suffx \<longleftrightarrow> length s \<ge> length suffx \<and> drop (length s - length suffx) s = suffx"

definition TrimPrefix :: "string \<Rightarrow> string \<Rightarrow> string" where
  "TrimPrefix s prefx = (if HasPrefix s prefx then drop (length prefx) s else s)"

definition TrimSuffix :: "string \<Rightarrow> string \<Rightarrow> string" where
  "TrimSuffix s suffx = (if HasSuffix s suffx then take (length s - length suffx) s else s)"

section \<open>Splitting and joining\<close>

text \<open>The spans of \<open>FieldsFunc\<close>: \<open>start\<close> is a valid start or none.\<close>

fun spansOf :: "nat \<Rightarrow> (nat \<Rightarrow> bool) \<Rightarrow> nat option \<Rightarrow> (nat \<times> nat) list \<Rightarrow> (nat \<times> nat) list" where
  "spansOf len f None [] = []"
| "spansOf len f (Some start) [] = [(start, len)]"
| "spansOf len f None ((e, r) # rs) = (if f r then spansOf len f None rs else spansOf len f (Some e) rs)"
| "spansOf len f (Some start) ((e, r) # rs) =
     (if f r then (start, e) # spansOf len f None rs else spansOf len f (Some start) rs)"

definition FieldsFunc :: "string \<Rightarrow> (nat \<Rightarrow> bool) \<Rightarrow> string list" where
  "FieldsFunc s f = map (\<lambda>(start, e). take (e - start) (drop start s)) (spansOf (length s) f None (runesFrom 0 s))"

text \<open>The first loop of \<open>Fields\<close>: the number of fields.\<close>

fun countFields :: "bool \<Rightarrow> string \<Rightarrow> nat" where
  "countFields wasSpace [] = 0"
| "countFields wasSpace (c # s) =
     (if wasSpace \<and> \<not> asciiSpace c then 1 else 0) + countFields (asciiSpace c) s"

text \<open>The main loop; \<open>field\<close> is \<open>s[fieldStart:i]\<close>.\<close>

function fieldsLoop :: "string \<Rightarrow> string \<Rightarrow> string list" where
  "fieldsLoop field [] = (if field \<noteq> [] then [field] else [])"
| "fieldsLoop field (c # s) =
     (if \<not> asciiSpace c then fieldsLoop (field @ [c]) s else field # fieldsLoop [] (dropWhile asciiSpace s))"
  by pat_completeness auto
termination
  by (relation "measure (\<lambda>(field, s). length s)") (auto simp: le_imp_less_Suc length_dropWhile_le)

text \<open>Writing past the counted number of fields would panic, and fields that are not written stay empty.\<close>

definition Fields :: "string \<Rightarrow> string list option" where
  "Fields s =
     (let n = countFields True s
      in if \<exists>c \<in> set s. byte c \<ge> RuneSelf then Some (FieldsFunc s IsSpace)
         else
           let fields = fieldsLoop [] (dropWhile asciiSpace s)
           in if length fields > n then None else Some (fields @ replicate (n - length fields) []))"

definition Join :: "string list \<Rightarrow> string \<Rightarrow> string" where
  "Join elems sep =
     (case elems of [] \<Rightarrow> [] | [e] \<Rightarrow> e | e # es \<Rightarrow> e @ concat (map (\<lambda>s. sep @ s) es))"

section \<open>Facts on ASCII strings\<close>

definition ascii :: "string \<Rightarrow> bool" where
  "ascii s \<longleftrightarrow> (\<forall>c \<in> set s. byte c < RuneSelf)"

definition word_like :: "string \<Rightarrow> bool" where
  "word_like w \<longleftrightarrow> w \<noteq> [] \<and> (\<forall>c \<in> set w. byte c < RuneSelf \<and> \<not> asciiSpace c)"

lemma fieldsLoop_word: "\<forall>c \<in> set w. \<not> asciiSpace c \<Longrightarrow> fieldsLoop field (w @ s) = fieldsLoop (field @ w) s"
  by (induction w arbitrary: field) auto

lemma fieldsLoop_nonempty: "\<forall>w \<in> set (fieldsLoop field s). w \<noteq> []"
  if "field \<noteq> [] \<or> s = [] \<or> \<not> asciiSpace (hd s)"
  using that
proof (induction field s rule: fieldsLoop.induct)
  case (2 field c s)
  show ?case
  proof (cases "asciiSpace c")
    case True
    have "dropWhile asciiSpace s = [] \<or> \<not> asciiSpace (hd (dropWhile asciiSpace s))"
      using hd_dropWhile by blast
    then show ?thesis using 2 True by auto
  qed (use 2 in simp)
qed auto

text \<open>The first loop counts the fields that the second one finds.\<close>

lemma countFields_drop: "countFields True s = countFields True (dropWhile asciiSpace s)"
  by (induction s) auto

lemma countFields_loop:
  shows "field \<noteq> [] \<Longrightarrow> length (fieldsLoop field s) = countFields False s + 1"
    and "length (fieldsLoop [] (dropWhile asciiSpace s)) = countFields True s"
proof -
  have both: "(field \<noteq> [] \<longrightarrow> length (fieldsLoop field s) = countFields False s + 1) \<and>
      length (fieldsLoop [] (dropWhile asciiSpace s)) = countFields True s" for field
  proof (induction "length s" arbitrary: s field rule: less_induct)
    case less
    show ?case
    proof (cases s)
      case (Cons c t)
      have IH: "length (fieldsLoop [] (dropWhile asciiSpace t)) = countFields True t"
        "field \<noteq> [] \<Longrightarrow> length (fieldsLoop field t) = countFields False t + 1" for field
        using less [of t field] Cons by simp_all
      show ?thesis using IH(1) IH(2) [of "field @ [c]"] IH(2) [of "[c]"] Cons by simp
    qed simp
  qed
  show "field \<noteq> [] \<Longrightarrow> length (fieldsLoop field s) = countFields False s + 1"
    "length (fieldsLoop [] (dropWhile asciiSpace s)) = countFields True s" using both by blast+
qed

theorem Fields_returns: "\<exists>ws. Fields s = Some ws \<and> (ascii s \<longrightarrow> ws = fieldsLoop [] (dropWhile asciiSpace s))"
  using countFields_loop(2) [of s] by (fastforce simp: Fields_def Let_def ascii_def)

lemma word_no_space: "word_like w \<Longrightarrow> dropWhile asciiSpace (w @ s) = w @ s"
  by (cases w) (auto simp: word_like_def)

lemma Join_Nil [simp]: "Join [] sep = []"
  by (simp add: Join_def)

lemma Join_Cons: "Join (w # us) sep = w @ concat (map (\<lambda>s. sep @ s) us)"
  by (cases us) (simp_all add: Join_def)

lemma fieldsLoop_join:
  assumes "\<forall>w \<in> set ws. word_like w"
  shows "fieldsLoop [] (Join ws '' '') = ws"
proof -
  have sp: "asciiSpace (CHR '' '')" by (simp add: asciiSpace_def)
  have go: "fieldsLoop [] (w @ concat (map (\<lambda>s. '' '' @ s) us)) = w # us"
    if "word_like w" "\<forall>u \<in> set us. word_like u" for w us
    using that
  proof (induction us arbitrary: w)
    case Nil
    then show ?case using fieldsLoop_word [of w "[]" "[]"] by (simp add: word_like_def)
  next
    case (Cons u us)
    have "fieldsLoop [] (w @ '' '' @ u @ concat (map (\<lambda>s. '' '' @ s) us)) =
        fieldsLoop w ('' '' @ u @ concat (map (\<lambda>s. '' '' @ s) us))"
      using fieldsLoop_word [of w "[]"] Cons.prems(1) by (simp add: word_like_def)
    also have "\<dots> = w # fieldsLoop [] (u @ concat (map (\<lambda>s. '' '' @ s) us))"
      using sp word_no_space Cons.prems(2) by simp
    finally show ?case using Cons.IH [of u] Cons.prems(2) by simp
  qed
  show ?thesis
  proof (cases ws)
    case (Cons w us)
    then show ?thesis using go [of w us] assms by (simp only: Join_Cons list.set insert_iff) blast
  qed simp
qed

text \<open>Splitting what was joined with spaces gives the words back.\<close>

theorem Fields_Join:
  assumes "\<forall>w \<in> set ws. word_like w"
  shows "Fields (Join ws '' '') = Some ws"
proof -
  have a: "ascii (Join ws '' '')"
    using assms by (cases ws) (auto simp: Join_Cons ascii_def word_like_def RuneSelf_def)
  have "dropWhile asciiSpace (Join ws '' '') = Join ws '' ''"
  proof (cases ws)
    case (Cons w us)
    then show ?thesis using word_no_space [of w] assms by (simp only: Join_Cons list.set insert_iff) blast
  qed simp
  with Fields_returns [of "Join ws '' ''"] a fieldsLoop_join [OF assms] show ?thesis by auto
qed

text \<open>An ASCII string that neither starts nor ends with a space is not trimmed.\<close>

lemma trimEnd_ascii:
  "ascii s \<Longrightarrow> trimEnd s = rev (dropWhile asciiSpace s)"
  by (induction s) (auto simp: ascii_def)

lemma TrimSpace_ascii:
  "ascii s \<Longrightarrow> TrimSpace s = rev (dropWhile asciiSpace (rev (dropWhile asciiSpace s)))"
proof (induction s)
  case (Cons c s)
  then have "ascii (rev (c # s))" "byte c < RuneSelf" "ascii s" by (auto simp: ascii_def)
  then show ?case using Cons.IH trimEnd_ascii [of "rev (c # s)"] by simp
qed simp

end
