(* ===== verification/Go_Atoi.thy ===== *)
theory Go_Atoi
  imports Go_Strings
begin

text \<open>
  Integers as text: \<open>ParseUint\<close>, \<open>ParseInt\<close>, \<open>Atoi\<close> and \<open>underscoreOK\<close> of \<open>internal/strconv/atoi.go\<close>, and the
  decimal digits that \<open>fmt\<close> prints for \<open>%d\<close>. The 64-bit values are words; \<open>n\<close> of the fast path of \<open>Atoi\<close>
  has at most 18 digits and cannot wrap, so it is an \<open>int\<close>.
\<close>

section \<open>Parsing\<close>

datatype strconv_error = ErrRange | ErrSyntax | ErrBase | ErrBitSize

text \<open>\<open>c | ('x' - 'X')\<close>: the bit of value 32 is set.\<close>

definition lower :: "char \<Rightarrow> nat" where
  "lower c = (if even (byte c div 32) then byte c + 32 else byte c)"

definition is_digit :: "char \<Rightarrow> bool" where
  "is_digit c \<longleftrightarrow> 48 \<le> byte c \<and> byte c \<le> 57"

text \<open>
  \<open>saw\<close> is the class of the last character: the beginning, a digit, an underscore, something else.
\<close>

datatype saw_class = SawStart | SawDigit | SawUnderscore | SawOther

fun underscoreLoop :: "bool \<Rightarrow> saw_class \<Rightarrow> string \<Rightarrow> bool" where
  "underscoreLoop hex saw [] \<longleftrightarrow> saw \<noteq> SawUnderscore"
| "underscoreLoop hex saw (c # s) \<longleftrightarrow>
     (if is_digit c \<or> (hex \<and> 97 \<le> lower c \<and> lower c \<le> 102) then underscoreLoop hex SawDigit s
      else if c = CHR ''_'' then saw = SawDigit \<and> underscoreLoop hex SawUnderscore s
      else if saw = SawUnderscore then False
      else underscoreLoop hex SawOther s)"

definition underscoreOK :: "string \<Rightarrow> bool" where
  "underscoreOK s =
     (let s = (if s \<noteq> [] \<and> (hd s = CHR ''-'' \<or> hd s = CHR ''+'') then tl s else s)
      in if length s \<ge> 2 \<and> hd s = CHR ''0'' \<and> lower (s ! 1) \<in> {98, 111, 120}
         then underscoreLoop (lower (s ! 1) = 120) SawDigit (drop 2 s)
         else underscoreLoop False SawStart s)"

text \<open>The loop of \<open>ParseUint\<close>; \<^const>\<open>Inl\<close> is a return from inside the loop.\<close>

fun uintLoop :: "bool \<Rightarrow> int \<Rightarrow> 64 word \<Rightarrow> 64 word \<Rightarrow> string \<Rightarrow> bool \<Rightarrow> 64 word \<Rightarrow>
    (64 word \<times> strconv_error) + (bool \<times> 64 word)" where
  "uintLoop base0 base cutoff maxVal [] underscores n = Inr (underscores, n)"
| "uintLoop base0 base cutoff maxVal (c # s) underscores n =
     (if c = CHR ''_'' \<and> base0 then uintLoop base0 base cutoff maxVal s True n
      else if \<not> is_digit c \<and> \<not> (97 \<le> lower c \<and> lower c \<le> 122) then Inl (0, ErrSyntax)
      else
        let d = (if is_digit c then int (byte c) - 48 else int (lower c) - 97 + 10)
        in if d \<ge> base then Inl (0, ErrSyntax)
           else if cutoff \<le> n then Inl (maxVal, ErrRange)
           else
             let n = n * word_of_int base; n1 = n + word_of_int d
             in if n1 < n \<or> maxVal < n1 then Inl (maxVal, ErrRange)
                else uintLoop base0 base cutoff maxVal s underscores n1)"

text \<open>The prefix that a base 0 asks for.\<close>

definition basePrefix :: "string \<Rightarrow> int \<times> string" where
  "basePrefix s =
     (if hd s = CHR ''0'' then
        if length s \<ge> 3 \<and> lower (s ! 1) = 98 then (2, drop 2 s)
        else if length s \<ge> 3 \<and> lower (s ! 1) = 111 then (8, drop 2 s)
        else if length s \<ge> 3 \<and> lower (s ! 1) = 120 then (16, drop 2 s)
        else (8, drop 1 s)
      else (10, s))"

definition ParseUint :: "string \<Rightarrow> int \<Rightarrow> int \<Rightarrow> 64 word \<times> strconv_error option" where
  "ParseUint s base bitSize =
     (if s = [] then (0, Some ErrSyntax)
      else if \<not> (2 \<le> base \<and> base \<le> 36) \<and> base \<noteq> 0 then (0, Some ErrBase)
      else
        let base0 = (base = 0); s0 = s;
            (base, s) = (if 2 \<le> base \<and> base \<le> 36 then (base, s) else basePrefix s);
            bitSize = (if bitSize = 0 then 64 else bitSize)
        in if bitSize < 0 \<or> bitSize > 64 then (0, Some ErrBitSize)
           else
             let cutoff = - 1 div word_of_int base + 1;
                 maxVal = push_bit (nat bitSize) 1 - 1
             in case uintLoop base0 base cutoff maxVal s False 0 of
                  Inl (v, e) \<Rightarrow> (v, Some e)
                | Inr (underscores, n) \<Rightarrow>
                    if underscores \<and> \<not> underscoreOK s0 then (0, Some ErrSyntax) else (n, None))"

definition ParseInt :: "string \<Rightarrow> int \<Rightarrow> int \<Rightarrow> int \<times> strconv_error option" where
  "ParseInt s base bitSize =
     (if s = [] then (0, Some ErrSyntax)
      else
        let neg = (hd s = CHR ''-'');
            s = (if hd s = CHR ''+'' \<or> neg then tl s else s);
            (un, err) = ParseUint s base bitSize
        in if err \<noteq> None \<and> err \<noteq> Some ErrRange then (0, err)
           else
             let bitSize = (if bitSize = 0 then 64 else bitSize);
                 cutoff = push_bit (nat (bitSize - 1)) (1 :: 64 word)
             in if \<not> neg \<and> cutoff \<le> un then (sint (cutoff - 1), Some ErrRange)
                else if neg \<and> cutoff < un then (sint (- cutoff), Some ErrRange)
                else (if neg then sint (- un) else sint un, None))"

fun atoiLoop :: "int \<Rightarrow> string \<Rightarrow> int option" where
  "atoiLoop n [] = Some n"
| "atoiLoop n (c # s) = (if is_digit c then atoiLoop (n * 10 + (int (byte c) - 48)) s else None)"

definition Atoi :: "string \<Rightarrow> int \<times> strconv_error option" where
  "Atoi s =
     (if 0 < length s \<and> length s < 19 then
        let s0 = s; s = (if hd s = CHR ''-'' \<or> hd s = CHR ''+'' then tl s else s)
        in if s \<noteq> s0 \<and> length s < 1 then (0, Some ErrSyntax)
           else case atoiLoop 0 s of
             None \<Rightarrow> (0, Some ErrSyntax)
           | Some n \<Rightarrow> ((if hd s0 = CHR ''-'' then - n else n), None)
      else ParseInt s 10 0)"

section \<open>Printing\<close>

text \<open>\<open>byte('0' + d)\<close> for a digit \<open>d\<close>.\<close>

definition digit_char :: "nat \<Rightarrow> char" where
  "digit_char d = char_of (48 + d)"

text \<open>The loop \<open>for u >= 10\<close> of \<open>fmtInteger\<close> in base 10, which fills the buffer from the right, and the last digit.\<close>

function fmtDigits :: "64 word \<Rightarrow> string \<Rightarrow> string" where
  "fmtDigits u buf =
     (if 10 \<le> u then
        let nxt = u div 10 in fmtDigits nxt (digit_char (unat (u - nxt * 10)) # buf)
      else digit_char (unat u) # buf)"
  by auto
termination
proof (relation "measure (\<lambda>(u, buf). unat u)")
  show "((x, digit_char (unat (u - x * 10)) # buf), u, buf) \<in> measure (\<lambda>(u, buf). unat u)"
    if "10 \<le> u" "x = u div 10" for u x :: "64 word" and buf
  proof -
    have "0 < unat u" using that(1) by (simp add: word_le_nat_alt)
    then have "unat u div 10 < unat u" by simp
    then show ?thesis using that(2) by (simp add: unat_div)
  qed
qed simp

declare fmtDigits.simps [simp del]

text \<open>\<open>%d\<close> without flags, width and precision.\<close>

definition fmtInteger :: "64 word \<Rightarrow> bool \<Rightarrow> string" where
  "fmtInteger u isSigned =
     (let negative = (isSigned \<and> u <s 0);
          u = (if negative then - u else u);
          buf = fmtDigits u []
      in if negative then CHR ''-'' # buf else buf)"

section \<open>Digits\<close>

text \<open>The value of a string of digits, and the digits of a number.\<close>

definition digits_value :: "string \<Rightarrow> nat" where
  "digits_value s = foldl (\<lambda>n c. 10 * n + (byte c - 48)) 0 s"

fun digits_of :: "nat \<Rightarrow> string" where
  "digits_of n = (if 10 \<le> n then digits_of (n div 10) @ [digit_char (n mod 10)] else [digit_char n])"

declare digits_of.simps [simp del]

lemma byte_digit_char [simp]: "d < 10 \<Longrightarrow> byte (digit_char d) = 48 + d"
  by (simp add: digit_char_def)

lemma is_digit_char [simp]: "d < 10 \<Longrightarrow> is_digit (digit_char d)"
  by (simp add: is_digit_def)

lemma digits_value_snoc: "digits_value (s @ [c]) = 10 * digits_value s + (byte c - 48)"
  by (simp add: digits_value_def)

lemma digits_of_digits: "\<forall>c \<in> set (digits_of n). is_digit c"
  by (induction n rule: digits_of.induct) (subst digits_of.simps, simp)

lemma digits_of_ne: "digits_of n \<noteq> []"
  by (subst digits_of.simps) simp

theorem digits_value_of [simp]: "digits_value (digits_of n) = n"
proof (induction n rule: digits_of.induct)
  case (1 n)
  show ?case
  proof (cases "10 \<le> n")
    case True
    then show ?thesis using 1 by (subst digits_of.simps) (simp add: digits_value_snoc)
  next
    case False
    then show ?thesis by (subst digits_of.simps) (simp add: digits_value_def)
  qed
qed

lemma digits_of_length: "n < 10 ^ k \<Longrightarrow> 0 < k \<Longrightarrow> length (digits_of n) \<le> k"
proof (induction k arbitrary: n)
  case (Suc k)
  show ?case
  proof (cases "10 \<le> n")
    case True
    then have "0 < k" using Suc.prems(1) by (cases k) auto
    moreover have "n div 10 < 10 ^ k" using Suc.prems(1) by (simp add: less_mult_imp_div_less mult.commute)
    ultimately show ?thesis using Suc.IH True by (subst digits_of.simps) simp
  next
    case False
    then show ?thesis by (subst digits_of.simps) simp
  qed
qed simp

lemma fmtDigits_of: "fmtDigits u buf = digits_of (unat u) @ buf"
proof (induction u buf rule: fmtDigits.induct)
  case (1 u buf)
  have ten: "10 \<le> u \<longleftrightarrow> 10 \<le> unat u" by (simp add: word_le_nat_alt)
  show ?case
  proof (cases "10 \<le> u")
    case True
    have "u - u div 10 * 10 = u mod 10" by (simp add: minus_div_mult_eq_mod)
    then have "unat (u - u div 10 * 10) = unat u mod 10" by (simp add: unat_mod)
    then show ?thesis using 1 True ten by (subst fmtDigits.simps, subst digits_of.simps) (simp add: Let_def unat_div)
  next
    case False
    then show ?thesis using ten by (subst fmtDigits.simps, subst digits_of.simps) simp
  qed
qed

theorem fmtInteger_nat:
  assumes "n < 2 ^ 63"
  shows "fmtInteger (word_of_nat n) True = digits_of n"
proof -
  have u: "unat (word_of_nat n :: 64 word) = n" using assms by (simp add: unat_of_nat take_bit_eq_mod)
  have "sint (word_of_nat n :: 64 word) = int n"
    using assms by (simp add: signed_of_nat signed_take_bit_int_eq_self)
  then have "\<not> (word_of_nat n :: 64 word) <s 0" by (simp add: word_sless_alt)
  then show ?thesis by (simp add: fmtInteger_def Let_def fmtDigits_of u)
qed

lemma atoiLoop_digits:
  "\<forall>c \<in> set s. is_digit c \<Longrightarrow> atoiLoop (int n) s = Some (int (foldl (\<lambda>n c. 10 * n + (byte c - 48)) n s))"
proof (induction s arbitrary: n)
  case (Cons c s)
  have c: "is_digit c" "\<forall>c \<in> set s. is_digit c" using Cons.prems by simp_all
  have e: "int n * 10 + (int (byte c) - 48) = int (10 * n + (byte c - 48))"
    using c(1) by (simp add: is_digit_def of_nat_diff)
  show ?case unfolding atoiLoop.simps e foldl.simps using c(1) Cons.IH [OF c(2), of "10 * n + (byte c - 48)"] by (simp only: if_True)
qed simp

text \<open>Reading back a printed number of at most 18 digits.\<close>

theorem Atoi_fmtInteger:
  assumes "n < 10 ^ 18"
  shows "Atoi (fmtInteger (word_of_nat n) True) = (int n, None)"
proof -
  have l: "length (digits_of n) \<le> 18" using digits_of_length [OF assms] by simp
  obtain c s where s: "digits_of n = c # s" using digits_of_ne by (cases "digits_of n") auto
  have d: "\<forall>c \<in> set (digits_of n). is_digit c" by (rule digits_of_digits)
  then have "is_digit c" using s by simp
  then have c: "c \<noteq> CHR ''-''" "c \<noteq> CHR ''+''" by (auto simp: is_digit_def)
  have v: "foldl (\<lambda>n c. 10 * n + (byte c - 48)) 0 (digits_of n) = n"
    using digits_value_of [of n] by (simp add: digits_value_def)
  have run: "atoiLoop 0 (digits_of n) = Some (int n)" using atoiLoop_digits [OF d, of 0] v by simp
  have p: "fmtInteger (word_of_nat n) True = digits_of n" using assms by (intro fmtInteger_nat) simp
  have "hd (digits_of n) \<noteq> CHR ''-''" "hd (digits_of n) \<noteq> CHR ''+''" "0 < length (digits_of n)"
    using c s by simp_all
  then show ?thesis using l run unfolding p Atoi_def Let_def by (simp del: atoiLoop.simps)
qed

end
