(* ===== verification/Go_Decimal.thy ===== *)
theory Go_Decimal
  imports Go_Prelude Complex_Main
begin

text \<open>
  The multiprecision decimals of \<open>internal/strconv/decimal.go\<close>, with which \<open>ParseFloat\<close> converts the
  numbers that its fast paths refuse and \<open>FormatFloat\<close> prints exactly.

  The 800-byte array is the list of the digits in use, \<open>d[:nd]\<close>, as numbers: no byte behind
  \<open>nd\<close> is read before it is written. The accumulator \<open>n\<close> of the two shifts stays below \<open>10 * 2^k\<close>
  with \<open>k \<le> 60\<close>, so it is a \<^typ>\<open>nat\<close>.
\<close>

section \<open>The type\<close>

record decimal =
  dD :: "nat list"
  dDp :: int
  dNeg :: bool
  dTrunc :: bool

definition zeroDecimal :: decimal where
  "zeroDecimal = \<lparr>dD = [], dDp = 0, dNeg = False, dTrunc = False\<rparr>"

text \<open>\<open>len(a.d)\<close> and the largest shift of one pass.\<close>

definition digitCap :: nat where "digitCap = 800"
definition maxShift :: nat where "maxShift = 60"

definition trim :: "decimal \<Rightarrow> decimal" where
  "trim a =
     (let ds = rev (dropWhile (\<lambda>c. c = 0) (rev (dD a)))
      in a\<lparr>dD := ds, dDp := (if ds = [] then 0 else dDp a)\<rparr>)"

section \<open>Assignment\<close>

function assignDigits :: "64 word \<Rightarrow> nat list \<Rightarrow> nat list" where
  "assignDigits v buf =
     (if 0 < v then let v1 = v div 10 in assignDigits v1 (unat (v - 10 * v1) # buf) else buf)"
  by auto
termination
proof (relation "measure (\<lambda>(v, buf). unat v)")
  show "((x, unat (v - 10 * x) # buf), v, buf) \<in> measure (\<lambda>(v, buf). unat v)"
    if "0 < v" "x = v div 10" for v x :: "64 word" and buf
    using that by (simp add: unat_div word_less_nat_alt)
qed simp

declare assignDigits.simps [simp del]

definition Assign :: "decimal \<Rightarrow> 64 word \<Rightarrow> decimal" where
  "Assign a v = (let ds = assignDigits v [] in trim (a\<lparr>dD := ds, dDp := int (length ds)\<rparr>))"

section \<open>Shifting right\<close>

text \<open>
  The first loop: the digits that make the first quotient, with the number of digits read and
  those left; \<^const>\<open>None\<close> is the early return for zero.
\<close>

function pickZeros :: "nat \<Rightarrow> nat \<Rightarrow> nat \<Rightarrow> nat \<times> nat" where
  "pickZeros k n r = (if n div 2 ^ k = 0 \<and> n \<noteq> 0 then pickZeros k (n * 10) (r + 1) else (n, r))"
  by auto
termination
proof (relation "measure (\<lambda>(k, n, r). 2 ^ k - n)")
  show "((k, n * 10, r + 1), k, n, r) \<in> measure (\<lambda>(k, n, r). 2 ^ k - n)" if "n div 2 ^ k = 0 \<and> n \<noteq> 0" for k n r :: nat
    using that by (auto simp: div_eq_0_iff)
qed simp

declare pickZeros.simps [simp del]

fun pickLeading :: "nat \<Rightarrow> nat \<Rightarrow> nat \<Rightarrow> nat list \<Rightarrow> (nat \<times> nat \<times> nat list) option" where
  "pickLeading k n r [] =
     (if n div 2 ^ k = 0 then
        if n = 0 then None else let (n, r) = pickZeros k n r in Some (n, r, [])
      else Some (n, r, []))"
| "pickLeading k n r (c # cs) =
     (if n div 2 ^ k = 0 then pickLeading k (n * 10 + c) (r + 1) cs else Some (n, r, c # cs))"

text \<open>\<open>Pick up a digit, put down a digit\<close>: \<open>out\<close> is \<open>a.d[:w]\<close>.\<close>

fun pickPut :: "nat \<Rightarrow> nat list \<Rightarrow> nat \<Rightarrow> nat list \<Rightarrow> nat \<times> nat list" where
  "pickPut k [] n out = (n, out)"
| "pickPut k (c # cs) n out = pickPut k cs (n mod 2 ^ k * 10 + c) (out @ [n div 2 ^ k])"

text \<open>The number of factors two that \<open>n\<close> lacks.\<close>

definition lacks :: "nat \<Rightarrow> nat \<Rightarrow> nat" where
  "lacks k n = (if n = 0 then 0 else Suc (LEAST j. 2 ^ k dvd n * 2 ^ j))"

lemma lacks_step: "0 < n \<Longrightarrow> lacks k (n mod 2 ^ k * 10) < lacks k n"
proof -
  assume n: "0 < n"
  let ?P = "\<lambda>n j. 2 ^ k dvd n * (2 :: nat) ^ j"
  have ex: "?P n k" by simp
  then have least: "?P n (LEAST j. ?P n j)" by (rule LeastI)
  show ?thesis
  proof (cases "n mod 2 ^ k = 0")
    case True
    then show ?thesis using n by (simp add: lacks_def)
  next
    case False
    then obtain j where j: "(LEAST j. ?P n j) = Suc j"
      using least by (cases "LEAST j. ?P n j") (auto simp: dvd_eq_mod_eq_0)
    have "2 ^ k dvd (n mod 2 ^ k) * 2 ^ Suc j"
      using least unfolding j by (metis dvd_eq_mod_eq_0 mod_mult_left_eq)
    then have "2 ^ k dvd 5 * ((n mod 2 ^ k) * 2 ^ Suc j)" by (rule dvd_mult)
    then have "?P (n mod 2 ^ k * 10) j" by (simp add: algebra_simps)
    then have "(LEAST j. ?P (n mod 2 ^ k * 10) j) \<le> j" by (rule Least_le)
    then show ?thesis using n j by (simp add: lacks_def)
  qed
qed

text \<open>\<open>Put down extra digits\<close>: every round makes \<open>n\<close> divisible by one more power of two.\<close>

function putExtra :: "nat \<Rightarrow> nat \<Rightarrow> nat list \<Rightarrow> bool \<Rightarrow> nat list \<times> bool" where
  "putExtra k n out trunc =
     (if 0 < n then
        let dig = n div 2 ^ k; n = n mod 2 ^ k
        in if length out < digitCap then putExtra k (n * 10) (out @ [dig]) trunc
           else putExtra k (n * 10) out (trunc \<or> 0 < dig)
      else (out, trunc))"
  by auto
termination
  by (relation "measure (\<lambda>(k, n, out, trunc). lacks k n)") (auto simp: lacks_step)

declare putExtra.simps [simp del]

definition rightShift :: "decimal \<Rightarrow> nat \<Rightarrow> decimal" where
  "rightShift a k =
     (case pickLeading k 0 0 (dD a) of
        None \<Rightarrow> a\<lparr>dD := []\<rparr>
      | Some (n, r, rest) \<Rightarrow>
          let (n, out) = pickPut k rest n [];
              (out, trunc) = putExtra k n out (dTrunc a)
          in trim (a\<lparr>dD := out, dDp := dDp a - (int r - 1), dTrunc := trunc\<rparr>))"

section \<open>Shifting left\<close>

text \<open>The number of new digits of a shift, and the digits below which there is one fewer.\<close>

definition leftcheats :: "(nat \<times> nat list) list" where
  "leftcheats = [
     (0, []),
     (1, [5]),
     (1, [2, 5]),
     (1, [1, 2, 5]),
     (2, [6, 2, 5]),
     (2, [3, 1, 2, 5]),
     (2, [1, 5, 6, 2, 5]),
     (3, [7, 8, 1, 2, 5]),
     (3, [3, 9, 0, 6, 2, 5]),
     (3, [1, 9, 5, 3, 1, 2, 5]),
     (4, [9, 7, 6, 5, 6, 2, 5]),
     (4, [4, 8, 8, 2, 8, 1, 2, 5]),
     (4, [2, 4, 4, 1, 4, 0, 6, 2, 5]),
     (4, [1, 2, 2, 0, 7, 0, 3, 1, 2, 5]),
     (5, [6, 1, 0, 3, 5, 1, 5, 6, 2, 5]),
     (5, [3, 0, 5, 1, 7, 5, 7, 8, 1, 2, 5]),
     (5, [1, 5, 2, 5, 8, 7, 8, 9, 0, 6, 2, 5]),
     (6, [7, 6, 2, 9, 3, 9, 4, 5, 3, 1, 2, 5]),
     (6, [3, 8, 1, 4, 6, 9, 7, 2, 6, 5, 6, 2, 5]),
     (6, [1, 9, 0, 7, 3, 4, 8, 6, 3, 2, 8, 1, 2, 5]),
     (7, [9, 5, 3, 6, 7, 4, 3, 1, 6, 4, 0, 6, 2, 5]),
     (7, [4, 7, 6, 8, 3, 7, 1, 5, 8, 2, 0, 3, 1, 2, 5]),
     (7, [2, 3, 8, 4, 1, 8, 5, 7, 9, 1, 0, 1, 5, 6, 2, 5]),
     (7, [1, 1, 9, 2, 0, 9, 2, 8, 9, 5, 5, 0, 7, 8, 1, 2, 5]),
     (8, [5, 9, 6, 0, 4, 6, 4, 4, 7, 7, 5, 3, 9, 0, 6, 2, 5]),
     (8, [2, 9, 8, 0, 2, 3, 2, 2, 3, 8, 7, 6, 9, 5, 3, 1, 2, 5]),
     (8, [1, 4, 9, 0, 1, 1, 6, 1, 1, 9, 3, 8, 4, 7, 6, 5, 6, 2, 5]),
     (9, [7, 4, 5, 0, 5, 8, 0, 5, 9, 6, 9, 2, 3, 8, 2, 8, 1, 2, 5]),
     (9, [3, 7, 2, 5, 2, 9, 0, 2, 9, 8, 4, 6, 1, 9, 1, 4, 0, 6, 2, 5]),
     (9, [1, 8, 6, 2, 6, 4, 5, 1, 4, 9, 2, 3, 0, 9, 5, 7, 0, 3, 1, 2, 5]),
     (10, [9, 3, 1, 3, 2, 2, 5, 7, 4, 6, 1, 5, 4, 7, 8, 5, 1, 5, 6, 2, 5]),
     (10, [4, 6, 5, 6, 6, 1, 2, 8, 7, 3, 0, 7, 7, 3, 9, 2, 5, 7, 8, 1, 2, 5]),
     (10, [2, 3, 2, 8, 3, 0, 6, 4, 3, 6, 5, 3, 8, 6, 9, 6, 2, 8, 9, 0, 6, 2, 5]),
     (10, [1, 1, 6, 4, 1, 5, 3, 2, 1, 8, 2, 6, 9, 3, 4, 8, 1, 4, 4, 5, 3, 1, 2, 5]),
     (11, [5, 8, 2, 0, 7, 6, 6, 0, 9, 1, 3, 4, 6, 7, 4, 0, 7, 2, 2, 6, 5, 6, 2, 5]),
     (11, [2, 9, 1, 0, 3, 8, 3, 0, 4, 5, 6, 7, 3, 3, 7, 0, 3, 6, 1, 3, 2, 8, 1, 2, 5]),
     (11, [1, 4, 5, 5, 1, 9, 1, 5, 2, 2, 8, 3, 6, 6, 8, 5, 1, 8, 0, 6, 6, 4, 0, 6, 2, 5]),
     (12, [7, 2, 7, 5, 9, 5, 7, 6, 1, 4, 1, 8, 3, 4, 2, 5, 9, 0, 3, 3, 2, 0, 3, 1, 2, 5]),
     (12, [3, 6, 3, 7, 9, 7, 8, 8, 0, 7, 0, 9, 1, 7, 1, 2, 9, 5, 1, 6, 6, 0, 1, 5, 6, 2, 5]),
     (12, [1, 8, 1, 8, 9, 8, 9, 4, 0, 3, 5, 4, 5, 8, 5, 6, 4, 7, 5, 8, 3, 0, 0, 7, 8, 1, 2, 5]),
     (13, [9, 0, 9, 4, 9, 4, 7, 0, 1, 7, 7, 2, 9, 2, 8, 2, 3, 7, 9, 1, 5, 0, 3, 9, 0, 6, 2, 5]),
     (13, [4, 5, 4, 7, 4, 7, 3, 5, 0, 8, 8, 6, 4, 6, 4, 1, 1, 8, 9, 5, 7, 5, 1, 9, 5, 3, 1, 2, 5]),
     (13, [2, 2, 7, 3, 7, 3, 6, 7, 5, 4, 4, 3, 2, 3, 2, 0, 5, 9, 4, 7, 8, 7, 5, 9, 7, 6, 5, 6, 2, 5]),
     (13, [1, 1, 3, 6, 8, 6, 8, 3, 7, 7, 2, 1, 6, 1, 6, 0, 2, 9, 7, 3, 9, 3, 7, 9, 8, 8, 2, 8, 1, 2, 5]),
     (14, [5, 6, 8, 4, 3, 4, 1, 8, 8, 6, 0, 8, 0, 8, 0, 1, 4, 8, 6, 9, 6, 8, 9, 9, 4, 1, 4, 0, 6, 2, 5]),
     (14, [2, 8, 4, 2, 1, 7, 0, 9, 4, 3, 0, 4, 0, 4, 0, 0, 7, 4, 3, 4, 8, 4, 4, 9, 7, 0, 7, 0, 3, 1, 2, 5]),
     (14, [1, 4, 2, 1, 0, 8, 5, 4, 7, 1, 5, 2, 0, 2, 0, 0, 3, 7, 1, 7, 4, 2, 2, 4, 8, 5, 3, 5, 1, 5, 6, 2, 5]),
     (15, [7, 1, 0, 5, 4, 2, 7, 3, 5, 7, 6, 0, 1, 0, 0, 1, 8, 5, 8, 7, 1, 1, 2, 4, 2, 6, 7, 5, 7, 8, 1, 2, 5]),
     (15, [3, 5, 5, 2, 7, 1, 3, 6, 7, 8, 8, 0, 0, 5, 0, 0, 9, 2, 9, 3, 5, 5, 6, 2, 1, 3, 3, 7, 8, 9, 0, 6, 2, 5]),
     (15, [1, 7, 7, 6, 3, 5, 6, 8, 3, 9, 4, 0, 0, 2, 5, 0, 4, 6, 4, 6, 7, 7, 8, 1, 0, 6, 6, 8, 9, 4, 5, 3, 1, 2, 5]),
     (16, [8, 8, 8, 1, 7, 8, 4, 1, 9, 7, 0, 0, 1, 2, 5, 2, 3, 2, 3, 3, 8, 9, 0, 5, 3, 3, 4, 4, 7, 2, 6, 5, 6, 2, 5]),
     (16, [4, 4, 4, 0, 8, 9, 2, 0, 9, 8, 5, 0, 0, 6, 2, 6, 1, 6, 1, 6, 9, 4, 5, 2, 6, 6, 7, 2, 3, 6, 3, 2, 8, 1, 2, 5]),
     (16, [2, 2, 2, 0, 4, 4, 6, 0, 4, 9, 2, 5, 0, 3, 1, 3, 0, 8, 0, 8, 4, 7, 2, 6, 3, 3, 3, 6, 1, 8, 1, 6, 4, 0, 6, 2, 5]),
     (16, [1, 1, 1, 0, 2, 2, 3, 0, 2, 4, 6, 2, 5, 1, 5, 6, 5, 4, 0, 4, 2, 3, 6, 3, 1, 6, 6, 8, 0, 9, 0, 8, 2, 0, 3, 1, 2, 5]),
     (17, [5, 5, 5, 1, 1, 1, 5, 1, 2, 3, 1, 2, 5, 7, 8, 2, 7, 0, 2, 1, 1, 8, 1, 5, 8, 3, 4, 0, 4, 5, 4, 1, 0, 1, 5, 6, 2, 5]),
     (17, [2, 7, 7, 5, 5, 5, 7, 5, 6, 1, 5, 6, 2, 8, 9, 1, 3, 5, 1, 0, 5, 9, 0, 7, 9, 1, 7, 0, 2, 2, 7, 0, 5, 0, 7, 8, 1, 2, 5]),
     (17, [1, 3, 8, 7, 7, 7, 8, 7, 8, 0, 7, 8, 1, 4, 4, 5, 6, 7, 5, 5, 2, 9, 5, 3, 9, 5, 8, 5, 1, 1, 3, 5, 2, 5, 3, 9, 0, 6, 2, 5]),
     (18, [6, 9, 3, 8, 8, 9, 3, 9, 0, 3, 9, 0, 7, 2, 2, 8, 3, 7, 7, 6, 4, 7, 6, 9, 7, 9, 2, 5, 5, 6, 7, 6, 2, 6, 9, 5, 3, 1, 2, 5]),
     (18, [3, 4, 6, 9, 4, 4, 6, 9, 5, 1, 9, 5, 3, 6, 1, 4, 1, 8, 8, 8, 2, 3, 8, 4, 8, 9, 6, 2, 7, 8, 3, 8, 1, 3, 4, 7, 6, 5, 6, 2, 5]),
     (18, [1, 7, 3, 4, 7, 2, 3, 4, 7, 5, 9, 7, 6, 8, 0, 7, 0, 9, 4, 4, 1, 1, 9, 2, 4, 4, 8, 1, 3, 9, 1, 9, 0, 6, 7, 3, 8, 2, 8, 1, 2, 5]),
     (19, [8, 6, 7, 3, 6, 1, 7, 3, 7, 9, 8, 8, 4, 0, 3, 5, 4, 7, 2, 0, 5, 9, 6, 2, 2, 4, 0, 6, 9, 5, 9, 5, 3, 3, 6, 9, 1, 4, 0, 6, 2, 5])]"

fun prefixIsLessThan :: "nat list \<Rightarrow> nat list \<Rightarrow> bool" where
  "prefixIsLessThan b [] = False"
| "prefixIsLessThan [] (s # ss) = True"
| "prefixIsLessThan (b # bs) (s # ss) = (if b \<noteq> s then b < s else prefixIsLessThan bs ss)"

text \<open>
  A write below index 0 would panic. The digits arrive from right to left, so what has been
  written is a list that grows at its head.
\<close>

definition putLeft :: "int \<Rightarrow> nat \<Rightarrow> nat list \<times> bool \<Rightarrow> (nat list \<times> bool) option" where
  "putLeft w digt st =
     (let (out, trunc) = st
      in if w < 0 then None
         else if w < int digitCap then Some (digt # out, trunc)
         else Some (out, trunc \<or> digt \<noteq> 0))"

fun putCarry :: "nat \<Rightarrow> int \<Rightarrow> nat list \<times> bool \<Rightarrow> (int \<times> nat list \<times> bool) option" where
  "putCarry n w st =
     (if 0 < n then do { st \<leftarrow> putLeft (w - 1) (n mod 10) st; putCarry (n div 10) (w - 1) st }
      else Some (w, st))"

declare putCarry.simps [simp del]

text \<open>The first loop of \<open>leftShift\<close>, over the reversed digits, followed by the second.\<close>

fun shiftDigits :: "nat \<Rightarrow> nat list \<Rightarrow> nat \<Rightarrow> int \<Rightarrow> nat list \<times> bool \<Rightarrow> (int \<times> nat list \<times> bool) option" where
  "shiftDigits k [] n w st = putCarry n w st"
| "shiftDigits k (c # cs) n w st =
     (let n = n + c * 2 ^ k
      in do { st \<leftarrow> putLeft (w - 1) (n mod 10) st; shiftDigits k cs (n div 10) (w - 1) st })"

text \<open>Digits that are not overwritten keep their place.\<close>

definition leftShift :: "decimal \<Rightarrow> nat \<Rightarrow> decimal option" where
  "leftShift a k = do {
     (delta, cutoff) \<leftarrow> go_nth leftcheats (int k);
     let delta = int delta - (if prefixIsLessThan (dD a) cutoff then 1 else 0);
     (w, out, trunc) \<leftarrow> shiftDigits k (rev (dD a)) 0 (int (length (dD a)) + delta) ([], dTrunc a);
     Some (trim (a\<lparr>dD := take (nat w) (dD a) @ out, dDp := dDp a + delta, dTrunc := trunc\<rparr>)) }"

section \<open>Shifts of any length\<close>

function shiftLeftBy :: "decimal \<Rightarrow> nat \<Rightarrow> decimal option" where
  "shiftLeftBy a k =
     (if k > maxShift then do { a \<leftarrow> leftShift a maxShift; shiftLeftBy a (k - maxShift) } else leftShift a k)"
  by auto
termination by (relation "measure snd") (auto simp: maxShift_def)

function shiftRightBy :: "decimal \<Rightarrow> nat \<Rightarrow> decimal" where
  "shiftRightBy a k =
     (if k > maxShift then shiftRightBy (rightShift a maxShift) (k - maxShift) else rightShift a k)"
  by auto
termination by (relation "measure snd") (auto simp: maxShift_def)

declare shiftLeftBy.simps [simp del] shiftRightBy.simps [simp del]

definition Shift :: "decimal \<Rightarrow> int \<Rightarrow> decimal option" where
  "Shift a k =
     (if dD a = [] then Some a
      else if k > 0 then shiftLeftBy a (nat k)
      else if k < 0 then Some (shiftRightBy a (nat (- k)))
      else Some a)"

section \<open>Rounding\<close>

definition shouldRoundUp :: "decimal \<Rightarrow> int \<Rightarrow> bool" where
  "shouldRoundUp a nd \<longleftrightarrow>
     (if nd < 0 \<or> nd \<ge> int (length (dD a)) then False
      else if dD a ! nat nd = 5 \<and> nd + 1 = int (length (dD a)) then
        (if dTrunc a then True else nd > 0 \<and> odd (dD a ! nat (nd - 1)))
      else dD a ! nat nd \<ge> 5)"

definition RoundDown :: "decimal \<Rightarrow> int \<Rightarrow> decimal" where
  "RoundDown a nd =
     (if nd < 0 \<or> nd \<ge> int (length (dD a)) then a else trim (a\<lparr>dD := take (nat nd) (dD a)\<rparr>))"

text \<open>The loop of \<open>RoundUp\<close>, over the reversed digits; \<^const>\<open>None\<close> when all are nines.\<close>

fun roundUpDigits :: "nat list \<Rightarrow> nat list option" where
  "roundUpDigits [] = None"
| "roundUpDigits (c # cs) = (if c < 9 then Some (rev ((c + 1) # cs)) else roundUpDigits cs)"

definition RoundUp :: "decimal \<Rightarrow> int \<Rightarrow> decimal" where
  "RoundUp a nd =
     (if nd < 0 \<or> nd \<ge> int (length (dD a)) then a
      else case roundUpDigits (rev (take (nat nd) (dD a))) of
        Some ds \<Rightarrow> a\<lparr>dD := ds\<rparr>
      | None \<Rightarrow> a\<lparr>dD := [1], dDp := dDp a + 1\<rparr>)"

definition Round :: "decimal \<Rightarrow> int \<Rightarrow> decimal" where
  "Round a nd =
     (if nd < 0 \<or> nd \<ge> int (length (dD a)) then a
      else if shouldRoundUp a nd then RoundUp a nd else RoundDown a nd)"

definition RoundedInteger :: "decimal \<Rightarrow> 64 word" where
  "RoundedInteger a =
     (if dDp a > 20 then 0xFFFFFFFFFFFFFFFF
      else
        let k = nat (dDp a);
            n = foldl (\<lambda>n c. n * 10 + word_of_nat c) 0 (take k (dD a));
            n = ((\<lambda>n. n * 10) ^^ (k - length (dD a))) n
        in if shouldRoundUp a (dDp a) then n + 1 else n)"

end
