(* ===== verification/Go_Atof.thy ===== *)
theory Go_Atof
  imports Go_Atoi Go_Decimal Go_Pow10 Go_Sort Go_Float64_Order
begin

text \<open>
  \<open>ParseFloat\<close> for 64 bits: \<open>internal/strconv/atof.go\<close>, the Eisel-Lemire algorithm of
  \<open>internal/strconv/atofeisel.go\<close> and the conversions of integers of \<open>runtime/softfloat64.go\<close>. The
  parameter \<open>flt\<close> of the code is \<open>float64info\<close> throughout: 52 mantissa bits, 11 exponent bits, bias -1023.
\<close>

section \<open>Integers to floats\<close>

definition fintto64 :: "64 word \<Rightarrow> f64" where
  "fintto64 v = (let fs = v AND neg64; mant = (if fs \<noteq> 0 then - v else v) in fpack64 fs mant (int mantbits64) 0)"

definition fuint64to64 :: "64 word \<Rightarrow> f64" where
  "fuint64to64 x =
     (if 0 \<le>s x then fintto64 x
      else let y = x AND 1; z = drop_bit 1 x; z = z OR y; r = fintto64 z in fadd64 r r)"

section \<open>Infinities and NaN\<close>

definition commonPrefixLenIgnoreCase :: "string \<Rightarrow> string \<Rightarrow> nat" where
  "commonPrefixLenIgnoreCase s prefx =
     length (takeWhile (\<lambda>(c, p). (if 65 \<le> byte c \<and> byte c \<le> 90 then byte c + 32 else byte c) = byte p) (zip s prefx))"

definition special_inf :: "bool \<Rightarrow> f64" where
  "special_inf neg = (if neg then 0xFFF0000000000000 else 0x7FF0000000000000)"

definition special_nan :: f64 where
  "special_nan = 0x7FF8000000000001"

text \<open>The case of \<open>inf\<close> that a sign falls through to.\<close>

definition specialInf :: "bool \<Rightarrow> nat \<Rightarrow> string \<Rightarrow> (f64 \<times> nat) option" where
  "specialInf neg nsign s =
     (let n = commonPrefixLenIgnoreCase s ''infinity'';
          n = (if 3 < n \<and> n < 8 then 3 else n)
      in if n = 3 \<or> n = 8 then Some (special_inf neg, nsign + n) else None)"

definition special :: "string \<Rightarrow> (f64 \<times> nat) option" where
  "special s =
     (case s of [] \<Rightarrow> None
      | c # t \<Rightarrow>
          if c = CHR ''+'' \<or> c = CHR ''-'' then specialInf (c = CHR ''-'') 1 t
          else if c = CHR ''i'' \<or> c = CHR ''I'' then specialInf False 0 s
          else if c = CHR ''n'' \<or> c = CHR ''N'' then
            (if commonPrefixLenIgnoreCase s ''nan'' = 3 then Some (special_nan, 3) else None)
          else None)"

section \<open>Reading the mantissa and the exponent\<close>

text \<open>The local variables of the loop over the digits of \<open>readFloat\<close>.\<close>

record mantScan =
  msUnder :: bool
  msDot :: bool
  msDigits :: bool
  msNd :: int
  msNdMant :: nat
  msDp :: int
  msMant :: "64 word"
  msTrunc :: bool

definition zeroScan :: mantScan where
  "zeroScan = \<lparr>msUnder = False, msDot = False, msDigits = False, msNd = 0, msNdMant = 0, msDp = 0,
     msMant = 0, msTrunc = False\<rparr>"

text \<open>The digits that the mantissa still takes, and one digit of value \<open>v\<close>.\<close>

definition maxMantDigits :: "bool \<Rightarrow> nat" where
  "maxMantDigits hex = (if hex then 16 else 19)"

definition addDigit :: "bool \<Rightarrow> bool \<Rightarrow> nat \<Rightarrow> mantScan \<Rightarrow> mantScan" where
  "addDigit hex lost v st =
     (let st = st\<lparr>msNd := msNd st + 1\<rparr>
      in if msNdMant st < maxMantDigits hex then
           st\<lparr>msMant := msMant st * (if hex then 16 else 10) + word_of_nat v, msNdMant := msNdMant st + 1\<rparr>
         else if lost then st\<lparr>msTrunc := True\<rparr> else st)"

text \<open>The loop, with the unread rest of the string.\<close>

fun readMantissa :: "bool \<Rightarrow> mantScan \<Rightarrow> string \<Rightarrow> mantScan \<times> string" where
  "readMantissa hex st [] = (st, [])"
| "readMantissa hex st (c # s) =
     (if c = CHR ''_'' then readMantissa hex (st\<lparr>msUnder := True\<rparr>) s
      else if c = CHR ''.'' then
        (if msDot st then (st, c # s) else readMantissa hex (st\<lparr>msDot := True, msDp := msNd st\<rparr>) s)
      else if is_digit c then
        (let st = st\<lparr>msDigits := True\<rparr>
         in if c = CHR ''0'' \<and> msNd st = 0 then readMantissa hex (st\<lparr>msDp := msDp st - 1\<rparr>) s
            else readMantissa hex (addDigit hex (c \<noteq> CHR ''0'') (byte c - 48) st) s)
      else if hex \<and> 97 \<le> lower c \<and> lower c \<le> 102 then
        readMantissa hex (addDigit hex True (lower c - 97 + 10) (st\<lparr>msDigits := True\<rparr>)) s
      else (st, c # s))"

fun expDigits :: "bool \<Rightarrow> int \<Rightarrow> string \<Rightarrow> bool \<times> int \<times> string" where
  "expDigits u e [] = (u, e, [])"
| "expDigits u e (c # s) =
     (if c = CHR ''_'' then expDigits True e s
      else if is_digit c then expDigits u (if e < 10000 then e * 10 + int (byte c) - 48 else e) s
      else (u, e, c # s))"

text \<open>What follows the exponent character: the exponent and the rest, or the rest at which it is malformed.\<close>

definition readExponent :: "bool \<Rightarrow> string \<Rightarrow> string + (bool \<times> int \<times> string)" where
  "readExponent u s =
     (case s of [] \<Rightarrow> Inl []
      | c # t \<Rightarrow>
          let esign = (if c = CHR ''-'' then -1 else 1);
              s = (if c = CHR ''+'' \<or> c = CHR ''-'' then t else s)
          in if s = [] \<or> \<not> is_digit (hd s) then Inl s
             else let (u, e, s) = expDigits u 0 s in Inr (u, e * esign, s))"

record floatParts =
  fpMant :: "64 word"
  fpExp :: int
  fpNeg :: bool
  fpTrunc :: bool
  fpHex :: bool

text \<open>The number of bytes consumed, and the parts if the number is well-formed.\<close>

definition readFloat :: "string \<Rightarrow> nat \<times> floatParts option" where
  "readFloat s0 =
     (if s0 = [] then (0, None)
      else
        let neg = (hd s0 = CHR ''-'');
            s = (if hd s0 = CHR ''+'' \<or> neg then tl s0 else s0);
            hex = (length s > 2 \<and> hd s = CHR ''0'' \<and> lower (s ! 1) = 120);
            (st, s) = readMantissa hex zeroScan (if hex then drop 2 s else s);
            consumed = (\<lambda>s. length s0 - length s)
        in if \<not> msDigits st then (consumed s, None)
           else
             let dp = (if msDot st then msDp st else msNd st);
                 dp = (if hex then dp * 4 else dp);
                 ndMant = int (if hex then msNdMant st * 4 else msNdMant st);
                 ex = (if s \<noteq> [] \<and> lower (hd s) = (if hex then 112 else 101) then readExponent (msUnder st) (tl s)
                       else if hex then Inl s else Inr (msUnder st, 0, s))
             in case ex of
                  Inl s \<Rightarrow> (consumed s, None)
                | Inr (underscores, e, s) \<Rightarrow>
                    let i = consumed s
                    in if underscores \<and> \<not> underscoreOK (take i s0) then (i, None)
                       else (i, Some \<lparr>fpMant = msMant st,
                         fpExp = (if msMant st \<noteq> 0 then dp + e - ndMant else 0),
                         fpNeg = neg, fpTrunc = msTrunc st, fpHex = hex\<rparr>))"

section \<open>The exact cases\<close>

text \<open>\<open>1e0\<close> to \<open>1e22\<close>, which are exact.\<close>

definition float64pow10 :: "f64 list" where
  "float64pow10 = [
     0x3FF0000000000000, 0x4024000000000000, 0x4059000000000000, 0x408F400000000000, 0x40C3880000000000,
     0x40F86A0000000000, 0x412E848000000000, 0x416312D000000000, 0x4197D78400000000, 0x41CDCD6500000000,
     0x4202A05F20000000, 0x42374876E8000000, 0x426D1A94A2000000, 0x42A2309CE5400000, 0x42D6BCC41E900000,
     0x430C6BF526340000, 0x4341C37937E08000, 0x4376345785D8A000, 0x43ABC16D674EC800, 0x43E158E460913D00,
     0x4415AF1D78B58C40, 0x444B1AE4D6E2EF50, 0x4480F0CF064DD592]"

definition f64_1e15 :: f64 where "f64_1e15 = 0x430C6BF526340000"

definition atof64exact :: "64 word \<Rightarrow> int \<Rightarrow> bool \<Rightarrow> f64 option" where
  "atof64exact mantissa e neg =
     (if drop_bit mantbits64 mantissa \<noteq> 0 then None
      else
        let f = fuint64to64 mantissa; f = (if neg then fneg64 f else f)
        in if e = 0 then Some f
           else if e > 0 \<and> e \<le> 15 + 22 then
             (let (f, e) = (if e > 22 then (fmul64 f (float64pow10 ! nat (e - 22)), 22) else (f, e))
              in if fgt64 f f64_1e15 \<or> flt64 f (fneg64 f64_1e15) then None
                 else Some (fmul64 f (float64pow10 ! nat e)))
           else if e < 0 \<and> e \<ge> -22 then Some (fdiv64 f (float64pow10 ! nat (- e)))
           else None)"

section \<open>The Eisel-Lemire algorithm\<close>

definition LeadingZeros64 :: "64 word \<Rightarrow> int" where
  "LeadingZeros64 x = 64 - Len64 x"

definition Mul64 :: "64 word \<Rightarrow> 64 word \<Rightarrow> 64 word \<times> 64 word" where
  "Mul64 x y =
     (let mask32 = 0xFFFFFFFF;
          x0 = x AND mask32; x1 = drop_bit 32 x;
          y0 = y AND mask32; y1 = drop_bit 32 y;
          w0 = x0 * y0;
          t = x1 * y0 + drop_bit 32 w0;
          w1 = t AND mask32; w2 = drop_bit 32 t;
          w1 = w1 + x0 * y1
      in (x1 * y1 + w2 + drop_bit 32 w1, x * y))"

definition mulLog2_10 :: "int \<Rightarrow> int" where
  "mulLog2_10 x = x * 108853 div 2 ^ 15"

definition pow10 :: "int \<Rightarrow> (uint128 \<times> int) option" where
  "pow10 e =
     (if e < pow10Min \<or> e > pow10Max then None
      else Some (pow10Tab ! nat (e - pow10Min), 1 + mulLog2_10 e))"

definition eiselLemire64 :: "64 word \<Rightarrow> int \<Rightarrow> bool \<Rightarrow> f64 option" where
  "eiselLemire64 man exp10 neg =
     (if man = 0 then Some (if neg then neg64 else 0)
      else case pow10 exp10 of None \<Rightarrow> None
      | Some ((powHi, powLo), exp2) \<Rightarrow>
          let clz = LeadingZeros64 man;
              man = push_bit (nat clz) man;
              retExp2 = word_of_int (exp2 + 63 - bias64) - word_of_int clz;
              (xHi, xLo) = Mul64 man powHi;
              wider =
                (if xHi AND 0x1FF = 0x1FF \<and> xLo + man < man then
                   (let (yHi, yLo) = Mul64 man powLo;
                        mergedLo = xLo + yHi;
                        mergedHi = (if mergedLo < xLo then xHi + 1 else xHi)
                    in if mergedHi AND 0x1FF = 0x1FF \<and> mergedLo + 1 = 0 \<and> yLo + man < man then None
                       else Some (mergedHi, mergedLo))
                 else Some (xHi, xLo))
          in case wider of None \<Rightarrow> None
          | Some (xHi, xLo) \<Rightarrow>
              let msb = drop_bit 63 xHi;
                  retMantissa = drop_bit (unat (msb + 9)) xHi;
                  retExp2 = retExp2 - (1 XOR msb)
              in if xLo = 0 \<and> xHi AND 0x1FF = 0 \<and> retMantissa AND 3 = 1 then None
                 else
                   let retMantissa = drop_bit 1 (retMantissa + (retMantissa AND 1));
                       (retMantissa, retExp2) =
                         (if 0 < drop_bit 53 retMantissa then (drop_bit 1 retMantissa, retExp2 + 1)
                          else (retMantissa, retExp2))
                   in if 0x7FF - 1 \<le> retExp2 - 1 then None
                      else
                        let retBits = push_bit mantbits64 retExp2 OR (retMantissa AND 0xFFFFFFFFFFFFF)
                        in Some (if neg then retBits OR neg64 else retBits))"

section \<open>Hexadecimal numbers\<close>

text \<open>\<open>for mantissa != 0 && mantissa>>(flt.mantbits+2) == 0\<close>\<close>

function hexUp :: "64 word \<Rightarrow> int \<Rightarrow> 64 word \<times> int" where
  "hexUp mantissa e =
     (if mantissa \<noteq> 0 \<and> drop_bit 54 mantissa = 0 then hexUp (push_bit 1 mantissa) (e - 1) else (mantissa, e))"
  by auto
termination
proof (relation "measure (\<lambda>(mantissa, e). 2 ^ 54 - unat mantissa)")
  show "((push_bit 1 mantissa, e - 1), mantissa, e) \<in> measure (\<lambda>(mantissa, e). 2 ^ 54 - unat mantissa)"
    if "mantissa \<noteq> 0 \<and> drop_bit 54 mantissa = 0" for mantissa :: "64 word" and e :: int
  proof -
    have m: "0 < unat mantissa" using that by (simp add: unat_gt_0)
    have "unat (drop_bit 54 mantissa) = 0" using that by simp
    then have l: "unat mantissa < 2 ^ 54" by (simp add: drop_bit_eq_div unat_div div_eq_0_iff)
    then have "unat (push_bit 1 mantissa) = 2 * unat mantissa"
      by (simp add: push_bit_eq_mult unat_word_ariths)
    then show ?thesis using m l by simp
  qed
qed simp

text \<open>\<open>for mantissa>>(1+flt.mantbits+2) != 0\<close>\<close>

definition stickyHalf :: "64 word \<Rightarrow> 64 word" where
  "stickyHalf mantissa = drop_bit 1 mantissa OR (mantissa AND 1)"

lemma stickyHalf_less: "1 < m \<Longrightarrow> unat (stickyHalf m) < unat m"
proof -
  assume m: "1 < m"
  have x: "unat (drop_bit 1 m) = unat m div 2" by (simp add: drop_bit_eq_div unat_div)
  have one: "1 < unat m" using m by (simp add: word_less_nat_alt)
  show ?thesis
  proof (cases "even m")
    case True
    then have "stickyHalf m = drop_bit 1 m" by (simp add: stickyHalf_def and_one_eq even_iff_mod_2_eq_zero)
    then show ?thesis using x one by simp
  next
    case False
    then have "stickyHalf m = drop_bit 1 m + of_bool (even (drop_bit 1 m))"
      by (simp add: stickyHalf_def and_one_eq odd_iff_mod_2_eq_one or_one_eq)
    moreover have "unat (drop_bit 1 m + of_bool b) \<le> unat m div 2 + 1" for b
      using x unat_plus_simple [of "drop_bit 1 m" "of_bool b"] by (cases b) (auto simp: unat_word_ariths)
    moreover have "odd (unat m)" using False by transfer (simp add: even_nat_iff)
    then have "unat m div 2 + 1 < unat m" using one by presburger
    ultimately show ?thesis using le_less_trans by metis
  qed
qed

function hexDown :: "64 word \<Rightarrow> int \<Rightarrow> 64 word \<times> int" where
  "hexDown mantissa e =
     (if drop_bit 55 mantissa \<noteq> 0 then hexDown (stickyHalf mantissa) (e + 1) else (mantissa, e))"
  by auto
termination
proof (relation "measure (\<lambda>(mantissa, e). unat mantissa)")
  show "((stickyHalf mantissa, e + 1), mantissa, e) \<in> measure (\<lambda>(mantissa, e). unat mantissa)"
    if "drop_bit 55 mantissa \<noteq> 0" for mantissa :: "64 word" and e :: int
  proof -
    have "1 < mantissa"
    proof (rule ccontr)
      assume "\<not> 1 < mantissa"
      then have "unat mantissa < 2 ^ 55" by (simp add: word_less_nat_alt)
      then have "unat (drop_bit 55 mantissa) = 0" by (simp add: drop_bit_eq_div unat_div)
      then show False using that by (simp add: unat_eq_0)
    qed
    then show ?thesis using stickyHalf_less by simp
  qed
qed simp

text \<open>\<open>for mantissa > 1 && exp < minExp-2\<close>, with \<open>minExp = flt.bias + 1\<close>\<close>

function hexDenorm :: "64 word \<Rightarrow> int \<Rightarrow> 64 word \<times> int" where
  "hexDenorm mantissa e =
     (if 1 < mantissa \<and> e < bias64 + 1 - 2 then hexDenorm (stickyHalf mantissa) (e + 1) else (mantissa, e))"
  by auto
termination by (relation "measure (\<lambda>(mantissa, e). unat mantissa)") (auto simp: stickyHalf_less)

declare hexUp.simps [simp del] hexDown.simps [simp del] hexDenorm.simps [simp del]

text \<open>The bits of a float from its mantissa and its exponent.\<close>

definition assemble :: "64 word \<Rightarrow> int \<Rightarrow> bool \<Rightarrow> f64" where
  "assemble mant e neg =
     (let bits = mant AND 0xFFFFFFFFFFFFF;
          bits = bits OR push_bit mantbits64 (word_of_int (take_bit expbits64 (e - bias64)))
      in if neg then bits OR neg64 else bits)"

definition atofHex :: "64 word \<Rightarrow> int \<Rightarrow> bool \<Rightarrow> bool \<Rightarrow> f64 \<times> strconv_error option" where
  "atofHex mantissa e neg trunc =
     (let maxExp = 2 ^ expbits64 + bias64 - 2;
          e = e + int mantbits64;
          (mantissa, e) = hexUp mantissa e;
          mantissa = (if trunc then mantissa OR 1 else mantissa);
          (mantissa, e) = hexDown mantissa e;
          (mantissa, e) = hexDenorm mantissa e;
          round = mantissa AND 3;
          mantissa = drop_bit 2 mantissa;
          round = round OR (mantissa AND 1);
          e = e + 2;
          (mantissa, e) =
            (if round = 3 then
               let mantissa = mantissa + 1
               in if mantissa = 2 * top64 then (drop_bit 1 mantissa, e + 1) else (mantissa, e)
             else (mantissa, e));
          e = (if drop_bit mantbits64 mantissa = 0 then bias64 else e)
      in if e > maxExp then (assemble top64 (maxExp + 1) neg, Some ErrRange)
         else (assemble mantissa e neg, None))"

section \<open>The slow path\<close>

text \<open>
  The loop over the digits of \<open>decimal.set\<close>, with \<open>sawdot\<close>, \<open>sawdigits\<close> and the unread rest;
  \<^const>\<open>None\<close> is the return at a second dot.
\<close>

fun setDigits :: "decimal \<Rightarrow> bool \<Rightarrow> bool \<Rightarrow> string \<Rightarrow> (decimal \<times> bool \<times> bool \<times> string) option" where
  "setDigits b sawdot sawdigits [] = Some (b, sawdot, sawdigits, [])"
| "setDigits b sawdot sawdigits (c # s) =
     (if c = CHR ''_'' then setDigits b sawdot sawdigits s
      else if c = CHR ''.'' then
        (if sawdot then None else setDigits (b\<lparr>dDp := int (length (dD b))\<rparr>) True sawdigits s)
      else if is_digit c then
        (if c = CHR ''0'' \<and> dD b = [] then setDigits (b\<lparr>dDp := dDp b - 1\<rparr>) sawdot True s
         else if length (dD b) < digitCap then setDigits (b\<lparr>dD := dD b @ [byte c - 48]\<rparr>) sawdot True s
         else setDigits (if c \<noteq> CHR ''0'' then b\<lparr>dTrunc := True\<rparr> else b) sawdot True s)
      else Some (b, sawdot, sawdigits, c # s))"

definition decimal_set :: "string \<Rightarrow> decimal option" where
  "decimal_set s =
     (if s = [] then None
      else do {
        let neg = (hd s = CHR ''-'');
        let b = zeroDecimal\<lparr>dNeg := neg\<rparr>;
        (b, sawdot, sawdigits, s) \<leftarrow> setDigits b False False (if hd s = CHR ''+'' \<or> neg then tl s else s);
        if \<not> sawdigits then None
        else do {
          let b = (if \<not> sawdot then b\<lparr>dDp := int (length (dD b))\<rparr> else b);
          (e, s) \<leftarrow> (if s \<noteq> [] \<and> lower (hd s) = 101 then
              case readExponent False (tl s) of Inl _ \<Rightarrow> None | Inr (_, e, s) \<Rightarrow> Some (e, s)
            else Some (0, s));
          if s \<noteq> [] then None else Some (b\<lparr>dDp := dDp b + e\<rparr>) } })"

definition powtab :: "int list" where
  "powtab = [1, 3, 6, 9, 13, 16, 19, 23, 26]"

definition powStep :: "int \<Rightarrow> int" where
  "powStep p = (if p \<ge> int (length powtab) then 27 else powtab ! nat p)"

text \<open>\<open>for d.dp > 0\<close>, and \<open>for d.dp < 0 || d.dp == 0 && d.d[0] < '5'\<close>; the digits are not empty there.\<close>

partial_function (option) scaleDown :: "decimal \<Rightarrow> int \<Rightarrow> (decimal \<times> int) option" where
  "scaleDown d e =
     (if dDp d > 0 then
        let n = powStep (dDp d) in do { d \<leftarrow> Shift d (- n); scaleDown d (e + n) }
      else Some (d, e))"

partial_function (option) scaleUp :: "decimal \<Rightarrow> int \<Rightarrow> (decimal \<times> int) option" where
  "scaleUp d e =
     (if dDp d < 0 \<or> dDp d = 0 \<and> hd (dD d) < 5 then
        let n = powStep (- dDp d) in do { d \<leftarrow> Shift d n; scaleUp d (e - n) }
      else Some (d, e))"

declare scaleDown.simps [code] scaleUp.simps [code]

definition overflowBits :: "bool \<Rightarrow> f64 \<times> bool" where
  "overflowBits neg = (assemble 0 (2 ^ expbits64 - 1 + bias64) neg, True)"

definition floatBits :: "decimal \<Rightarrow> (f64 \<times> bool) option" where
  "floatBits d =
     (if dD d = [] then Some (assemble 0 bias64 (dNeg d), False)
      else if dDp d > 310 then Some (overflowBits (dNeg d))
      else if dDp d < -330 then Some (assemble 0 bias64 (dNeg d), False)
      else do {
        (d, e) \<leftarrow> scaleDown d 0;
        (d, e) \<leftarrow> scaleUp d e;
        let e = e - 1;
        (d, e) \<leftarrow> (if e < bias64 + 1 then do { d \<leftarrow> Shift d (- (bias64 + 1 - e)); Some (d, bias64 + 1) }
                    else Some (d, e));
        if e - bias64 \<ge> 2 ^ expbits64 - 1 then Some (overflowBits (dNeg d))
        else do {
          d \<leftarrow> Shift d (1 + int mantbits64);
          let mant = RoundedInteger d;
          let (mant, e) = (if mant = 2 * top64 then (drop_bit 1 mant, e + 1) else (mant, e));
          if e - bias64 \<ge> 2 ^ expbits64 - 1 then Some (overflowBits (dNeg d))
          else Some (assemble mant (if mant AND top64 = 0 then bias64 else e) (dNeg d), False) } })"

section \<open>The whole conversion\<close>

definition atof64 :: "string \<Rightarrow> (f64 \<times> nat \<times> strconv_error option) option" where
  "atof64 s =
     (case special s of Some (v, n) \<Rightarrow> Some (v, n, None)
      | None \<Rightarrow>
        (case readFloat s of
           (n, None) \<Rightarrow> Some (0, n, Some ErrSyntax)
         | (n, Some p) \<Rightarrow>
             if fpHex p then
               (let (f, err) = atofHex (fpMant p) (fpExp p) (fpNeg p) (fpTrunc p) in Some (f, n, err))
             else
               let exact = (if fpTrunc p then None else atof64exact (fpMant p) (fpExp p) (fpNeg p));
                   fast = (case exact of Some f \<Rightarrow> Some f
                           | None \<Rightarrow>
                               (case eiselLemire64 (fpMant p) (fpExp p) (fpNeg p) of
                                  None \<Rightarrow> None
                                | Some f \<Rightarrow>
                                    if \<not> fpTrunc p then Some f
                                    else case eiselLemire64 (fpMant p + 1) (fpExp p) (fpNeg p) of
                                           None \<Rightarrow> None
                                         | Some fUp \<Rightarrow> if feq64 f fUp then Some f else None))
               in case fast of Some f \<Rightarrow> Some (f, n, None)
                  | None \<Rightarrow>
                      (case decimal_set (take n s) of
                         None \<Rightarrow> Some (0, n, Some ErrSyntax)
                       | Some d \<Rightarrow> do {
                           (b, ovf) \<leftarrow> floatBits d;
                           Some (b, n, if ovf then Some ErrRange else None) })))"

definition ParseFloat :: "string \<Rightarrow> (f64 \<times> strconv_error option) option" where
  "ParseFloat s = do {
     (f, n, err) \<leftarrow> atof64 s;
     Some (if n \<noteq> length s then (0, Some ErrSyntax) else (f, err)) }"

end
