(* ===== verification/Go_Float64_Int.thy ===== *)
theory Go_Float64_Int
  imports Go_Float64_Diff Go_Atof
begin

text \<open>
  Floats that are integers. Packing is exact where the value has at most 53 significant bits, so the
  conversion of a natural number below \<open>2^53\<close> is exact and so is the sum of two of them: the scores
  of the instances, which are small integers, are added without rounding.
\<close>

section \<open>Exact packing\<close>

lemma unat_pack:
  fixes m :: f64
  assumes "2 ^ 52 \<le> unat m" "unat m < 2 ^ 53" "0 \<le> x" "x \<le> 2046"
  shows "unat (push_bit 52 (word_of_int x) OR (m AND 0xFFFFFFFFFFFFF)) = nat x * 2 ^ 52 + (unat m - 2 ^ 52)"
proof -
  let ?h = "push_bit 52 (word_of_int x) :: f64" and ?l = "m AND 0xFFFFFFFFFFFFF"
  have l: "unat ?l = unat m - 2 ^ 52"
    using assms(1,2) by (simp add: and_mask_52 unat_take_bit_64 mod_if le_mod_geq)
  have "unat (word_of_int x :: f64) = nat x"
    using assms(3,4) by (simp add: unat_eq_nat_uint uint_word_of_int_eq take_bit_int_eq_self)
  then have h: "unat ?h = nat x * 2 ^ 52"
    using assms(3,4) by (simp add: push_bit_eq_mult unat_word_ariths nat_less_iff)
  have "?h AND ?l = 0"
    unfolding and_mask_52
    by (rule bit_word_eqI) (simp only: bit_and_iff bit_take_bit_iff bit_push_bit_iff bit_0_eq, auto)
  then have "?h OR ?l = ?h + ?l" by (simp add: disjunctive_add_eq_or)
  moreover have "unat ?h + unat ?l < 2 ^ 64"
    using h l assms by (simp add: nat_less_iff)
  ultimately show ?thesis using h l by (simp add: unat_word_ariths)
qed

lemma norm_down_even:
  assumes "unat v = m * 2 ^ Suc j" "2 ^ 52 \<le> m" "m < 2 ^ 53"
  shows "\<exists>v'. norm_down v e 0 = (v', e + int j, 0) \<and> unat v' = 2 * m"
  using assms(1)
proof (induction j arbitrary: v e)
  case 0
  then have "\<not> 4 * top64 \<le> v" using assms(3) by (simp add: word_le_nat_alt)
  then show ?case using 0 by (simp add: norm_down.simps [of v])
next
  case (Suc j)
  have big: "4 * top64 \<le> v"
  proof -
    have "2 ^ 52 * (4 :: nat) \<le> m * 2 ^ Suc (Suc j)" using assms(2) by (intro mult_mono) simp_all
    then show ?thesis using Suc.prems by (simp add: word_le_nat_alt)
  qed
  have d: "unat (drop_bit 1 v) = m * 2 ^ Suc j" using Suc.prems by (simp add: unat_drop_bit_64)
  have "even (unat v)" using Suc.prems by simp
  then have "even v" by transfer (simp add: even_nat_iff)
  then have "v AND 1 = 0" by (simp add: and_one_eq even_iff_mod_2_eq_zero [symmetric])
  then have "norm_down v e 0 = norm_down (drop_bit 1 v) (e + 1) 0" using big by (simp add: norm_down.simps [of v])
  then show ?case using Suc.IH [OF d, of "e + 1"] by (simp add: add.assoc)
qed

text \<open>The float of the mantissa \<open>m\<close> and the exponent \<open>e\<close>, as the number of its bits.\<close>

lemma fpack64_normal:
  assumes "2 ^ 52 \<le> m" "m < 2 ^ 53" "- 1022 \<le> e" "e \<le> 1023"
    and "(\<exists>k. unat m0 * 2 ^ k = m \<and> e0 = e + int k) \<or> (\<exists>j. unat m0 = m * 2 ^ j \<and> e0 = e - int j)"
  shows "unat (fpack64 0 m0 e0 0) = nat (e + 1022) * 2 ^ 52 + m"
proof -
  have fin: "unat (push_bit 52 (word_of_int (e + 1023)) OR (v AND 0xFFFFFFFFFFFFF) :: f64) = nat (e + 1022) * 2 ^ 52 + m"
    if "unat v = m" for v :: f64
  proof -
    have "nat (e + 1023) = Suc (nat (e + 1022))" using assms(3) by simp
    then show ?thesis using unat_pack [of v "e + 1023"] that assms(1-4) by simp
  qed
  have "m0 \<noteq> 0" using assms(1,5) by auto
  show ?thesis
  proof (cases "unat m0 < 2 ^ 53")
    case True
    obtain m' e' where n: "norm_up m0 e0 = (m', e')" by fastforce
    obtain k where k: "unat m' = unat m0 * 2 ^ k" "e' = e0 - int k" "2 ^ 52 \<le> unat m'" "unat m' < 2 ^ 53"
      using norm_up_spec [OF n \<open>m0 \<noteq> 0\<close> True] by blast
    have uniq: "a = b" if "2 ^ 52 \<le> x * 2 ^ a" "x * 2 ^ a < 2 ^ 53" "2 ^ 52 \<le> x * 2 ^ b" "x * 2 ^ b < 2 ^ 53" for x a b :: nat
    proof -
      have "\<not> c < d" if "2 ^ 52 \<le> x * 2 ^ c" "x * 2 ^ d < 2 ^ 53" for c d
      proof
        assume "c < d"
        then have "x * 2 ^ Suc c \<le> x * 2 ^ d" by (intro mult_mono power_increasing) auto
        then have "2 * (x * 2 ^ c) \<le> x * 2 ^ d" by (simp only: power_Suc mult.left_commute)
        moreover have "(2 :: nat) ^ 53 = 2 * 2 ^ 52" by simp
        ultimately show False using that by linarith
      qed
      then show ?thesis using that by (meson nat_neq_iff)
    qed
    have m': "unat m' = m \<and> e' = e"
    proof -
      consider (up) j where "unat m0 * 2 ^ j = m" "e0 = e + int j" | (down) j where "unat m0 = m * 2 ^ j" "e0 = e - int j"
        using assms(5) by blast
      then show ?thesis
      proof cases
        case up
        then have "j = k" using uniq [of "unat m0" j k] k assms(1,2) by simp
        then show ?thesis using up k by simp
      next
        case down
        have "j = 0"
        proof (rule ccontr)
          assume "j \<noteq> 0"
          then have "2 ^ 52 * 2 ^ 1 \<le> m * 2 ^ j" using assms(1) by (intro mult_mono power_increasing) auto
          then show False using down True by simp
        qed
        moreover from this have "k = 0" using uniq [of m k 0] k down assms(1,2) by simp
        ultimately show ?thesis using down k by simp
      qed
    qed
    then have "\<not> 4 * top64 \<le> m'" "\<not> 2 * top64 \<le> m'" using assms(2) by (simp_all add: word_le_nat_alt)
    then show ?thesis
      using n m' fin [of m'] assms(3,4) \<open>m0 \<noteq> 0\<close> by (simp add: fpack64_def norm_down.simps [of m'])
  next
    case False
    then have up: "norm_up m0 e0 = (m0, e0)" by (subst norm_up.simps) (simp add: word_less_nat_alt)
    have "\<exists>j. unat m0 = m * 2 ^ Suc j \<and> e0 = e - int (Suc j)"
    proof -
      consider (up) j where "unat m0 * 2 ^ j = m" | (down) j where "unat m0 = m * 2 ^ j" "e0 = e - int j"
        using assms(5) by blast
      then show ?thesis
      proof cases
        case up
        then have "unat m0 * 1 \<le> m" unfolding up [symmetric] by (intro mult_mono) simp_all
        then show ?thesis using False assms(2) by simp
      next
        case down
        then show ?thesis using False assms(2) by (cases j) auto
      qed
    qed
    then obtain j where j: "unat m0 = m * 2 ^ Suc j" "e0 = e - int (Suc j)" by blast
    obtain v where v: "norm_down m0 e0 0 = (v, e - 1, 0)" "unat v = 2 * m"
      using norm_down_even [OF j(1) assms(1,2), of e0] j(2) by auto
    have "even (unat v)" using v by simp
    then have "even v" by transfer (simp add: even_nat_iff)
    then have "v AND 1 = 0" by (simp add: and_one_eq even_iff_mod_2_eq_zero [symmetric])
    moreover have "2 * top64 \<le> v" using v assms(1) by (simp add: word_le_nat_alt)
    moreover have "unat (drop_bit 1 v) = m" using v by (simp add: unat_drop_bit_64)
    ultimately show ?thesis
      using up v(1) fin [of "drop_bit 1 v"] assms(3,4) \<open>m0 \<noteq> 0\<close> by (simp add: fpack64_def)
  qed
qed

lemma normal_fields:
  assumes "unat f = x * 2 ^ 52 + m" "2 ^ 52 \<le> m" "m < 2 ^ 53" "x \<le> 2045"
  shows "unat f < 2 ^ 63" "uint (drop_bit 52 f AND 0x7FF) = int x + 1" "unat (f AND 0xFFFFFFFFFFFFF OR top64) = m"
proof -
  show less: "unat f < 2 ^ 63"
  proof -
    have "x * 2 ^ 52 \<le> 2045 * 2 ^ 52" using assms(4) by (intro mult_right_mono) simp_all
    then show ?thesis using assms(1,3) by simp
  qed
  then have mag: "f64_mag f = (x + 1) * 2 ^ 52 + (m - 2 ^ 52)" using assms(1,2) by (simp add: f64_mag_def)
  have small: "m - 2 ^ 52 < 2 ^ 52" using assms(2,3) by simp
  have E: "f64_mag f div 2 ^ 52 = x + 1" using mag small by (simp only: div_mult_self3 div_less)
  then show "uint (drop_bit 52 f AND 0x7FF) = int x + 1" by (simp add: f64_exponent)
  have F: "f64_mag f mod 2 ^ 52 = m - 2 ^ 52" using mag small by (simp only: mod_mult_self3 mod_less)
  let ?M = "f AND 0xFFFFFFFFFFFFF"
  have t: "(0x10000000000000 :: f64) = 2 ^ 52" by simp
  have "?M AND top64 = 0"
    unfolding t and_mask_52
    by (rule bit_word_eqI) (simp only: bit_and_iff bit_take_bit_iff bit_exp_iff bit_0_eq, simp)
  then have "?M OR top64 = ?M + top64" by (simp add: disjunctive_add_eq_or)
  then show "unat (?M OR top64) = m"
    using f64_mantissa [of f] F small assms(2) by (simp add: unat_word_ariths)
qed

lemma funpack64_normal:
  assumes "unat f = x * 2 ^ 52 + m" "2 ^ 52 \<le> m" "m < 2 ^ 53" "x \<le> 2045"
  shows "funpack64 f = (0, word_of_nat m, int x - 1022, False, False)"
proof -
  note fields = normal_fields [OF assms]
  have "f AND neg64 = 0" using fields(1) by (simp add: and_sign_bit bit_63_iff)
  moreover have "f AND 0xFFFFFFFFFFFFF OR top64 = word_of_nat m"
    using fields(3) assms(3) by (simp add: word_unat_eq_iff unat_of_nat take_bit_eq_mod)
  ultimately show ?thesis using fields(2) assms(4) by (simp add: funpack64_def)
qed

section \<open>Natural numbers\<close>

abbreviation fnat :: "nat \<Rightarrow> f64" where "fnat n \<equiv> fuint64to64 (word_of_nat n)"

lemma normal_shift:
  fixes n :: nat
  assumes "0 < n" "n < 2 ^ 53"
  obtains k where "k \<le> 52" "2 ^ 52 \<le> n * 2 ^ k" "n * 2 ^ k < 2 ^ 53"
proof -
  obtain l where l: "2 ^ l \<le> n" "n < 2 ^ Suc l" using ex_power_ivl1 [of 2 n] assms(1) by auto
  have "2 ^ l < (2 :: nat) ^ 53" using l assms(2) by linarith
  then have "l \<le> 52" using power_less_imp_less_exp [of "2 :: nat" l 53] by simp
  then have p: "(2 :: nat) ^ l * 2 ^ (52 - l) = 2 ^ 52" "(2 :: nat) ^ Suc l * 2 ^ (52 - l) = 2 ^ 53"
    by (simp_all flip: power_add)
  show thesis
  proof (rule that [of "52 - l"])
    show "2 ^ 52 \<le> n * 2 ^ (52 - l)" unfolding p(1) [symmetric] using l(1) by (rule mult_right_mono) simp
    show "n * 2 ^ (52 - l) < 2 ^ 53" unfolding p(2) [symmetric] using l(2) by (rule mult_strict_right_mono) simp
  qed simp
qed

lemma fnat_0 [simp]: "fuint64to64 0 = 0"
  by (simp add: fuint64to64_def fintto64_def fpack64_def)

lemma fnat_fpack:
  assumes "n < 2 ^ 63"
  shows "fnat n = fpack64 0 (word_of_nat n) 52 0"
proof -
  have u: "unat (word_of_nat n :: 64 word) = n" using assms by (simp add: unat_of_nat take_bit_eq_mod)
  have "sint (word_of_nat n :: 64 word) = int n"
    using assms by (simp add: signed_of_nat signed_take_bit_int_eq_self)
  then have "0 \<le>s (word_of_nat n :: 64 word)" by (simp add: word_sle_eq)
  moreover have "word_of_nat n AND neg64 = 0" using u assms by (simp add: and_sign_bit bit_63_iff)
  ultimately show ?thesis by (simp add: fuint64to64_def fintto64_def)
qed

lemma fnat_bits:
  fixes n :: nat
  assumes "n * 2 ^ k < 2 ^ 53" "2 ^ 52 \<le> n * 2 ^ k" "k \<le> 52"
  shows "unat (fnat n) = (1074 - k) * 2 ^ 52 + n * 2 ^ k"
proof -
  have "n * 1 \<le> n * 2 ^ k" by (rule mult_left_mono) simp_all
  then have n: "n < 2 ^ 53" using assms(1) by linarith
  have u: "unat (word_of_nat n :: 64 word) = n" using n by (simp add: unat_of_nat take_bit_eq_mod)
  have "unat (fpack64 0 (word_of_nat n) 52 0) = nat ((52 - int k) + 1022) * 2 ^ 52 + n * 2 ^ k"
  proof (rule fpack64_normal [OF assms(2,1)])
    show "(\<exists>j. unat (word_of_nat n :: 64 word) * 2 ^ j = n * 2 ^ k \<and> 52 = 52 - int k + int j) \<or>
        (\<exists>j. unat (word_of_nat n :: 64 word) = n * 2 ^ k * 2 ^ j \<and> 52 = 52 - int k - int j)"
      by (rule disjI1, rule exI [of _ k]) (simp add: u)
  qed (use assms(3) in simp_all)
  moreover have "nat ((52 - int k) + 1022) = 1074 - k" using assms(3) by simp
  ultimately show ?thesis using n by (simp add: fnat_fpack)
qed

lemma fnat_funpack:
  fixes n :: nat
  assumes "n * 2 ^ k < 2 ^ 53" "2 ^ 52 \<le> n * 2 ^ k" "k \<le> 52"
  shows "funpack64 (fnat n) = (0, word_of_nat (n * 2 ^ k), 52 - int k, False, False)"
  using funpack64_normal [OF fnat_bits [OF assms] assms(2,1)] assms(3) by (simp add: of_nat_diff)

text \<open>The conversion is the order of the numbers, and the sum of two numbers is their sum.\<close>

lemma fnat_mag:
  assumes "n < 2 ^ 53"
  shows "f64_mag (fnat n) = unat (fnat n)" "unat (fnat n) < 2 ^ 63"
proof -
  have "unat (fnat n) < 2 ^ 63"
  proof (cases "n = 0")
    case False
    then obtain k where k: "k \<le> 52" "2 ^ 52 \<le> n * 2 ^ k" "n * 2 ^ k < 2 ^ 53" using normal_shift [of n] assms by blast
    have "(1074 - k) * 2 ^ 52 \<le> 1074 * (2 :: nat) ^ 52" by (intro mult_right_mono) simp_all
    then show ?thesis using fnat_bits [OF k(3,2,1)] k(3) by simp
  qed simp
  then show "f64_mag (fnat n) = unat (fnat n)" "unat (fnat n) < 2 ^ 63" by (simp_all add: f64_mag_def)
qed

lemma fnat_add_normal:
  fixes a b x y :: nat
  assumes x: "x = a * 2 ^ k" "x < 2 ^ 53" "2 ^ 52 \<le> x" "k \<le> 52"
    and y: "y = b * 2 ^ l" "y < 2 ^ 53" "2 ^ 52 \<le> y" "l \<le> 52"
    and "k \<le> l" "a + b < 2 ^ 53"
  shows "fpack64 0 (push_bit 2 (word_of_nat x) + drop_bit (l - k) (push_bit 2 (word_of_nat y))) (50 - int k) 0 = fnat (a + b)"
    and "push_bit 2 (word_of_nat y) AND (push_bit (l - k) 1 - 1) = (0 :: f64)"
proof -
  let ?u = "push_bit 2 (word_of_nat x) :: f64" and ?v = "push_bit 2 (word_of_nat y) :: f64"
  have quad: "unat (push_bit 2 (word_of_nat z) :: f64) = 4 * z" if "z < 2 ^ 53" for z
    using that by (simp add: push_bit_eq_mult unat_word_ariths unat_of_nat take_bit_eq_mod)
  have "y = b * 2 ^ k * 2 ^ (l - k)" using \<open>k \<le> l\<close> y(1) by (simp flip: power_add)
  then have y4: "4 * y = 4 * (b * 2 ^ k) * 2 ^ (l - k)" by (simp only: mult.assoc)
  have d: "4 * y div 2 ^ (l - k) = 4 * (b * 2 ^ k)"
    unfolding y4 by (rule nonzero_mult_div_cancel_right) simp
  have v: "unat (drop_bit (l - k) ?v) = 4 * (b * 2 ^ k)"
    unfolding unat_drop_bit_64 quad [OF y(2)] by (rule d)
  have le: "b * 2 ^ k \<le> y" unfolding y(1) using \<open>k \<le> l\<close> by (intro mult_left_mono power_increasing) simp_all
  have "(2 :: nat) ^ 64 = 2048 * 2 ^ 53" by simp
  then have "unat ?u + unat (drop_bit (l - k) ?v) < 2 ^ 64" using quad [OF x(2)] v le x(2) y(2) by linarith
  then have "unat (?u + drop_bit (l - k) ?v) = unat ?u + unat (drop_bit (l - k) ?v)" by (simp add: unat_word_ariths)
  then have "unat (?u + drop_bit (l - k) ?v) = 4 * x + 4 * (b * 2 ^ k)" unfolding quad [OF x(2)] v .
  also have "\<dots> = 4 * ((a + b) * 2 ^ k)" unfolding x(1) by (simp add: add_mult_distrib)
  finally have sum: "unat (?u + drop_bit (l - k) ?v) = 4 * ((a + b) * 2 ^ k)" .
  have "0 < a" using x(1,3) by (cases a) simp_all
  then have "0 < a + b" by simp
  from normal_shift [OF this assms(10)] obtain q where q: "q \<le> 52" "2 ^ 52 \<le> (a + b) * 2 ^ q" "(a + b) * 2 ^ q < 2 ^ 53" .
  have "q \<le> k"
  proof (rule ccontr)
    assume "\<not> q \<le> k"
    then have "a * 2 ^ Suc k \<le> (a + b) * 2 ^ q" by (intro mult_mono power_increasing) simp_all
    then have "2 * x \<le> (a + b) * 2 ^ q" unfolding x(1) by (simp only: power_Suc mult.left_commute)
    moreover have "(2 :: nat) ^ 53 = 2 ^ 52 * 2" by simp
    ultimately show False using x(3) q(3) by linarith
  qed
  have "(a + b) * 2 ^ q * 2 ^ (k - q + 2) = (a + b) * 2 ^ (q + (k - q + 2))" by (simp only: mult.assoc power_add)
  also have "q + (k - q + 2) = Suc (Suc k)" using \<open>q \<le> k\<close> by simp
  finally have e: "4 * ((a + b) * 2 ^ k) = (a + b) * 2 ^ q * 2 ^ (k - q + 2)" by (simp only: power_Suc)
  have "unat (fpack64 0 (?u + drop_bit (l - k) ?v) (50 - int k) 0) = nat (52 - int q + 1022) * 2 ^ 52 + (a + b) * 2 ^ q"
  proof (rule fpack64_normal [OF q(2,3)])
    show "(\<exists>j. unat (?u + drop_bit (l - k) ?v) * 2 ^ j = (a + b) * 2 ^ q \<and> 50 - int k = 52 - int q + int j) \<or>
        (\<exists>j. unat (?u + drop_bit (l - k) ?v) = (a + b) * 2 ^ q * 2 ^ j \<and> 50 - int k = 52 - int q - int j)"
      by (intro disjI2 exI [of _ "k - q + 2"] conjI, rule trans [OF sum e]) (use \<open>q \<le> k\<close> in simp)
  qed (use q(1) in simp_all)
  moreover have "nat (52 - int q + 1022) = 1074 - q" using q(1) by simp
  ultimately show "fpack64 0 (?u + drop_bit (l - k) ?v) (50 - int k) 0 = fnat (a + b)"
    using fnat_bits [OF q(3,2,1)] by (simp only: word_unat_eq_iff)
  have "unat (take_bit (l - k) ?v) = 0" unfolding unat_take_bit_64 quad [OF y(2)] y4 by simp
  then show "?v AND (push_bit (l - k) 1 - 1) = 0"
    unfolding push_bit_of_1 by (simp only: mask_eq_exp_minus_1 [symmetric] take_bit_eq_mask [symmetric] word_unat_eq_iff unat_0)
qed

lemma unat_fnat_mantissa: "2 ^ 52 \<le> x \<Longrightarrow> x < 2 ^ 53 \<Longrightarrow> unat (word_of_nat x :: f64) = x"
  by (simp add: unat_of_nat take_bit_eq_mod)

theorem fadd64_fnat:
  assumes "a + b < 2 ^ 53"
  shows "fadd64 (fnat a) (fnat b) = fnat (a + b)"
proof -
  have zero: "funpack64 0 = (0, 0, 0, False, False)" by (simp add: funpack64_def)
  have ab: "a < 2 ^ 53" "b < 2 ^ 53" using assms by simp_all
  have parts: "\<exists>k x. x = n * 2 ^ k \<and> x < 2 ^ 53 \<and> 2 ^ 52 \<le> x \<and> k \<le> 52 \<and> word_of_nat x \<noteq> (0 :: f64) \<and>
      funpack64 (fnat n) = (0, word_of_nat x, 52 - int k, False, False)" if n: "0 < n" "n < 2 ^ 53" for n
  proof -
    obtain k where k: "k \<le> 52" "2 ^ 52 \<le> n * 2 ^ k" "n * 2 ^ k < 2 ^ 53" using normal_shift [OF n] by blast
    have "unat (word_of_nat (n * 2 ^ k) :: f64) \<noteq> unat (0 :: f64)" unfolding unat_fnat_mantissa [OF k(2,3)] using n by simp
    then show ?thesis using fnat_funpack [OF k(3,2,1)] k by metis
  qed
  show ?thesis
  proof (cases "a = 0 \<or> b = 0")
    case True
    then consider "a = 0" "b = 0" | "a = 0" "0 < b" | "b = 0" "0 < a" by auto
    then show ?thesis
    proof cases
      case 1
      then show ?thesis using zero by (simp add: fadd64_def)
    next
      case 2
      then show ?thesis using parts [of b] ab zero by (auto simp: fadd64_def)
    next
      case 3
      then show ?thesis using parts [of a] ab zero by (auto simp: fadd64_def)
    qed
  next
    case False
    obtain k x where x: "x = a * 2 ^ k" "x < 2 ^ 53" "2 ^ 52 \<le> x" "k \<le> 52" "word_of_nat x \<noteq> (0 :: f64)"
        "funpack64 (fnat a) = (0, word_of_nat x, 52 - int k, False, False)" using parts [of a] False ab by auto
    obtain l y where y: "y = b * 2 ^ l" "y < 2 ^ 53" "2 ^ 52 \<le> y" "l \<le> 52" "word_of_nat y \<noteq> (0 :: f64)"
        "funpack64 (fnat b) = (0, word_of_nat y, 52 - int l, False, False)" using parts [of b] False ab by auto
    have lt: "(word_of_nat x :: f64) < word_of_nat y \<longleftrightarrow> x < y"
      using unat_fnat_mantissa x(2,3) y(2,3) by (simp only: word_less_nat_alt)
    show ?thesis
    proof (cases "l < k \<or> l = k \<and> x < y")
      case True
      then have "l \<le> k" "52 - int k < 52 - int l \<or> 52 - int k = 52 - int l \<and> (word_of_nat x :: f64) < word_of_nat y"
        "nat (52 - int l - (52 - int k)) = k - l" using lt by auto
      then show ?thesis
        using fnat_add_normal [OF y(1-4) x(1-4)] assms x(5,6) y(5,6) by (simp add: fadd64_def Let_def add.commute)
    next
      case False
      then have "k \<le> l" "\<not> (52 - int k < 52 - int l \<or> 52 - int k = 52 - int l \<and> (word_of_nat x :: f64) < word_of_nat y)"
        "nat (52 - int k - (52 - int l)) = l - k" using lt by auto
      then show ?thesis
        using fnat_add_normal [OF x(1-4) y(1-4)] assms x(5,6) y(5,6) by (auto simp: fadd64_def Let_def)
    qed
  qed
qed

end
