(* ===== verification/Go_Ftoa.thy ===== *)
theory Go_Ftoa
  imports Go_Atof
begin

text \<open>
  Floats as text: \<open>FormatFloat\<close> for 64 bits, format \<open>f\<close> and a precision that is not negative
  (\<open>internal/strconv/ftoa.go\<close>, \<open>ftoafixed.go\<close>, \<open>itoa.go\<close>), and what \<open>fmt\<close> makes of it for \<open>%.nf\<close> without flags.
\<close>

section \<open>Integers in base 10\<close>

text \<open>\<open>smalls\<close> is the concatenation of the two digits of 00 to 99.\<close>

definition smalls :: string where
  "smalls = concat (map (\<lambda>i. [digit_char (i div 10), digit_char (i mod 10)]) [0..<100])"

text \<open>
  The buffer is filled from its end, so the digits are put in front of those written. The numbers
  are only divided, so they are natural numbers.
\<close>

fun twoDigits :: "nat \<Rightarrow> nat \<Rightarrow> string \<Rightarrow> nat \<times> string" where
  "twoDigits 0 lo a = (lo, a)"
| "twoDigits (Suc n) lo a =
     (let dd = lo mod 100 * 2 in twoDigits n (lo div 100) (smalls ! dd # smalls ! (dd + 1) # a))"

fun lastChunk :: "nat \<Rightarrow> string \<Rightarrow> string" where
  "lastChunk lo a =
     (if lo \<ge> 100 then let dd = lo mod 100 * 2 in lastChunk (lo div 100) (smalls ! dd # smalls ! (dd + 1) # a)
      else
        let dd = lo * 2; a = smalls ! (dd + 1) # a
        in if lo \<ge> 10 then smalls ! dd # a else a)"

function formatBase10 :: "nat \<Rightarrow> string \<Rightarrow> string" where
  "formatBase10 u a =
     (if u div 2 ^ 29 \<noteq> 0 then
        let lo = u mod 1000000000; u = u div 1000000000;
            (lo, a) = twoDigits 4 lo a;
            a = smalls ! (lo * 2 + 1) # a
        in if u = 0 then a else formatBase10 u a
      else lastChunk u a)"
  by auto
termination by (relation "measure fst") (auto simp: div_eq_0_iff)

declare lastChunk.simps [simp del] formatBase10.simps [simp del]

section \<open>128-bit products\<close>

definition Add64 :: "64 word \<Rightarrow> 64 word \<Rightarrow> 64 word \<Rightarrow> 64 word \<times> 64 word" where
  "Add64 x y carry =
     (let sum = x + y + carry in (sum, drop_bit 63 ((x AND y) OR ((x OR y) AND NOT sum))))"

definition umul192 :: "64 word \<Rightarrow> uint128 \<Rightarrow> 64 word \<times> 64 word \<times> 64 word" where
  "umul192 x y =
     (let (yHi, yLo) = y;
          (mid1, lo) = Mul64 x yLo;
          (hi, mid2) = Mul64 x yHi;
          (mid, carry) = Add64 mid1 mid2 0
      in (hi + carry, mid, lo))"

definition mulLog10_2 :: "int \<Rightarrow> int" where
  "mulLog10_2 x = x * 78913 div 2 ^ 18"

text \<open>The entries of \<open>div5Tab\<close> for \<open>p = 1, 2, \<dots>\<close>; the second part is \<open>maxUint64 / 5 / \<dots> / 5\<close>.\<close>

definition div5Inverse :: "64 word list" where
  "div5Inverse = [
     0xCCCCCCCCCCCCCCCD, 0x8F5C28F5C28F5C29, 0x1CAC083126E978D5, 0xD288CE703AFB7E91, 0x5D4E8FB00BCBE61D,
     0x790FB65668C26139, 0xE5032477AE8D46A5, 0xC767074B22E90E21, 0x8E47CE423A2E9C6D, 0x4FA7F60D3ED61F49,
     0x0FEE64690C913975, 0x3662E0E1CF503EB1, 0xA47A2CF9F6433FBD, 0x54186F653140A659, 0x7738164770402145,
     0xE4A4D1417CD9A041, 0xC75429D9E5C5200D, 0xC1773B91FAC10669, 0x26B172506559CE15, 0xD489E3A9ADDEC2D1,
     0x90E860BB892C8D5D, 0x502E79BF1B6F4F79]"

definition div5Tab :: "(64 word \<times> 64 word) list" where
  "div5Tab = zip div5Inverse (map (\<lambda>p. ((\<lambda>x. x div 5) ^^ p) (- 1)) [1..<23])"

definition divisiblePow5 :: "64 word \<Rightarrow> int \<Rightarrow> bool" where
  "divisiblePow5 x p \<longleftrightarrow>
     1 \<le> p \<and> p \<le> 22 \<and> x * fst (div5Tab ! nat (p - 1)) \<le> snd (div5Tab ! nat (p - 1))"

definition uint64pow10 :: "64 word list" where
  "uint64pow10 = map (\<lambda>k. 10 ^ k) [0..<20]"

section \<open>A fixed number of digits\<close>

text \<open>\<open>decimalSlice\<close>: the digits in use and the decimal point.\<close>

type_synonym decimalSlice = "string \<times> int"

text \<open>The loop that trims the overestimated digits.\<close>

function dropDigits :: "int \<Rightarrow> 64 word \<Rightarrow> bool \<Rightarrow> int \<Rightarrow> 64 word \<times> bool \<times> int" where
  "dropDigits bound dm dt digits =
     (if digits > bound then dropDigits bound (dm div 10) (dt \<or> dm mod 10 \<noteq> 0) (digits - 1) else (dm, dt, digits))"
  by auto
termination by (relation "measure (\<lambda>(bound, dm, dt, digits). nat (digits - bound))") auto

declare dropDigits.simps [simp del]

text \<open>
  \<open>fixedFtoa\<close> for the format \<open>f\<close>, from the scaled number with its rounding bit on: the trimming to the
  digits that are needed, the rounding and the digits. \<^const>\<open>None\<close> is a panic: its own ones, a negative
  shift count, and digits that do not fit into the slice.
\<close>

definition fixedDigits :: "64 word \<Rightarrow> bool \<Rightarrow> int \<Rightarrow> int \<Rightarrow> int \<Rightarrow> decimalSlice option" where
  "fixedDigits dm dt digits dp prec = do {
     max \<leftarrow> go_nth uint64pow10 digits;
     let max = push_bit 1 max;
     let (dm, dt, dp) = (if max \<le> dm then (dm div 10, dt \<or> dm mod 10 \<noteq> 0, dp + 1) else (dm, dt, dp));
     (dm, dt, digits, dp, max) \<leftarrow>
       (if digits \<noteq> dp + prec then do {
          let (dm, dt, digits) = dropDigits (dp + prec) dm dt digits;
          let (digits, dp) = (if digits \<le> 0 then (1, dp + 1) else (digits, dp));
          max \<leftarrow> go_nth uint64pow10 digits;
          Some (dm, dt, digits, dp, push_bit 1 max) }
        else Some (dm, dt, digits, dp, max));
     let dm = drop_bit 1 (dm + (dm AND ((if dt then 1 else 0) OR drop_bit 1 dm) AND 1));
     (dm, dp) \<leftarrow> (if dm = drop_bit 1 max then do { m \<leftarrow> go_nth uint64pow10 (digits - 1); Some (m, dp + 1) } else Some (dm, dp));
     if dm \<noteq> 0 then
       let ds = formatBase10 (unat dm) []
       in if int (length ds) \<noteq> digits then None
          else Some (rev (dropWhile (\<lambda>c. c = CHR ''0'') (rev ds)), dp)
     else Some ([], dp) }"

definition fixedFtoa :: "64 word \<Rightarrow> int \<Rightarrow> int \<Rightarrow> int \<Rightarrow> decimalSlice option" where
  "fixedFtoa mant e digits prec =
     (if digits > 18 then None
      else do {
        let b = 64 - Len64 mant;
        let mant = push_bit (nat b) mant;
        let e = e - b;
        let p = digits - 1 - mulLog10_2 (63 + e);
        ((powHi, powLo), exp2) \<leftarrow> pow10 p;
        let powLo = (if -22 \<le> p \<and> p < 0 then powLo + 1 else powLo);
        let (dm, lo1, lo0) = umul192 mant (powHi, powLo);
        let de = e + exp2;
        let dt = (if 0 \<le> p \<and> p \<le> 55 then lo1 OR lo0 \<noteq> 0
                  else if -22 \<le> p \<and> p < 0 \<and> divisiblePow5 mant (- p) then False
                  else True);
        let shift = - de - 1;
        if shift < 0 then None
        else fixedDigits (drop_bit (nat shift) dm) (dt \<or> dm AND (push_bit (nat shift) 1 - 1) \<noteq> 0) digits (digits - p) prec })"

section \<open>The format f\<close>

definition fmtF :: "bool \<Rightarrow> decimalSlice \<Rightarrow> int \<Rightarrow> string" where
  "fmtF neg d prec =
     (let (ds, dp) = d
      in (if neg then ''-'' else []) @
         (if dp > 0 then take (nat dp) ds @ replicate (nat dp - length ds) (CHR ''0'') else ''0'') @
         (if prec > 0 then
            CHR ''.'' # map (\<lambda>i. let j = dp + i in if 0 \<le> j \<and> j < int (length ds) then ds ! nat j else CHR ''0'') [0..prec - 1]
          else []))"

definition bigFtoa :: "int \<Rightarrow> bool \<Rightarrow> 64 word \<Rightarrow> int \<Rightarrow> string option" where
  "bigFtoa prec neg mant e = do {
     d \<leftarrow> Shift (Assign zeroDecimal mant) (e - int mantbits64);
     let d = Round d (dDp d + prec);
     Some (fmtF neg (map digit_char (dD d), dDp d) prec) }"

definition genericFtoa :: "f64 \<Rightarrow> int \<Rightarrow> string option" where
  "genericFtoa v prec =
     (let neg = (drop_bit (expbits64 + mantbits64) v \<noteq> 0);
          e = uint (drop_bit mantbits64 v AND 0x7FF);
          mant = v AND 0xFFFFFFFFFFFFF
      in if e = 0x7FF then Some (if mant \<noteq> 0 then ''NaN'' else if neg then ''-Inf'' else ''+Inf'')
         else
           let (e, mant) = (if e = 0 then (e + 1, mant) else (e, mant OR top64));
               e = e + bias64
           in if mant = 0 then Some (fmtF neg ([], 0) prec)
              else
                let digits = (if e \<ge> 0 then 1 + mulLog10_2 (1 + e) + prec else 1 + prec - mulLog10_2 (- e))
                in if digits \<le> 18 then
                     (if digits > 0 then do {
                        digs \<leftarrow> fixedFtoa mant (e - int mantbits64) digits prec;
                        Some (fmtF neg digs prec) }
                      else Some (fmtF neg ([], 0) prec))
                   else bigFtoa prec neg mant e)"

text \<open>\<open>fmt.fmtFloat\<close> with \<open>precPresent\<close> and no flag: the sign is shown when it is negative, and always for an infinity.\<close>

definition fmtFloat :: "f64 \<Rightarrow> int \<Rightarrow> string option" where
  "fmtFloat v prec = do {
     num \<leftarrow> genericFtoa v prec;
     let num = (if hd num = CHR ''-'' \<or> hd num = CHR ''+'' then num else CHR ''+'' # num);
     Some (if num ! 1 = CHR ''I'' \<or> num ! 1 = CHR ''N'' then (if num ! 1 = CHR ''N'' then tl num else num)
           else if hd num \<noteq> CHR ''+'' then num
           else tl num) }"

end
