(* ===== verification/Go_Ftoa_Spec.thy ===== *)
theory Go_Ftoa_Spec
  imports Go_Ftoa Go_Float64_Int
begin

text \<open>
  Integers as floats and back: \<open>%.0f\<close> prints a natural number below \<open>2^53\<close> with its decimal digits,
  and \<open>ParseFloat\<close> reads the digits of one below \<open>2^52\<close> back to the same float.
\<close>

section \<open>Decimal digits\<close>

text \<open>The last \<open>k\<close> digits.\<close>

fun pad :: "nat \<Rightarrow> nat \<Rightarrow> string" where
  "pad 0 n = []"
| "pad (Suc k) n = pad k (n div 10) @ [digit_char (n mod 10)]"

lemma length_pad [simp]: "length (pad k n) = k"
  by (induction k arbitrary: n) simp_all

lemma pad_add: "pad (j + k) n = pad j (n div 10 ^ k) @ pad k n"
  by (induction k arbitrary: n) (simp_all add: div_mult2_eq)

lemma pad_mod: "k \<le> j \<Longrightarrow> pad k (n mod 10 ^ j) = pad k n"
proof (induction k arbitrary: n j)
  case (Suc k)
  then obtain i where j: "j = Suc i" "k \<le> i" by (cases j) auto
  have "n mod 10 ^ j mod 10 = n mod 10" unfolding j(1) by (rule mod_mod_cancel) simp
  moreover have "n mod 10 ^ j div 10 = n div 10 mod 10 ^ i"
    using div_exp_mod_exp_eq [where a = n] by (simp add: j(1) mod_mult2_eq)
  ultimately show ?case using Suc.IH [OF j(2)] by simp
qed simp

lemma digits_of_pad: "10 ^ k \<le> n \<Longrightarrow> digits_of n = digits_of (n div 10 ^ k) @ pad k n"
proof (induction k arbitrary: n)
  case (Suc k)
  then have "10 ^ k \<le> n div 10" by (simp add: less_eq_div_iff_mult_less_eq mult.commute)
  moreover have "10 \<le> n" using Suc.prems by (meson le_trans one_le_numeral one_le_power self_le_power zero_less_Suc)
  ultimately show ?case using Suc.IH [of "n div 10"] by (subst digits_of.simps) (simp add: div_mult2_eq)
qed simp

lemma digits_of_length_eq: "10 ^ k \<le> n \<Longrightarrow> n < 10 ^ Suc k \<Longrightarrow> length (digits_of n) = Suc k"
proof -
  assume n: "10 ^ k \<le> n" "n < 10 ^ Suc k"
  then have "n div 10 ^ k < 10" by (simp add: less_mult_imp_div_less)
  then have "length (digits_of (n div 10 ^ k)) = 1" by (subst digits_of.simps) simp
  then show ?thesis using digits_of_pad [OF n(1)] by simp
qed

section \<open>Printing in base 10\<close>

lemma concat_pairs:
  "i < n \<Longrightarrow> concat (map (\<lambda>i. [f i, g i]) [0..<n]) ! (2 * i) = f i \<and>
    concat (map (\<lambda>i. [f i, g i]) [0..<n]) ! (2 * i + 1) = g i"
proof (induction n)
  case (Suc n)
  have "length (concat (map (\<lambda>i. [f i, g i]) [0..<m])) = 2 * m" for m by (induction m) simp_all
  then show ?case using Suc by (cases "i = n") (simp_all add: nth_append)
qed simp

lemma smalls_digits:
  assumes "d < 100"
  shows "smalls ! (d * 2) = digit_char (d div 10)" "smalls ! Suc (d * 2) = digit_char (d mod 10)"
  using concat_pairs [OF assms, of "\<lambda>i. digit_char (i div 10)" "\<lambda>i. digit_char (i mod 10)"]
  by (simp_all add: smalls_def mult.commute)

lemma pad_2: "pad 2 n = [digit_char (n div 10 mod 10), digit_char (n mod 10)]"
  unfolding numeral_2_eq_2 by simp

lemma smalls_pad: "[smalls ! (lo mod 100 * 2), smalls ! (lo mod 100 * 2 + 1)] = pad 2 lo"
proof -
  have "lo mod 100 div 10 = lo div 10 mod 10" using mod_mult2_eq [of lo 10 10] by simp
  moreover have "lo mod 100 mod 10 = lo mod 10" by (rule mod_mod_cancel) simp
  ultimately show ?thesis using smalls_digits [of "lo mod 100"] by (simp add: pad_2)
qed

lemma twoDigits_pad: "twoDigits k lo a = (lo div 100 ^ k, pad (2 * k) lo @ a)"
proof (induction k arbitrary: lo a)
  case (Suc k)
  have "pad (2 * Suc k) lo = pad (2 * k) (lo div 100) @ pad 2 lo"
    using pad_add [of "2 * k" 2 lo] by (simp add: power2_eq_square)
  moreover have "twoDigits (Suc k) lo a = twoDigits k (lo div 100) (pad 2 lo @ a)"
    by (simp add: Let_def flip: smalls_pad)
  ultimately show ?case using Suc.IH [of "lo div 100" "pad 2 lo @ a"] by (simp add: div_mult2_eq)
qed simp

lemma lastChunk_digits: "lastChunk lo a = digits_of lo @ a"
proof (induction lo a rule: lastChunk.induct)
  case (1 lo a)
  show ?case
  proof (cases "100 \<le> lo")
    case True
    have "lastChunk lo a = lastChunk (lo div 100) (pad 2 lo @ a)"
      using True by (subst lastChunk.simps) (simp add: Let_def flip: smalls_pad)
    also have "\<dots> = digits_of (lo div 100) @ pad 2 lo @ a" using 1 True by (simp add: Let_def flip: smalls_pad)
    also have "\<dots> = digits_of lo @ a" using digits_of_pad [of 2 lo] True by simp
    finally show ?thesis .
  next
    case False
    then have "digits_of lo = (if 10 \<le> lo then [digit_char (lo div 10), digit_char (lo mod 10)] else [digit_char lo])"
      by (subst digits_of.simps, subst digits_of.simps) auto
    then show ?thesis using False smalls_digits [of lo] by (subst lastChunk.simps) (simp add: Let_def)
  qed
qed

theorem formatBase10_digits: "formatBase10 u a = digits_of u @ a"
proof (induction u a rule: formatBase10.induct)
  case (1 u a)
  show ?case
  proof (cases "u div 2 ^ 29 = 0")
    case True
    then show ?thesis by (subst formatBase10.simps) (simp add: lastChunk_digits)
  next
    case False
    then have big: "2 ^ 29 \<le> u" by (simp add: div_eq_0_iff not_less)
    define lo q where lo: "lo = u mod 1000000000" and q: "q = u div 1000000000"
    have t: "twoDigits 4 lo a = (lo div 10 ^ 8, pad 8 lo @ a)" using twoDigits_pad [of 4 lo a] by simp
    have d: "lo div 10 ^ 8 < 10" by (simp add: lo less_mult_imp_div_less)
    have s: "smalls ! (lo div 10 ^ 8 * 2 + 1) # pad 8 lo = pad 9 u"
    proof -
      have "pad 9 lo = pad 1 (lo div 10 ^ 8) @ pad 8 lo" using pad_add [of 1 8 lo] by simp
      moreover have "pad 9 (u mod 10 ^ 9) = pad 9 u" by (rule pad_mod) simp
      ultimately show ?thesis using smalls_digits(2) [of "lo div 10 ^ 8"] d by (simp add: lo)
    qed
    then have sa: "smalls ! Suc (lo div 100000000 * 2) # pad 8 lo @ a = pad 9 u @ a" by (cases "pad 9 u") simp_all
    have step: "formatBase10 u a = (if q = 0 then pad 9 u @ a else formatBase10 q (pad 9 u @ a))"
      using False t by (subst formatBase10.simps) (simp add: Let_def sa flip: lo q)
    show ?thesis
    proof (cases "q = 0")
      case True
      then have u: "lo = u" "10 ^ 8 \<le> u" using big by (simp_all add: div_eq_0_iff lo q)
      have "pad 9 u = pad 1 (u div 10 ^ 8) @ pad 8 u" using pad_add [of 1 8 u] by simp
      moreover have "digits_of (u div 10 ^ 8) = [digit_char (u div 10 ^ 8)]" using d u(1) by (subst digits_of.simps) simp
      ultimately show ?thesis using step True digits_of_pad [OF u(2)] d u(1) by simp
    next
      case f: False
      then have "10 ^ 9 \<le> u" by (simp add: div_eq_0_iff not_less q)
      then have "digits_of u = digits_of q @ pad 9 u" using digits_of_pad [of 9 u] by (simp add: q)
      moreover have "formatBase10 q (pad 9 u @ a) = digits_of q @ pad 9 u @ a"
        using 1 [OF False lo q t [symmetric] refl refl f] sa by simp
      ultimately show ?thesis using step f by simp
    qed
  qed
qed

section \<open>128-bit products\<close>

lemma mul_halves:
  fixes x0 x1 y0 y1 B :: nat
  assumes "x0 < B" "x1 < B" "y0 < B" "y1 < B"
  defines "t \<equiv> x1 * y0 + x0 * y0 div B"
  defines "w \<equiv> t mod B + x0 * y1"
  shows "x0 * y0 < B * B" "t < B * B" "w < B * B" "x1 * y1 + t div B + w div B < B * B"
    "(x1 * B + x0) * (y1 * B + y0) = (x1 * y1 + t div B + w div B) * (B * B) + (w mod B * B + x0 * y0 mod B)"
proof -
  have B: "0 < B" using assms(1) by simp
  have mono: "a * b \<le> (B - 1) * (B - 1)" if "a < B" "b < B" for a b using that by (intro mult_mono) auto
  have sq: "(B - 1) * (B - 1) + B \<le> B * B" using B by (cases B) simp_all
  show "x0 * y0 < B * B" using mult_strict_mono [of x0 B y0 B] assms(1,3) by simp
  then have "x0 * y0 div B < B" using B by (simp add: less_mult_imp_div_less)
  then show "t < B * B" using mono [OF assms(2,3)] sq unfolding t_def by linarith
  have "t mod B < B" using B by simp
  then show "w < B * B" using mono [OF assms(1,4)] sq unfolding w_def by linarith
  have split: "v * B = v div B * (B * B) + v mod B * B" for v
    by (metis add_mult_distrib div_mult_mod_eq mult.assoc)
  have z: "x0 * y0 = x0 * y0 div B * B + x0 * y0 mod B" by simp
  have "(x1 * B + x0) * (y1 * B + y0) = x1 * y1 * (B * B) + (x1 * y0 + x0 * y1) * B + x0 * y0" by (simp add: algebra_simps)
  also have "\<dots> = x1 * y1 * (B * B) + (t + x0 * y1) * B + x0 * y0 mod B"
    by (subst z) (simp add: t_def algebra_simps)
  also have "\<dots> = (x1 * y1 + t div B) * (B * B) + w * B + x0 * y0 mod B"
    by (simp only: w_def add_mult_distrib split [of t])
  also have "\<dots> = (x1 * y1 + t div B + w div B) * (B * B) + (w mod B * B + x0 * y0 mod B)"
    by (simp only: add_mult_distrib split [of w])
  finally show eq: "(x1 * B + x0) * (y1 * B + y0) = (x1 * y1 + t div B + w div B) * (B * B) + (w mod B * B + x0 * y0 mod B)" .
  have less: "a1 * B + a0 < B * B" if "a1 < B" "a0 < B" for a0 a1
  proof -
    have "Suc a1 * B \<le> B * B" using that(1) by (intro mult_right_mono) simp_all
    then show ?thesis using that(2) by simp
  qed
  have "(x1 * B + x0) * (y1 * B + y0) < (B * B) * (B * B)"
    using less [OF assms(2,1)] less [OF assms(4,3)] B by (intro mult_strict_mono) simp_all
  then have "(x1 * y1 + t div B + w div B) * (B * B) < (B * B) * (B * B)" unfolding eq by linarith
  then show "x1 * y1 + t div B + w div B < B * B" using B by simp
qed

lemma and_mask_32: "(v :: 64 word) AND 0xFFFFFFFF = take_bit 32 v"
  by (simp add: take_bit_eq_mask mask_eq_exp_minus_1)

lemma unat_add_64: "unat (a :: 64 word) + unat b < 2 ^ 64 \<Longrightarrow> unat (a + b) = unat a + unat b"
  by (simp add: unat_word_ariths)

lemma unat_mult_64: "unat (a :: 64 word) * unat b < 2 ^ 64 \<Longrightarrow> unat (a * b) = unat a * unat b"
  by (simp add: unat_word_ariths)

theorem Mul64_product:
  assumes "Mul64 x y = (hi, lo)"
  shows "unat hi * 2 ^ 64 + unat lo = unat x * unat y"
proof -
  let ?B = "2 ^ 32 :: nat"
  define x0 x1 y0 y1 where d: "x0 = unat x mod ?B" "x1 = unat x div ?B" "y0 = unat y mod ?B" "y1 = unat y div ?B"
  have B2: "?B * ?B = 2 ^ 64" by simp
  have lt: "x0 < ?B" "x1 < ?B" "y0 < ?B" "y1 < ?B"
    using unat_64_less [of x] unat_64_less [of y] by (simp_all add: d less_mult_imp_div_less)
  define t where "t = x1 * y0 + x0 * y0 div ?B"
  define w where "w = t mod ?B + x0 * y1"
  note h = mul_halves [OF lt, folded t_def, folded w_def, unfolded B2]
  have u: "unat (v AND 0xFFFFFFFF) = unat v mod ?B" "unat (drop_bit 32 v) = unat v div ?B" for v :: "64 word"
    by (simp_all only: and_mask_32 unat_take_bit_64 unat_drop_bit_64)
  let ?x0 = "x AND 0xFFFFFFFF" and ?x1 = "drop_bit 32 x" and ?y0 = "y AND 0xFFFFFFFF" and ?y1 = "drop_bit 32 y"
  have U: "unat ?x0 = x0" "unat ?x1 = x1" "unat ?y0 = y0" "unat ?y1 = y1" by (simp_all only: u d)
  have z: "unat (?x0 * ?y0) = x0 * y0" using unat_mult_64 [of ?x0 ?y0] h(1) by (simp only: U)
  define T where "T = ?x1 * ?y0 + drop_bit 32 (?x0 * ?y0)"
  have "x1 * y0 < 2 ^ 64" using h(2) unfolding t_def by linarith
  then have "unat (?x1 * ?y0) = x1 * y0" using unat_mult_64 [of ?x1 ?y0] by (simp only: U)
  then have T: "unat T = t"
    using unat_add_64 [of "?x1 * ?y0" "drop_bit 32 (?x0 * ?y0)"] h(2) by (simp only: T_def t_def u z)
  define W where "W = (T AND 0xFFFFFFFF) + ?x0 * ?y1"
  have "x0 * y1 < 2 ^ 64" using h(3) unfolding w_def by linarith
  then have "unat (?x0 * ?y1) = x0 * y1" using unat_mult_64 [of ?x0 ?y1] by (simp only: U)
  then have W: "unat W = w"
    using unat_add_64 [of "T AND 0xFFFFFFFF" "?x0 * ?y1"] h(3) by (simp only: W_def w_def u T)
  have m: "x1 * y1 + t div ?B + w div ?B < 2 ^ 64" by (rule h(4))
  then have "x1 * y1 < 2 ^ 64" "x1 * y1 + t div ?B < 2 ^ 64" by linarith+
  then have a: "unat (?x1 * ?y1 + drop_bit 32 T) = x1 * y1 + t div ?B"
    using unat_mult_64 [of ?x1 ?y1] unat_add_64 [of "?x1 * ?y1" "drop_bit 32 T"] by (simp only: U u(2) [of T] T)
  have hl: "hi = ?x1 * ?y1 + drop_bit 32 T + drop_bit 32 W" "lo = x * y"
    using assms by (simp_all add: Mul64_def Let_def T_def W_def)
  have hi: "unat hi = x1 * y1 + t div ?B + w div ?B"
    using unat_add_64 [of "?x1 * ?y1 + drop_bit 32 T" "drop_bit 32 W"] m unfolding hl by (simp only: a u W)
  have xy: "unat x * unat y = unat hi * 2 ^ 64 + (w mod ?B * ?B + x0 * y0 mod ?B)"
    using h(5) by (simp only: hi d div_mult_mod_eq)
  have "w mod ?B * ?B + x0 * y0 mod ?B < 2 ^ 64"
  proof -
    have "w mod ?B < ?B" "x0 * y0 mod ?B < ?B" by simp_all
    then show ?thesis by simp
  qed
  then have "unat lo = w mod ?B * ?B + x0 * y0 mod ?B"
    unfolding hl(2) using xy by (simp add: unat_word_ariths)
  then show ?thesis using xy by simp
qed

lemma Mul64_exact:
  assumes "unat x * unat y = q * 2 ^ 64"
  shows "fst (Mul64 x y) = word_of_nat q" "snd (Mul64 x y) = 0"
proof -
  obtain hi lo where m: "Mul64 x y = (hi, lo)" by fastforce
  have e: "unat hi * 2 ^ 64 + unat lo = q * 2 ^ 64" using Mul64_product [OF m] assms by simp
  have l: "unat lo < 2 ^ 64" by (rule unat_64_less)
  have "unat lo = (unat hi * 2 ^ 64 + unat lo) mod 2 ^ 64" using l by (simp only: mod_mult_self3 mod_less)
  also have "\<dots> = 0" unfolding e by (rule mod_mult_self2_is_0)
  finally have lo: "unat lo = 0" .
  then have "unat hi = q" using e by simp
  moreover have "unat hi < 18446744073709551616" using unat_64_less [of hi] by simp
  ultimately show "fst (Mul64 x y) = word_of_nat q" "snd (Mul64 x y) = 0"
    using lo m by (auto simp: word_unat_eq_iff unat_of_nat)
qed

lemma umul192_exact:
  assumes "unat x * unat y = q * 2 ^ 64"
  shows "umul192 x (y, 0) = (word_of_nat q, 0, 0)"
proof -
  have "Mul64 x 0 = (0, 0)" using Mul64_exact [of x 0 0] by (simp add: prod_eq_iff)
  moreover have "Mul64 x y = (word_of_nat q, 0)" using Mul64_exact [OF assms] by (simp add: prod_eq_iff)
  ultimately show ?thesis by (simp add: umul192_def Add64_def)
qed

section \<open>The digits of an integer\<close>

lemma pow10_small: "pow10 0 = Some ((0x8000000000000000, 0), 1)" "pow10 1 = Some ((0xA000000000000000, 0), 4)"
  by code_simp+

text \<open>\<open>mulLog10_2\<close> is the number of digits of a power of two, less one, and goes up in steps of at most one.\<close>

lemma mulLog10_2_table:
  "\<forall>j \<in> set [0..53]. let m = mulLog10_2 j in 0 \<le> m \<and> m \<le> 15 \<and> 10 ^ nat m \<le> (2 :: nat) ^ nat j \<and> (2 :: nat) ^ nat j < 10 ^ Suc (nat m)"
  "\<forall>j \<in> set [0..52]. mulLog10_2 (j + 1) = mulLog10_2 j \<or> mulLog10_2 (j + 1) = mulLog10_2 j + 1"
  by (simp_all add: mulLog10_2_def upto.simps del: set_upto)

lemma mulLog10_2_bounds:
  assumes "j \<le> 53"
  obtains m where "mulLog10_2 (int j) = int m" "m \<le> 15" "10 ^ m \<le> (2 :: nat) ^ j" "(2 :: nat) ^ j < 10 ^ Suc m"
proof -
  have "int j \<in> set [0..53]" using assms by simp
  then have "0 \<le> mulLog10_2 (int j) \<and> mulLog10_2 (int j) \<le> 15 \<and> 10 ^ nat (mulLog10_2 (int j)) \<le> (2 :: nat) ^ nat (int j) \<and>
      (2 :: nat) ^ nat (int j) < 10 ^ Suc (nat (mulLog10_2 (int j)))" using mulLog10_2_table(1) by (simp only: Let_def)
  then show thesis using that [of "nat (mulLog10_2 (int j))"] by (auto simp: nat_le_iff)
qed

lemma Len64_bits:
  assumes "2 ^ l \<le> unat x" "unat x < 2 ^ Suc l"
  shows "Len64 x = int (Suc l)"
proof -
  have "0 < unat x" using assms(1) by (metis gr0I le_zero_eq power_eq_0_iff zero_neq_numeral)
  then obtain k where k: "len8tab (unat x) = int (Suc k)" "2 ^ k \<le> unat x" "unat x < 2 ^ Suc k"
    using len8tab_bounds by blast
  have "2 ^ l < (2 :: nat) ^ Suc k" "2 ^ k < (2 :: nat) ^ Suc l" using assms k(2,3) by linarith+
  then have "l = k" using power_less_imp_less_exp [of "2 :: nat" l "Suc k"] power_less_imp_less_exp [of "2 :: nat" k "Suc l"] by simp
  then show ?thesis using k by (simp add: Len64_len8tab)
qed

text \<open>Digits without their trailing zeros, which \<open>fmtF\<close> puts back.\<close>

definition strip0 :: "string \<Rightarrow> string" where
  "strip0 ds = rev (dropWhile (\<lambda>c. c = CHR ''0'') (rev ds))"

lemma strip0_fill: "strip0 ds @ replicate (length ds - length (strip0 ds)) (CHR ''0'') = ds" "length (strip0 ds) \<le> length ds"
proof -
  let ?P = "\<lambda>c. c = CHR ''0''"
  have t: "takeWhile ?P (rev ds) = replicate (length (takeWhile ?P (rev ds))) (CHR ''0'')"
    by (induction ds rule: rev_induct) auto
  have "rev ds = takeWhile ?P (rev ds) @ dropWhile ?P (rev ds)" by simp
  then have d: "ds = strip0 ds @ rev (takeWhile ?P (rev ds))" by (metis rev_append rev_rev_ident strip0_def)
  then have "length ds = length (strip0 ds) + length (takeWhile ?P (rev ds))" by (metis length_append length_rev)
  then show "strip0 ds @ replicate (length ds - length (strip0 ds)) (CHR ''0'') = ds" "length (strip0 ds) \<le> length ds"
    using d t by (metis add_diff_cancel_left' rev_replicate, linarith)
qed

text \<open>The tail of \<open>fixedFtoa\<close> for the doubled number \<open>2 n\<close> and the right number of digits.\<close>

lemma uint64pow10_nth:
  assumes "j \<le> 18"
  shows "go_nth uint64pow10 (int j) = Some (10 ^ j)" "unat (10 ^ j :: 64 word) = 10 ^ j" "unat (push_bit 1 (10 ^ j) :: 64 word) = 2 * 10 ^ j"
proof -
  have "(10 :: nat) ^ j \<le> 10 ^ 18" using assms by (intro power_increasing) simp_all
  then have lt: "(10 :: nat) ^ j < 2 ^ 63" by simp
  then show u: "unat (10 ^ j :: 64 word) = 10 ^ j"
    using unat_of_nat [of "10 ^ j", where 'a = 64] by (simp add: take_bit_eq_mod)
  have "push_bit 1 (10 ^ j :: 64 word) = 2 * 10 ^ j" by (simp add: push_bit_eq_mult)
  then show "unat (push_bit 1 (10 ^ j) :: 64 word) = 2 * 10 ^ j" using unat_mult_64 [of "10 ^ j" 2] u lt by (simp add: mult.commute)
  have "length uint64pow10 = 20" by (simp add: uint64pow10_def)
  moreover have "uint64pow10 ! j = 10 ^ j" using assms unfolding uint64pow10_def by (subst nth_map) simp_all
  ultimately show "go_nth uint64pow10 (int j) = Some (10 ^ j)" using assms by simp
qed

lemma even_rounds:
  fixes v w :: "64 word"
  assumes v: "unat v = 2 * n"
  shows "v AND w AND 1 = 0" "unat (drop_bit 1 v) = n"
proof -
  from v have "even (unat v)" by simp
  then have "even v" by transfer (simp add: even_nat_iff)
  then have "v AND 1 = 0" by (simp add: and_one_eq even_iff_mod_2_eq_zero [symmetric])
  then show "v AND w AND 1 = 0" by (simp add: and.left_commute [of v])
  show "unat (drop_bit 1 v) = n" using v by (simp add: unat_drop_bit_64)
qed

text \<open>What \<open>fixedFtoa\<close> does once \<open>dm\<close> holds \<open>2 n\<close>.\<close>

lemma fixed_tail:
  fixes dm w :: "64 word" and n d :: nat
  assumes dm: "unat dm = 2 * n" and n: "10 ^ d \<le> n" "n < 10 ^ Suc d" "Suc d \<le> 18"
  shows "drop_bit 1 (dm + (dm AND w AND 1)) \<noteq> 0" "drop_bit 1 (dm + (dm AND w AND 1)) \<noteq> drop_bit 1 (push_bit 1 (10 ^ Suc d))"
    "formatBase10 (unat (drop_bit 1 (dm + (dm AND w AND 1)))) [] = digits_of n" "length (digits_of n) = Suc d"
    "\<not> push_bit 1 (10 ^ Suc d) \<le> dm"
proof -
  have z: "dm AND w AND 1 = 0" by (rule even_rounds(1) [OF dm])
  have v: "unat (drop_bit 1 dm) = n" by (rule even_rounds(2) [OF dm])
  have p: "unat (push_bit 1 (10 ^ Suc d) :: 64 word) = 2 * 10 ^ Suc d" by (rule uint64pow10_nth(3) [OF n(3)])
  have q: "unat (drop_bit 1 (push_bit 1 (10 ^ Suc d) :: 64 word)) = 10 ^ Suc d" by (rule even_rounds(2) [OF p])
  have "0 < n" using n(1) by (metis gr0I le_zero_eq power_eq_0_iff zero_neq_numeral)
  then show "drop_bit 1 (dm + (dm AND w AND 1)) \<noteq> 0" unfolding z using v by (auto simp: word_unat_eq_iff)
  show "drop_bit 1 (dm + (dm AND w AND 1)) \<noteq> drop_bit 1 (push_bit 1 (10 ^ Suc d))"
    unfolding z word_unat_eq_iff q using v n(2) by simp
  show "formatBase10 (unat (drop_bit 1 (dm + (dm AND w AND 1)))) [] = digits_of n" unfolding z using v by (simp add: formatBase10_digits)
  show "length (digits_of n) = Suc d" by (rule digits_of_length_eq [OF n(1,2)])
  show "\<not> push_bit 1 (10 ^ Suc d) \<le> dm" using n(2) unfolding word_le_nat_alt p dm by simp
qed

lemma shift_out:
  fixes v :: "64 word"
  assumes "unat v = m * 2 ^ s"
  shows "v AND (push_bit s 1 - 1) = 0" "unat (drop_bit s v) = m"
proof -
  have "unat (take_bit s v) = 0" unfolding unat_take_bit_64 assms by simp
  then show "v AND (push_bit s 1 - 1) = 0"
    unfolding push_bit_of_1 by (simp only: mask_eq_exp_minus_1 [symmetric] take_bit_eq_mask [symmetric] word_unat_eq_iff unat_0)
  show "unat (drop_bit s v) = m" using assms by (simp add: unat_drop_bit_64)
qed

lemma scaled_product:
  assumes x: "unat X = x" "x < 2 ^ 53" and q: "x * 2 ^ 11 * c = q * 2 ^ 64" and c: "unat y = c" "q < 2 ^ 64"
  shows "\<exists>dm. umul192 (push_bit 11 X) (y, 0) = (dm, 0, 0) \<and> unat dm = q"
proof -
  have "unat (push_bit 11 X) = x * 2 ^ 11" using x by (simp add: push_bit_eq_mult unat_word_ariths)
  then have "unat (push_bit 11 X) * unat y = q * 2 ^ 64" using q c by simp
  from umul192_exact [OF this] show ?thesis using c(2) by (simp add: unat_of_nat take_bit_eq_mod)
qed

lemma fixedDigits_exact:
  assumes dm: "unat dm = 2 * n" and n: "10 ^ d \<le> n" "n < 10 ^ Suc d" "Suc d \<le> 18"
  shows "fixedDigits dm False (int (Suc d)) (int (Suc d)) 0 = Some (strip0 (digits_of n), int (length (digits_of n)))"
  using fixed_tail [OF assms] uint64pow10_nth(1) [OF n(3)]
  unfolding fixedDigits_def by (simp add: strip0_def del: power_Suc)

text \<open>One digit more was assumed.\<close>

lemma fixedDigits_over:
  assumes dm: "unat dm = 20 * n" and n: "10 ^ d \<le> n" "n < 10 ^ Suc d" "Suc (Suc d) \<le> 18"
  shows "fixedDigits dm False (int (Suc (Suc d))) (int (Suc d)) 0 = Some (strip0 (digits_of n), int (length (digits_of n)))"
proof -
  have ten: "unat (dm div 10) = 2 * n" "dm mod 10 = 0"
    using dm by (simp_all add: unat_div word_unat_eq_iff unat_mod)
  have n3: "Suc d \<le> 18" using n(3) by simp
  have over: "\<not> push_bit 1 (10 ^ Suc (Suc d)) \<le> dm"
    unfolding word_le_nat_alt uint64pow10_nth(3) [OF n(3)] dm using n(2) by simp
  have drop: "dropDigits (int (Suc d)) dm False (int (Suc (Suc d))) = (dm div 10, False, int (Suc d))"
    using ten(2) by (subst dropDigits.simps, subst dropDigits.simps) simp
  show ?thesis
    using fixed_tail [OF ten(1) n(1,2) n3] over drop uint64pow10_nth(1) [OF n(3)] uint64pow10_nth(1) [OF n3]
    unfolding fixedDigits_def by (simp add: strip0_def del: power_Suc)
qed

lemma fixedDigits_carry:
  assumes dm: "unat dm = 20 * n" and n: "10 ^ Suc d \<le> n" "n < 10 ^ Suc (Suc d)" "Suc (Suc d) \<le> 18"
  shows "fixedDigits dm False (int (Suc (Suc d))) (int (Suc d)) 0 = Some (strip0 (digits_of n), int (length (digits_of n)))"
proof -
  have ten: "unat (dm div 10) = 2 * n" "dm mod 10 = 0"
    using dm by (simp_all add: unat_div word_unat_eq_iff unat_mod)
  have over: "push_bit 1 (10 ^ Suc (Suc d)) \<le> dm"
    unfolding word_le_nat_alt uint64pow10_nth(3) [OF n(3)] dm using n(1) by simp
  show ?thesis
    using fixed_tail [OF ten(1) n] over ten(2) uint64pow10_nth(1) [OF n(3)]
    unfolding fixedDigits_def by (simp add: strip0_def del: power_Suc)
qed

text \<open>For an integer the power of ten is 1 or 10, so the product is exact.\<close>

lemma fixedFtoa_scaled:
  assumes X: "unat X = n * 2 ^ k" "2 ^ 52 \<le> unat X" "unat X < 2 ^ 53"
    and a: "mulLog10_2 (52 - int k) = digits - 1 - int j" "j \<le> 1" "digits \<le> 18"
  shows "\<exists>dm. unat dm = (if j = 0 then 2 * n else 20 * n) \<and> fixedFtoa X (- int k) digits 0 = fixedDigits dm False digits (digits - int j) 0"
proof -
  have L: "Len64 X = 53" using Len64_bits [of 52 X] X by simp
  have e: "63 + (- int k - 11) = 52 - int k" by simp
  show ?thesis
  proof (cases "j = 0")
    case True
    obtain dm where dm: "umul192 (push_bit 11 X) (0x8000000000000000, 0) = (dm, 0, 0)" "unat dm = unat X * 2 ^ 10"
      using scaled_product [OF refl X(3), of "2 ^ 63" "unat X * 2 ^ 10" "0x8000000000000000"] X(3) by auto
    have "unat dm = 2 * n * 2 ^ (k + 9)" unfolding dm(2) X(1) by (simp add: power_add)
    note sh = shift_out [OF this]
    have nat: "nat (9 + int k) = k + 9" by simp
    have "fixedFtoa X (- int k) digits 0 = fixedDigits (drop_bit (k + 9) dm) False digits digits 0"
      unfolding fixedFtoa_def Let_def L using a dm(1) sh(1) True
      by (simp add: pow10_small e nat del: push_bit_of_1)
    then show ?thesis using sh(2) True by auto
  next
    case False
    then have j: "j = 1" using a(2) by simp
    obtain dm where dm: "umul192 (push_bit 11 X) (0xA000000000000000, 0) = (dm, 0, 0)" "unat dm = unat X * (10 * 2 ^ 7)"
      using scaled_product [OF refl X(3), of "10 * 2 ^ 60" "unat X * (10 * 2 ^ 7)" "0xA000000000000000"] X(3) by auto
    have "unat dm = 20 * n * 2 ^ (k + 6)" unfolding dm(2) X(1) by (simp add: power_add)
    note sh = shift_out [OF this]
    have nat: "nat (6 + int k) = k + 6" by simp
    have "fixedFtoa X (- int k) digits 0 = fixedDigits (drop_bit (k + 6) dm) False digits (digits - 1) 0"
      unfolding fixedFtoa_def Let_def L using a dm(1) sh(1) j
      by (simp add: pow10_small e nat del: push_bit_of_1)
    then show ?thesis using sh(2) j by auto
  qed
qed

theorem fixedFtoa_integer:
  assumes X: "unat X = n * 2 ^ k" "2 ^ 52 \<le> unat X" "unat X < 2 ^ 53" "k \<le> 52"
  shows "fixedFtoa X (- int k) (1 + mulLog10_2 (53 - int k)) 0 = Some (strip0 (digits_of n), int (length (digits_of n)))"
    "mulLog10_2 (53 - int k) \<le> 15" "0 \<le> mulLog10_2 (53 - int k)"
proof -
  have k: "52 - int k = int (52 - k)" "53 - int k = int (53 - k)" using X(4) by simp_all
  have le52: "52 - k \<le> 53" by simp
  obtain b where b: "mulLog10_2 (52 - int k) = int b" "b \<le> 15" "10 ^ b \<le> (2 :: nat) ^ (52 - k)" "(2 :: nat) ^ (52 - k) < 10 ^ Suc b"
    using mulLog10_2_bounds [OF le52, folded k(1)] by metis
  obtain a where a: "mulLog10_2 (53 - int k) = int a" "a \<le> 15" "10 ^ a \<le> (2 :: nat) ^ (53 - k)" "(2 :: nat) ^ (53 - k) < 10 ^ Suc a"
    using mulLog10_2_bounds [OF diff_le_self, of k, folded k(2)] by metis
  then show "mulLog10_2 (53 - int k) \<le> 15" "0 \<le> mulLog10_2 (53 - int k)" by simp_all
  have step: "a = b \<or> a = Suc b"
  proof -
    have "52 - int k \<in> set [0..52]" using X(4) by simp
    moreover have "52 - int k + 1 = 53 - int k" by simp
    ultimately have "mulLog10_2 (53 - int k) = mulLog10_2 (52 - int k) \<or> mulLog10_2 (53 - int k) = mulLog10_2 (52 - int k) + 1"
      using mulLog10_2_table(2) by metis
    then show ?thesis unfolding a(1) b(1) by auto
  qed
  have p52: "(2 :: nat) ^ 52 = 2 ^ (52 - k) * 2 ^ k" and p53: "(2 :: nat) ^ 53 = 2 ^ (53 - k) * 2 ^ k"
    using X(4) power_add [of "2 :: nat" "52 - k" k] power_add [of "2 :: nat" "53 - k" k] by simp_all
  have "2 ^ (52 - k) * 2 ^ k \<le> n * 2 ^ k" using X(1,2) p52 by simp
  then have lo: "2 ^ (52 - k) \<le> n" by simp
  have "n * 2 ^ k < 2 ^ (53 - k) * 2 ^ k" using X(1,3) p53 by simp
  then have hi: "n < 2 ^ (53 - k)" by simp
  have nb: "10 ^ b \<le> n" "n < 10 ^ Suc a" using lo hi a(4) b(3) by linarith+
  show "fixedFtoa X (- int k) (1 + mulLog10_2 (53 - int k)) 0 = Some (strip0 (digits_of n), int (length (digits_of n)))"
  proof (cases "a = b")
    case True
    obtain dm where dm: "unat dm = 2 * n" "fixedFtoa X (- int k) (1 + int a) 0 = fixedDigits dm False (1 + int a) (1 + int a) 0"
      using fixedFtoa_scaled [OF X(1-3), of "1 + int a" 0] b(1) a(2) True by auto
    show ?thesis using fixedDigits_exact [OF dm(1), of a] nb a(2) True dm(2) by (simp add: a(1) del: power_Suc)
  next
    case False
    then have ab: "a = Suc b" using step by simp
    obtain dm where dm: "unat dm = 20 * n" "fixedFtoa X (- int k) (1 + int a) 0 = fixedDigits dm False (1 + int a) (int a) 0"
      using fixedFtoa_scaled [OF X(1-3), of "1 + int a" 1] b(1) a(2) ab by auto
    show ?thesis
    proof (cases "n < 10 ^ Suc b")
      case True
      then show ?thesis using fixedDigits_over [OF dm(1), of b] nb a(2) ab dm(2) by (simp add: a(1) del: power_Suc)
    next
      case False
      then show ?thesis using fixedDigits_carry [OF dm(1), of b] nb a(2) ab dm(2) by (simp add: a(1) del: power_Suc)
    qed
  qed
qed

section \<open>Integers as text\<close>

lemma fmtF_strip0: "ds \<noteq> [] \<Longrightarrow> fmtF False (strip0 ds, int (length ds)) 0 = ds"
  using strip0_fill [of ds] by (simp add: fmtF_def)

lemma genericFtoa_integer:
  assumes "n < 2 ^ 53"
  shows "genericFtoa (fnat n) 0 = Some (digits_of n)"
proof (cases "n = 0")
  case True
  have "genericFtoa 0 0 = Some ''0''" by (simp add: genericFtoa_def fmtF_def)
  moreover have "digits_of 0 = ''0''" by code_simp
  ultimately show ?thesis using True by simp
next
  case False
  then obtain k where k: "k \<le> 52" "2 ^ 52 \<le> n * 2 ^ k" "n * 2 ^ k < 2 ^ 53" using normal_shift [of n] assms by blast
  have y: "1074 - k \<le> 2045" by simp
  note fields = normal_fields [OF fnat_bits [OF k(3,2,1)] k(2,3) y]
  let ?v = "fnat n"
  let ?m = "?v AND 0xFFFFFFFFFFFFF OR top64"
  have sign: "drop_bit (expbits64 + mantbits64) ?v = 0" using fields(1) by (simp add: word_unat_eq_iff unat_drop_bit_64)
  have e: "uint (drop_bit 52 ?v AND 0x7FF) = 1075 - int k" using fields(2) k(1) by (simp add: of_nat_diff)
  have "unat ?m \<noteq> 0" using fields(3) False by simp
  then have ne: "?m \<noteq> 0" by (auto simp: word_unat_eq_iff)
  note fixed = fixedFtoa_integer [of ?m n k, unfolded fields(3), OF refl k(2,3,1)]
  show ?thesis
    using fixed fmtF_strip0 [OF digits_of_ne [of n]] k(1)
    unfolding genericFtoa_def Let_def sign e by (simp add: ne)
qed

theorem fmtFloat_integer:
  assumes "n < 2 ^ 53"
  shows "fmtFloat (fnat n) 0 = Some (digits_of n)"
proof -
  obtain c s where s: "digits_of n = c # s" using digits_of_ne by (cases "digits_of n") auto
  then have "is_digit c" using digits_of_digits [of n] by simp
  then have "c \<noteq> CHR ''-''" "c \<noteq> CHR ''+''" "c \<noteq> CHR ''I''" "c \<noteq> CHR ''N''" by (auto simp: is_digit_def)
  then show ?thesis using s unfolding fmtFloat_def genericFtoa_integer [OF assms] by simp
qed

section \<open>Reading them back\<close>

lemma hd_digits_of: "0 < n \<Longrightarrow> hd (digits_of n) \<noteq> CHR ''0''"
proof (induction n rule: digits_of.induct)
  case (1 n)
  have z: "digit_char d = CHR ''0'' \<Longrightarrow> d < 10 \<Longrightarrow> d = 0" for d
    using byte_digit_char [of d] by (auto simp del: byte_digit_char)
  show ?case
  proof (cases "10 \<le> n")
    case True
    then show ?thesis using 1 digits_of_ne [of "n div 10"] by (subst digits_of.simps) simp
  next
    case False
    then show ?thesis using z [of n] 1 by (subst digits_of.simps) auto
  qed
qed

lemma readMantissa_digits:
  assumes "\<forall>c \<in> set s. is_digit c" "msNd st \<noteq> 0 \<or> s = [] \<or> hd s \<noteq> CHR ''0''" "0 \<le> msNd st"
    "msNdMant st + length s \<le> 19" "msMant st = word_of_nat m"
  shows "readMantissa False st s = (st\<lparr>msDigits := msDigits st \<or> s \<noteq> [], msNd := msNd st + int (length s),
    msNdMant := msNdMant st + length s, msMant := word_of_nat (foldl (\<lambda>n c. 10 * n + (byte c - 48)) m s)\<rparr>, [])"
  using assms
proof (induction s arbitrary: st m)
  case (Cons c s)
  have c: "is_digit c" "c \<noteq> CHR ''_''" "c \<noteq> CHR ''.''" using Cons.prems(1) by (auto simp: is_digit_def)
  define st' where "st' = addDigit False (c \<noteq> CHR ''0'') (byte c - 48) (st\<lparr>msDigits := True\<rparr>)"
  have st': "st' = st\<lparr>msDigits := True, msNd := msNd st + 1, msNdMant := msNdMant st + 1,
      msMant := word_of_nat (10 * m + (byte c - 48))\<rparr>"
    using Cons.prems(4,5) by (simp add: st'_def addDigit_def maxMantDigits_def)
  have "readMantissa False st (c # s) = readMantissa False st' s"
    using c Cons.prems(2) by (auto simp: st'_def Let_def)
  moreover have "readMantissa False st' s = (st'\<lparr>msDigits := msDigits st' \<or> s \<noteq> [], msNd := msNd st' + int (length s),
    msNdMant := msNdMant st' + length s, msMant := word_of_nat (foldl (\<lambda>n c. 10 * n + (byte c - 48)) (10 * m + (byte c - 48)) s)\<rparr>, [])"
    by (rule Cons.IH) (use Cons.prems in \<open>auto simp: st'\<close>)
  ultimately show ?case unfolding st' by simp
qed simp

theorem ParseFloat_digits:
  assumes "n < 2 ^ 52"
  shows "ParseFloat (digits_of n) = Some (fnat n, None)"
proof (cases "n = 0")
  case True
  have "digits_of 0 = ''0''" "ParseFloat ''0'' = Some (0, None)" by code_simp+
  then show ?thesis using True by simp
next
  case False
  let ?s = "digits_of n"
  have d: "\<forall>c \<in> set ?s. is_digit c" by (rule digits_of_digits)
  have l: "length ?s \<le> 16" using assms by (intro digits_of_length) simp_all
  obtain c t where s: "?s = c # t" using digits_of_ne by (cases ?s) auto
  have c0: "c \<noteq> CHR ''0''" using hd_digits_of [of n] False s by simp
  have "is_digit c" using d s by simp
  then have c: "c \<noteq> CHR ''-''" "c \<noteq> CHR ''+''" "c \<noteq> CHR ''i''" "c \<noteq> CHR ''I''" "c \<noteq> CHR ''n''" "c \<noteq> CHR ''N''"
    by (auto simp: is_digit_def)
  have v: "foldl (\<lambda>n c. 10 * n + (byte c - 48)) 0 ?s = n"
    using digits_value_of [of n] by (simp add: digits_value_def)
  let ?st = "zeroScan\<lparr>msDigits := True, msNd := int (length ?s), msNdMant := length ?s, msMant := word_of_nat n\<rparr>"
  have r: "readMantissa False zeroScan ?s = (?st, [])"
    using readMantissa_digits [OF d, of zeroScan 0] c0 l s v by (simp add: zeroScan_def)
  have f: "readFloat ?s = (length ?s, Some \<lparr>fpMant = word_of_nat n, fpExp = 0, fpNeg = False, fpTrunc = False, fpHex = False\<rparr>)"
    using s c(1,2) c0 r unfolding readFloat_def by (simp add: zeroScan_def Let_def)
  have u: "unat (word_of_nat n :: 64 word) = n" using assms by (simp add: unat_of_nat take_bit_eq_mod)
  have "drop_bit 52 (word_of_nat n :: 64 word) = 0" using assms by (simp add: word_unat_eq_iff unat_drop_bit_64 u)
  then have "atof64exact (word_of_nat n) 0 False = Some (fnat n)" by (simp add: atof64exact_def)
  moreover have "special ?s = None" using s c by (simp add: special_def)
  ultimately show ?thesis using f by (simp add: ParseFloat_def atof64_def)
qed

end
