(* ===== verification/Go_Float64_Round.thy ===== *)
theory Go_Float64_Round
  imports Go_Float64_Int Go_Ftoa_Spec
begin

text \<open>
  Rounding. The finite floats are a grid of real numbers, and packing a mantissa with its trailing
  bits chooses the nearest point of the grid, the even one among two: \<open>fmul64\<close> and \<open>fdiv64\<close> are
  correctly rounded, and \<open>fadd64\<close> is where no cancellation reaches the subnormal numbers.
\<close>

section \<open>The grid\<close>

text \<open>
  The value of the magnitude \<open>n\<close>, as a multiple of the least positive float. The magnitudes from
  infinity on continue the grid with an unbounded exponent, so that a value rounds to infinity where
  it rounds to a point beyond the greatest float.
\<close>

definition mval :: "nat \<Rightarrow> nat" where
  "mval n = (if n < 2 ^ 52 then n else (2 ^ 52 + n mod 2 ^ 52) * 2 ^ (n div 2 ^ 52 - 1))"

definition f64_finite :: "f64 \<Rightarrow> bool" where
  "f64_finite f \<longleftrightarrow> f64_mag f < 2047 * 2 ^ 52"

text \<open>The real number of a finite float.\<close>

definition fval :: "f64 \<Rightarrow> real" where
  "fval f = (if bit f 63 then - 1 else 1) * real (mval (f64_mag f)) / 2 ^ 1074"

lemma mval_at:
  assumes "2 ^ 52 \<le> m \<or> k = 0" "m \<le> 2 ^ 53"
  shows "mval (k * 2 ^ 52 + m) = m * 2 ^ k"
proof -
  consider "m < 2 ^ 52" "k = 0" | "2 ^ 52 \<le> m" "m < 2 ^ 53" | "m = 2 ^ 53" using assms by linarith
  then show ?thesis
  proof cases
    case 1
    then show ?thesis by (simp add: mval_def)
  next
    case 2
    then have "k * 2 ^ 52 + m = (k + 1) * 2 ^ 52 + (m - 2 ^ 52)" "m - 2 ^ 52 < 2 ^ 52" by simp_all
    then have "(k * 2 ^ 52 + m) div 2 ^ 52 = k + 1" "(k * 2 ^ 52 + m) mod 2 ^ 52 = m - 2 ^ 52"
      by (simp_all only: div_mult_self3 div_less mod_mult_self3 mod_less)
    then show ?thesis using 2 by (simp add: mval_def)
  next
    case 3
    then have "k * 2 ^ 52 + m = (k + 2) * 2 ^ 52 + 0" "(0 :: nat) < 2 ^ 52" by simp_all
    then have "(k * 2 ^ 52 + m) div 2 ^ 52 = k + 2" "(k * 2 ^ 52 + m) mod 2 ^ 52 = 0"
      by (simp_all only: div_mult_self3 div_less mod_mult_self3 mod_less)
    then show ?thesis using 3 by (simp add: mval_def)
  qed
qed

lemma mag_cases:
  obtains k m where "n = k * 2 ^ 52 + m" "2 ^ 52 \<le> m \<or> k = 0" "m < (2 :: nat) ^ 53"
proof (cases "n < 2 ^ 52")
  case True
  then show thesis using that [of 0 n] by simp
next
  case False
  then obtain j where "n div 2 ^ 52 = Suc j" by (cases "n div 2 ^ 52") (auto simp: div_eq_0_iff)
  then have "n = Suc j * 2 ^ 52 + n mod 2 ^ 52" by (metis div_mult_mod_eq)
  then show thesis using that [of j "2 ^ 52 + n mod 2 ^ 52"] by simp
qed

lemma mval_Suc: "mval n < mval (Suc n)"
proof -
  obtain k m where "n = k * 2 ^ 52 + m" "2 ^ 52 \<le> m \<or> k = 0" "m < (2 :: nat) ^ 53" by (rule mag_cases)
  then show ?thesis using mval_at [of m k] mval_at [of "Suc m" k] by auto
qed

lemma mval_strict: "m < n \<Longrightarrow> mval m < mval n"
  using lift_Suc_mono_less [of mval, OF mval_Suc] .

lemma mval_mono: "m \<le> n \<Longrightarrow> mval m \<le> mval n"
  using mval_strict by (cases "m = n") (auto simp: le_less)

lemma mval_0 [simp]: "mval 0 = 0"
  by (simp add: mval_def)

section \<open>The nearest point\<close>

text \<open>The magnitude \<open>n\<close> is nearest to \<open>x\<close>, and even if another one is as near.\<close>

definition rounds :: "real \<Rightarrow> nat \<Rightarrow> bool" where
  "rounds x n \<longleftrightarrow>
     (\<forall>s. \<bar>real (mval n) - x\<bar> \<le> \<bar>real (mval s) - x\<bar> \<and>
        (s \<noteq> n \<longrightarrow> \<bar>real (mval n) - x\<bar> = \<bar>real (mval s) - x\<bar> \<longrightarrow> even n))"

lemma rounds_between:
  assumes "real (mval n) \<le> x" "x \<le> real (mval (Suc n))"
    and "r = (if 2 * x < real (mval n + mval (Suc n)) then n else if real (mval n + mval (Suc n)) < 2 * x then Suc n
              else if even n then n else Suc n)"
  shows "rounds x r"
proof -
  have s: "s = n \<or> s = Suc n \<or> real (mval s) < real (mval n) \<or> real (mval (Suc n)) < real (mval s)" for s
    using mval_strict [of s n] mval_strict [of "Suc n" s] by (cases "s < n"; cases "Suc n < s") auto
  have lt: "real (mval n) < real (mval (Suc n))" using mval_Suc by simp
  show ?thesis
    unfolding rounds_def
  proof (intro allI)
    fix q
    show "\<bar>real (mval r) - x\<bar> \<le> \<bar>real (mval q) - x\<bar> \<and>
        (q \<noteq> r \<longrightarrow> \<bar>real (mval r) - x\<bar> = \<bar>real (mval q) - x\<bar> \<longrightarrow> even r)"
      using assms s [of q] lt by (auto simp: abs_real_def split: if_splits)
  qed
qed

lemma rounds_exact: "rounds (real (mval n)) n"
  by (rule rounds_between [of n]) (use mval_Suc [of n] in auto)

section \<open>A mantissa with its trailing bits\<close>

text \<open>\<open>x\<close> has the mantissa \<open>m\<close> at the exponent \<open>e\<close>, exactly or, when bits were shifted out, up to the next one.\<close>

definition covers :: "real \<Rightarrow> f64 \<Rightarrow> int \<Rightarrow> f64 \<Rightarrow> bool" where
  "covers x m e t \<longleftrightarrow>
     (if t = 0 then x = real (unat m) * 2 powi (e + 1022)
      else real (unat m) * 2 powi (e + 1022) < x \<and> x < (real (unat m) + 1) * 2 powi (e + 1022))"

lemma covers_bounds:
  assumes "covers x m e t"
  shows "real (unat m) * 2 powi (e + 1022) \<le> x" "x < (real (unat m) + 1) * 2 powi (e + 1022)"
  using assms by (auto simp: covers_def mult_strict_right_mono split: if_splits)

lemma odd_unat: "odd (unat m) \<longleftrightarrow> m AND 1 \<noteq> (0 :: f64)"
proof -
  have "even (unat m) \<longleftrightarrow> even m" by transfer (simp add: even_nat_iff)
  then show ?thesis by (simp add: and_one_eq even_iff_mod_2_eq_zero)
qed

lemma covers_shift:
  assumes "covers x m e t"
  shows "covers x (drop_bit 1 m) (e + 1) (t OR (m AND 1))"
proof -
  have p: "(2 :: real) powi (e + 1 + 1022) = 2 * 2 powi (e + 1022)" using power_int_add_1' [of "2 :: real" "e + 1022"] by (simp add: ac_simps)
  have pos: "0 < (2 :: real) powi (e + 1022)" by simp
  have or0: "t OR (m AND 1) = 0 \<longleftrightarrow> t = 0 \<and> even (unat m)" using odd_unat [of m] by (simp add: or_eq_0_iff)
  define h where "h = unat m div 2"
  have d: "unat (drop_bit 1 m) = h" by (simp add: unat_drop_bit_64 h_def)
  show ?thesis
  proof (cases "even (unat m)")
    case True
    then have "unat m = 2 * h" by (simp add: h_def)
    then show ?thesis using assms True pos unfolding covers_def or0 d p by (auto simp: algebra_simps)
  next
    case False
    then have "unat m = 2 * h + 1" by (simp add: h_def)
    then show ?thesis using assms False pos unfolding covers_def or0 d p by (auto simp: algebra_simps split: if_splits)
  qed
qed

lemma norm_down_covers:
  assumes "norm_down m e t = (m', e', t')" "covers x m e t"
  shows "covers x m' e' t' \<and> unat m' < 2 ^ 54 \<and> (if unat m < 2 ^ 54 then m' = m \<and> e' = e \<and> t' = t else 2 ^ 53 \<le> unat m')"
  using assms
proof (induction m e t rule: norm_down.induct)
  case (1 m e t)
  show ?case
  proof (cases "4 * top64 \<le> m")
    case True
    then have big: "2 ^ 54 \<le> unat m" by (simp add: word_le_nat_alt)
    then have d: "2 ^ 53 \<le> unat (drop_bit 1 m)" by (simp add: unat_drop_bit_64)
    have "norm_down (drop_bit 1 m) (e + 1) (t OR (m AND 1)) = (m', e', t')"
      using "1.prems"(1) True by (subst (asm) norm_down.simps) simp
    from "1.IH" [OF True this covers_shift [OF "1.prems"(2)]] big d show ?thesis by (auto split: if_splits)
  next
    case False
    then have "unat m < 2 ^ 54" by (simp add: word_le_nat_alt)
    then show ?thesis using "1.prems" False by (subst (asm) norm_down.simps) simp
  qed
qed

lemma denorm_covers:
  assumes "denorm m e t = (m', e', t')" "covers x m e t" "e \<le> - 1023"
  shows "covers x m' e' t' \<and> e' = - 1023"
  using assms
proof (induction m e t rule: denorm.induct)
  case (1 m e t)
  show ?case
  proof (cases "e < bias64")
    case True
    then have "denorm (drop_bit 1 m) (e + 1) (t OR (m AND 1)) = (m', e', t')"
      using "1.prems"(1) by (subst (asm) denorm.simps) simp
    from "1.IH" [OF True this covers_shift [OF "1.prems"(2)]] True show ?thesis by auto
  next
    case False
    then show ?thesis using "1.prems" by (subst (asm) denorm.simps) simp
  qed
qed

text \<open>The rounding of the packing: one bit more than a mantissa is halved to the nearest even value.\<close>

definition halved :: "f64 \<Rightarrow> f64 \<Rightarrow> f64" where
  "halved m t = drop_bit 1 (if m AND 1 \<noteq> 0 \<and> (t \<noteq> 0 \<or> m AND 2 \<noteq> 0) then m + 1 else m)"

lemma unat_halved:
  assumes "unat m < 2 ^ 54"
  shows "unat (halved m t) = unat m div 2 + of_bool (odd (unat m) \<and> (t \<noteq> 0 \<or> odd (unat m div 2)))"
proof -
  have two: "m AND 2 \<noteq> 0 \<longleftrightarrow> odd (unat m div 2)"
  proof -
    have "m AND 2 \<noteq> 0 \<longleftrightarrow> bit m 1" using and_exp_eq_0_iff_not_bit [of m 1] by simp
    also have "\<dots> \<longleftrightarrow> bit (unat m) 1" by (simp add: bit_unsigned_iff)
    finally show ?thesis by (simp add: bit_iff_odd)
  qed
  have "unat (m + 1) = unat m + 1" using assms by (simp add: unat_word_ariths)
  then show ?thesis unfolding halved_def two odd_unat [symmetric] by (auto simp: unat_drop_bit_64)
qed

lemma covers_rounds:
  assumes "covers x m (int k - 1023) t" and h: "h = unat m div 2" "2 ^ 52 \<le> h \<or> k = 0" "h < 2 ^ 53"
  shows "rounds x (k * 2 ^ 52 + unat (halved m t))"
proof -
  define u where "u = (2 :: real) ^ k"
  have u: "0 < u" by (simp add: u_def)
  have p: "(2 :: real) powi (int k - 1023 + 1022) = u / 2"
    using power_int_diff [of "2 :: real" "int k" 1] by (simp add: u_def)
  have m: "unat m = 2 * h + of_bool (odd (unat m))" by (simp add: h(1))
  have "unat m < 2 ^ 54" using h by simp
  note hv = unat_halved [OF this, of t]
  have lo: "mval (k * 2 ^ 52 + h) = h * 2 ^ k" using h by (intro mval_at) auto
  have hi: "mval (Suc (k * 2 ^ 52 + h)) = Suc h * 2 ^ k" using mval_at [of "Suc h" k] h by auto
  have par: "even (k * 2 ^ 52 + h) \<longleftrightarrow> even h" by simp
  note c = assms(1) [unfolded covers_def p]
  show ?thesis
  proof (cases "odd (unat m)")
    case True
    then have m: "unat m = 2 * h + 1" using m by simp
    have x: "if t = 0 then 2 * x = (2 * real h + 1) * u else (2 * real h + 1) * u < 2 * x \<and> x < (real h + 1) * u"
      using c unfolding m by (auto simp: algebra_simps split: if_splits)
    show ?thesis
    proof (rule rounds_between [of "k * 2 ^ 52 + h"])
      show "real (mval (k * 2 ^ 52 + h)) \<le> x" "x \<le> real (mval (Suc (k * 2 ^ 52 + h)))"
        unfolding lo hi using x u by (auto simp: u_def [symmetric] algebra_simps split: if_splits)
      show "k * 2 ^ 52 + unat (halved m t) =
        (if 2 * x < real (mval (k * 2 ^ 52 + h) + mval (Suc (k * 2 ^ 52 + h))) then k * 2 ^ 52 + h
         else if real (mval (k * 2 ^ 52 + h) + mval (Suc (k * 2 ^ 52 + h))) < 2 * x then Suc (k * 2 ^ 52 + h)
         else if even (k * 2 ^ 52 + h) then k * 2 ^ 52 + h else Suc (k * 2 ^ 52 + h))"
        unfolding lo hi par hv h(1) [symmetric] using x True by (auto simp: u_def [symmetric] algebra_simps split: if_splits)
    qed
  next
    case False
    then have m: "unat m = 2 * h" using m by simp
    have x: "real h * u \<le> x" "2 * x < (2 * real h + 1) * u"
      using c u unfolding m by (auto simp: algebra_simps split: if_splits)
    show ?thesis
    proof (rule rounds_between [of "k * 2 ^ 52 + h"])
      show "real (mval (k * 2 ^ 52 + h)) \<le> x" "x \<le> real (mval (Suc (k * 2 ^ 52 + h)))"
        unfolding lo hi using x u by (auto simp: u_def [symmetric] algebra_simps)
      show "k * 2 ^ 52 + unat (halved m t) =
        (if 2 * x < real (mval (k * 2 ^ 52 + h) + mval (Suc (k * 2 ^ 52 + h))) then k * 2 ^ 52 + h
         else if real (mval (k * 2 ^ 52 + h) + mval (Suc (k * 2 ^ 52 + h))) < 2 * x then Suc (k * 2 ^ 52 + h)
         else if even (k * 2 ^ 52 + h) then k * 2 ^ 52 + h else Suc (k * 2 ^ 52 + h))"
        unfolding lo hi hv h(1) [symmetric] using x False by (auto simp: u_def [symmetric] algebra_simps)
    qed
  qed
qed

section \<open>Packing\<close>

definition packed :: "f64 \<Rightarrow> f64 \<Rightarrow> int \<Rightarrow> f64" where
  "packed s m e = s OR push_bit 52 (word_of_int (e + 1023)) OR (m AND 0xFFFFFFFFFFFFF)"

text \<open>The first rounding, and what packing does with its result.\<close>

definition rounded_up :: "f64 \<Rightarrow> int \<Rightarrow> f64 \<Rightarrow> f64 \<times> int" where
  "rounded_up mant e trunc =
     (if 2 * top64 \<le> mant then
        let (mant, e) =
          (if mant AND 1 \<noteq> 0 \<and> (trunc \<noteq> 0 \<or> mant AND 2 \<noteq> 0) then
             (if 4 * top64 \<le> mant + 1 then (drop_bit 1 (mant + 1), e + 1) else (mant + 1, e))
           else (mant, e))
        in (drop_bit 1 mant, e + 1)
      else (mant, e))"

definition denormal :: "f64 \<Rightarrow> f64 \<Rightarrow> int \<Rightarrow> f64 \<Rightarrow> f64" where
  "denormal s m0 e0 t0 =
     (let (m, e, t) = denorm m0 e0 t0; m = halved m t
      in if m < top64 then s OR m else packed s m (e + 1))"

lemma fpack64_split:
  assumes "m0 \<noteq> 0" "norm_up m0 e0 = (m1, e1)" "norm_down m1 e1 t0 = (m2, e2, t2)" "rounded_up m2 e2 t2 = (m, e)"
  shows "fpack64 s m0 e0 t0 =
    (if 1024 \<le> e then s XOR inf64
     else if e < - 1022 then (if e < - 1075 then s OR 0 else denormal s m0 e0 t0) else packed s m e)"
proof -
  have r: "(if 2 * top64 \<le> m2 then
        let (mant, e) =
          (if m2 AND 1 \<noteq> 0 \<and> (t2 \<noteq> 0 \<or> m2 AND 2 \<noteq> 0) then
             (if 4 * top64 \<le> m2 + 1 then (drop_bit 1 (m2 + 1), e2 + 1) else (m2 + 1, e2))
           else (m2, e2))
        in (drop_bit 1 mant, e + 1)
      else (m2, e2)) = (m, e)" using assms(4) unfolding rounded_up_def .
  have n: "2047 + - 1023 = (1024 :: int)" "- 1023 + 1 = (- 1022 :: int)" "- 1023 - int 52 = - 1075" by simp_all
  show ?thesis
    unfolding fpack64_def assms(2) prod.case Let_def assms(3)
    using assms(1) r
    by (simp only: if_False Let_def prod.case) (simp only: denormal_def packed_def halved_def Let_def diff_minus_eq_add n)
qed

lemma rounded_up_parts:
  assumes "2 ^ 52 \<le> unat m2" "unat m2 < 2 ^ 54" "rounded_up m2 e2 t2 = (m, e)"
  shows "2 ^ 52 \<le> unat m" "unat m < 2 ^ 53"
    "if unat m2 < 2 ^ 53 then m = m2 \<and> e = e2 else (e2 + 1) * 2 ^ 52 + int (unat (halved m2 t2)) = e * 2 ^ 52 + int (unat m) \<and> e2 < e"
proof -
  define up where "up = (m2 AND 1 \<noteq> 0 \<and> (t2 \<noteq> 0 \<or> m2 AND 2 \<noteq> 0))"
  have suc: "unat (m2 + 1) = unat m2 + 1" using assms(2) by (simp add: unat_word_ariths)
  have h: "unat (halved m2 t2) = (unat m2 + of_bool up) div 2"
    unfolding halved_def up_def [symmetric] by (simp add: unat_drop_bit_64 suc)
  have r: "(m, e) = (if unat m2 < 2 ^ 53 then (m2, e2)
      else if up then if unat m2 + 1 = 2 ^ 54 then (drop_bit 1 (drop_bit 1 (m2 + 1)), e2 + 2) else (drop_bit 1 (m2 + 1), e2 + 1)
      else (drop_bit 1 m2, e2 + 1))"
  proof -
    have "2 * top64 \<le> m2 \<longleftrightarrow> \<not> unat m2 < 2 ^ 53" by (simp add: word_le_nat_alt not_less)
    moreover have "4 * top64 \<le> m2 + 1 \<longleftrightarrow> unat m2 + 1 = 2 ^ 54" using suc assms(2) by (simp add: word_le_nat_alt) linarith
    ultimately show ?thesis using assms(3) unfolding rounded_up_def up_def [symmetric] Let_def by (auto split: if_splits)
  qed
  have n: "unat m = (if unat m2 < 2 ^ 53 then unat m2 else if up then if unat m2 + 1 = 2 ^ 54 then 2 ^ 52 else (unat m2 + 1) div 2
      else unat m2 div 2)"
    "e = (if unat m2 < 2 ^ 53 then e2 else if up \<and> unat m2 + 1 = 2 ^ 54 then e2 + 2 else e2 + 1)"
    "unat m2 < 2 ^ 53 \<longrightarrow> m = m2"
    using r by (simp_all add: unat_drop_bit_64 suc split: if_splits)
  show "2 ^ 52 \<le> unat m" "unat m < 2 ^ 53"
    unfolding n(1) using assms(1,2) by (auto split: if_splits)
  have "(e2 + 1) * 2 ^ 52 + int (unat (halved m2 t2)) = e * 2 ^ 52 + int (unat m) \<and> e2 < e" if "\<not> unat m2 < 2 ^ 53"
    unfolding n(1,2) h using that by (cases up; cases "unat m2 + 1 = 2 ^ 54") simp_all
  then show "if unat m2 < 2 ^ 53 then m = m2 \<and> e = e2
      else (e2 + 1) * 2 ^ 52 + int (unat (halved m2 t2)) = e * 2 ^ 52 + int (unat m) \<and> e2 < e"
    using n(2,3) by simp
qed

text \<open>The sign bit is set beside the magnitude.\<close>

lemma signed_bits:
  assumes "s = 0 \<or> s = neg64" "unat w < 2 ^ 63"
  shows "f64_mag (s OR w) = unat w" "bit (s OR w) 63 \<longleftrightarrow> s \<noteq> 0"
proof -
  have w: "\<not> bit w 63" using assms(2) by (simp add: bit_63_iff)
  have n: "bit neg64 63" by (simp add: bit_63_iff)
  show b: "bit (s OR w) 63 \<longleftrightarrow> s \<noteq> 0" using assms(1) w n by (auto simp: bit_or_iff)
  show "f64_mag (s OR w) = unat w"
  proof (cases "s = 0")
    case True
    then show ?thesis using assms(2) by (simp add: f64_mag_def)
  next
    case False
    then have s: "s = 2 ^ 63" using assms(1) by simp
    have "w AND 2 ^ 63 = 0" using w and_exp_eq_0_iff_not_bit [of w 63] by blast
    then have "2 ^ 63 AND w = 0" by (metis and.commute)
    then have "2 ^ 63 OR w = 2 ^ 63 + w" by (simp only: disjunctive_add_eq_or)
    then have "unat (s OR w) = 2 ^ 63 + unat w" using assms(2) by (simp only: s unat_word_ariths) simp
    then show ?thesis using assms(2) by (simp add: f64_mag_def)
  qed
qed

lemma packed_bits:
  assumes "s = 0 \<or> s = neg64" "2 ^ 52 \<le> unat m" "unat m < 2 ^ 53" "- 1022 \<le> e" "e \<le> 1023"
  shows "f64_mag (packed s m e) = nat (e + 1022) * 2 ^ 52 + unat m" "bit (packed s m e) 63 \<longleftrightarrow> s \<noteq> 0"
proof -
  have "nat (e + 1023) = Suc (nat (e + 1022))" using assms(4) by simp
  then have u: "unat (push_bit 52 (word_of_int (e + 1023)) OR (m AND 0xFFFFFFFFFFFFF)) = nat (e + 1022) * 2 ^ 52 + unat m"
    using unat_pack [of m "e + 1023"] assms(2-5) by simp
  have "nat (e + 1022) \<le> 2045" using assms(5) by simp
  then have "nat (e + 1022) * 2 ^ 52 \<le> 2045 * 2 ^ 52" by (intro mult_right_mono) simp_all
  then have "nat (e + 1022) * 2 ^ 52 + unat m < 2 ^ 63" using assms(3) by simp
  then show "f64_mag (packed s m e) = nat (e + 1022) * 2 ^ 52 + unat m" "bit (packed s m e) 63 \<longleftrightarrow> s \<noteq> 0"
    using signed_bits [OF assms(1), of "push_bit 52 (word_of_int (e + 1023)) OR (m AND 0xFFFFFFFFFFFFF)"] u
    by (simp_all only: packed_def or.assoc)
qed

lemma signed_inf:
  assumes "s = 0 \<or> s = neg64"
  shows "f64_mag (s XOR inf64) = 2047 * 2 ^ 52" "bit (s XOR inf64) 63 \<longleftrightarrow> s \<noteq> 0"
  using assms by (auto simp: inf64_def f64_mag_def bit_63_iff)

lemma powi_plus: "(2 :: real) powi a * 2 powi b = 2 powi (a + b)"
  by (simp add: power_int_add)

lemma powi_bound:
  assumes "e \<le> f"
  shows "(2 :: real) powi e \<le> 2 powi f"
  using assms by (rule power_int_increasing) simp

text \<open>Packing rounds to the nearest float, unless bits of an inexact mantissa are missing.\<close>

lemma normal_rounds:
  assumes c: "covers x m2 e2 t2" and m2: "2 ^ 52 \<le> unat m2" "unat m2 < 2 ^ 54" "unat m2 < 2 ^ 53 \<longrightarrow> t2 = 0"
    and r: "rounded_up m2 e2 t2 = (m, e)" and e: "- 1022 \<le> e"
  shows "rounds x (nat (e + 1022) * 2 ^ 52 + unat m)"
proof (cases "unat m2 < 2 ^ 53")
  case True
  then have m: "m = m2" "e = e2" "t2 = 0" using rounded_up_parts [OF m2(1,2) r] m2(3) by auto
  have "mval (nat (e + 1022) * 2 ^ 52 + unat m) = unat m * 2 ^ nat (e + 1022)"
    using True m m2(1) by (intro mval_at) auto
  then have "x = real (mval (nat (e + 1022) * 2 ^ 52 + unat m))"
    using c e m by (simp add: covers_def power_int_def)
  then show ?thesis by (simp only: rounds_exact)
next
  case False
  then have eq: "(e2 + 1) * 2 ^ 52 + int (unat (halved m2 t2)) = e * 2 ^ 52 + int (unat m)" and m: "2 ^ 52 \<le> unat m" "unat m < 2 ^ 53" "e2 < e"
    using rounded_up_parts [OF m2(1,2) r] by auto
  note hv = unat_halved [OF m2(2), of t2]
  show ?thesis
  proof (cases "- 1023 \<le> e2")
    case True
    define k where "k = nat (e2 + 1023)"
    have k: "int k - 1023 = e2" using True by (simp add: k_def)
    have "int (k * 2 ^ 52 + unat (halved m2 t2)) = int (nat (e + 1022) * 2 ^ 52 + unat m)"
      using eq k e by simp
    then have "nat (e + 1022) * 2 ^ 52 + unat m = k * 2 ^ 52 + unat (halved m2 t2)" by (simp only: of_nat_eq_iff)
    moreover have "rounds x (k * 2 ^ 52 + unat (halved m2 t2))"
      using c False m2 by (intro covers_rounds [OF _ refl]) (auto simp: k)
    ultimately show ?thesis by simp
  next
    case small: False
    have h: "unat (halved m2 t2) \<le> 2 ^ 53" using hv m2(2) by (auto simp: of_bool_def)
    have "e = - 1022 \<and> e2 = - 1024 \<and> b = 2 ^ 52 \<and> a = 2 ^ 53"
      if "(e2 + 1) * 2 ^ 52 + int a = e * 2 ^ 52 + int b" "a \<le> 2 ^ 53" "2 ^ 52 \<le> b" for a b :: nat
      using that small e by auto
    from this [OF eq h m(1)] have v: "e = - 1022" "e2 = - 1024" "unat m = 2 ^ 52" "unat (halved m2 t2) = 2 ^ 53" by auto
    then have "odd (unat m2) \<and> unat m2 div 2 = 2 ^ 53 - 1" using hv m2(2) by (auto simp: of_bool_def split: if_splits)
    then have "unat m2 = 2 * (2 ^ 53 - 1) + 1" by (metis odd_two_times_div_two_succ)
    then have "unat m2 = 2 ^ 54 - 1" by simp
    then have x: "(2 ^ 54 - 1) / 4 \<le> x" "x < 2 ^ 54 / 4" using covers_bounds [OF c] v(2) by (simp_all add: power_int_def power2_eq_square)
    have "rounds x (2 ^ 52)"
    proof (rule rounds_between [of "2 ^ 52 - 1"])
      show "real (mval (2 ^ 52 - 1)) \<le> x" "x \<le> real (mval (Suc (2 ^ 52 - 1)))" using x by (simp_all add: mval_def)
      show "2 ^ 52 = (if 2 * x < real (mval (2 ^ 52 - 1) + mval (Suc (2 ^ 52 - 1))) then 2 ^ 52 - 1
          else if real (mval (2 ^ 52 - 1) + mval (Suc (2 ^ 52 - 1))) < 2 * x then Suc (2 ^ 52 - 1)
          else if even (2 ^ 52 - (1 :: nat)) then 2 ^ 52 - 1 else Suc (2 ^ 52 - 1))"
        using x by (simp add: mval_def)
    qed
    then show ?thesis using v by simp
  qed
qed

lemma unat_bound:
  assumes "unat m < 2 ^ n"
  shows "real (unat m) + 1 \<le> 2 ^ n"
proof -
  have "real (unat m + 1) \<le> real (2 ^ n)" unfolding of_nat_le_iff using assms by linarith
  then show ?thesis by (simp only: of_nat_add of_nat_1 of_nat_power of_nat_numeral)
qed

lemma fpack64_rounds:
  assumes "m0 \<noteq> 0" "covers x m0 e0 t0" "t0 \<noteq> 0 \<longrightarrow> 2 ^ 53 \<le> unat m0" "e0 \<le> - 1023 \<or> 2 ^ 52 \<le> x" "s = 0 \<or> s = neg64"
  obtains r where "rounds x r" "f64_mag (fpack64 s m0 e0 t0) = min r (2047 * 2 ^ 52)" "bit (fpack64 s m0 e0 t0) 63 \<longleftrightarrow> s \<noteq> 0"
proof -
  obtain m1 e1 where u: "norm_up m0 e0 = (m1, e1)" by fastforce
  obtain m2 e2 t2 where d: "norm_down m1 e1 t0 = (m2, e2, t2)" by (metis prod_cases3)
  obtain m e where r: "rounded_up m2 e2 t2 = (m, e)" by fastforce
  note f = fpack64_split [OF assms(1) u d r, of s]
  have c1: "covers x m1 e1 t0 \<and> 2 ^ 52 \<le> unat m1 \<and> (unat m1 < 2 ^ 53 \<longrightarrow> t0 = 0)"
  proof (cases "unat m0 < 2 ^ 53")
    case True
    then have t: "t0 = 0" using assms(3) by auto
    obtain k where k: "unat m1 = unat m0 * 2 ^ k" "e1 = e0 - int k" "2 ^ 52 \<le> unat m1" using norm_up_spec [OF u assms(1) True] by blast
    have "(2 :: real) powi (e0 + 1022) = 2 powi (int k + (e1 + 1022))" by (simp add: k(2))
    also have "\<dots> = 2 ^ k * 2 powi (e1 + 1022)" by (subst power_int_add) simp_all
    finally show ?thesis using assms(2) t k by (simp add: covers_def)
  next
    case False
    then have "m1 = m0 \<and> e1 = e0" using u by (subst (asm) norm_up.simps) (simp add: word_less_nat_alt)
    then show ?thesis using False assms(2,3) by simp
  qed
  then have "covers x m2 e2 t2 \<and> unat m2 < 2 ^ 54 \<and> (if unat m1 < 2 ^ 54 then m2 = m1 \<and> e2 = e1 \<and> t2 = t0 else 2 ^ 53 \<le> unat m2)"
    using norm_down_covers [OF d] by blast
  then have c2: "covers x m2 e2 t2" "2 ^ 52 \<le> unat m2" "unat m2 < 2 ^ 54" "unat m2 < 2 ^ 53 \<longrightarrow> t2 = 0"
    using c1 by (auto split: if_splits)
  note p = rounded_up_parts [OF c2(2,3) r]
  show thesis
  proof (cases "- 1022 \<le> e")
    case True
    note n = normal_rounds [OF c2 r True]
    show thesis
    proof (cases "1024 \<le> e")
      case inf: True
      then have "2046 * 2 ^ 52 \<le> nat (e + 1022) * 2 ^ 52" by (intro mult_right_mono) simp_all
      then have "2047 * 2 ^ 52 \<le> nat (e + 1022) * 2 ^ 52 + unat m" using p(1) by linarith
      then show thesis using that [OF n] signed_inf [OF assms(5)] inf f by (simp add: min_def)
    next
      case False
      then have "nat (e + 1022) * 2 ^ 52 \<le> 2045 * 2 ^ 52" by (intro mult_right_mono) simp_all
      then have "nat (e + 1022) * 2 ^ 52 + unat m < 2047 * 2 ^ 52" using p(2) by simp
      then show thesis using that [OF n] packed_bits [OF assms(5) p(1,2) True] False True f by (simp add: min_def)
    qed
  next
    case False
    have x: "x < 2 ^ 53 * 2 powi (e + 1022)"
    proof (cases "unat m2 < 2 ^ 53")
      case True
      have "x < (real (unat m2) + 1) * 2 powi (e2 + 1022)" by (rule covers_bounds [OF c2(1)])
      also have "\<dots> \<le> 2 ^ 53 * 2 powi (e2 + 1022)" using unat_bound [OF True] by (rule mult_right_mono) simp
      finally show ?thesis using p(3) True by simp
    next
      case big: False
      have "x < (real (unat m2) + 1) * 2 powi (e2 + 1022)" by (rule covers_bounds [OF c2(1)])
      also have "\<dots> \<le> 2 ^ 54 * 2 powi (e2 + 1022)" using unat_bound [OF c2(3)] by (rule mult_right_mono) simp
      also have "\<dots> = 2 ^ 53 * 2 powi (e2 + 1 + 1022)" using power_int_add_1' [of "2 :: real" "e2 + 1022"] by (simp add: ac_simps)
      also have "\<dots> \<le> 2 ^ 53 * 2 powi (e + 1022)" using p(3) big by (intro mult_left_mono powi_bound) auto
      finally show ?thesis .
    qed
    have zero: "0 \<le> x" using covers_bounds(1) [OF c2(1)] by (meson mult_nonneg_nonneg of_nat_0_le_iff order_trans zero_le_numeral zero_le_power_int)
    have "(2 :: real) powi (e + 1022) \<le> 2 powi (- 1)" using False by (intro powi_bound) simp
    then have x52: "x < 2 ^ 52" using x by simp
    then have e0: "e0 \<le> - 1023" using assms(4) by simp
    show thesis
    proof (cases "e < - 1075")
      case True
      then have "(2 :: real) powi (e + 1022) \<le> 2 powi (- 54)" by (intro powi_bound) simp
      then have "2 * x < 1" using x by simp
      then have "rounds x 0" using zero by (intro rounds_between [of 0]) (simp_all add: mval_def)
      moreover have "f64_mag s = 0" "bit s 63 \<longleftrightarrow> s \<noteq> 0" using signed_bits [OF assms(5), of 0] by simp_all
      ultimately show thesis using that [of 0] True False f by simp
    next
      case deep: False
      obtain m' e' t' where dn: "denorm m0 e0 t0 = (m', e', t')" by (metis prod_cases3)
      have c: "covers x m' (int 0 - 1023) t'" and e': "e' = - 1023" using denorm_covers [OF dn assms(2) e0] by auto
      have "real (unat m') * 2 powi (- 1) \<le> x" using covers_bounds(1) [OF c] by simp
      then have "real (unat m') < 2 ^ 53" using x52 by simp
      then have "real (unat m') < real (2 ^ 53)" by (simp only: of_nat_power of_nat_numeral)
      then have m': "unat m' < 2 ^ 53" by (simp only: of_nat_less_iff)
      have h: "unat (halved m' t') \<le> 2 ^ 52" using unat_halved [of m' t'] m' by (auto simp: of_bool_def)
      have "rounds x (0 * 2 ^ 52 + unat (halved m' t'))" by (rule covers_rounds [OF c refl]) (use m' in auto)
      then have n: "rounds x (unat (halved m' t'))" by simp
      have "f64_mag (denormal s m0 e0 t0) = unat (halved m' t') \<and> (bit (denormal s m0 e0 t0) 63 \<longleftrightarrow> s \<noteq> 0)"
      proof (cases "halved m' t' < top64")
        case True
        then show ?thesis using signed_bits [OF assms(5), of "halved m' t'"] h by (simp add: denormal_def dn)
      next
        case False
        then have "unat (halved m' t') = 2 ^ 52" using h by (simp add: word_less_nat_alt)
        then show ?thesis using packed_bits [OF assms(5), of "halved m' t'" "- 1022"] False by (simp add: denormal_def dn e')
      qed
      then show thesis using that [OF n] f deep False h by (simp add: min_def)
    qed
  qed
qed

section \<open>Correct rounding\<close>

text \<open>
  The specification of IEEE 754 for the mode "to nearest, ties to even": a value whose magnitude
  reaches half a step beyond the greatest float becomes an infinity, every other one the nearest
  finite float, the even one of two; and the sign is the one of the value.
\<close>

definition overflow64 :: real where "overflow64 = (2 ^ 54 - 1) * 2 ^ 970"

definition nearest_float :: "real \<Rightarrow> f64 \<Rightarrow> bool" where
  "nearest_float x f \<longleftrightarrow>
     \<not> f64_nan f \<and> (x < 0 \<longrightarrow> bit f 63) \<and> (0 < x \<longrightarrow> \<not> bit f 63) \<and>
     (if \<bar>x\<bar> < overflow64
      then f64_finite f \<and>
        (\<forall>g. f64_finite g \<longrightarrow> \<bar>fval f - x\<bar> \<le> \<bar>fval g - x\<bar> \<and>
           (fval g \<noteq> fval f \<longrightarrow> \<bar>fval f - x\<bar> = \<bar>fval g - x\<bar> \<longrightarrow> even (unat f)))
      else \<not> f64_finite f)"

lemma rounds_overflow:
  assumes "rounds X r"
  shows "r < 2047 * 2 ^ 52 \<longleftrightarrow> X < (2 ^ 54 - 1) * 2 ^ 2044"
proof -
  let ?N = "2047 * 2 ^ 52 :: nat"
  have N: "mval ?N = 2 ^ 54 * 2 ^ 2044" "mval (?N - 1) = (2 ^ 54 - 2) * 2 ^ 2044" "odd (?N - 1)"
  proof -
    have n: "?N = 2046 * 2 ^ 52 + 2 ^ 52" by simp
    have "mval ?N = 2 ^ 52 * 2 ^ 2046" unfolding n by (rule mval_at) simp_all
    also have "(2 :: nat) ^ 2046 = 2 ^ 2 * 2 ^ 2044" by (simp only: flip: power_add) simp
    finally show "mval ?N = 2 ^ 54 * 2 ^ 2044" by simp
    have n: "?N - 1 = 2045 * 2 ^ 52 + (2 ^ 53 - 1)" by simp
    have "mval (?N - 1) = (2 ^ 53 - 1) * 2 ^ 2045" unfolding n by (rule mval_at) simp_all
    also have "(2 :: nat) ^ 2045 = 2 * 2 ^ 2044" by (simp only: flip: power_Suc) simp
    finally show "mval (?N - 1) = (2 ^ 54 - 2) * 2 ^ 2044" by simp
    show "odd (?N - 1)" by simp
  qed
  define u where "u = (2 :: real) ^ 2044"
  have R: "real (mval ?N) = 2 ^ 54 * u" "real (mval (?N - 1)) = (2 ^ 54 - 2) * u" unfolding N by (simp_all add: u_def)
  have u: "0 < u" by (simp add: u_def)
  show ?thesis
    unfolding u_def [symmetric]
  proof
    assume "r < ?N"
    then have le: "mval r \<le> mval (?N - 1)" "r = ?N - 1 \<or> mval r < mval (?N - 1)"
      using \<open>r < ?N\<close> mval_mono [of r "?N - 1"] mval_strict [of r "?N - 1"] by (cases "r < ?N - 1"; simp)+
    show "X < (2 ^ 54 - 1) * u"
    proof (rule ccontr)
      assume X: "\<not> X < (2 ^ 54 - 1) * u"
      have "\<bar>real (mval r) - X\<bar> \<le> \<bar>real (mval ?N) - X\<bar>" "\<bar>real (mval r) - X\<bar> = \<bar>real (mval ?N) - X\<bar> \<longrightarrow> even r"
        using assms \<open>r < ?N\<close> unfolding rounds_def by (blast, force)
      then show False using X le R u N(3) by (auto simp: abs_real_def algebra_simps split: if_splits)
    qed
  next
    assume X: "X < (2 ^ 54 - 1) * u"
    show "r < ?N"
    proof (rule ccontr)
      assume "\<not> r < ?N"
      then have "mval ?N \<le> mval r" by (intro mval_mono) simp
      moreover have "\<bar>real (mval r) - X\<bar> \<le> \<bar>real (mval (?N - 1)) - X\<bar>" using assms unfolding rounds_def by blast
      ultimately show False using X R u by (auto simp: abs_real_def algebra_simps split: if_splits)
    qed
  qed
qed

lemma fval_scaled: "\<bar>fval g\<bar> * 2 ^ 1074 = real (mval (f64_mag g))"
  by (simp add: fval_def abs_mult)

lemma rounds_nearest:
  assumes r: "rounds (\<bar>x\<bar> * 2 ^ 1074) r" and f: "f64_mag f = min r (2047 * 2 ^ 52)" "bit f 63 \<longleftrightarrow> x < 0"
  shows "nearest_float x f"
proof -
  define u where "u = (2 :: real) ^ 1074"
  define X where "X = \<bar>x\<bar> * u"
  have u: "0 < u" by (simp add: u_def)
  note r = r [folded u_def, folded X_def]
  have o: "\<bar>x\<bar> < overflow64 \<longleftrightarrow> r < 2047 * 2 ^ 52"
  proof -
    have "(2 ^ 54 - 1) * 2 ^ 2044 = overflow64 * u" unfolding overflow64_def u_def by (simp add: flip: power_add)
    then show ?thesis unfolding rounds_overflow [OF r] X_def using u by (simp only: mult_less_cancel_right_pos)
  qed
  have "f64_finite f \<and> (\<forall>g. f64_finite g \<longrightarrow> \<bar>fval f - x\<bar> \<le> \<bar>fval g - x\<bar> \<and>
      (fval g \<noteq> fval f \<longrightarrow> \<bar>fval f - x\<bar> = \<bar>fval g - x\<bar> \<longrightarrow> even (unat f)))" if "r < 2047 * 2 ^ 52"
  proof (intro conjI allI impI)
    have m: "f64_mag f = r" using f(1) that by simp
    show "f64_finite f" using m that by (simp add: f64_finite_def)
    have vf: "fval f * u = (if x < 0 then - 1 else 1) * real (mval r)" using m f(2) by (simp add: fval_def u_def)
    have near: "\<bar>real (mval r) - X\<bar> \<le> \<bar>real (mval s) - X\<bar> \<and>
        (s \<noteq> r \<longrightarrow> \<bar>real (mval r) - X\<bar> = \<bar>real (mval s) - X\<bar> \<longrightarrow> even r)" for s
      using r unfolding rounds_def by blast
    have X: "x * u = (if x < 0 then - 1 else 1) * X" "0 \<le> X" using u by (simp_all add: X_def)
    have scale: "\<bar>fval g - x\<bar> * u = \<bar>fval g * u - x * u\<bar>" for g
      using u by (simp add: abs_mult flip: left_diff_distrib)
    have df: "\<bar>fval f - x\<bar> * u = \<bar>real (mval r) - X\<bar>" unfolding scale vf X(1) by (simp add: abs_real_def)
    fix g
    obtain b where vg: "fval g * u = b * real (mval (f64_mag g))" "b = 1 \<or> b = - 1"
      using that [of "if bit g 63 then - 1 else 1"] by (simp add: fval_def u_def)
    let ?n = "f64_mag g"
    have dg: "\<bar>real (mval ?n) - X\<bar> \<le> \<bar>fval g - x\<bar> * u"
      unfolding scale vg(1) X(1) using vg(2) X(2) by (auto simp: abs_real_def)
    then have "\<bar>fval f - x\<bar> * u \<le> \<bar>fval g - x\<bar> * u" unfolding df using near [of ?n] by linarith
    then show "\<bar>fval f - x\<bar> \<le> \<bar>fval g - x\<bar>" using u by simp
    assume ne: "fval g \<noteq> fval f" and eq: "\<bar>fval f - x\<bar> = \<bar>fval g - x\<bar>"
    have eq: "\<bar>real (mval r) - X\<bar> = \<bar>fval g * u - x * u\<bar>" using df eq scale by simp
    have "even r"
    proof (cases "?n = r")
      case False
      have "\<bar>real (mval r) - X\<bar> = \<bar>real (mval ?n) - X\<bar>" using near [of ?n] dg eq unfolding scale by linarith
      then show ?thesis using near [of ?n] False by blast
    next
      case True
      show ?thesis
      proof (cases "r = 0")
        case False
        have "fval g * u \<noteq> fval f * u" using ne u by simp
        then have "\<bar>real (mval r) - X\<bar> = real (mval r) + X"
          using eq X vf vg True by (auto simp: abs_real_def split: if_splits)
        then have "X = 0 \<or> mval r = 0" using X(2) by (auto simp: abs_real_def split: if_splits)
        moreover have "mval r \<noteq> 0" using False mval_strict [of 0 r] by simp
        ultimately have "X = 0" by blast
        then show ?thesis using near [of 0] False mval_strict [of 0 r] by auto
      qed simp
    qed
    moreover have "even (unat f) \<longleftrightarrow> even (f64_mag f)" unfolding unat_f64 [of f] by simp
    ultimately show "even (unat f)" using m by simp
  qed
  moreover have "\<not> f64_finite f" if "\<not> r < 2047 * 2 ^ 52" using f(1) that by (simp add: f64_finite_def)
  moreover have "\<not> f64_nan f" using f(1) by (simp add: f64_nan_def)
  ultimately show ?thesis unfolding nearest_float_def o using f(2) by simp
qed

text \<open>What an operation has to establish of the mantissa it packs.\<close>

lemma fpack64_nearest:
  assumes "covers (\<bar>x\<bar> * 2 ^ 1074) m e t" "m \<noteq> 0" "t \<noteq> 0 \<longrightarrow> 2 ^ 53 \<le> unat m" "e \<le> - 1023 \<or> 2 ^ 52 \<le> \<bar>x\<bar> * 2 ^ 1074"
    and "s = (if x < 0 then neg64 else 0)"
  shows "nearest_float x (fpack64 s m e t)"
proof -
  have s: "s = 0 \<or> s = neg64" "s \<noteq> 0 \<longleftrightarrow> x < 0" using assms(5) by simp_all
  obtain r where "rounds (\<bar>x\<bar> * 2 ^ 1074) r" "f64_mag (fpack64 s m e t) = min r (2047 * 2 ^ 52)"
      "bit (fpack64 s m e t) 63 \<longleftrightarrow> s \<noteq> 0"
    by (rule fpack64_rounds [OF assms(2,1,3,4) s(1)])
  then show ?thesis using s(2) by (intro rounds_nearest) simp_all
qed

lemma fval_parts:
  assumes "funpack64 f = (s, m, e, False, False)" "m \<noteq> 0"
  shows "fval f = (if s = 0 then 1 else - 1) * (real (unat m) * 2 powi (e + 1022) / 2 ^ 1074)" "2 ^ 52 \<le> unat m" "unat m < 2 ^ 53"
    "s = (if fval f < 0 then neg64 else 0)" "\<bar>fval f\<bar> * 2 ^ 1074 = real (unat m) * 2 powi (e + 1022)" "fval f \<noteq> 0"
proof -
  have p: "parts (unat m) e (f64_mag f)" by (rule funpack64_parts [OF assms])
  then show m: "2 ^ 52 \<le> unat m" "unat m < 2 ^ 53" by (simp_all add: parts_def)
  have v: "real (mval (f64_mag f)) = real (unat m) * 2 powi (e + 1022)"
  proof (cases "- 1022 \<le> e")
    case True
    then have "int (f64_mag f) = (e + 1022) * 2 ^ 52 + int (unat m)" using p by (simp add: parts_def)
    then have "int (f64_mag f) = int (nat (e + 1022) * 2 ^ 52 + unat m)" using True by simp
    then have "f64_mag f = nat (e + 1022) * 2 ^ 52 + unat m" by (simp only: of_nat_eq_iff)
    then have "mval (f64_mag f) = unat m * 2 ^ nat (e + 1022)" using m by (simp only:) (rule mval_at, simp_all)
    then show ?thesis using True by (simp add: power_int_def)
  next
    case False
    then obtain k where k: "e = - 1022 - int k" "unat m = f64_mag f * 2 ^ k" "f64_mag f < 2 ^ 52" using p by (auto simp: parts_def)
    have "real (unat m) = real (f64_mag f) * 2 ^ k" unfolding k(2) by simp
    moreover have "(2 :: real) powi (e + 1022) * 2 ^ k = 1"
      unfolding k(1) by (simp add: power_int_minus)
    ultimately show ?thesis using k(3) by (simp add: mval_def mult_ac)
  qed
  show "\<bar>fval f\<bar> * 2 ^ 1074 = real (unat m) * 2 powi (e + 1022)" unfolding fval_scaled by (rule v)
  have s: "s = (if bit f 63 then neg64 else 0)" by (rule funpack64_class(1) [OF assms(1)])
  then show fv: "fval f = (if s = 0 then 1 else - 1) * (real (unat m) * 2 powi (e + 1022) / 2 ^ 1074)"
    unfolding fval_def v by simp
  have "0 < real (unat m)" unfolding of_nat_0_less_iff by (rule less_le_trans [OF _ m(1)]) simp
  then have "0 < real (unat m) * 2 powi (e + 1022)" by (rule mult_pos_pos) simp
  then show "fval f \<noteq> 0" "s = (if fval f < 0 then neg64 else 0)" unfolding fv using s by (auto simp: zero_less_divide_iff)
qed

section \<open>Multiplication\<close>

lemma mullu_product:
  assumes "mullu u v = (lo, hi)"
  shows "unat hi * 2 ^ 64 + unat lo = unat u * unat v"
proof -
  have "Mul64 u v = (hi, lo)" using assms by (simp add: mullu_def Mul64_def Let_def)
  then show ?thesis by (rule Mul64_product)
qed

text \<open>A quotient with a remainder that only matters by being zero or not.\<close>

lemma covers_quotient:
  assumes "unat m = n div d" "t = 0 \<longleftrightarrow> n mod d = 0" "0 < d" "x = real n / real d * 2 powi (e + 1022)"
  shows "covers x m e t"
proof -
  define p where "p = (2 :: real) powi (e + 1022)"
  have p: "0 < p" by (simp add: p_def)
  have n: "real n = real (n div d) * real d + real (n mod d)" by (metis div_mult_mod_eq of_nat_add of_nat_mult)
  have q: "real n / real d = real (n div d) + real (n mod d) / real d" using assms(3) unfolding n by (simp add: field_simps)
  have r: "0 \<le> real (n mod d) / real d" "real (n mod d) / real d < 1" "real (n mod d) / real d = 0 \<longleftrightarrow> n mod d = 0"
    using assms(3) by simp_all
  show ?thesis
    unfolding covers_def assms(1,4) q p_def [symmetric] using r p assms(2)
    by (auto simp: mult_less_cancel_right)
qed

lemma finite_unpack:
  assumes "f64_finite f"
  obtains s m e where "funpack64 f = (s, m, e, False, False)" "m = 0 \<longleftrightarrow> f64_mag f = 0" "s = (if bit f 63 then neg64 else 0)"
proof -
  obtain s m e i n where u: "funpack64 f = (s, m, e, i, n)" by (metis prod_cases5)
  note c = funpack64_class [OF u]
  have "\<not> n" "\<not> i" using c(2,3) assms by (simp_all add: f64_finite_def f64_nan_def)
  then show thesis using that [of s m e] u c(1,4) by simp
qed

lemma fval_zero: "f64_mag f = 0 \<Longrightarrow> fval f = 0"
  by (simp add: fval_def)

lemma nearest_zero:
  assumes "f64_mag z = 0"
  shows "nearest_float 0 z"
  unfolding nearest_float_def using assms
  by (simp add: fval_zero f64_nan_def f64_finite_def overflow64_def)

lemma mag_xor_sign: "s = 0 \<or> s = neg64 \<Longrightarrow> f64_mag (f XOR s) = f64_mag f"
  using fneg64_bits(2) [of f] by (auto simp: fneg64_def)

lemma unat_push_or_drop:
  fixes a b :: f64
  assumes "unat a < 2 ^ (64 - k)" "k < 64"
  shows "unat (push_bit k a OR drop_bit (64 - k) b) = unat a * 2 ^ k + unat b div 2 ^ (64 - k)"
proof -
  have "push_bit k a AND drop_bit (64 - k) b = 0"
    by (rule bit_word_eqI) (use assms(2) in \<open>auto simp: bit_simps dest: bit_imp_le_length\<close>)
  then have o: "push_bit k a OR drop_bit (64 - k) b = push_bit k a + drop_bit (64 - k) b" by (simp add: disjunctive_add_eq_or)
  have k: "(2 :: nat) ^ (64 - k) * 2 ^ k = 2 ^ 64" using assms(2) by (simp flip: power_add)
  have "(unat a + 1) * 2 ^ k \<le> 2 ^ (64 - k) * 2 ^ k" using assms(1) by (intro mult_right_mono) simp_all
  then have a: "unat a * 2 ^ k + 2 ^ k \<le> 2 ^ 64" unfolding k by (simp only: add_mult_distrib mult_1)
  have pa: "unat (push_bit k a) = unat a * 2 ^ k"
  proof -
    have "unat (push_bit k a) = unat a * 2 ^ k mod 2 ^ 64"
      unfolding unsigned_push_bit_eq by (simp add: push_bit_eq_mult take_bit_eq_mod)
    moreover have "unat a * 2 ^ k < 2 ^ 64" using a by (metis add_leD1 less_le_trans not_less order.strict_iff_order less_add_same_cancel1 zero_less_numeral zero_less_power)
    ultimately show ?thesis by simp
  qed
  have db: "unat (drop_bit (64 - k) b) = unat b div 2 ^ (64 - k)" by (simp add: unat_drop_bit_64)
  have "unat b < 2 ^ k * 2 ^ (64 - k)" using unat_64_less [of b] k by (simp only: mult.commute)
  then have "unat b div 2 ^ (64 - k) < 2 ^ k" by (rule less_mult_imp_div_less)
  then have "unat a * 2 ^ k + unat b div 2 ^ (64 - k) < 2 ^ 64" using a by linarith
  then show ?thesis unfolding o using pa db by (simp add: unat_word_ariths)
qed

text \<open>The bits of a product below its two leading ones.\<close>

lemma product_bits:
  assumes "unat hi * 2 ^ 64 + unat lo = (p :: nat)" "p < 2 ^ 106"
  shows "unat (push_bit 13 hi OR drop_bit 51 lo) = p div 2 ^ 51"
    and "lo AND (push_bit 51 1 - 1) = (0 :: f64) \<longleftrightarrow> p mod 2 ^ 51 = 0"
proof -
  have p: "p = unat hi * 2 ^ 13 * 2 ^ 51 + unat lo" using assms(1) by simp
  have "p div 2 ^ 51 = unat hi * 2 ^ 13 + unat lo div 2 ^ 51" unfolding p by (rule div_mult_self3) simp
  moreover have "unat hi < 2 ^ 51" using assms by simp
  ultimately show "unat (push_bit 13 hi OR drop_bit 51 lo) = p div 2 ^ 51" using unat_push_or_drop [of hi 13 lo] by simp
  have "lo AND (push_bit 51 1 - 1) = take_bit 51 lo"
    unfolding push_bit_of_1 by (simp only: mask_eq_exp_minus_1 [symmetric] take_bit_eq_mask)
  then have "lo AND (push_bit 51 1 - 1) = 0 \<longleftrightarrow> unat lo mod 2 ^ 51 = 0"
    by (metis unat_eq_0 unat_take_bit_64)
  moreover have "p mod 2 ^ 51 = unat lo mod 2 ^ 51" unfolding p by (rule mod_mult_self3)
  ultimately show "lo AND (push_bit 51 1 - 1) = 0 \<longleftrightarrow> p mod 2 ^ 51 = 0" by simp
qed

text \<open>The sign of a product or quotient.\<close>

lemma sign_xor:
  fixes x y :: real
  assumes "s = (if x < 0 then neg64 else 0)" "r = (if y < 0 then neg64 else 0)" "x \<noteq> 0" "y \<noteq> 0"
  shows "s XOR r = (if x * y < 0 then neg64 else 0)" "s XOR r = (if x / y < 0 then neg64 else 0)"
  using assms by (auto simp: mult_less_0_iff divide_less_0_iff)

theorem fmul64_nearest:
  assumes "f64_finite f" "f64_finite g"
  shows "nearest_float (fval f * fval g) (fmul64 f g)"
proof -
  obtain fs fm fe where f: "funpack64 f = (fs, fm, fe, False, False)" "fm = 0 \<longleftrightarrow> f64_mag f = 0" "fs = (if bit f 63 then neg64 else 0)"
    using finite_unpack [OF assms(1)] .
  obtain gs gm ge where g: "funpack64 g = (gs, gm, ge, False, False)" "gm = 0 \<longleftrightarrow> f64_mag g = 0" "gs = (if bit g 63 then neg64 else 0)"
    using finite_unpack [OF assms(2)] .
  show ?thesis
  proof (cases "fm = 0 \<or> gm = 0")
    case True
    then have "f64_mag (fmul64 f g) = 0" using f g mag_xor_sign [of gs f] mag_xor_sign [of fs g] by (auto simp: fmul64_def)
    then have "nearest_float 0 (fmul64 f g)" by (rule nearest_zero)
    then show ?thesis using True f g by (auto simp: fval_zero)
  next
    case False
    then have nz: "fm \<noteq> 0" "gm \<noteq> 0" by simp_all
    note vf = fval_parts [OF f(1) nz(1)] and vg = fval_parts [OF g(1) nz(2)]
    define p where "p = unat fm * unat gm"
    have "2 ^ 52 * 2 ^ 52 \<le> p" unfolding p_def using vf(2) vg(2) by (intro mult_mono) simp_all
    then have lo_p: "2 ^ 104 \<le> p" by simp
    have "p < 2 ^ 53 * 2 ^ 53" unfolding p_def using vf(3) vg(3) by (intro mult_strict_mono) simp_all
    then have hi_p: "p < 2 ^ 106" by simp
    obtain lo hi where m: "mullu fm gm = (lo, hi)" by fastforce
    define t where "t = lo AND (push_bit 51 1 - 1)"
    define mant where "mant = push_bit 13 hi OR drop_bit 51 lo"
    have r: "fmul64 f g = fpack64 (fs XOR gs) mant (fe + ge - 1) t"
      using nz by (simp add: fmul64_def f(1) g(1) m t_def mant_def)
    note pb = product_bits [OF mullu_product [OF m, folded p_def] hi_p, folded mant_def t_def]
    let ?x = "fval f * fval g"
    have x: "\<bar>?x\<bar> * 2 ^ 1074 = real p / real (2 ^ 51 :: nat) * 2 powi (fe + ge - 1 + 1022)"
    proof -
      have "\<bar>?x\<bar> * 2 ^ 1074 = (\<bar>fval f\<bar> * 2 ^ 1074) * (\<bar>fval g\<bar> * 2 ^ 1074) / 2 ^ 1074" by (simp add: abs_mult)
      also have "\<dots> = real p * (2 powi (fe + 1022) * 2 powi (ge + 1022)) / 2 ^ 1074"
        unfolding vf(5) vg(5) p_def of_nat_mult by (simp only: mult_ac)
      also have "2 powi (fe + 1022) * 2 powi (ge + 1022) = (2 :: real) powi ((fe + ge - 1 + 1022) + 1023)"
        by (simp flip: power_int_add)
      also have "\<dots> = 2 powi (fe + ge - 1 + 1022) * 2 ^ 1023" by (subst power_int_add) simp_all
      finally show ?thesis by simp
    qed
    have "covers (\<bar>?x\<bar> * 2 ^ 1074) mant (fe + ge - 1) t"
      by (rule covers_quotient [OF pb _ x]) simp
    moreover have big: "2 ^ 53 \<le> unat mant" unfolding pb(1) using lo_p div_le_mono [of "2 ^ 104" p "2 ^ 51"] by simp
    moreover from big have "mant \<noteq> 0" by auto
    moreover have "fe + ge - 1 \<le> - 1023 \<or> 2 ^ 52 \<le> \<bar>?x\<bar> * 2 ^ 1074"
    proof (cases "fe + ge - 1 \<le> - 1023")
      case False
      then have "(2 :: real) powi 0 \<le> 2 powi (fe + ge - 1 + 1022)" by (intro powi_bound) simp
      moreover have "real (2 ^ 104) \<le> real p" using lo_p by (simp only: of_nat_le_iff)
      then have "2 ^ 53 \<le> real p / real (2 ^ 51 :: nat)" by (simp add: field_simps)
      ultimately have "2 ^ 53 * 1 \<le> \<bar>?x\<bar> * 2 ^ 1074" unfolding x by (intro mult_mono) simp_all
      then show ?thesis by simp
    qed simp
    moreover have "fs XOR gs = (if ?x < 0 then neg64 else 0)" by (rule sign_xor(1) [OF vf(4) vg(4) vf(6) vg(6)])
    ultimately show ?thesis unfolding r by (intro fpack64_nearest) simp_all
  qed
qed

section \<open>Division\<close>

text \<open>
  One digit of the quotient to the base \<open>2^32\<close>. The estimate from the leading digit of the divisor is
  never too small, and it is lowered until its product with the whole divisor fits.
\<close>

lemma digit_low:
  fixes q v1 v0 r un a :: nat
  assumes "q * v1 + r = a" "a * B + un < q * (v1 * B + v0)"
  shows "(a * B + un) div (v1 * B + v0) \<le> q - 1"
proof -
  have "(a * B + un) div (v1 * B + v0) < q" using assms(2) by (simp add: less_mult_imp_div_less)
  then show ?thesis by simp
qed

lemma digit_product:
  fixes q v1 v0 r un a :: nat
  assumes "q * v1 + r = a"
  shows "a * B + un < q * (v1 * B + v0) \<longleftrightarrow> B * r + un < q * v0"
proof -
  have "a * B = q * v1 * B + r * B" "q * (v1 * B + v0) = q * v1 * B + q * v0"
    unfolding assms [symmetric] by (simp_all add: algebra_simps)
  then show ?thesis by (simp add: mult.commute)
qed

lemma digit_high:
  fixes q v1 v0 r un a :: nat
  assumes "q * v1 + r = a" "B * r + un \<ge> q * v0" "(a * B + un) div (v1 * B + v0) \<le> q" "0 < v1" "0 < B"
  shows "q = (a * B + un) div (v1 * B + v0)"
proof -
  have "q * (v1 * B + v0) \<le> a * B + un" using digit_product [OF assms(1), of B un v0] assms(2) by simp
  then have "q \<le> (a * B + un) div (v1 * B + v0)" using assms(4,5) by (simp add: less_eq_div_iff_mult_less_eq)
  then show ?thesis using assms(3) by simp
qed

lemma divlu_again_digit:
  assumes "unat q * unat vn1 + unat rhat = a" "unat rhat < 2 ^ 32" "0 < unat vn1" "unat vn1 < 2 ^ 32" "unat vn0 < 2 ^ 32" "unat un < 2 ^ 32"
    and "a < unat vn1 * 2 ^ 32 + unat vn0" "(a * 2 ^ 32 + unat un) div (unat vn1 * 2 ^ 32 + unat vn0) \<le> unat q"
  shows "unat (divlu_again q rhat vn1 vn0 un) = (a * 2 ^ 32 + unat un) div (unat vn1 * 2 ^ 32 + unat vn0)"
  using assms
proof (induction q rhat vn1 vn0 un rule: divlu_again.induct)
  case (1 q rhat vn1 vn0 un)
  let ?q = "unat q" and ?r = "unat rhat" and ?v1 = "unat vn1" and ?v0 = "unat vn0" and ?u = "unat un"
  let ?Q = "(a * 2 ^ 32 + ?u) div (?v1 * 2 ^ 32 + ?v0)"
  note prems = "1.prems"
  have cond: "0x100000000 \<le> q \<or> 0x100000000 * rhat + un < q * vn0 \<longleftrightarrow> 2 ^ 32 \<le> ?q \<or> 2 ^ 32 * ?r + ?u < ?q * ?v0"
  proof (cases "2 ^ 32 \<le> ?q")
    case False
    have "2 ^ 32 * ?r + ?u < 2 ^ 64" using prems(2,6) by simp
    moreover have "?q * ?v0 < 2 ^ 32 * 2 ^ 32" using False prems(5) by (intro mult_strict_mono) simp_all
    ultimately show ?thesis by (simp add: word_le_nat_alt word_less_nat_alt unat_word_ariths)
  qed (simp add: word_le_nat_alt)
  have step: "divlu_again q rhat vn1 vn0 un =
      (if 2 ^ 32 \<le> ?q \<or> 2 ^ 32 * ?r + ?u < ?q * ?v0
       then if rhat + vn1 < 0x100000000 then divlu_again (q - 1) (rhat + vn1) vn1 vn0 un else q - 1 else q)"
    unfolding divlu_again.simps [of q] cond by simp
  show ?case
  proof (cases "2 ^ 32 \<le> ?q \<or> 2 ^ 32 * ?r + ?u < ?q * ?v0")
    case True
    have less: "?Q < 2 ^ 32"
    proof (rule less_mult_imp_div_less)
      have "(a + 1) * 2 ^ 32 \<le> (?v1 * 2 ^ 32 + ?v0) * 2 ^ 32" using prems(7) by (intro mult_right_mono) simp_all
      then show "a * 2 ^ 32 + ?u < 2 ^ 32 * (?v1 * 2 ^ 32 + ?v0)" using prems(6) by (simp add: mult.commute)
    qed
    have "?Q \<le> ?q - 1"
      using True less digit_low [OF prems(1), of "2 ^ 32" ?u ?v0] digit_product [OF prems(1), of "2 ^ 32" ?u ?v0] by auto
    moreover have "q \<noteq> 0" using True by auto
    then have q: "unat (q - 1) = ?q - 1" "0 < ?q" by (simp_all add: unat_minus_one unat_gt_0)
    ultimately have Q: "?Q \<le> unat (q - 1)" by simp
    have r: "unat (rhat + vn1) = ?r + ?v1" using prems(2,4) by (simp add: unat_word_ariths)
    have a: "unat (q - 1) * ?v1 + unat (rhat + vn1) = a"
      unfolding q(1) r prems(1) [symmetric] using q(2) by (cases ?q) simp_all
    show ?thesis
    proof (cases "rhat + vn1 < 0x100000000")
      case small: True
      then have "unat (rhat + vn1) < 2 ^ 32" by (simp add: word_less_nat_alt)
      then have "unat (divlu_again (q - 1) (rhat + vn1) vn1 vn0 un) = ?Q"
        using "1.IH" [OF _ small a _ prems(3-7) Q] True cond by blast
      then show ?thesis unfolding step using True small by simp
    next
      case False
      then have big: "2 ^ 32 \<le> unat (rhat + vn1)" by (simp add: word_less_nat_alt)
      have "unat (q - 1) * ?v1 < ?v1 * 2 ^ 32" using a big prems(5,7) by linarith
      then have "unat (q - 1) * ?v1 < 2 ^ 32 * ?v1" by (simp only: mult.commute)
      then have "unat (q - 1) < 2 ^ 32" using prems(3) by simp
      then have "unat (q - 1) * ?v0 \<le> 2 ^ 32 * 2 ^ 32" using prems(5) by (intro mult_mono) simp_all
      also have "\<dots> \<le> 2 ^ 32 * unat (rhat + vn1) + ?u" using big by simp
      finally have "unat (q - 1) = ?Q" using digit_high [OF a _ Q prems(3)] by simp
      then show ?thesis unfolding step using True False by simp
    qed
  next
    case False
    then have "?q = ?Q" using digit_high [OF prems(1) _ prems(8,3)] by simp
    then show ?thesis unfolding step using False by simp
  qed
qed

lemma divlu_digit:
  fixes A v un :: f64
  assumes "2 ^ 63 \<le> unat v" "unat A < unat v" "unat un < 2 ^ 32"
    and q: "q = divlu_again (A div drop_bit 32 v) (A - A div drop_bit 32 v * drop_bit 32 v) (drop_bit 32 v) (v AND 0xFFFFFFFF) un"
  shows "unat q = (unat A * 2 ^ 32 + unat un) div unat v"
    and "unat (A * 0x100000000 + un - q * v) = (unat A * 2 ^ 32 + unat un) mod unat v"
proof -
  let ?v1 = "drop_bit 32 v" and ?v0 = "v AND 0xFFFFFFFF"
  have u1: "unat ?v1 = unat v div 2 ^ 32" by (simp add: unat_drop_bit_64)
  have u0: "unat ?v0 = unat v mod 2 ^ 32" by (simp only: and_mask_32 unat_take_bit_64)
  have v: "unat ?v1 * 2 ^ 32 + unat ?v0 = unat v" unfolding u1 u0 by simp
  have "unat v < 2 ^ 32 * 2 ^ 32" using unat_64_less [of v] by simp
  then have "unat ?v1 < 2 ^ 32" unfolding u1 by (rule less_mult_imp_div_less)
  moreover have "2 ^ 63 div 2 ^ 32 \<le> unat ?v1" unfolding u1 using assms(1) by (rule div_le_mono)
  then have big: "2 ^ 31 \<le> unat ?v1" by simp
  ultimately have b: "0 < unat ?v1" "unat ?v1 < 2 ^ 32" by simp_all
  have d: "unat (A div ?v1) = unat A div unat ?v1" by (rule unat_div)
  have "A - A div ?v1 * ?v1 = A mod ?v1" by (simp add: minus_div_mult_eq_mod)
  then have r: "unat (A - A div ?v1 * ?v1) = unat A mod unat ?v1" by (simp add: unat_mod)
  have e: "unat (A div ?v1) * unat ?v1 + unat (A - A div ?v1 * ?v1) = unat A" unfolding d r by simp
  have less: "unat (A - A div ?v1 * ?v1) < 2 ^ 32" unfolding r using b by (metis less_trans mod_less_divisor)
  have est: "(unat A * 2 ^ 32 + unat un) div (unat ?v1 * 2 ^ 32 + unat ?v0) \<le> unat (A div ?v1)"
  proof -
    have "unat A < (unat A div unat ?v1 + 1) * unat ?v1"
      using b(1) by (metis Suc_eq_plus1 dividend_less_div_times add_mult_distrib mult_1 add.commute)
    then have "(unat A + 1) * 2 ^ 32 \<le> ((unat A div unat ?v1 + 1) * unat ?v1) * 2 ^ 32" by (intro mult_right_mono) simp_all
    then have "unat A * 2 ^ 32 + unat un < (unat A div unat ?v1 + 1) * (unat ?v1 * 2 ^ 32 + unat ?v0)"
      using assms(3) by (simp add: algebra_simps)
    then have "(unat A * 2 ^ 32 + unat un) div (unat ?v1 * 2 ^ 32 + unat ?v0) < unat A div unat ?v1 + 1" by (rule less_mult_imp_div_less)
    then show ?thesis unfolding d by simp
  qed
  have a: "unat A < unat ?v1 * 2 ^ 32 + unat ?v0" unfolding v by (rule assms(2))
  have v0: "unat ?v0 < 2 ^ 32" unfolding u0 by simp
  show Q: "unat q = (unat A * 2 ^ 32 + unat un) div unat v"
    unfolding q using divlu_again_digit [OF e less b v0 assms(3) a est] unfolding v .
  define R where "R = (unat A * 2 ^ 32 + unat un) mod unat v"
  have "unat A * 2 ^ 32 + unat un = unat q * unat v + R" unfolding Q R_def by simp
  then have "(word_of_nat (unat A * 2 ^ 32 + unat un) :: f64) = word_of_nat (unat q * unat v + R)" by simp
  then have "A * 0x100000000 + un - q * v = word_of_nat R" by simp
  moreover have "R < unat v" unfolding R_def by (rule mod_less_divisor) (rule less_le_trans [OF _ assms(1)], simp)
  then have "R < 2 ^ 64" using unat_64_less [of v] by (rule less_trans)
  then have "unat (word_of_nat R :: f64) = R" by (simp add: unat_of_nat take_bit_eq_mod)
  ultimately show "unat (A * 0x100000000 + un - q * v) = (unat A * 2 ^ 32 + unat un) mod unat v" by (simp add: R_def)
qed

lemma nlz_shift_spec:
  assumes "nlz_shift s0 v0 = (s, v)" "v0 \<noteq> 0"
  shows "\<exists>k. s = s0 + k \<and> unat v = unat v0 * 2 ^ k \<and> 2 ^ 63 \<le> unat v"
  using assms
proof (induction s0 v0 rule: nlz_shift.induct)
  case (1 s0 v0)
  show ?case
  proof (cases "v0 AND neg64 = 0")
    case True
    then have "unat v0 < 2 ^ 63" by (auto simp: and_sign_bit bit_63_iff split: if_splits)
    then have p: "unat (push_bit 1 v0) = 2 * unat v0" by (simp add: push_bit_eq_mult unat_word_ariths)
    then have ne: "push_bit 1 v0 \<noteq> 0" using "1.prems"(2) by (metis mult_is_0 unat_eq_0 zero_neq_numeral)
    have "nlz_shift (Suc s0) (push_bit 1 v0) = (s, v)"
      using "1.prems" True by (subst (asm) nlz_shift.simps) simp
    from "1.IH" [OF _ this ne] True "1.prems"(2) obtain k where
      "s = Suc s0 + k" "unat v = unat (push_bit 1 v0) * 2 ^ k" "2 ^ 63 \<le> unat v" by auto
    then show ?thesis using p by (intro exI [of _ "Suc k"]) simp
  next
    case False
    then have "bit v0 63" by (auto simp: and_sign_bit split: if_splits)
    then have "2 ^ 63 \<le> unat v0" by (simp add: bit_63_iff)
    then show ?thesis using "1.prems" False by (subst (asm) nlz_shift.simps) simp
  qed
qed

lemma push_low:
  fixes b :: f64
  assumes "s < 64"
  shows "unat b * 2 ^ s = unat b div 2 ^ (64 - s) * 2 ^ 64 + unat (push_bit s b)"
proof -
  have "unat (push_bit s b) = unat b * 2 ^ s mod 2 ^ 64"
    unfolding unsigned_push_bit_eq by (simp add: push_bit_eq_mult take_bit_eq_mod)
  moreover have "unat b * 2 ^ s div 2 ^ 64 = unat b div 2 ^ (64 - s)"
  proof -
    have p: "(2 :: nat) ^ 64 = 2 ^ (64 - s) * 2 ^ s" using assms by (simp flip: power_add)
    show ?thesis unfolding p by (rule div_mult_mult2) simp
  qed
  ultimately show ?thesis by (metis div_mult_mod_eq)
qed

theorem divlu_quotient:
  assumes "unat u1 < unat v0" "divlu u1 u0 v0 = (q, r)"
  shows "unat q = (unat u1 * 2 ^ 64 + unat u0) div unat v0" "unat r = (unat u1 * 2 ^ 64 + unat u0) mod unat v0"
proof -
  obtain s v where n: "nlz_shift 0 v0 = (s, v)" by fastforce
  have "v0 \<noteq> 0" using assms(1) by auto
  from nlz_shift_spec [OF n this] have v: "unat v = unat v0 * 2 ^ s" "2 ^ 63 \<le> unat v" by auto
  have s: "s < 64"
  proof (rule ccontr)
    assume "\<not> s < 64"
    then have "1 * 2 ^ 64 \<le> unat v0 * 2 ^ s" using assms(1) by (intro mult_mono power_increasing) simp_all
    then show False using unat_64_less [of v] unfolding v(1) by simp
  qed
  let ?A = "push_bit s u1 OR drop_bit (64 - s) u0"
  let ?L = "push_bit s u0"
  have "unat u1 * 2 ^ s < 2 ^ (64 - s) * 2 ^ s"
  proof -
    have "unat u1 * 2 ^ s < unat v0 * 2 ^ s" using assms(1) by simp
    also have "\<dots> < 2 ^ 64" unfolding v(1) [symmetric] by (rule unat_64_less)
    also have "(2 :: nat) ^ 64 = 2 ^ (64 - s) * 2 ^ s" using s by (simp flip: power_add)
    finally show ?thesis .
  qed
  then have "unat u1 < 2 ^ (64 - s)" by simp
  from unat_push_or_drop [OF this s] have A: "unat ?A = unat u1 * 2 ^ s + unat u0 div 2 ^ (64 - s)" .
  define N where "N = unat u1 * 2 ^ 64 + unat u0"
  have N: "N * 2 ^ s = unat ?A * 2 ^ 64 + unat ?L"
  proof -
    have "N * 2 ^ s = unat u1 * 2 ^ s * 2 ^ 64 + unat u0 * 2 ^ s" by (simp add: N_def algebra_simps)
    then show ?thesis unfolding A push_low [OF s, of u0] by (simp add: algebra_simps)
  qed
  have "N < unat v0 * 2 ^ 64"
  proof -
    have "(unat u1 + 1) * 2 ^ 64 \<le> unat v0 * 2 ^ 64" using assms(1) by (intro mult_right_mono) simp_all
    then show ?thesis using unat_64_less [of u0] by (simp add: N_def)
  qed
  then have "N * 2 ^ s < unat v * 2 ^ 64" unfolding v(1) by simp
  then have "unat ?A * 2 ^ 64 < unat v * 2 ^ 64" unfolding N by simp
  then have Av: "unat ?A < unat v" by simp
  let ?un1 = "drop_bit 32 ?L" and ?un0 = "?L AND 0xFFFFFFFF"
  have un: "unat ?un1 < 2 ^ 32" "unat ?un0 < 2 ^ 32" "unat ?un1 * 2 ^ 32 + unat ?un0 = unat ?L"
    using unat_64_less [of ?L] by (simp_all add: and_mask_32 unat_take_bit_64 unat_drop_bit_64 less_mult_imp_div_less)
  define q1 where "q1 = divlu_again (?A div drop_bit 32 v) (?A - ?A div drop_bit 32 v * drop_bit 32 v) (drop_bit 32 v) (v AND 0xFFFFFFFF) ?un1"
  note d1 = divlu_digit [OF v(2) Av un(1) q1_def]
  define R where "R = ?A * 0x100000000 + ?un1 - q1 * v"
  have v0: "0 < unat v" by (rule less_le_trans [OF _ v(2)]) simp
  have Rv: "unat R < unat v" unfolding R_def d1(2) using v0 by simp
  define q0 where "q0 = divlu_again (R div drop_bit 32 v) (R - R div drop_bit 32 v * drop_bit 32 v) (drop_bit 32 v) (v AND 0xFFFFFFFF) ?un0"
  note d0 = divlu_digit [OF v(2) Rv un(2) q0_def]
  have qr: "q = q1 * 0x100000000 + q0" "r = drop_bit s (R * 0x100000000 + ?un0 - q0 * v)"
  proof -
    have "\<not> v0 \<le> u1" using assms(1) by (simp add: word_le_nat_alt)
    then have "divlu u1 u0 v0 = (q1 * 0x100000000 + q0, drop_bit s (R * 0x100000000 + ?un0 - q0 * v))"
      by (simp only: divlu_def Let_def n prod.case if_False q1_def R_def q0_def)
    then show "q = q1 * 0x100000000 + q0" "r = drop_bit s (R * 0x100000000 + ?un0 - q0 * v)" using assms(2) by simp_all
  qed
  let ?B = "2 ^ 32 :: nat"
  have "unat ?A * ?B + unat ?un1 = unat q1 * unat v + unat R" unfolding d1(1) R_def d1(2) by simp
  moreover have "unat R * ?B + unat ?un0 = unat q0 * unat v + (unat R * ?B + unat ?un0) mod unat v" unfolding d0(1) by simp
  moreover have "N * 2 ^ s = (unat ?A * ?B + unat ?un1) * ?B + unat ?un0" unfolding N un(3) [symmetric] by (simp add: algebra_simps)
  ultimately have split: "N * 2 ^ s = (unat q1 * ?B + unat q0) * unat v + (unat R * ?B + unat ?un0) mod unat v"
    by (simp add: algebra_simps)
  have rem: "(unat R * ?B + unat ?un0) mod unat v < unat v" using v0 by simp
  have Q: "N * 2 ^ s div unat v = unat q1 * ?B + unat q0" "N * 2 ^ s mod unat v = (unat R * ?B + unat ?un0) mod unat v"
    unfolding split using rem by simp_all
  have "N * 2 ^ s div unat v = N div unat v0" "N * 2 ^ s mod unat v = N mod unat v0 * 2 ^ s"
    unfolding v(1) by (simp_all add: mult_mod_left)
  note Q = Q [unfolded this]
  have "N div unat v0 < 2 ^ 64" using \<open>N < unat v0 * 2 ^ 64\<close> by (intro less_mult_imp_div_less) (simp add: mult.commute)
  then have "unat q1 * ?B + unat q0 < 2 ^ 64" unfolding Q(1) .
  then have "unat q = unat q1 * ?B + unat q0" unfolding qr(1) by (simp add: unat_word_ariths)
  then show "unat q = (unat u1 * 2 ^ 64 + unat u0) div unat v0" unfolding N_def [symmetric] Q(1) .
  have "unat r = N mod unat v0 * 2 ^ s div 2 ^ s" unfolding qr(2) unat_drop_bit_64 d0(2) Q(2) [symmetric] ..
  then show "unat r = (unat u1 * 2 ^ 64 + unat u0) mod unat v0" unfolding N_def [symmetric] by simp
qed

theorem fdiv64_nearest:
  assumes "f64_finite f" "f64_finite g" "fval g \<noteq> 0"
  shows "nearest_float (fval f / fval g) (fdiv64 f g)"
proof -
  obtain fs fm fe where f: "funpack64 f = (fs, fm, fe, False, False)" "fm = 0 \<longleftrightarrow> f64_mag f = 0" "fs = (if bit f 63 then neg64 else 0)"
    using finite_unpack [OF assms(1)] .
  obtain gs gm ge where g: "funpack64 g = (gs, gm, ge, False, False)" "gm = 0 \<longleftrightarrow> f64_mag g = 0" "gs = (if bit g 63 then neg64 else 0)"
    using finite_unpack [OF assms(2)] .
  have gm: "gm \<noteq> 0" using g(2) assms(3) fval_zero by blast
  show ?thesis
  proof (cases "fm = 0")
    case True
    have "f64_mag (fs XOR gs XOR 0) = 0"
      using mag_xor_sign [of gs fs] mag_xor_sign [of fs 0] f(3) g(3) by (auto simp: f64_mag_def)
    then have "f64_mag (fdiv64 f g) = 0" using True f(1) g(1) gm by (simp add: fdiv64_def)
    then have "nearest_float 0 (fdiv64 f g)" by (rule nearest_zero)
    then show ?thesis using True f by (simp add: fval_zero)
  next
    case False
    note vf = fval_parts [OF f(1) False] and vg = fval_parts [OF g(1) gm]
    define p where "p = unat fm * 2 ^ 54"
    obtain q t where d: "divlu (drop_bit 10 fm) (push_bit 54 fm) gm = (q, t)" by fastforce
    have r: "fdiv64 f g = fpack64 (fs XOR gs) q (fe - ge - 2) t"
      using False gm by (simp add: fdiv64_def f(1) g(1) d)
    have "unat (drop_bit 10 fm) < 2 ^ 43" using vf(3) by (simp add: unat_drop_bit_64 less_mult_imp_div_less)
    then have less: "unat (drop_bit 10 fm) < unat gm" by (rule less_le_trans) (rule order_trans [OF _ vg(2)], simp)
    have N: "unat (drop_bit 10 fm) * 2 ^ 64 + unat (push_bit 54 fm) = p"
      using push_low [of 54 fm] by (simp add: p_def unat_drop_bit_64)
    note dq = divlu_quotient [OF less d, unfolded N]
    have g0: "0 < unat gm" by (rule less_le_trans [OF _ vg(2)]) simp
    let ?x = "fval f / fval g"
    have x: "\<bar>?x\<bar> * 2 ^ 1074 = real p / real (unat gm) * 2 powi (fe - ge - 2 + 1022)"
    proof -
      have "(2 :: real) powi (fe + 1022) * 2 ^ 1074 = 2 ^ 54 * (2 powi (ge + 1022) * 2 powi (fe - ge - 2 + 1022))"
      proof -
        have "(2 :: real) powi (fe + 1022) * 2 powi 1074 = 2 powi 54 * (2 powi (ge + 1022) * 2 powi (fe - ge - 2 + 1022))"
          unfolding powi_plus by (rule arg_cong [of _ _ "(powi) 2"]) simp
        then show ?thesis by (simp only: power_int_numeral)
      qed
      note e = this
      have "\<bar>?x\<bar> * 2 ^ 1074 = (\<bar>fval f\<bar> * 2 ^ 1074) / (\<bar>fval g\<bar> * 2 ^ 1074) * 2 ^ 1074" by (simp add: abs_divide)
      also have "\<dots> = real (unat fm) * (2 powi (fe + 1022) * 2 ^ 1074) / (real (unat gm) * 2 powi (ge + 1022))"
        unfolding vf(5) vg(5) by (simp only: times_divide_eq_left mult.assoc)
      also have "\<dots> = real p / real (unat gm) * 2 powi (fe - ge - 2 + 1022)"
        unfolding e p_def of_nat_mult of_nat_power of_nat_numeral by (simp add: field_simps)
      finally show ?thesis .
    qed
    have t: "t = 0 \<longleftrightarrow> p mod unat gm = 0" using dq(2) by (metis unat_eq_0)
    have "covers (\<bar>?x\<bar> * 2 ^ 1074) q (fe - ge - 2) t"
      by (rule covers_quotient [OF dq(1) t g0 x])
    moreover have ge: "2 ^ 53 * unat gm \<le> p"
    proof -
      have "2 ^ 53 * unat gm \<le> 2 ^ 53 * 2 ^ 53" using vg(3) by (intro mult_left_mono) simp_all
      also have "\<dots> \<le> p" unfolding p_def using vf(2) by simp
      finally show ?thesis .
    qed
    then have big: "2 ^ 53 \<le> unat q" unfolding dq(1) using g0 by (simp only: less_eq_div_iff_mult_less_eq)
    moreover from big have "q \<noteq> 0" by auto
    moreover have "fe - ge - 2 \<le> - 1023 \<or> 2 ^ 52 \<le> \<bar>?x\<bar> * 2 ^ 1074"
    proof (cases "fe - ge - 2 \<le> - 1023")
      case False
      then have "(2 :: real) powi 0 \<le> 2 powi (fe - ge - 2 + 1022)" by (intro powi_bound) simp
      moreover have "real (2 ^ 53 * unat gm) \<le> real p" using ge by (simp only: of_nat_le_iff)
      then have "2 ^ 53 * real (unat gm) \<le> real p" by (simp only: of_nat_mult of_nat_power of_nat_numeral)
      then have "2 ^ 53 \<le> real p / real (unat gm)" using g0 by (simp only: pos_le_divide_eq of_nat_0_less_iff)
      ultimately have "2 ^ 53 * 1 \<le> \<bar>?x\<bar> * 2 ^ 1074" unfolding x by (intro mult_mono) simp_all
      then show ?thesis by simp
    qed simp
    moreover have "fs XOR gs = (if ?x < 0 then neg64 else 0)" by (rule sign_xor(2) [OF vf(4) vg(4) vf(6) vg(6)])
    ultimately show ?thesis unfolding r by (intro fpack64_nearest) simp_all
  qed
qed

section \<open>Addition\<close>

text \<open>
  The aligned mantissas with two more bits: \<open>a\<close> and \<open>b\<close> are the magnitudes of the operands, the
  greater one first. The bits of the smaller one that are shifted out are remembered in \<open>t\<close>.
\<close>

lemma aligned_sum:
  fixes fm gm :: f64
  assumes m: "2 ^ 52 \<le> unat fm" "unat fm < 2 ^ 53" "2 ^ 52 \<le> unat gm" "unat gm < 2 ^ 53"
    and o: "ge \<le> fe" "fe = ge \<longrightarrow> unat gm \<le> unat fm"
    and t: "t = push_bit 2 gm AND (push_bit (nat (fe - ge)) 1 - 1)"
    and h: "h = drop_bit (nat (fe - ge)) (push_bit 2 gm)"
    and a: "a = real (unat fm) * 2 powi (fe + 1022)" and b: "b = real (unat gm) * 2 powi (ge + 1022)"
  shows "covers (a + b) (push_bit 2 fm + h) (fe - 2) t" "2 ^ 54 \<le> unat (push_bit 2 fm + h)"
    "covers (a - b) (if t \<noteq> 0 then push_bit 2 fm - h - 1 else push_bit 2 fm - h) (fe - 2) t"
    "t \<noteq> 0 \<longrightarrow> 2 ^ 53 \<le> unat (push_bit 2 fm - h - 1)"
proof -
  define k where "k = nat (fe - ge)"
  have ge: "ge = fe - int k" using o(1) by (simp add: k_def)
  have quad: "unat (push_bit 2 v) = 4 * unat v" if "unat v < 2 ^ 53" for v :: f64
    using that by (simp add: push_bit_eq_mult unat_word_ariths)
  let ?F = "4 * unat fm" and ?G = "4 * unat gm"
  have F: "unat (push_bit 2 fm) = ?F" "2 ^ 54 \<le> ?F" "?F < 2 ^ 55" using quad [OF m(2)] m by simp_all
  have G: "unat (push_bit 2 gm) = ?G" "?G < 2 ^ 55" using quad [OF m(4)] m by simp_all
  have H: "unat h = ?G div 2 ^ k" unfolding h k_def [symmetric] unat_drop_bit_64 G(1) ..
  have "t = take_bit k (push_bit 2 gm)"
    unfolding t k_def [symmetric] push_bit_of_1 by (simp only: mask_eq_exp_minus_1 [symmetric] take_bit_eq_mask)
  then have t0: "t = 0 \<longleftrightarrow> ?G mod 2 ^ k = 0" by (metis unat_eq_0 unat_take_bit_64 G(1))
  define p where "p = (2 :: real) powi (fe - 2 + 1022)"
  have p: "0 < p" by (simp add: p_def)
  have fp: "(2 :: real) powi (fe + 1022) = 4 * p"
  proof -
    have "(2 :: real) powi 2 * 2 powi (fe - 2 + 1022) = 2 powi (fe + 1022)" unfolding powi_plus by (rule arg_cong [of _ _ "(powi) 2"]) simp
    then show ?thesis by (simp add: p_def)
  qed
  have gp: "(2 :: real) powi (ge + 1022) * 2 ^ k = 4 * p"
  proof -
    have "(2 :: real) powi (ge + 1022) * 2 powi int k = 2 powi (fe + 1022)"
      unfolding powi_plus ge by (rule arg_cong [of _ _ "(powi) 2"]) simp
    then show ?thesis unfolding fp by (simp only: power_int_of_nat)
  qed
  define r where "r = real (?G mod 2 ^ k) / 2 ^ k"
  have r: "0 \<le> r" "r < 1" "r = 0 \<longleftrightarrow> t = 0"
  proof -
    have "real (?G mod 2 ^ k) < real (2 ^ k)" unfolding of_nat_less_iff by simp
    then show "r < 1" by (simp add: r_def)
  qed (simp_all add: r_def t0)
  have A: "a = real ?F * p" unfolding a fp of_nat_mult by simp
  have split: "real n / 2 ^ k = real (n div 2 ^ k) + real (n mod 2 ^ k) / 2 ^ k" for n :: nat
  proof -
    have "real n = real (n div 2 ^ k * 2 ^ k + n mod 2 ^ k)" by (simp only: div_mult_mod_eq)
    then have n: "real n = real (n div 2 ^ k) * 2 ^ k + real (n mod 2 ^ k)"
      by (simp only: of_nat_add of_nat_mult of_nat_power of_nat_numeral)
    have "(x * 2 ^ k + y) / 2 ^ k = x + y / 2 ^ k" for x y :: real by (simp add: add_divide_distrib)
    then show ?thesis by (subst n)
  qed
  have Gr: "real ?G / 2 ^ k = real (unat h) + r" unfolding H r_def by (rule split)
  have B: "b = (real (unat h) + r) * p"
  proof -
    have "b * 2 ^ k = real ?G * p" unfolding b mult.assoc gp of_nat_mult by simp
    then have "b = real ?G / 2 ^ k * p" by (simp add: field_simps)
    then show ?thesis unfolding Gr .
  qed
  have "?G div 2 ^ k \<le> ?G" by (rule div_le_dividend)
  then have Hle: "unat h \<le> ?G" unfolding H .
  have S: "unat (push_bit 2 fm + h) = ?F + unat h" using F(1,3) G(2) Hle by (simp add: unat_word_ariths)
  show "2 ^ 54 \<le> unat (push_bit 2 fm + h)" unfolding S using F(2) by linarith
  have gen: "covers x w (fe - 2) t" if "x = (n + q) * p" "n = real (unat w)" "q = 0 \<and> t = 0 \<or> 0 < q \<and> q < 1 \<and> t \<noteq> 0" for x w n q
  proof (cases "t = 0")
    case False
    then have "n * p < (n + q) * p \<and> (n + q) * p < (n + 1) * p" using that(3) p by (intro conjI mult_strict_right_mono) auto
    then show ?thesis unfolding covers_def p_def [symmetric] that(1) that(2) [symmetric] using False by simp
  next
    case True
    then show ?thesis unfolding covers_def p_def [symmetric] that(1) that(2) [symmetric] using that(3) by simp
  qed
  show "covers (a + b) (push_bit 2 fm + h) (fe - 2) t"
  proof (rule gen)
    show "a + b = (real (?F + unat h) + r) * p" unfolding A B of_nat_add by (simp only: distrib_right add.assoc)
  qed (use r S in auto)
  have hF: "unat h \<le> ?F \<and> (t \<noteq> 0 \<longrightarrow> unat h \<le> 2 ^ 52)"
  proof (cases "k = 0")
    case True
    then show ?thesis using o(2) ge H t0 by simp
  next
    case False
    have l: "unat h \<le> ?G div 2 ^ j" if "j \<le> k" for j
      unfolding H using that by (intro div_le_mono2) simp_all
    from l [of 1] False have "unat h \<le> ?F" using F(2) G(2) by simp
    moreover have "unat h \<le> 2 ^ 52" if "t \<noteq> 0"
    proof -
      have "3 \<le> k"
      proof (rule ccontr)
        assume "\<not> 3 \<le> k"
        then have "k = 0 \<or> k = 1 \<or> k = 2" by linarith
        then show False using that t0 by auto
      qed
      from l [OF this] show ?thesis using G(2) by simp
    qed
    ultimately show ?thesis by blast
  qed
  have D: "unat (push_bit 2 fm - h) = ?F - unat h" using hF F(1) by (simp add: unat_sub word_le_nat_alt)
  have D1: "unat (push_bit 2 fm - h - 1) = ?F - unat h - 1 \<and> 2 ^ 53 \<le> ?F - unat h - 1" if "t \<noteq> 0"
  proof -
    have big: "2 ^ 53 \<le> ?F - unat h - 1" using hF that F(2) by auto
    then have "0 < unat (push_bit 2 fm - h)" unfolding D by simp
    then have "push_bit 2 fm - h \<noteq> 0" by auto
    then show ?thesis using big by (simp add: unat_minus_one D)
  qed
  then show "t \<noteq> 0 \<longrightarrow> 2 ^ 53 \<le> unat (push_bit 2 fm - h - 1)" by simp
  show "covers (a - b) (if t \<noteq> 0 then push_bit 2 fm - h - 1 else push_bit 2 fm - h) (fe - 2) t"
  proof (cases "t = 0")
    case True
    show ?thesis
    proof (rule gen)
      show "a - b = (real (?F - unat h) + 0) * p" unfolding A B using hF r True by (simp only: of_nat_diff) (simp add: algebra_simps)
    qed (use True D in simp_all)
  next
    case False
    show ?thesis
    proof (rule gen)
      have "0 < ?F - unat h - 1" by (rule less_le_trans [OF _ conjunct2 [OF D1 [OF False]]]) simp
      then have "?F = ?F - unat h - 1 + 1 + unat h" by linarith
      then have "real ?F = real (?F - unat h - 1) + 1 + real (unat h)" by (metis of_nat_1 of_nat_add)
      then show "a - b = (real (?F - unat h - 1) + (1 - r)) * p" unfolding A B by (simp only:) (simp only: algebra_simps)
    qed (use False D1 r in auto)
  qed
qed

text \<open>
  Where a sum may be packed: it is zero or not subnormal, or the operands are small. A cancellation
  below \<open>2^-1022\<close> of greater operands is packed wrongly, as an example shows below.
\<close>

definition packs_sum :: "real \<Rightarrow> real \<Rightarrow> bool" where
  "packs_sum x y \<longleftrightarrow> x + y = 0 \<or> 1 / 2 ^ 1022 \<le> \<bar>x + y\<bar> \<or> max \<bar>x\<bar> \<bar>y\<bar> < 1 / 2 ^ 1020"

lemma small_exponent:
  assumes "2 ^ 52 \<le> unat m" "\<bar>x\<bar> * 2 ^ 1074 = real (unat m) * 2 powi (e + 1022)" "\<bar>x\<bar> < 1 / 2 ^ 1020"
  shows "e - 2 \<le> - 1023"
proof (rule ccontr)
  assume "\<not> e - 2 \<le> - 1023"
  then have "(2 :: real) powi 2 \<le> 2 powi (e + 1022)" by (intro powi_bound) simp
  moreover have "real (2 ^ 52) \<le> real (unat m)" unfolding of_nat_le_iff by (rule assms(1))
  ultimately have "2 ^ 52 * 4 \<le> \<bar>x\<bar> * 2 ^ 1074" unfolding assms(2) by (intro mult_mono) simp_all
  moreover have "\<bar>x\<bar> * 2 ^ 1074 < 1 / 2 ^ 1020 * 2 ^ 1074" using assms(3) by (intro mult_strict_right_mono) simp_all
  ultimately show False by simp
qed

lemma fadd64_swap:
  assumes f: "funpack64 f = (fs, fm, fe, False, False)" "fm \<noteq> 0" and g: "funpack64 g = (gs, gm, ge, False, False)" "gm \<noteq> 0"
    and "fe < ge \<or> fe = ge \<and> fm < gm"
  shows "fadd64 f g = fadd64 g f"
proof -
  have n: "\<not> (ge < fe \<or> ge = fe \<and> gm < fm)" using assms(5) by auto
  have c: "(gs = fs) = (fs = gs)" by auto
  show ?thesis
    unfolding fadd64_def f(1) g(1) prod.case Let_def
    by (simp only: f(2) g(2) assms(5) n c if_True if_False prod.case simp_thms)
qed

lemma fadd64_ordered:
  assumes f: "funpack64 f = (fs, fm, fe, False, False)" "fm \<noteq> 0" and g: "funpack64 g = (gs, gm, ge, False, False)" "gm \<noteq> 0"
    and o: "ge \<le> fe" "fe = ge \<longrightarrow> unat gm \<le> unat fm" and ok: "packs_sum (fval f) (fval g)"
  shows "nearest_float (fval f + fval g) (fadd64 f g)"
proof -
  note vf = fval_parts [OF f] and vg = fval_parts [OF g]
  define t where "t = push_bit 2 gm AND (push_bit (nat (fe - ge)) 1 - 1)"
  define h where "h = drop_bit (nat (fe - ge)) (push_bit 2 gm)"
  define M where "M = (if fs = gs then push_bit 2 fm + h else if t \<noteq> 0 then push_bit 2 fm - h - 1 else push_bit 2 fm - h)"
  let ?x = "fval f + fval g"
  have r: "fadd64 f g = fpack64 (if M = 0 then 0 else fs) M (fe - 2) t"
  proof -
    have "\<not> (fe < ge \<or> fe = ge \<and> fm < gm)" using o by (auto simp: word_less_nat_alt)
    then show ?thesis
      unfolding fadd64_def f(1) g(1) prod.case Let_def M_def h_def t_def
      by (simp only: f(2) g(2) if_False prod.case simp_thms)
  qed
  note al = aligned_sum [OF vf(2,3) vg(2,3) o t_def h_def vf(5) vg(5)]
  have big: "2 ^ 52 \<le> \<bar>?x\<bar> * 2 ^ 1074" if "1 / 2 ^ 1022 \<le> \<bar>?x\<bar>"
  proof -
    have "1 / 2 ^ 1022 * 2 ^ 1074 \<le> \<bar>?x\<bar> * 2 ^ 1074" using that by (intro mult_right_mono) simp_all
    then show ?thesis by simp
  qed
  have e: "fe - 2 \<le> - 1023 \<or> 2 ^ 52 \<le> \<bar>?x\<bar> * 2 ^ 1074" if "?x \<noteq> 0"
    using ok that big small_exponent [OF vf(2,5)] unfolding packs_sum_def by auto
  show ?thesis
  proof (cases "fs = gs")
    case True
    have x: "\<bar>?x\<bar> = \<bar>fval f\<bar> + \<bar>fval g\<bar>" "fs = (if ?x < 0 then neg64 else 0)" "?x \<noteq> 0"
      using vf(4,6) vg(4,6) True by (auto split: if_splits)
    have c: "covers (\<bar>?x\<bar> * 2 ^ 1074) M (fe - 2) t" using al(1) True by (simp add: M_def x(1) distrib_right)
    have m: "2 ^ 54 \<le> unat M" using al(2) True by (simp add: M_def)
    then have "M \<noteq> 0" by auto
    then show ?thesis unfolding r using x m c e by (intro fpack64_nearest) auto
  next
    case False
    have d: "0 \<le> \<bar>fval f\<bar> * 2 ^ 1074 - \<bar>fval g\<bar> * 2 ^ 1074"
      by (rule order_trans [OF mult_nonneg_nonneg covers_bounds(1) [OF al(3)]]) (rule of_nat_0_le_iff, simp)
    then have le: "\<bar>fval g\<bar> \<le> \<bar>fval f\<bar>" by simp
    then have x: "\<bar>?x\<bar> = \<bar>fval f\<bar> - \<bar>fval g\<bar>" "?x \<noteq> 0 \<longrightarrow> fs = (if ?x < 0 then neg64 else 0)"
      using vf(4,6) vg(4,6) False by (auto split: if_splits)
    have c: "covers (\<bar>?x\<bar> * 2 ^ 1074) M (fe - 2) t" using al(3) False by (simp add: M_def x(1) left_diff_distrib)
    have m: "t \<noteq> 0 \<longrightarrow> 2 ^ 53 \<le> unat M" using al(4) False by (simp add: M_def)
    show ?thesis
    proof (cases "M = 0")
      case True
      then have "t = 0" using m by auto
      then have "?x = 0" using c True by (simp add: covers_def)
      moreover have "f64_mag (fadd64 f g) = 0" unfolding r using True by (simp add: fpack64_def f64_mag_def)
      ultimately show ?thesis using nearest_zero by simp
    next
      case nz: False
      have "?x \<noteq> 0"
      proof
        assume "?x = 0"
        then have "real (unat M) * 2 powi (fe - 2 + 1022) \<le> 0" using covers_bounds(1) [OF c] by simp
        moreover have "0 < real (unat M)" unfolding of_nat_0_less_iff using nz by (simp add: unat_gt_0)
        then have "0 < real (unat M) * 2 powi (fe - 2 + 1022)" by (rule mult_pos_pos) simp
        ultimately show False by linarith
      qed
      then show ?thesis unfolding r using nz x m c e by (intro fpack64_nearest) auto
    qed
  qed
qed

lemma nearest_itself: "f64_finite f \<Longrightarrow> nearest_float (fval f) f"
proof -
  assume f: "f64_finite f"
  show ?thesis
  proof (cases "f64_mag f = 0")
    case True
    then show ?thesis using nearest_zero by (simp add: fval_zero)
  next
    case False
    then have "0 < mval (f64_mag f)" using mval_strict [of 0 "f64_mag f"] by simp
    then have "bit f 63 \<longleftrightarrow> fval f < 0" by (simp add: fval_def)
    moreover have "rounds (\<bar>fval f\<bar> * 2 ^ 1074) (f64_mag f)" unfolding fval_scaled by (rule rounds_exact)
    moreover have "f64_mag f = min (f64_mag f) (2047 * 2 ^ 52)"
      using f unfolding f64_finite_def by (simp only: min_absorb1 less_imp_le)
    ultimately show ?thesis by (intro rounds_nearest)
  qed
qed

theorem fadd64_nearest:
  assumes "f64_finite f" "f64_finite g" "packs_sum (fval f) (fval g)"
  shows "nearest_float (fval f + fval g) (fadd64 f g)"
proof -
  obtain fs fm fe where f: "funpack64 f = (fs, fm, fe, False, False)" "fm = 0 \<longleftrightarrow> f64_mag f = 0" "fs = (if bit f 63 then neg64 else 0)"
    using finite_unpack [OF assms(1)] .
  obtain gs gm ge where g: "funpack64 g = (gs, gm, ge, False, False)" "gm = 0 \<longleftrightarrow> f64_mag g = 0" "gs = (if bit g 63 then neg64 else 0)"
    using finite_unpack [OF assms(2)] .
  show ?thesis
  proof (cases "fm = 0 \<or> gm = 0")
    case True
    consider "fm = 0" "gm = 0" | "fm = 0" "gm \<noteq> 0" | "fm \<noteq> 0" "gm = 0" using True by blast
    then show ?thesis
    proof cases
      case 1
      then have "f64_mag (fadd64 f g) = 0" using f g mag_xor_sign [of gs g] by (simp add: fadd64_def)
      then show ?thesis using nearest_zero 1 f(2) g(2) by (simp add: fval_zero)
    next
      case 2
      then have "fadd64 f g = g" using f(1) g(1) by (simp add: fadd64_def)
      then show ?thesis using nearest_itself [OF assms(2)] 2 f(2) by (simp add: fval_zero)
    next
      case 3
      then have "fadd64 f g = f" using f(1) g(1) by (simp add: fadd64_def)
      then show ?thesis using nearest_itself [OF assms(1)] 3 g(2) by (simp add: fval_zero)
    qed
  next
    case False
    then have nz: "fm \<noteq> 0" "gm \<noteq> 0" by simp_all
    have ok: "packs_sum (fval g) (fval f)" using assms(3) by (simp add: packs_sum_def add.commute max.commute)
    show ?thesis
    proof (cases "fe < ge \<or> fe = ge \<and> fm < gm")
      case True
      then have "fe \<le> ge" "ge = fe \<longrightarrow> unat fm \<le> unat gm" by (auto simp: word_less_nat_alt)
      from fadd64_ordered [OF g(1) nz(2) f(1) nz(1) this ok] show ?thesis
        by (simp only: fadd64_swap [OF f(1) nz(1) g(1) nz(2) True] add.commute)
    next
      case less: False
      then have "ge \<le> fe" "fe = ge \<longrightarrow> unat gm \<le> unat fm" by (auto simp: word_less_nat_alt)
      from fadd64_ordered [OF f(1) nz(1) g(1) nz(2) this assms(3)] show ?thesis .
    qed
  qed
qed

lemma fval_fneg64: "fval (fneg64 g) = - fval g"
  using fneg64_bits [of g] by (simp add: fval_def)

theorem fsub64_nearest:
  assumes "f64_finite f" "f64_finite g" "packs_sum (fval f) (- fval g)"
  shows "nearest_float (fval f - fval g) (fsub64 f g)"
proof -
  have "f64_finite (fneg64 g)" using assms(2) fneg64_bits(2) by (simp add: f64_finite_def)
  from fadd64_nearest [OF assms(1) this] assms(3) show ?thesis by (simp add: fsub64_def fval_fneg64)
qed

text \<open>
  The difference of \<open>2^-1020 + 2^-1072\<close> and \<open>2^-1020\<close> is \<open>2^-1072\<close>, a float. The packing first
  normalises the mantissa \<open>4\<close>, then starts again from it for the subnormal result, but shifts it only
  to the right, and returns half of the difference.
\<close>

theorem cancellation_misrounds:
  "fval 0x0030000000000001 - fval 0x0030000000000000 = fval 4"
  "fsub64 0x0030000000000001 0x0030000000000000 = 2" "fval 2 = fval 4 / 2"
proof -
  show "fsub64 0x0030000000000001 0x0030000000000000 = 2" by code_simp
qed (simp_all add: fval_def mval_def f64_mag_def bit_63_iff)

end
