(* ===== verification/Go_Sqrt.thy ===== *)
theory Go_Sqrt
  imports Go_Float64_Round
begin

text \<open>
  The square root of \<open>math/sqrt.go\<close>: the loop over the bits computes the integer root with its
  remainder, and the result is the float nearest to the real root, for subnormal arguments, too.
\<close>

section \<open>The integer root, bit by bit\<close>

text \<open>
  With the bits above \<open>j\<close> decided, \<open>q\<close> is the root so far, \<open>s\<close> is twice the root, and \<open>ix\<close> is what is
  left of \<open>T\<close>, divided by \<open>2^j\<close>.
\<close>

lemma unat_exp: "j < 64 \<Longrightarrow> unat (2 ^ j :: f64) = 2 ^ j"
proof -
  assume "j < 64"
  then have "(2 :: nat) ^ j < 2 ^ 64" by (intro power_strict_increasing) simp_all
  moreover have "(2 ^ j :: f64) = word_of_nat (2 ^ j)" by simp
  then have "unat (2 ^ j :: f64) = 2 ^ j mod 2 ^ 64" by (simp only: unat_of_nat take_bit_eq_mod) simp
  ultimately show ?thesis by simp
qed

lemma sqrt_step:
  fixes ix q s :: f64
  assumes "j \<le> 53" "unat ix * 2 ^ j + (unat q)\<^sup>2 = T" "unat s = 2 * unat q" "T < (unat q + 2 * 2 ^ j)\<^sup>2" "T < 2 ^ 108"
    and "(s1, ix1, q1) = (if s + 2 ^ j \<le> ix then (s + 2 ^ j + 2 ^ j, ix - (s + 2 ^ j), q + 2 ^ j) else (s, ix, q))"
  shows "unat ix1 * 2 ^ j + (unat q1)\<^sup>2 = T" "unat s1 = 2 * unat q1" "T < (unat q1 + 2 ^ j)\<^sup>2"
    "unat (push_bit 1 ix1) = 2 * unat ix1"
proof -
  let ?p = "2 ^ j :: nat"
  have "?p \<le> 2 ^ 53" using assms(1) by (intro power_increasing) simp_all
  then have p: "?p \<le> 9007199254740992" by simp
  have r: "unat (2 ^ j :: f64) = ?p" using assms(1) by (simp add: unat_exp)
  have "(unat q)\<^sup>2 < (2 ^ 54)\<^sup>2" using assms(2,5) by simp
  then have q: "unat q < 2 ^ 54" by (rule power_less_imp_less_base) simp
  have add: "unat (v + 2 ^ j) = unat v + ?p" if "unat v < 2 ^ 60" for v :: f64 using that p by (simp add: unat_word_ariths r)
  have t: "unat (s + 2 ^ j) = 2 * unat q + ?p" using q assms(3) add [of s] by simp
  have c: "s + 2 ^ j \<le> ix \<longleftrightarrow> (unat q + ?p)\<^sup>2 \<le> T"
  proof -
    have "s + 2 ^ j \<le> ix \<longleftrightarrow> (2 * unat q + ?p) * ?p \<le> unat ix * ?p" by (simp add: word_le_nat_alt t)
    moreover have "(unat q + ?p)\<^sup>2 = (2 * unat q + ?p) * ?p + (unat q)\<^sup>2" by (simp add: power2_eq_square algebra_simps)
    ultimately show ?thesis using assms(2) by linarith
  qed
  have "unat ix1 * ?p + (unat q1)\<^sup>2 = T \<and> unat s1 = 2 * unat q1 \<and> T < (unat q1 + ?p)\<^sup>2 \<and> unat q1 < 2 ^ 55"
  proof (cases "s + 2 ^ j \<le> ix")
    case True
    then have e: "s1 = s + 2 ^ j + 2 ^ j" "ix1 = ix - (s + 2 ^ j)" "q1 = q + 2 ^ j" using assms(6) by simp_all
    have "unat ix1 + (2 * unat q + ?p) = unat ix" unfolding e(2) using True by (simp add: unat_sub word_le_nat_alt t)
    then have "unat ix * ?p = unat ix1 * ?p + (2 * unat q + ?p) * ?p" by (metis add_mult_distrib)
    moreover have q1: "unat q1 = unat q + ?p" unfolding e(3) using q by (intro add) simp
    moreover have "unat s1 = 2 * unat q1" unfolding e(1) q1 using q p t add [of "s + 2 ^ j"] by simp
    moreover have "(unat q + ?p)\<^sup>2 = (2 * unat q + ?p) * ?p + (unat q)\<^sup>2" by (simp add: power2_eq_square algebra_simps)
    ultimately show ?thesis using assms(2,4) q p by (simp add: add.assoc mult_2)
  next
    case False
    then show ?thesis using assms(2,3,6) c q by simp
  qed
  then have n: "unat ix1 * ?p + (unat q1)\<^sup>2 = T" "unat s1 = 2 * unat q1" "T < (unat q1 + ?p)\<^sup>2" "unat q1 < 2 ^ 55" by blast+
  then show "unat ix1 * ?p + (unat q1)\<^sup>2 = T" "unat s1 = 2 * unat q1" "T < (unat q1 + ?p)\<^sup>2" by blast+
  have "(unat q1 + ?p)\<^sup>2 = (2 * unat q1 + ?p) * ?p + (unat q1)\<^sup>2" by (simp add: power2_eq_square algebra_simps)
  then have "unat ix1 * ?p < (2 * unat q1 + ?p) * ?p" using n(1,3) by linarith
  then have "unat ix1 < 2 * unat q1 + ?p" by simp
  then have "unat ix1 < 2 ^ 63" using n(4) p by simp
  then show "unat (push_bit 1 ix1) = 2 * unat ix1" by (simp add: push_bit_eq_mult unat_word_ariths)
qed

lemma sqrt_bits_root:
  assumes "sqrt_bits ix q s (2 ^ j) = (ix', q')" "j \<le> 53"
    and "unat ix * 2 ^ j + (unat q)\<^sup>2 = T" "unat s = 2 * unat q" "T < (unat q + 2 * 2 ^ j)\<^sup>2" "T < 2 ^ 108"
  shows "(unat q')\<^sup>2 \<le> T \<and> T < (unat q' + 1)\<^sup>2 \<and> unat ix' = 2 * (T - (unat q')\<^sup>2)"
  using assms
proof (induction j arbitrary: ix q s)
  case 0
  obtain s1 ix1 q1 where e: "(s1, ix1, q1) = (if s + 2 ^ 0 \<le> ix then (s + 2 ^ 0 + 2 ^ 0, ix - (s + 2 ^ 0), q + 2 ^ 0) else (s, ix, q))"
    by (metis prod_cases3)
  note st = sqrt_step [OF 0(2-6) e]
  have d: "drop_bit 1 (2 ^ 0) = (0 :: f64)" and nz: "(2 ^ 0 :: f64) \<noteq> 0" by simp_all
  have "sqrt_bits ix q s (2 ^ 0) = sqrt_bits (push_bit 1 ix1) q1 s1 0"
    by (subst sqrt_bits.simps) (simp only: e [symmetric] Let_def prod.case d if_True nz not_False_eq_True)
  then have "ix' = push_bit 1 ix1" "q' = q1" using 0(1) by (simp_all add: sqrt_bits.simps [of _ _ _ 0])
  then show ?case using st by auto
next
  case (Suc j)
  obtain s1 ix1 q1 where e: "(s1, ix1, q1) =
      (if s + 2 ^ Suc j \<le> ix then (s + 2 ^ Suc j + 2 ^ Suc j, ix - (s + 2 ^ Suc j), q + 2 ^ Suc j) else (s, ix, q))"
    by (metis prod_cases3)
  note st = sqrt_step [OF Suc.prems(2-6) e]
  have d: "drop_bit 1 (2 ^ Suc j) = (2 ^ j :: f64)"
    unfolding word_unat_eq_iff unat_drop_bit_64 using unat_exp [of "Suc j"] unat_exp [of j] Suc.prems(2) by (simp del: power_Suc) simp
  have nz: "(2 ^ Suc j :: f64) \<noteq> 0"
    unfolding word_unat_eq_iff using unat_exp [of "Suc j"] Suc.prems(2) by (simp del: power_Suc)
  have "sqrt_bits ix q s (2 ^ Suc j) = sqrt_bits (push_bit 1 ix1) q1 s1 (2 ^ j)"
    using nz by (subst sqrt_bits.simps) (simp only: e [symmetric] Let_def prod.case d if_True not_False_eq_True)
  then show ?case using st Suc.prems by (intro Suc.IH [of "push_bit 1 ix1" q1 s1]) (simp_all add: mult.assoc)
qed

section \<open>The arguments of the loop\<close>

lemma sqrt_norm_is_norm_up: "sqrt_norm ix e = norm_up ix e"
proof (induction ix e rule: norm_up.induct)
  case (1 ix e)
  show ?case
  proof (cases "ix < top64 \<and> ix \<noteq> 0")
    case True
    then have "unat ix < 2 ^ 52" by (simp add: word_less_nat_alt)
    then have "ix = take_bit 52 ix" by (simp add: word_unat_eq_iff unat_take_bit_64)
    then have "\<not> bit ix 52" by (metis bit_take_bit_iff less_irrefl)
    then have "ix AND top64 = 0" using and_exp_eq_0_iff_not_bit [of ix 52] by simp
    then show ?thesis using 1 True by (simp add: sqrt_norm.simps [of ix] norm_up.simps [of ix])
  next
    case False
    then show ?thesis by (subst sqrt_norm.simps, subst norm_up.simps) auto
  qed
qed

lemma norm_up_plus: "norm_up m (e + c) = (fst (norm_up m e), snd (norm_up m e) + c)"
proof (induction m e rule: norm_up.induct)
  case (1 m e)
  have c: "e - 1 + c = e + c - 1" by simp
  show ?case
  proof (cases "m < top64 \<and> m \<noteq> 0")
    case True
    then show ?thesis using 1 unfolding c by (simp add: norm_up.simps [of m])
  next
    case False
    then have "norm_up m x = (m, x)" for x by (subst norm_up.simps) auto
    then show ?thesis by simp
  qed
qed

lemma clear_exponent: "unat v < 2 ^ 63 \<Longrightarrow> v AND NOT (push_bit 52 0x7FF) = take_bit 52 (v :: f64)"
proof -
  assume "unat v < 2 ^ 63"
  then have v: "\<not> bit v 63" by (simp add: bit_63_iff)
  have m: "(0x7FF :: f64) = mask 11" by (simp add: mask_eq_exp_minus_1)
  have "\<not> bit v n" if "63 \<le> n" for n using v that bit_imp_le_length [of v n] by (cases "n = 63") auto
  then show ?thesis
    unfolding m by (intro bit_word_eqI) (auto simp: bit_simps not_less)
qed

lemma leading_bit: "2 ^ 52 \<le> unat m \<Longrightarrow> unat m < 2 ^ 53 \<Longrightarrow> take_bit 52 m OR top64 = (m :: f64)"
proof -
  assume m: "2 ^ 52 \<le> unat m" "unat m < 2 ^ 53"
  have t: "(0x10000000000000 :: f64) = 2 ^ 52" by simp
  have "take_bit 52 m AND top64 = 0"
    unfolding t by (rule bit_word_eqI) (simp only: bit_and_iff bit_take_bit_iff bit_exp_iff bit_0_eq, simp)
  then have "take_bit 52 m OR top64 = take_bit 52 m + top64" by (simp add: disjunctive_add_eq_or)
  moreover have "unat (take_bit 52 m) = unat m - 2 ^ 52" using m by (simp add: unat_take_bit_64 mod_if le_mod_geq)
  ultimately show ?thesis using m by (simp add: word_unat_eq_iff unat_word_ariths)
qed

text \<open>The mantissa and the exponent of \<open>Sqrt\<close> are those of the unpacking.\<close>

lemma Sqrt_unpacked:
  assumes f: "funpack64 f = (0, m, e, False, False)" "m \<noteq> 0"
    and d: "sqrt_bits (push_bit 1 (if e mod 2 = 1 then push_bit 1 m else m)) 0 0 (2 ^ 53) = (ix, q)"
  shows "Sqrt f = drop_bit 1 (if ix \<noteq> 0 then q + (q AND 1) else q) + push_bit 52 (word_of_int (e div 2 - 1 + 1023))"
proof -
  note c = funpack64_class [OF f(1)]
  have pos: "\<not> bit f 63" using c(1) by (auto split: if_splits)
  then have f63: "unat f < 2 ^ 63" by (simp add: bit_63_iff)
  have fin: "f64_mag f < 2047 * 2 ^ 52" "f64_mag f \<noteq> 0" "\<not> f64_nan f" using c(2,3,4) f(2) by (auto simp: f64_nan_def)
  have key: "f64_key f = int (f64_mag f)" using pos by (simp add: f64_key_def)
  have z: "f64_key 0 = 0" "\<not> f64_nan 0" by (simp_all add: f64_key_def f64_mag_def f64_nan_def)
  have mx: "f64_key MaxFloat64 = 2047 * 2 ^ 52 - 1" "\<not> f64_nan MaxFloat64"
    by (simp_all add: MaxFloat64_def f64_key_def f64_mag_def f64_nan_def bit_63_iff)
  have guards: "\<not> feq64 f 0" "\<not> IsNaN f" "\<not> IsInf1 f" "\<not> flt64 f 0"
    using fin key z mx by (simp_all add: feq64_iff fgt64_iff IsNaN_def IsInf1_def)
  define ie where "ie = (if uint (drop_bit 52 f AND 0x7FF) = 0
      then let (ix, e) = sqrt_norm f (uint (drop_bit 52 f AND 0x7FF)) in (ix, e + 1) else (f, uint (drop_bit 52 f AND 0x7FF)))"
  have norm: "(fst ie AND NOT (push_bit 52 0x7FF)) OR top64 = m \<and> snd ie - 1023 = e"
  proof (cases "uint (drop_bit 52 f AND 0x7FF) = 0")
    case True
    then have E: "f64_mag f div 2 ^ 52 = 0" by (simp add: f64_exponent)
    have M: "f AND 0xFFFFFFFFFFFFF = f"
    proof -
      have "f64_mag f = unat f" using f63 by (simp add: f64_mag_def)
      then show ?thesis using E f64_mantissa [of f] by (simp add: word_unat_eq_iff div_eq_0_iff)
    qed
    have nz: "f \<noteq> 0" using fin(2) by (auto simp: f64_mag_def)
    have n: "norm_up f (- 1022) = (m, e)" using f(1) True M nz by (simp add: funpack64_def Let_def split: prod.splits)
    have "norm_up f 0 = (m, e + 1022)" using norm_up_plus [of f "- 1022" 1022] n by simp
    moreover have "2 ^ 52 \<le> unat m" "unat m < 2 ^ 53" using fval_parts [OF f] by auto
    ultimately show ?thesis using True clear_exponent [of m] leading_bit [of m] by (simp add: ie_def sqrt_norm_is_norm_up)
  next
    case False
    then have "m = f AND 0xFFFFFFFFFFFFF OR top64" "e = uint (drop_bit 52 f AND 0x7FF) - 1023"
      using f(1) by (auto simp: funpack64_def Let_def split: if_splits prod.splits)
    then show ?thesis using False clear_exponent [OF f63] by (simp add: ie_def and_mask_52)
  qed
  obtain i x where ix: "ie = (i, x)" by fastforce
  have m: "(i AND NOT (push_bit 52 0x7FF)) OR top64 = m" "x - 1023 = e" using norm by (simp_all add: ix)
  have g: "\<not> (feq64 f 0 \<or> IsNaN f \<or> IsInf1 f)" using guards by blast
  show ?thesis
    unfolding Sqrt_def Let_def
    unfolding ie_def [unfolded Let_def, symmetric] ix prod.case m d
    by (simp only: g guards(4) if_False)
qed

section \<open>The root is correctly rounded\<close>

lemma sqrt_between:
  assumes "q\<^sup>2 \<le> T" "T < (q + 1)\<^sup>2"
  shows "real q \<le> sqrt (real T)" "sqrt (real T) < real q + 1" "sqrt (real T) = real q \<longleftrightarrow> q\<^sup>2 = T"
proof -
  have "real (q\<^sup>2) \<le> real T" "real T < real ((q + 1)\<^sup>2)" using assms by (simp_all only: of_nat_le_iff of_nat_less_iff)
  then show "real q \<le> sqrt (real T)" "sqrt (real T) < real q + 1"
    by (auto intro!: real_le_rsqrt real_less_lsqrt simp: power2_eq_square algebra_simps)
  show "sqrt (real T) = real q \<longleftrightarrow> q\<^sup>2 = T"
  proof
    assume "sqrt (real T) = real q"
    then have "real T = (real q)\<^sup>2" by (metis of_nat_0_le_iff real_sqrt_pow2)
    then show "q\<^sup>2 = T" by (metis of_nat_eq_iff of_nat_power)
  next
    assume "q\<^sup>2 = T"
    then show "sqrt (real T) = real q" by (metis of_nat_0_le_iff of_nat_power real_sqrt_unique)
  qed
qed

theorem Sqrt_nearest:
  assumes "f64_finite f" "0 \<le> fval f"
  shows "nearest_float (sqrt (fval f)) (Sqrt f)"
proof (cases "f64_mag f = 0")
  case True
  have "f64_key 0 = 0" "\<not> f64_nan 0" "\<not> f64_nan f" using assms(1) by (simp_all add: f64_key_def f64_mag_def f64_nan_def f64_finite_def)
  then have "feq64 f 0" using True by (simp add: feq64_iff f64_key_def)
  then have "Sqrt f = f" by (simp add: Sqrt_def)
  then show ?thesis using nearest_zero [OF True] True by (simp add: fval_zero)
next
  case False
  obtain s m e where f: "funpack64 f = (s, m, e, False, False)" "m \<noteq> 0"
    using finite_unpack [OF assms(1)] False by metis
  note v = fval_parts [OF f]
  have "s = 0" using v(4) assms(2) by simp
  note f = f [unfolded this]
  define E where "E = e div 2"
  define M where "M = (if e mod 2 = 1 then push_bit 1 m else m)"
  define n where "n = (if e mod 2 = 1 then 2 * unat m else unat m)"
  define T where "T = n * 2 ^ 54"
  have pm: "unat (push_bit 1 v) = 2 * unat v" if "unat v < 2 ^ 60" for v :: f64
    using that by (simp add: push_bit_eq_mult unat_word_ariths)
  have M: "unat M = n" unfolding M_def n_def using pm [of m] v(3) by simp
  have n: "2 ^ 52 \<le> n" "n < 2 ^ 54" using v(2,3) by (simp_all add: n_def)
  have M2: "unat (push_bit 1 M) = 2 * n"
  proof -
    have "unat M < 2 ^ 60" using n(2) by (simp add: M)
    from pm [OF this] show ?thesis unfolding M .
  qed
  obtain ix q where d: "sqrt_bits (push_bit 1 M) 0 0 (2 ^ 53) = (ix, q)" by fastforce
  have T108: "T < 2 ^ 108" using n(2) by (simp add: T_def)
  have q: "(unat q)\<^sup>2 \<le> T" "T < (unat q + 1)\<^sup>2" "unat ix = 2 * (T - (unat q)\<^sup>2)"
  proof -
    have "unat (push_bit 1 M) * 2 ^ 53 + (unat (0 :: f64))\<^sup>2 = T" unfolding M2 by (simp add: T_def)
    moreover have "T < (unat (0 :: f64) + 2 * 2 ^ 53)\<^sup>2" using T108 by simp
    ultimately show "(unat q)\<^sup>2 \<le> T" "T < (unat q + 1)\<^sup>2" "unat ix = 2 * (T - (unat q)\<^sup>2)"
      using sqrt_bits_root [OF d, of T] T108 by auto
  qed
  have q53: "2 ^ 53 \<le> unat q"
  proof -
    have "(2 ^ 53)\<^sup>2 \<le> T" using n(1) by (simp add: T_def)
    then have "(2 ^ 53)\<^sup>2 < (unat q + 1)\<^sup>2" using q(2) by (rule le_less_trans)
    then have "2 ^ 53 < unat q + 1" by (rule power_less_imp_less_base) simp
    then show ?thesis by simp
  qed
  have "(unat q)\<^sup>2 < (2 ^ 54)\<^sup>2" using q(1) T108 by simp
  then have q54: "unat q < 2 ^ 54" by (rule power_less_imp_less_base) simp
  define t :: f64 where "t = (if ix = 0 then 0 else 1)"
  have t0: "t = 0 \<longleftrightarrow> (unat q)\<^sup>2 = T"
  proof -
    have "ix = 0 \<longleftrightarrow> unat ix = 0" by (simp add: unat_eq_0)
    then show ?thesis using q(1,3) by (auto simp: t_def)
  qed
  have even: "even (unat q)" if "t = 0"
  proof -
    have "even T" by (simp add: T_def)
    then show ?thesis using that t0 by (metis even_power zero_less_numeral)
  qed
  have E: "e = 2 * E \<or> e = 2 * E + 1" "e mod 2 = 1 \<longleftrightarrow> e = 2 * E + 1" unfolding E_def by presburger+
  have p: "- 537 \<le> E"
  proof -
    have "- 1074 \<le> e"
    proof (rule ccontr)
      assume "\<not> - 1074 \<le> e"
      then have le: "(2 :: real) powi (e + 1022) \<le> 2 powi (- 53)" by (intro powi_bound) simp
      have "real (unat m) < 2 ^ 53" using unat_bound [OF v(3)] by linarith
      then have "real (unat m) * 2 powi (e + 1022) < 2 ^ 53 * 2 powi (- 53)"
        by (rule mult_less_le_imp_less [OF _ le of_nat_0_le_iff]) simp
      then have "real (mval (f64_mag f)) < 1" unfolding v(5) [symmetric] fval_scaled by simp
      then show False using False mval_strict [of 0 "f64_mag f"] by simp
    qed
    then show ?thesis using E(1) by auto
  qed
  have E511: "E \<le> 511"
  proof (cases "- 1022 \<le> e")
    case True
    then have "int (f64_mag f) = (e + 1022) * 2 ^ 52 + int (unat m)" using funpack64_parts [OF f] by (simp add: parts_def)
    moreover have "int (f64_mag f) < 2047 * 2 ^ 52" using assms(1) by (simp add: f64_finite_def)
    moreover have "int (2 ^ 52) \<le> int (unat m)" using v(2) by (simp only: of_nat_le_iff)
    ultimately have "(e + 1022) * 2 ^ 52 < 2046 * 2 ^ 52" by simp
    then show ?thesis using E(1) by auto
  qed (use E(1) in auto)
  have X: "\<bar>sqrt (fval f)\<bar> * 2 ^ 1074 = sqrt (real T) * 2 powi (E - 1 + 1022)"
  proof -
    define b where "b = (2 :: real) powi (E - 1 + 1022)"
    have b: "0 < b" by (simp add: b_def)
    have bb: "b\<^sup>2 = 2 powi (2 * E + 2042)" unfolding b_def power2_eq_square powi_plus by (rule arg_cong [of _ _ "(powi) 2"]) simp
    have nE: "real (unat m) * 2 powi (e + 1022) = real n * 2 powi (2 * E + 1022)"
    proof (cases "e = 2 * E")
      case False
      then have e: "e = 2 * E + 1" using E(1) by simp
      then have "n = 2 * unat m" using E(2) by (simp add: n_def)
      then have "real n = real (unat m) * 2" by (simp only: of_nat_mult of_nat_numeral mult.commute)
      moreover have "(2 :: real) * 2 powi (2 * E + 1022) = 2 powi (e + 1022)"
        unfolding e using power_int_add_1' [of "2 :: real" "2 * E + 1022"] by (simp add: ac_simps)
      ultimately show ?thesis by (simp only: mult.assoc)
    next
      case True
      then have "\<not> e mod 2 = 1" by simp
      then show ?thesis using True by (simp only: n_def if_False)
    qed
    have "(fval f * 2 ^ 1074) * 2 ^ 1074 = real T * b\<^sup>2"
    proof -
      have "(2 :: real) powi (2 * E + 1022) * 2 powi 1074 = 2 powi 54 * 2 powi (2 * E + 2042)"
        unfolding powi_plus by (rule arg_cong [of _ _ "(powi) 2"]) simp
      then have e: "(2 :: real) powi (2 * E + 1022) * 2 ^ 1074 = 2 ^ 54 * b\<^sup>2" unfolding bb by (simp only: power_int_numeral)
      have "fval f * 2 ^ 1074 = real n * 2 powi (2 * E + 1022)" using v(5) assms(2) nE by simp
      then have "(fval f * 2 ^ 1074) * 2 ^ 1074 = real n * (2 ^ 54 * b\<^sup>2)" by (simp only: mult.assoc e)
      then show ?thesis by (simp only: T_def of_nat_mult of_nat_power of_nat_numeral mult.assoc)
    qed
    then have "fval f * (2 ^ 1074)\<^sup>2 = real T * b\<^sup>2" by (simp only: power2_eq_square mult.assoc)
    then have "sqrt (fval f * (2 ^ 1074)\<^sup>2) = sqrt (real T * b\<^sup>2)" by simp
    then have "sqrt (fval f) * 2 ^ 1074 = sqrt (real T) * b" using b by (simp only: real_sqrt_mult real_sqrt_abs) simp
    then show ?thesis unfolding b_def [symmetric] using assms(2) by simp
  qed
  have c: "covers (\<bar>sqrt (fval f)\<bar> * 2 ^ 1074) q (E - 1) t"
  proof -
    note s = sqrt_between [OF q(1,2)]
    show ?thesis unfolding covers_def X using s t0 by (auto intro: mult_strict_right_mono)
  qed
  define k where "k = nat (E + 1022)"
  have k: "int k - 1023 = E - 1" "k \<le> 1533" using p E511 by (simp_all add: k_def)
  have r: "rounds (\<bar>sqrt (fval f)\<bar> * 2 ^ 1074) (k * 2 ^ 52 + unat (halved q t))"
    by (rule covers_rounds [OF c [folded k(1)] refl]) (use q53 q54 in auto)
  note hv = unat_halved [OF q54, of t]
  have h: "unat (drop_bit 1 (if ix \<noteq> 0 then q + (q AND 1) else q)) = unat (halved q t)"
  proof (cases "ix = 0")
    case True
    then show ?thesis using even hv by (simp add: t_def unat_drop_bit_64)
  next
    case False
    have "q AND 1 = of_bool (odd (unat q))" using odd_unat [of q] by (cases "even (unat q)") (auto simp: and_one_eq)
    then have "unat (q + (q AND 1)) = unat q + of_bool (odd (unat q))" using q54 by (simp add: unat_word_ariths)
    then show ?thesis using False hv by (auto simp: t_def unat_drop_bit_64)
  qed
  have hb: "unat (halved q t) \<le> 2 ^ 53" using hv q54 by (auto simp: of_bool_def)
  have pk: "unat (push_bit 52 (word_of_int (E - 1 + 1023)) :: f64) = k * 2 ^ 52"
  proof -
    have "E - 1 + 1023 = int k" using k(1) by linarith
    then have "word_of_int (E - 1 + 1023) = (word_of_nat k :: f64)" by (simp only: of_int_of_nat_eq)
    moreover have "unat (word_of_nat k :: f64) = k" using k(2) by (simp add: unat_of_nat take_bit_eq_mod)
    ultimately show ?thesis using k(2) by (simp add: push_bit_eq_mult unat_word_ariths)
  qed
  have R: "k * 2 ^ 52 + unat (halved q t) < 2047 * 2 ^ 52"
  proof -
    have "k * 2 ^ 52 \<le> 1533 * 2 ^ 52" using k(2) by (rule mult_right_mono) simp
    then show ?thesis using hb by simp
  qed
  have u: "unat (Sqrt f) = k * 2 ^ 52 + unat (halved q t)"
    unfolding Sqrt_unpacked [OF f d [unfolded M_def]] E_def [symmetric] unat_word_ariths h pk using R by simp
  then have "f64_mag (Sqrt f) = k * 2 ^ 52 + unat (halved q t)" "\<not> bit (Sqrt f) 63" using R by (simp_all add: f64_mag_def bit_63_iff)
  then show ?thesis using R assms(2) by (intro rounds_nearest [OF r]) simp_all
qed

end
