(* ===== verification/Go_Atof_Round.thy ===== *)
theory Go_Atof_Round
  imports Go_Sqrt
begin

text \<open>
  Decimal numbers with at most 19 digits, a value below \<open>2^52\<close> without their point and at most 22
  digits behind it, as instance files hold them, are converted to the nearest float: the powers of
  ten of the exact path are exact and its division is correctly rounded.
\<close>

section \<open>Integers and powers of ten\<close>

lemma fval_fnat:
  assumes "n < 2 ^ 53"
  shows "f64_finite (fnat n)" "fval (fnat n) = real n"
proof -
  have "f64_mag (fnat n) < 2047 * 2 ^ 52 \<and> mval (f64_mag (fnat n)) = n * 2 ^ 1074"
  proof (cases "n = 0")
    case False
    then obtain k where k: "k \<le> 52" "2 ^ 52 \<le> n * 2 ^ k" "n * 2 ^ k < 2 ^ 53" using normal_shift [of n] assms by blast
    have m: "f64_mag (fnat n) = (1074 - k) * 2 ^ 52 + n * 2 ^ k" using fnat_mag(1) [OF assms] fnat_bits [OF k(3,2,1)] by simp
    have "mval (f64_mag (fnat n)) = n * 2 ^ k * 2 ^ (1074 - k)" unfolding m using k by (intro mval_at) simp_all
    also have "\<dots> = n * 2 ^ 1074" using k(1) by (simp only: mult.assoc power_add [symmetric]) simp
    finally have v: "mval (f64_mag (fnat n)) = n * 2 ^ 1074" .
    have "(1074 - k) * 2 ^ 52 \<le> 1074 * 2 ^ 52" by (rule mult_right_mono) simp_all
    then have "f64_mag (fnat n) < 2047 * 2 ^ 52" unfolding m using k(3) by simp
    then show ?thesis using v by blast
  qed (simp add: f64_mag_def)
  moreover have "\<not> bit (fnat n) 63" using fnat_mag(2) [OF assms] by (simp add: bit_63_iff)
  ultimately show "f64_finite (fnat n)" "fval (fnat n) = real n" by (simp_all add: f64_finite_def fval_def)
qed

lemma pow10_table:
  "map (\<lambda>f. (mval (f64_mag f), f64_mag f < 2047 * 2 ^ 52, unat f < 2 ^ 63)) float64pow10 =
    map (\<lambda>k. (10 ^ k * 2 ^ 1074, True, True)) [0..<23]"
proof -
  have "[0..<23] = [0 :: nat, 1, 2, 3, 4, 5, 6, 7, 8, 9, 10, 11, 12, 13, 14, 15, 16, 17, 18, 19, 20, 21, 22]" by code_simp
  then show ?thesis by (simp add: float64pow10_def mval_def f64_mag_def)
qed

lemma fval_pow10:
  assumes "k \<le> 22"
  shows "f64_finite (float64pow10 ! k)" "fval (float64pow10 ! k) = 10 ^ k"
proof -
  have "length float64pow10 = 23" by (simp add: float64pow10_def)
  then have "(mval (f64_mag (float64pow10 ! k)), f64_mag (float64pow10 ! k) < 2047 * 2 ^ 52, unat (float64pow10 ! k) < 2 ^ 63) =
      (10 ^ k * 2 ^ 1074, True, True)"
    using arg_cong [OF pow10_table, of "\<lambda>xs. xs ! k"] assms by simp
  then have t: "mval (f64_mag (float64pow10 ! k)) = 10 ^ k * 2 ^ 1074" "f64_mag (float64pow10 ! k) < 2047 * 2 ^ 52"
    "unat (float64pow10 ! k) < 2 ^ 63" by simp_all
  then have "\<not> bit (float64pow10 ! k) 63" by (simp add: bit_63_iff)
  then show "f64_finite (float64pow10 ! k)" "fval (float64pow10 ! k) = 10 ^ k" using t(1,2) by (simp_all add: f64_finite_def fval_def)
qed

lemma atof64exact_nearest:
  assumes "n < 2 ^ 52" "k \<le> 22"
  shows "\<exists>v. atof64exact (word_of_nat n) (- int k) neg = Some v \<and> nearest_float ((if neg then - 1 else 1) * (real n / 10 ^ k)) v"
proof -
  define f where "f = (if neg then fneg64 (fnat n) else fnat n)"
  have n: "n < 2 ^ 53" using assms(1) by simp
  have f: "f64_finite f" "fval f = (if neg then - 1 else 1) * real n"
    using fval_fnat [OF n] fneg64_bits(2) [of "fnat n"] by (simp_all add: f_def fval_fneg64 f64_finite_def)
  have "unat (word_of_nat n :: 64 word) = n" using n by (simp add: unat_of_nat take_bit_eq_mod)
  then have d: "drop_bit 52 (word_of_nat n :: 64 word) = 0" using assms(1) by (simp add: word_unat_eq_iff unat_drop_bit_64)
  show ?thesis
  proof (cases "k = 0")
    case True
    then have "atof64exact (word_of_nat n) (- int k) neg = Some f" using d by (simp add: atof64exact_def f_def)
    then show ?thesis using nearest_itself [OF f(1)] True by (simp add: f(2))
  next
    case False
    then have "atof64exact (word_of_nat n) (- int k) neg = Some (fdiv64 f (float64pow10 ! k))"
      using d assms(2) by (simp add: atof64exact_def f_def)
    moreover have "nearest_float (fval f / fval (float64pow10 ! k)) (fdiv64 f (float64pow10 ! k))"
      using fval_pow10 [OF assms(2)] by (intro fdiv64_nearest f(1)) simp_all
    ultimately show ?thesis using fval_pow10(2) [OF assms(2)] f(2) by simp
  qed
qed

section \<open>Reading a decimal number\<close>

text \<open>The number of a string of digits.\<close>

definition digits_from :: "nat \<Rightarrow> string \<Rightarrow> nat" where
  "digits_from m s = foldl (\<lambda>n c. 10 * n + (byte c - 48)) m s"

lemma digits_from_simps [simp]:
  "digits_from m [] = m"
  "digits_from m (c # s) = digits_from (10 * m + (byte c - 48)) s"
  "digits_from m (s @ t) = digits_from (digits_from m s) t"
  by (simp_all add: digits_from_def)

text \<open>
  A scan that has dropped no digit and holds the number \<open>m\<close>. Every digit is counted or, as a leading
  zero, moves the point.
\<close>

definition holds_number :: "mantScan \<Rightarrow> nat \<Rightarrow> bool" where
  "holds_number st m \<longleftrightarrow> msMant st = word_of_nat m \<and> msNd st = int (msNdMant st) \<and> (msNd st = 0 \<longrightarrow> m = 0) \<and>
     \<not> msUnder st \<and> \<not> msTrunc st"

lemma readMantissa_number:
  assumes "\<forall>c \<in> set s. is_digit c" "holds_number st m" "msNdMant st + length s \<le> 19"
  shows "\<exists>st'. (\<forall>t. readMantissa False st (s @ t) = readMantissa False st' t) \<and> holds_number st' (digits_from m s) \<and>
    msNd st' - msDp st' = msNd st - msDp st + int (length s) \<and> msNdMant st' \<le> msNdMant st + length s \<and>
    msDot st' = msDot st \<and> (msDigits st' \<longleftrightarrow> msDigits st \<or> s \<noteq> [])"
  using assms
proof (induction s arbitrary: st m)
  case (Cons c s)
  have c: "is_digit c" "c \<noteq> CHR ''_''" "c \<noteq> CHR ''.''" using Cons.prems(1) by (auto simp: is_digit_def)
  note h = Cons.prems(2) [unfolded holds_number_def]
  define st1 where "st1 = (if c = CHR ''0'' \<and> msNd st = 0 then st\<lparr>msDigits := True, msDp := msDp st - 1\<rparr>
    else st\<lparr>msDigits := True, msNd := msNd st + 1, msMant := word_of_nat (10 * m + (byte c - 48)), msNdMant := msNdMant st + 1\<rparr>)"
  have step: "readMantissa False st ((c # s) @ t) = readMantissa False st1 (s @ t)" for t
    using c h Cons.prems(3) by (simp add: st1_def addDigit_def maxMantDigits_def Let_def mult.commute)
  have "holds_number st1 (10 * m + (byte c - 48))" using h by (auto simp: st1_def holds_number_def)
  moreover have "msNdMant st1 + length s \<le> 19" using Cons.prems(3) by (simp add: st1_def)
  ultimately obtain st' where st': "\<forall>t. readMantissa False st1 (s @ t) = readMantissa False st' t"
      "holds_number st' (digits_from (10 * m + (byte c - 48)) s)"
      "msNd st' - msDp st' = msNd st1 - msDp st1 + int (length s)" "msNdMant st' \<le> msNdMant st1 + length s"
      "msDot st' = msDot st1" "msDigits st' \<longleftrightarrow> msDigits st1 \<or> s \<noteq> []"
    using Cons.IH [of st1 "10 * m + (byte c - 48)"] Cons.prems(1) by auto
  show ?case
  proof (intro exI [of _ st'] conjI allI)
    show "readMantissa False st ((c # s) @ t) = readMantissa False st' t" for t using step st'(1) by simp
    show "holds_number st' (digits_from m (c # s))" using st'(2) by simp
    show "msNd st' - msDp st' = msNd st - msDp st + int (length (c # s))" using st'(3) by (simp add: st1_def split: if_splits)
    show "msNdMant st' \<le> msNdMant st + length (c # s)" using st'(4) by (simp add: st1_def split: if_splits)
    show "msDot st' = msDot st" using st'(5) by (simp add: st1_def)
    show "msDigits st' \<longleftrightarrow> msDigits st \<or> c # s \<noteq> []" using st'(6) by (simp add: st1_def)
  qed
qed auto

section \<open>Decimal numbers\<close>

text \<open>Digits with at most one point: what stands before it, what stands behind it.\<close>

definition decimal_text :: "string \<Rightarrow> string \<Rightarrow> string \<Rightarrow> bool" where
  "decimal_text s ip fp \<longleftrightarrow>
     (s = ip \<and> fp = [] \<or> s = ip @ CHR ''.'' # fp) \<and> ip @ fp \<noteq> [] \<and> (\<forall>c \<in> set (ip @ fp). is_digit c) \<and> length (ip @ fp) \<le> 19"

definition decimal_value :: "string \<Rightarrow> string \<Rightarrow> real" where
  "decimal_value ip fp = real (digits_from 0 (ip @ fp)) / 10 ^ length fp"

lemma readMantissa_decimal:
  assumes "decimal_text s ip fp"
  shows "\<exists>st. readMantissa False zeroScan s = (st, []) \<and> msDigits st \<and> \<not> msUnder st \<and> \<not> msTrunc st \<and>
    msMant st = word_of_nat (digits_from 0 (ip @ fp)) \<and>
    (if msDot st then msDp st else msNd st) - int (msNdMant st) = - int (length fp)"
proof -
  note d = assms [unfolded decimal_text_def]
  have z: "holds_number zeroScan 0" "msNdMant zeroScan = 0" "\<not> msDot zeroScan" "\<not> msDigits zeroScan" "msNd zeroScan = msDp zeroScan"
    by (simp_all add: holds_number_def zeroScan_def)
  obtain st1 where a: "\<forall>t. readMantissa False zeroScan (ip @ t) = readMantissa False st1 t"
      "holds_number st1 (digits_from 0 ip)" "msNdMant st1 \<le> length ip" "\<not> msDot st1" "msDigits st1 \<longleftrightarrow> ip \<noteq> []"
    using readMantissa_number [of ip zeroScan 0] z d by auto
  show ?thesis
  proof (cases "s = ip \<and> fp = []")
    case True
    then have "readMantissa False zeroScan s = (st1, [])" using a(1) [rule_format, of "[]"] by simp
    then show ?thesis using a(2-5) True d by (auto simp: holds_number_def)
  next
    case False
    then have s: "s = ip @ CHR ''.'' # fp" using d by blast
    define st2 where "st2 = st1\<lparr>msDot := True, msDp := msNd st1\<rparr>"
    have p: "readMantissa False st1 (CHR ''.'' # fp) = readMantissa False st2 fp" using a(4) by (simp add: st2_def)
    have "holds_number st2 (digits_from 0 ip)" using a(2) by (simp add: st2_def holds_number_def)
    moreover have "msNdMant st2 + length fp \<le> 19" using a(3) d by (simp add: st2_def)
    ultimately obtain st' where b: "\<forall>t. readMantissa False st2 (fp @ t) = readMantissa False st' t"
        "holds_number st' (digits_from (digits_from 0 ip) fp)" "msNd st' - msDp st' = msNd st2 - msDp st2 + int (length fp)"
        "msDot st' = msDot st2" "msDigits st' \<longleftrightarrow> msDigits st2 \<or> fp \<noteq> []"
      using readMantissa_number [of fp st2 "digits_from 0 ip"] d by auto
    have "readMantissa False zeroScan s = (st', [])"
      using a(1) p b(1) [rule_format, of "[]"] by (simp add: s)
    then show ?thesis using a(5) b(2-5) d by (auto simp: holds_number_def st2_def)
  qed
qed

lemma decimal_text_chars:
  assumes "decimal_text s ip fp"
  shows "s \<noteq> []" "\<forall>c \<in> set s. is_digit c \<or> c = CHR ''.''"
  using assms by (auto simp: decimal_text_def)

lemma decimal_char:
  assumes "is_digit c \<or> c = CHR ''.''"
  shows "46 \<le> byte c" "byte c \<le> 57" "c \<noteq> CHR ''+''" "c \<noteq> CHR ''-''" "lower c \<noteq> 120"
proof -
  show b: "46 \<le> byte c" "byte c \<le> 57" using assms by (auto simp: is_digit_def)
  then show "c \<noteq> CHR ''+''" "c \<noteq> CHR ''-''" by auto
  show "lower c \<noteq> 120" using b by (auto simp: lower_def)
qed

lemma no_special:
  assumes "is_digit c \<or> c = CHR ''.''"
  shows "special (c # s) = None" "specialInf neg n (c # s) = None"
proof -
  note b = decimal_char [OF assms]
  have "c \<noteq> d" if "57 < byte d" for d using that b(2) by auto
  then have i: "c \<noteq> CHR ''i''" "c \<noteq> CHR ''I''" "c \<noteq> CHR ''n''" "c \<noteq> CHR ''N''" by simp_all
  then show "special (c # s) = None" using b(3,4) by (simp add: special_def)
  have "commonPrefixLenIgnoreCase (c # s) ''infinity'' = 0" using b(1,2) i(1) by (simp add: commonPrefixLenIgnoreCase_def)
  then show "specialInf neg n (c # s) = None" by (simp add: specialInf_def)
qed

theorem ParseFloat_nearest:
  assumes "decimal_text s ip fp" "digits_from 0 (ip @ fp) < 2 ^ 52" "sign \<in> {[], ''+'', ''-''}"
  shows "\<exists>v. ParseFloat (sign @ s) = Some (v, None) \<and> nearest_float ((if sign = ''-'' then - 1 else 1) * decimal_value ip fp) v"
proof -
  let ?n = "digits_from 0 (ip @ fp)" and ?neg = "sign = ''-''"
  obtain c t where s: "s = c # t" using decimal_text_chars(1) [OF assms(1)] by (cases s) auto
  then have c: "is_digit c \<or> c = CHR ''.''" using decimal_text_chars(2) [OF assms(1)] by simp
  note b = decimal_char [OF c]
  obtain st where st: "readMantissa False zeroScan s = (st, [])" "msDigits st" "\<not> msUnder st" "\<not> msTrunc st" "msMant st = word_of_nat ?n"
      "(if msDot st then msDp st else msNd st) - int (msNdMant st) = - int (length fp)"
    using readMantissa_decimal [OF assms(1)] by blast
  have "\<not> (length s > 2 \<and> hd s = CHR ''0'' \<and> lower (s ! 1) = 120)"
  proof
    assume "length s > 2 \<and> hd s = CHR ''0'' \<and> lower (s ! 1) = 120"
    moreover from this have "s ! 1 \<in> set s" by (intro nth_mem) simp
    ultimately show False using decimal_char(5) decimal_text_chars(2) [OF assms(1)] by blast
  qed
  then have hex: "(length s > 2 \<and> hd s = CHR ''0'' \<and> lower (s ! 1) = 120) = False" by blast
  define ex where "ex = (if (word_of_nat ?n :: 64 word) \<noteq> 0 then - int (length fp) else 0)"
  have r: "readFloat (sign @ s) = (length (sign @ s), Some \<lparr>fpMant = word_of_nat ?n, fpExp = ex, fpNeg = ?neg, fpTrunc = False, fpHex = False\<rparr>)"
  proof -
    have body: "(if hd (sign @ s) = CHR ''+'' \<or> hd (sign @ s) = CHR ''-'' then tl (sign @ s) else sign @ s) = s"
      "hd (sign @ s) = CHR ''-'' \<longleftrightarrow> ?neg" using assms(3) b(3,4) s by auto
    have ne: "sign @ s \<noteq> []" using s by simp
    have e: "ex = (if msMant st \<noteq> 0 then (if msDot st then msDp st else msNd st) + 0 - int (msNdMant st) else 0)"
      unfolding ex_def st(5) using st(6) by simp
    show ?thesis
      unfolding readFloat_def Let_def
      unfolding body(1)
      unfolding body(2) hex if_False st(1) prod.case
      using ne st(2-4) unfolding e st(5) [symmetric] by simp
  qed
  have sp: "special (sign @ s) = None"
  proof (cases "sign = []")
    case True
    then show ?thesis using no_special(1) [OF c] by (simp add: s)
  next
    case False
    then show ?thesis using assms(3) no_special(2) [OF c] by (auto simp: s special_def)
  qed
  have fp: "length fp \<le> 22" using assms(1) by (simp add: decimal_text_def)
  obtain v where v: "atof64exact (word_of_nat ?n) ex ?neg = Some v" "nearest_float ((if ?neg then - 1 else 1) * decimal_value ip fp) v"
  proof (cases "(word_of_nat ?n :: 64 word) = 0")
    case True
    have "unat (word_of_nat ?n :: 64 word) = ?n" using assms(2) by (simp add: unat_of_nat take_bit_eq_mod)
    then have n: "?n = 0" using True by simp
    obtain v where "atof64exact (word_of_nat 0) (- int 0) ?neg = Some v" "nearest_float ((if ?neg then - 1 else 1) * (real 0 / 10 ^ 0)) v"
      using atof64exact_nearest [of 0 0 ?neg] by auto
    then show thesis using that [of v] True unfolding decimal_value_def n by (simp add: ex_def n [simplified])
  next
    case False
    then show thesis using that atof64exact_nearest [OF assms(2) fp, of ?neg] unfolding decimal_value_def ex_def by auto
  qed
  have "ParseFloat (sign @ s) = Some (v, None)" using r sp v(1) by (simp add: ParseFloat_def atof64_def)
  then show ?thesis using v(2) by blast
qed

end
