(* ===== verification/Go_Float64_Error.thy ===== *)
theory Go_Float64_Error
  imports Go_Atof_Round
begin

text \<open>
  Error analysis of the float operations, on top of their specification as roundings: the order of the
  finite floats is the order of their values, a rounding away from the limits of the exponent changes
  a value by a factor within \<open>2^-53\<close> of one, and such factors combine over sums, products and roots.
\<close>

section \<open>Integers\<close>

lemma nearest_integer:
  assumes "nearest_float (of_int z) f" "\<bar>z\<bar> < 2 ^ 53"
  shows "f64_finite f \<and> fval f = of_int z"
proof -
  define g where "g = (if z < 0 then fneg64 (fnat (nat (- z))) else fnat (nat z))"
  have n: "nat \<bar>z\<bar> < 2 ^ 53" using assms(2) by (simp add: nat_less_iff)
  have g: "f64_finite g" "fval g = of_int z"
  proof -
    have "f64_finite (fnat (nat \<bar>z\<bar>))" "fval (fnat (nat \<bar>z\<bar>)) = of_int \<bar>z\<bar>" using fval_fnat [OF n] by simp_all
    then show "f64_finite g" "fval g = of_int z"
      using fneg64_bits(2) [of "fnat (nat (- z))"] by (auto simp: g_def fval_fneg64 f64_finite_def abs_if split: if_splits)
  qed
  have "\<bar>of_int z\<bar> < (2 ^ 53 :: real)" using assms(2) by (metis of_int_abs of_int_less_iff of_int_numeral of_int_power)
  then have "\<bar>of_int z\<bar> < overflow64" by (simp add: overflow64_def)
  then have f: "f64_finite f" "\<bar>fval f - of_int z\<bar> \<le> \<bar>fval g - of_int z\<bar>"
    using assms(1) g(1) unfolding nearest_float_def by auto
  then show ?thesis using g(2) by simp
qed

lemma packs_integers: "x + y = of_int z \<Longrightarrow> packs_sum x y"
proof -
  assume s: "x + y = of_int z"
  show ?thesis
  proof (cases "z = 0")
    case False
    then have "(1 :: real) \<le> \<bar>of_int z\<bar>" by linarith
    moreover have "1 / 2 ^ 1022 \<le> (1 :: real)" by simp
    ultimately show ?thesis unfolding packs_sum_def s by linarith
  qed (simp add: packs_sum_def s)
qed

section \<open>The order of the finite floats\<close>

lemma fval_less:
  assumes "f64_finite f" "f64_finite g"
  shows "fval f < fval g \<longleftrightarrow> f64_key f < f64_key g"
proof -
  define v where "v k = (if k < 0 then - real (mval (nat (- k))) else real (mval (nat k)))" for k :: int
  have mono: "v j < v k" if "j < k" for j k
  proof -
    have "mval (nat j) < mval (nat k)" if "0 \<le> j" using \<open>j < k\<close> that by (intro mval_strict) simp
    moreover have "mval (nat (- k)) < mval (nat (- j))" if "k < 0" using \<open>j < k\<close> that by (intro mval_strict) simp
    moreover have "0 < mval (nat (- j))" if "j < 0" using mval_strict [of 0 "nat (- j)"] that by simp
    ultimately show ?thesis using \<open>j < k\<close> unfolding v_def by (cases "j < 0"; cases "k < 0") force+
  qed
  have "fval h = v (f64_key h) / 2 ^ 1074" for h
    by (cases "f64_mag h = 0") (auto simp: fval_def v_def f64_key_def)
  moreover have "a / 2 ^ 1074 < b / 2 ^ 1074 \<longleftrightarrow> a < b" for a b :: real
    by (intro iffI divide_strict_right_mono) (simp_all add: divide_less_cancel)
  ultimately have "fval f < fval g \<longleftrightarrow> v (f64_key f) < v (f64_key g)" by presburger
  then show ?thesis using mono by (metis less_asym not_less_iff_gr_or_eq)
qed

lemma finite_not_nan: "f64_finite f \<Longrightarrow> \<not> f64_nan f"
  by (simp add: f64_finite_def f64_nan_def)

lemma fgt64_fval: "f64_finite f \<Longrightarrow> f64_finite g \<Longrightarrow> fgt64 f g \<longleftrightarrow> fval g < fval f"
  by (simp add: fgt64_iff finite_not_nan fval_less)

lemma fge64_fval: "f64_finite f \<Longrightarrow> f64_finite g \<Longrightarrow> fge64 f g \<longleftrightarrow> fval g \<le> fval f"
  using fval_less [of f g] by (simp add: fge64_iff finite_not_nan not_less [symmetric])

lemma feq64_fval: "f64_finite f \<Longrightarrow> f64_finite g \<Longrightarrow> feq64 f g \<longleftrightarrow> fval f = fval g"
  using fval_less [of f g] fval_less [of g f] by (auto simp: feq64_iff finite_not_nan)

section \<open>The relative error\<close>

text \<open>A rounding away from the subnormal numbers and from overflow changes a value by a factor near one.\<close>

definition near_one :: "real \<Rightarrow> bool" where
  "near_one r \<longleftrightarrow> 1 - 1 / 2 ^ 53 \<le> r \<and> r \<le> 1 + 1 / 2 ^ 53"

lemma mval_gap:
  assumes "2 ^ 52 \<le> mval n"
  shows "2 ^ 52 * (mval (Suc n) - mval n) \<le> mval n"
proof -
  obtain k m where n: "n = k * 2 ^ 52 + m" "2 ^ 52 \<le> m \<or> k = 0" "m < (2 :: nat) ^ 53" by (rule mag_cases)
  then have v: "mval n = m * 2 ^ k" "mval (Suc n) = Suc m * 2 ^ k" using mval_at [of m k] mval_at [of "Suc m" k] by auto
  then have "2 ^ 52 \<le> m" using n(2) assms by auto
  then have "2 ^ 52 * 2 ^ k \<le> m * 2 ^ k" by (rule mult_right_mono) simp
  then show ?thesis using v by simp
qed

lemma mval_above: "\<exists>n. x < real (mval n)"
proof -
  have "n \<le> mval n" for n
  proof (induction n)
    case (Suc n)
    then show ?case using mval_Suc [of n] by simp
  qed simp
  then have "real n \<le> real (mval n)" for n by simp
  moreover obtain n where "x < real n" using reals_Archimedean2 by blast
  ultimately show ?thesis by (meson less_le_trans)
qed

lemma mval_between:
  assumes "0 \<le> X"
  obtains j where "real (mval j) \<le> X" "X < real (mval (Suc j))"
proof -
  define n where "n = (LEAST n. X < real (mval n))"
  have above: "X < real (mval n)" unfolding n_def by (rule LeastI_ex) (rule mval_above)
  then obtain j where j: "n = Suc j" using assms by (cases n) auto
  then have "real (mval j) \<le> X" using not_less_Least [of j "\<lambda>n. X < real (mval n)"] by (simp add: n_def [symmetric] not_less)
  then show thesis using that above j by simp
qed

lemma rounds_ex: "0 \<le> X \<Longrightarrow> \<exists>r. rounds X r"
  using mval_between [of X] rounds_between [OF _ less_imp_le] by metis

lemma rounds_relative:
  assumes "rounds X r" "2 ^ 52 \<le> X"
  shows "\<bar>real (mval r) - X\<bar> \<le> X / 2 ^ 53"
proof -
  have "0 \<le> X" using assms(2) by simp
  then obtain j where j: "real (mval j) \<le> X" "X < real (mval (Suc j))" by (rule mval_between)
  have p: "mval (2 ^ 52) = 2 ^ 52" by (simp add: mval_def)
  have "2 ^ 52 \<le> mval j"
  proof (rule ccontr)
    assume "\<not> 2 ^ 52 \<le> mval j"
    then have "\<not> 2 ^ 52 \<le> j" using mval_mono [of "2 ^ 52" j] unfolding p by blast
    then have "mval (Suc j) \<le> mval (2 ^ 52)" by (intro mval_mono) simp
    then have "real (mval (Suc j)) \<le> real (2 ^ 52)" unfolding p by (simp only: of_nat_le_iff)
    then show False using j(2) assms(2) by simp
  qed
  from mval_gap [OF this] have "real (2 ^ 52 * (mval (Suc j) - mval j)) \<le> real (mval j)" by (simp only: of_nat_le_iff)
  then have gap: "2 ^ 52 * (real (mval (Suc j)) - real (mval j)) \<le> X" using j(1) mval_Suc [of j] by (simp add: of_nat_diff)
  have "\<bar>real (mval r) - X\<bar> \<le> \<bar>real (mval j) - X\<bar>" "\<bar>real (mval r) - X\<bar> \<le> \<bar>real (mval (Suc j)) - X\<bar>"
    using assms(1) unfolding rounds_def by blast+
  then show ?thesis using gap j by (simp add: abs_real_def split: if_splits)
qed

lemma nearest_relative:
  assumes "nearest_float x f" "1 / 2 ^ 1022 \<le> \<bar>x\<bar>" "\<bar>x\<bar> < overflow64"
  shows "f64_finite f" "\<exists>r. near_one r \<and> fval f = x * r"
proof -
  have f: "f64_finite f" "\<And>g. f64_finite g \<Longrightarrow> \<bar>fval f - x\<bar> \<le> \<bar>fval g - x\<bar>"
    using assms(1,3) unfolding nearest_float_def by auto
  then show "f64_finite f" by blast
  define u where "u = (2 :: real) ^ 1074"
  have u: "0 < u" by (simp add: u_def)
  define X where "X = \<bar>x\<bar> * u"
  have "1 / 2 ^ 1022 * u \<le> X" unfolding X_def u_def using assms(2) by (rule mult_right_mono) simp
  then have X: "2 ^ 52 \<le> X" by (simp add: u_def)
  then have "0 \<le> X" by simp
  then obtain r where r: "rounds X r" using rounds_ex by blast
  have "X < overflow64 * 2 ^ 1074" unfolding X_def u_def using assms(3) by (rule mult_strict_right_mono) simp
  also have "overflow64 * 2 ^ 1074 = (2 ^ 54 - 1) * 2 ^ 2044" unfolding overflow64_def by (simp flip: power_add)
  finally have fin: "r < 2047 * 2 ^ 52" using rounds_overflow [OF r] by blast
  define g where "g = (if x < 0 then neg64 else 0) OR word_of_nat r"
  have "unat (word_of_nat r :: f64) = r" using fin by (simp add: unat_of_nat take_bit_eq_mod)
  then have g: "f64_mag g = r" "bit g 63 \<longleftrightarrow> x < 0"
    unfolding g_def using signed_bits [of "if x < 0 then neg64 else 0" "word_of_nat r"] fin by auto
  have gx: "(fval g - x) * u = (if x < 0 then - 1 else 1) * (real (mval r) - X)"
    using g by (simp add: fval_def X_def u_def [symmetric] left_diff_distrib) (simp add: u_def)
  have "\<bar>fval g - x\<bar> * u = \<bar>(fval g - x) * u\<bar>" using u by (simp add: abs_mult)
  also have "\<dots> = \<bar>real (mval r) - X\<bar>" unfolding gx by (simp add: abs_minus_commute)
  also have "\<dots> \<le> X / 2 ^ 53" by (rule rounds_relative [OF r X])
  finally have "\<bar>fval g - x\<bar> * u \<le> \<bar>x\<bar> / 2 ^ 53 * u" by (simp add: X_def)
  then have "\<bar>fval g - x\<bar> \<le> \<bar>x\<bar> / 2 ^ 53" using u by (rule mult_right_le_imp_le)
  then have d: "\<bar>fval f - x\<bar> \<le> \<bar>x\<bar> / 2 ^ 53" using f(2) [of g] g(1) fin by (simp add: f64_finite_def)
  have x: "x \<noteq> 0" using assms(2) by auto
  have "\<bar>fval f / x - 1\<bar> = \<bar>fval f - x\<bar> / \<bar>x\<bar>" using x by (simp add: diff_divide_distrib flip: abs_divide)
  also have "\<dots> \<le> 1 / 2 ^ 53" using d x by (simp add: field_simps)
  finally have "near_one (fval f / x)" unfolding near_one_def by linarith
  then show "\<exists>r. near_one r \<and> fval f = x * r" using x by (intro exI [of _ "fval f / x"]) simp
qed

text \<open>The factor of \<open>k\<close> roundings.\<close>

definition roundings :: "nat \<Rightarrow> real \<Rightarrow> bool" where
  "roundings k r \<longleftrightarrow> (1 - 1 / 2 ^ 53) ^ k \<le> r \<and> r \<le> (1 + 1 / 2 ^ 53) ^ k"

lemma roundings_pos: "roundings k r \<Longrightarrow> 0 < r"
  unfolding roundings_def by (rule less_le_trans [of _ "(1 - 1 / 2 ^ 53) ^ k"]) simp_all

lemma roundings_one: "roundings k 1"
  unfolding roundings_def by (simp add: power_le_one)

lemma near_one_roundings: "near_one r \<longleftrightarrow> roundings 1 r"
  by (simp add: near_one_def roundings_def)

lemma roundings_mult:
  assumes "roundings i a" "roundings j b"
  shows "roundings (i + j) (a * b)"
proof -
  have "0 \<le> b" "0 \<le> a" using assms roundings_pos by (blast intro: less_imp_le)+
  then show ?thesis using assms unfolding roundings_def power_add by (auto intro!: mult_mono)
qed

lemma roundings_sum:
  assumes "roundings k a" "roundings k b" "0 \<le> x" "0 \<le> y"
  shows "\<exists>r. roundings k r \<and> x * a + y * b = (x + y) * r"
proof (cases "x + y = 0")
  case True
  then have "x = 0" "y = 0" using assms(3,4) by linarith+
  then show ?thesis using roundings_one by auto
next
  case False
  then have s: "0 < x + y" using assms(3,4) by linarith
  let ?l = "(1 - 1 / 2 ^ 53) ^ k :: real" and ?h = "(1 + 1 / 2 ^ 53) ^ k :: real"
  have "x * ?l + y * ?l \<le> x * a + y * b" "x * a + y * b \<le> x * ?h + y * ?h"
    using assms unfolding roundings_def by (auto intro!: add_mono mult_left_mono)
  then have "roundings k ((x * a + y * b) / (x + y))"
    unfolding roundings_def using s by (simp add: pos_le_divide_eq pos_divide_le_eq algebra_simps)
  then show ?thesis using s by (intro exI [of _ "(x * a + y * b) / (x + y)"]) simp
qed

lemma roundings_sqrt:
  assumes "roundings (2 * k) r"
  shows "roundings k (sqrt r)"
proof -
  have p: "0 \<le> (1 - 1 / 2 ^ 53 :: real) ^ k" "0 \<le> (1 + 1 / 2 ^ 53 :: real) ^ k" by simp_all
  have e: "(c :: real) ^ (2 * k) = (c ^ k)\<^sup>2" for c by (simp add: power_mult mult.commute flip: power_mult)
  have "(1 - 1 / 2 ^ 53) ^ k \<le> sqrt r" using assms unfolding roundings_def e by (intro real_le_rsqrt) simp
  moreover have "sqrt r \<le> (1 + 1 / 2 ^ 53) ^ k" using assms p(2) unfolding roundings_def e by (intro real_le_lsqrt) simp_all
  ultimately show ?thesis by (simp add: roundings_def)
qed

lemma roundings_half: "roundings k r \<Longrightarrow> k \<le> 4 \<Longrightarrow> 1 / 2 \<le> r \<and> r \<le> 2"
proof -
  assume r: "roundings k r" and k: "k \<le> 4"
  have "(1 - 1 / 2 ^ 53 :: real) ^ 4 \<le> (1 - 1 / 2 ^ 53) ^ k" by (rule power_decreasing [OF k]) simp_all
  moreover have "(1 + 1 / 2 ^ 53 :: real) ^ k \<le> (1 + 1 / 2 ^ 53) ^ 4" by (rule power_increasing [OF k]) simp
  moreover have "1 / 2 \<le> (1 - 1 / 2 ^ 53 :: real) ^ 4" "(1 + 1 / 2 ^ 53 :: real) ^ 4 \<le> 2" by (simp_all add: power4_eq_xxxx)
  ultimately show ?thesis using r unfolding roundings_def by linarith
qed

text \<open>Values that are zero or far from the limits of the exponent.\<close>

definition moderate :: "nat \<Rightarrow> real \<Rightarrow> bool" where
  "moderate k x \<longleftrightarrow> x = 0 \<or> 1 / 2 ^ k \<le> \<bar>x\<bar> \<and> \<bar>x\<bar> \<le> 2 ^ k"

lemma moderate_nearest:
  assumes "nearest_float x f" "moderate k x" "k \<le> 1020"
  shows "f64_finite f" "\<exists>r. roundings 1 r \<and> fval f = x * r"
proof -
  have "f64_finite f \<and> (\<exists>r. roundings 1 r \<and> fval f = x * r)"
  proof (cases "x = 0")
    case True
    then have "f64_finite f \<and> fval f = of_int 0" using nearest_integer [of 0 f] assms(1) by simp
    then show ?thesis using True roundings_one [of 1] by auto
  next
    case False
    then have m: "1 / 2 ^ k \<le> \<bar>x\<bar>" "\<bar>x\<bar> \<le> 2 ^ k" using assms(2) by (simp_all add: moderate_def)
    have p: "(2 :: real) ^ k \<le> 2 ^ 1020" using assms(3) by (intro power_increasing) simp_all
    then have "(1 :: real) / 2 ^ 1020 \<le> 1 / 2 ^ k" by (intro divide_left_mono) simp_all
    moreover have "(1 :: real) / 2 ^ 1022 \<le> 1 / 2 ^ 1020" by simp
    ultimately have lo: "1 / 2 ^ 1022 \<le> \<bar>x\<bar>" using m(1) by linarith
    have "(2 :: real) ^ 1020 < overflow64" by (simp add: overflow64_def)
    then have hi: "\<bar>x\<bar> < overflow64" using m(2) p by linarith
    from nearest_relative [OF assms(1) lo hi] show ?thesis by (auto simp: near_one_roundings)
  qed
  then show "f64_finite f" "\<exists>r. roundings 1 r \<and> fval f = x * r" by blast+
qed

lemma moderate_rounded:
  assumes "moderate k x" "roundings j r" "j \<le> 4"
  shows "moderate (k + 1) (x * r)"
proof -
  have r: "1 / 2 \<le> r" "r \<le> 2" using roundings_half [OF assms(2,3)] by simp_all
  show ?thesis
  proof (cases "x = 0")
    case False
    then have m: "1 / 2 ^ k \<le> \<bar>x\<bar>" "\<bar>x\<bar> \<le> 2 ^ k" using assms(1) by (simp_all add: moderate_def)
    have "1 / 2 ^ k * (1 / 2) \<le> \<bar>x\<bar> * r" by (rule mult_mono [OF m(1) r(1)]) simp_all
    moreover have "\<bar>x\<bar> * r \<le> 2 ^ k * 2" by (rule mult_mono [OF m(2) r(2)]) (use r in simp_all)
    ultimately show ?thesis using r by (simp add: moderate_def abs_mult mult.commute)
  qed (simp add: moderate_def)
qed

lemma moderate_mult: "moderate j x \<Longrightarrow> moderate k y \<Longrightarrow> moderate (j + k) (x * y)"
proof -
  assume m: "moderate j x" "moderate k y"
  show ?thesis
  proof (cases "x = 0 \<or> y = 0")
    case False
    then have x: "1 / 2 ^ j \<le> \<bar>x\<bar>" "\<bar>x\<bar> \<le> 2 ^ j" and y: "1 / 2 ^ k \<le> \<bar>y\<bar>" "\<bar>y\<bar> \<le> 2 ^ k" using m by (simp_all add: moderate_def)
    have "1 / 2 ^ j * (1 / 2 ^ k) \<le> \<bar>x\<bar> * \<bar>y\<bar>" by (rule mult_mono [OF x(1) y(1)]) simp_all
    moreover have "\<bar>x\<bar> * \<bar>y\<bar> \<le> 2 ^ j * 2 ^ k" by (rule mult_mono [OF x(2) y(2)]) simp_all
    ultimately show ?thesis by (simp add: moderate_def abs_mult power_add)
  qed (auto simp: moderate_def)
qed

lemma moderate_add: "moderate k x \<Longrightarrow> moderate k y \<Longrightarrow> 0 \<le> x \<Longrightarrow> 0 \<le> y \<Longrightarrow> moderate (k + 1) (x + y)"
proof -
  assume m: "moderate k x" "moderate k y" "0 \<le> x" "0 \<le> y"
  have "(1 :: real) / 2 ^ (k + 1) \<le> 1 / 2 ^ k" by (simp add: field_simps)
  moreover have "0 \<le> (2 :: real) ^ k" "(2 :: real) ^ (k + 1) = 2 ^ k + 2 ^ k" by simp_all
  ultimately show ?thesis using m unfolding moderate_def by linarith
qed

lemma moderate_mono: "moderate j x \<Longrightarrow> j \<le> k \<Longrightarrow> moderate k x"
proof -
  assume m: "moderate j x" "j \<le> k"
  then have "(2 :: real) ^ j \<le> 2 ^ k" by (intro power_increasing) simp_all
  moreover from this have "(1 :: real) / 2 ^ k \<le> 1 / 2 ^ j" by (intro divide_left_mono) simp_all
  ultimately show ?thesis using m(1) unfolding moderate_def by linarith
qed

lemma moderate_sqrt: "moderate (2 * k) x \<Longrightarrow> 0 \<le> x \<Longrightarrow> moderate k (sqrt x)"
proof -
  assume m: "moderate (2 * k) x" "0 \<le> x"
  show ?thesis
  proof (cases "x = 0")
    case False
    then have x: "1 / 2 ^ (2 * k) \<le> x" "x \<le> 2 ^ (2 * k)" using m by (simp_all add: moderate_def)
    have e: "(2 :: real) ^ (2 * k) = (2 ^ k)\<^sup>2" by (simp add: power_mult mult.commute flip: power_mult)
    have "1 / 2 ^ k \<le> sqrt x" using x(1) unfolding e by (intro real_le_rsqrt) (simp add: power_divide)
    moreover have "sqrt x \<le> 2 ^ k" using x(2) unfolding e by (intro real_le_lsqrt) simp_all
    ultimately show ?thesis using m(2) by (simp add: moderate_def)
  qed (simp add: moderate_def)
qed

lemma moderate_packs: "moderate k (x + y) \<Longrightarrow> k \<le> 1022 \<Longrightarrow> packs_sum x y"
  using moderate_mono [of k "x + y" 1022] unfolding packs_sum_def moderate_def by blast

section \<open>Values determine floats\<close>

lemma float_eqI: "bit f 63 = bit g 63 \<Longrightarrow> f64_mag f = f64_mag g \<Longrightarrow> f = (g :: f64)"
proof -
  assume b: "bit f 63 = bit g 63" and m: "f64_mag f = f64_mag g"
  have top: "unat h div 2 ^ 63 = of_bool (bit h 63)" for h :: f64
  proof -
    have "unat h < 2 ^ 64" using unsigned_less [of h] by simp
    then have "unat h div 2 ^ 63 < 2" by simp
    moreover have "bit h 63 \<longleftrightarrow> odd (unat h div 2 ^ 63)" using bit_iff_odd [of "unat h" 63] by (simp add: bit_unsigned_iff)
    ultimately show ?thesis by (cases "unat h div 2 ^ 63") auto
  qed
  have "unat h = 2 ^ 63 * of_bool (bit h 63) + f64_mag h" for h :: f64
    unfolding f64_mag_def using mult_div_mod_eq [of "2 ^ 63" "unat h"] by (simp only: top)
  from this [of f] this [of g] have "unat f = unat g" by (simp only: b m)
  then show "f = g" by (simp add: word_unat_eq_iff)
qed

lemma nearest_exact:
  assumes "nearest_float (fval g) f" "f64_finite g" "fval g \<noteq> 0"
  shows "f = g"
proof -
  have "\<bar>fval g\<bar> < overflow64" using nearest_itself [OF assms(2)] assms(2) unfolding nearest_float_def by argo
  then have f: "f64_finite f" "fval f = fval g" using assms(1,2) unfolding nearest_float_def by auto
  have "f64_key f = f64_key g" using fval_less [OF f(1) assms(2)] fval_less [OF assms(2) f(1)] f(2) by simp
  moreover have "f64_mag g \<noteq> 0" using assms(3) fval_zero by blast
  ultimately show ?thesis by (intro float_eqI) (auto simp: f64_key_def split: if_splits)
qed

section \<open>The grid of the floats\<close>

text \<open>Floats that are not too small are multiples of a power of two, so their differences are zero or not small.\<close>

lemma scaled_power:
  assumes "1 / 2 ^ k \<le> real a / 2 ^ b" "k \<le> b"
  shows "2 ^ (b - k) \<le> a"
proof -
  have "(2 :: real) ^ b = 2 ^ (b - k) * 2 ^ k" using assms(2) by (simp flip: power_add)
  then have "real (2 ^ (b - k)) \<le> real a" using assms(1) by (simp add: field_simps)
  then show ?thesis by (simp only: of_nat_le_iff)
qed

lemma same_scale: "j + b = e + c \<Longrightarrow> (2 :: real) ^ e / 2 ^ b = 2 ^ j / 2 ^ c"
  by (simp add: frac_eq_eq flip: power_add)

lemma moderate_grid:
  assumes "f64_finite f" "moderate k (fval f)" "k \<le> 1022"
  shows "\<exists>z :: int. fval f = of_int z / 2 ^ (k + 52)"
proof (cases "fval f = 0")
  case False
  obtain e m where n: "f64_mag f = e * 2 ^ 52 + m" "2 ^ 52 \<le> m \<or> e = 0" "m < (2 :: nat) ^ 53" by (rule mag_cases)
  then have v: "mval (f64_mag f) = m * 2 ^ e" using mval_at [of m e] by auto
  have abs: "\<bar>fval f\<bar> = real (m * 2 ^ e) / 2 ^ 1074" unfolding fval_def v by (simp only: abs_mult abs_divide) simp
  have "1 / 2 ^ k \<le> real (m * 2 ^ e) / 2 ^ 1074" using assms(2) False unfolding moderate_def abs by blast
  then have "2 ^ (1074 - k) \<le> m * 2 ^ e" using assms(3) by (intro scaled_power) simp_all
  also have "\<dots> < 2 ^ 53 * 2 ^ e" using n(3) by (intro mult_strict_right_mono) simp_all
  finally have "(2 :: nat) ^ (1074 - k) < 2 ^ (53 + e)" by (simp only: power_add)
  then have "1074 - k < 53 + e" by (rule power_less_imp_less_exp [rotated]) simp
  then have j: "(e + k - 1022) + 1074 = e + (k + 52)" using assms(3) by simp
  have "fval f = ((if bit f 63 then - 1 else 1) * real m) * (2 ^ e / 2 ^ 1074)" unfolding fval_def v by (simp only: of_nat_mult of_nat_power) simp
  also have "\<dots> = of_int ((if bit f 63 then - 1 else 1) * int (m * 2 ^ (e + k - 1022))) / 2 ^ (k + 52)"
    unfolding same_scale [OF j] by simp
  finally show ?thesis by blast
qed (auto intro: exI [of _ 0])

lemma moderate_diff:
  assumes "f64_finite f" "moderate k (fval f)" "f64_finite g" "moderate k (fval g)" "k \<le> 1022"
  shows "moderate (k + 52) (fval f - fval g)"
proof -
  obtain y z where "fval f = of_int y / 2 ^ (k + 52)" "fval g = of_int z / 2 ^ (k + 52)"
    using moderate_grid [OF assms(1,2,5)] moderate_grid [OF assms(3,4,5)] by auto
  then have d: "fval f - fval g = of_int (y - z) / 2 ^ (k + 52)" by (simp add: diff_divide_distrib)
  have "\<bar>fval f\<bar> \<le> 2 ^ k" "\<bar>fval g\<bar> \<le> 2 ^ k" using assms(2,4) by (auto simp: moderate_def)
  then have "\<bar>fval f - fval g\<bar> \<le> 2 * 2 ^ k" by linarith
  then have up: "\<bar>fval f - fval g\<bar> \<le> 2 ^ (k + 52)" by (simp add: power_add)
  show ?thesis
  proof (cases "y = z")
    case False
    then have "1 \<le> \<bar>real_of_int (y - z)\<bar>" by linarith
    then have "1 / 2 ^ (k + 52) \<le> \<bar>fval f - fval g\<bar>" unfolding d by (simp add: divide_right_mono)
    with up show ?thesis by (simp add: moderate_def)
  qed (simp add: d moderate_def)
qed

section \<open>Accurate values\<close>

text \<open>The float \<open>f\<close> is the value \<open>x\<close> up to \<open>k\<close> roundings.\<close>

definition accurate :: "nat \<Rightarrow> f64 \<Rightarrow> real \<Rightarrow> bool" where
  "accurate k f x \<longleftrightarrow> f64_finite f \<and> (\<exists>r. roundings k r \<and> fval f = x * r)"

lemma roundings_mono: "roundings j r \<Longrightarrow> j \<le> k \<Longrightarrow> roundings k r"
proof -
  assume r: "roundings j r" and k: "j \<le> k"
  have "(1 - 1 / 2 ^ 53 :: real) ^ k \<le> (1 - 1 / 2 ^ 53) ^ j" by (rule power_decreasing [OF k]) simp_all
  moreover have "(1 + 1 / 2 ^ 53 :: real) ^ j \<le> (1 + 1 / 2 ^ 53) ^ k" by (rule power_increasing [OF k]) simp
  ultimately show ?thesis using r unfolding roundings_def by linarith
qed

lemma accurate_mono: "accurate j f x \<Longrightarrow> j \<le> k \<Longrightarrow> accurate k f x"
  using roundings_mono unfolding accurate_def by blast

lemma accurate_itself: "f64_finite f \<Longrightarrow> accurate k f (fval f)"
  using roundings_one unfolding accurate_def by force

text \<open>The extreme factors of one rounding.\<close>

definition round_down :: real where "round_down = 1 - 1 / 2 ^ 53"

definition round_up :: real where "round_up = 1 + 1 / 2 ^ 53"

lemma round_factors: "0 < round_down" "round_down \<le> 1" "1 \<le> round_up"
  by (simp_all add: round_down_def round_up_def)

lemma roundings_iff: "roundings k r \<longleftrightarrow> round_down ^ k \<le> r \<and> r \<le> round_up ^ k"
  by (simp add: roundings_def round_down_def round_up_def)

lemma accurate_iff:
  assumes "0 \<le> x"
  shows "accurate k f x \<longleftrightarrow> f64_finite f \<and> x * round_down ^ k \<le> fval f \<and> fval f \<le> x * round_up ^ k"
proof (cases "x = 0")
  case True
  then show ?thesis using roundings_one by (auto simp: accurate_def)
next
  case False
  then have x: "0 < x" using assms by simp
  have "(\<exists>r. roundings k r \<and> fval f = x * r) \<longleftrightarrow> roundings k (fval f / x)"
    using x by (metis False nonzero_mult_div_cancel_left times_divide_eq_right)
  then show ?thesis using x unfolding accurate_def roundings_iff by (simp add: pos_le_divide_eq pos_divide_le_eq mult.commute)
qed

lemma accurate_nonneg: "accurate k f x \<Longrightarrow> 0 \<le> x \<Longrightarrow> 0 \<le> fval f"
  unfolding accurate_def using roundings_pos by (metis less_imp_le mult_nonneg_nonneg)

lemma accurate_add:
  assumes "accurate i f x" "accurate j g y" "i \<le> k" "j \<le> k" "0 \<le> x" "0 \<le> y"
    and "moderate m (fval f)" "moderate m (fval g)" "m \<le> 1000"
  shows "accurate (k + 1) (fadd64 f g) (x + y)" "moderate (m + 2) (fval (fadd64 f g))"
proof -
  have pos: "0 \<le> fval f" "0 \<le> fval g" using assms(1,2,5,6) accurate_nonneg by blast+
  have ms: "moderate (m + 1) (fval f + fval g)" using moderate_add [OF assms(7,8) pos] .
  have fin: "f64_finite f" "f64_finite g" using assms(1,2) by (simp_all add: accurate_def)
  have "nearest_float (fval f + fval g) (fadd64 f g)" using moderate_packs [OF ms] assms(9) by (intro fadd64_nearest fin) simp
  from moderate_nearest [OF this ms] assms(9) obtain d where
    d: "f64_finite (fadd64 f g)" "roundings 1 d" "fval (fadd64 f g) = (fval f + fval g) * d" by auto
  obtain a b where a: "roundings k a" "fval f = x * a" and b: "roundings k b" "fval g = y * b"
    using assms(1-4) roundings_mono unfolding accurate_def by blast
  obtain r where r: "roundings k r" "x * a + y * b = (x + y) * r" using roundings_sum [OF a(1) b(1) assms(5,6)] by blast
  have "roundings (k + 1) (r * d)" by (rule roundings_mult [OF r(1) d(2)])
  then show "accurate (k + 1) (fadd64 f g) (x + y)"
    unfolding accurate_def using d(1) by (intro conjI exI [of _ "r * d"]) (simp_all add: d(3) a(2) b(2) r(2))
  show "moderate (m + 2) (fval (fadd64 f g))" unfolding d(3) using moderate_rounded [OF ms d(2)] by simp
qed

end
