(* ===== verification/Distance_Spec.thy ===== *)
theory Distance_Spec
  imports Go_Float64_Error Models
begin

text \<open>
  The distance of two points. With integer coordinates the differences, the squares and their sum are
  exact, so it is the Euclidean distance, rounded once; with other coordinates its relative error is
  that of three roundings.
\<close>

section \<open>Integer coordinates\<close>

text \<open>The float \<open>f\<close> is the integer \<open>z\<close>.\<close>

definition is_int :: "f64 \<Rightarrow> int \<Rightarrow> bool" where
  "is_int f z \<longleftrightarrow> f64_finite f \<and> fval f = of_int z"

lemma is_int_sub: "is_int f x \<Longrightarrow> is_int g y \<Longrightarrow> \<bar>x - y\<bar> < 2 ^ 53 \<Longrightarrow> is_int (fsub64 f g) (x - y)"
  unfolding is_int_def using fsub64_nearest [of f g] packs_integers [of "of_int x" "- of_int y" "x - y"]
  by (intro nearest_integer) auto

lemma is_int_mul: "is_int f x \<Longrightarrow> is_int g y \<Longrightarrow> \<bar>x * y\<bar> < 2 ^ 53 \<Longrightarrow> is_int (fmul64 f g) (x * y)"
  unfolding is_int_def using fmul64_nearest [of f g] by (intro nearest_integer) auto

lemma is_int_add: "is_int f x \<Longrightarrow> is_int g y \<Longrightarrow> \<bar>x + y\<bar> < 2 ^ 53 \<Longrightarrow> is_int (fadd64 f g) (x + y)"
  unfolding is_int_def using fadd64_nearest [of f g] packs_integers [of "of_int x" "of_int y" "x + y"]
  by (intro nearest_integer) auto

theorem Distance_nearest:
  assumes "is_int (pX p) x1" "is_int (pY p) y1" "is_int (pX q) x2" "is_int (pY q) y2"
    and small: "(x1 - x2)\<^sup>2 + (y1 - y2)\<^sup>2 < 2 ^ 53"
  shows "nearest_float (sqrt (of_int ((x1 - x2)\<^sup>2 + (y1 - y2)\<^sup>2))) (Distance p q)"
proof -
  have le: "\<bar>z\<bar> \<le> z\<^sup>2" for z :: int
  proof (cases "z = 0")
    case False
    then have "\<bar>z\<bar> * 1 \<le> \<bar>z\<bar> * \<bar>z\<bar>" by (intro mult_left_mono) auto
    then show ?thesis by (simp add: power2_eq_square)
  qed simp
  have sq: "0 \<le> (x1 - x2)\<^sup>2" "0 \<le> (y1 - y2)\<^sup>2" by simp_all
  then have b: "(x1 - x2)\<^sup>2 < 2 ^ 53" "(y1 - y2)\<^sup>2 < 2 ^ 53" using small by linarith+
  then have d: "\<bar>x1 - x2\<bar> < 2 ^ 53" "\<bar>y1 - y2\<bar> < 2 ^ 53" using le [of "x1 - x2"] le [of "y1 - y2"] by linarith+
  let ?dx = "fsub64 (pX p) (pX q)" and ?dy = "fsub64 (pY p) (pY q)"
  have "is_int ?dx (x1 - x2)" "is_int ?dy (y1 - y2)" using assms(1-4) d by (intro is_int_sub; simp)+
  then have "is_int (fmul64 ?dx ?dx) ((x1 - x2)\<^sup>2)" "is_int (fmul64 ?dy ?dy) ((y1 - y2)\<^sup>2)"
    unfolding power2_eq_square using b sq by (intro is_int_mul; simp add: power2_eq_square)+
  then have "is_int (fadd64 (fmul64 ?dx ?dx) (fmul64 ?dy ?dy)) ((x1 - x2)\<^sup>2 + (y1 - y2)\<^sup>2)"
    using small sq by (intro is_int_add) simp_all
  then show ?thesis
    unfolding Distance_def is_int_def using Sqrt_nearest [of "fadd64 (fmul64 ?dx ?dx) (fmul64 ?dy ?dy)"] sq by auto
qed

section \<open>Other coordinates\<close>

text \<open>The square of a difference of coordinates.\<close>

lemma squared_difference:
  assumes "f64_finite f" "f64_finite g" "moderate 500 (fval f - fval g)"
  shows "f64_finite (fmul64 (fsub64 f g) (fsub64 f g))"
    "\<exists>r. roundings 3 r \<and> fval (fmul64 (fsub64 f g) (fsub64 f g)) = (fval f - fval g)\<^sup>2 * r"
    "moderate 1003 (fval (fmul64 (fsub64 f g) (fsub64 f g)))"
proof -
  let ?d = "fval f - fval g" and ?e = "fsub64 f g"
  have "packs_sum (fval f) (- fval g)" using assms(3) by (intro moderate_packs [of 500]) simp_all
  then have "nearest_float ?d ?e" by (rule fsub64_nearest [OF assms(1,2)])
  from moderate_nearest [OF this assms(3)] obtain r where r: "f64_finite ?e" "roundings 1 r" "fval ?e = ?d * r" by auto
  have m: "moderate 501 (fval ?e)" unfolding r(3) using moderate_rounded [OF assms(3) r(2)] by simp
  then have m2: "moderate 1002 (fval ?e * fval ?e)" using moderate_mult [OF m m] by simp
  from moderate_nearest [OF fmul64_nearest [OF r(1) r(1)] m2] obtain q where
    q: "f64_finite (fmul64 ?e ?e)" "roundings 1 q" "fval (fmul64 ?e ?e) = fval ?e * fval ?e * q" by auto
  show "f64_finite (fmul64 ?e ?e)" by (rule q(1))
  have "roundings 3 (r * r * q)" using roundings_mult [OF roundings_mult [OF r(2) r(2)] q(2)] by (simp add: numeral_3_eq_3)
  then show "\<exists>r. roundings 3 r \<and> fval (fmul64 ?e ?e) = ?d\<^sup>2 * r"
    unfolding q(3) r(3) by (intro exI [of _ "r * r * q"]) (simp add: power2_eq_square)
  show "moderate 1003 (fval (fmul64 ?e ?e))" unfolding q(3) using moderate_rounded [OF m2 q(2)] by simp
qed

definition euclid :: "Point \<Rightarrow> Point \<Rightarrow> real" where
  "euclid p q = sqrt ((fval (pX p) - fval (pX q))\<^sup>2 + (fval (pY p) - fval (pY q))\<^sup>2)"

lemma euclid_facts: "0 \<le> euclid p q" "euclid p q = euclid q p" "euclid p p = 0"
  by (simp_all add: euclid_def power2_commute)

lemma Distance_accurate:
  assumes "f64_finite (pX p)" "f64_finite (pY p)" "f64_finite (pX q)" "f64_finite (pY q)"
    and "moderate 500 (fval (pX p) - fval (pX q))" "moderate 500 (fval (pY p) - fval (pY q))"
  shows "accurate 3 (Distance p q) (euclid p q)"
proof -
  let ?dx = "fval (pX p) - fval (pX q)" and ?dy = "fval (pY p) - fval (pY q)"
  define sx where "sx = fmul64 (fsub64 (pX p) (pX q)) (fsub64 (pX p) (pX q))"
  define sy where "sy = fmul64 (fsub64 (pY p) (pY q)) (fsub64 (pY p) (pY q))"
  note x = squared_difference [OF assms(1,3,5), folded sx_def] and y = squared_difference [OF assms(2,4,6), folded sy_def]
  obtain a where a: "roundings 3 a" "fval sx = ?dx\<^sup>2 * a" using x(2) by blast
  obtain b where b: "roundings 3 b" "fval sy = ?dy\<^sup>2 * b" using y(2) by blast
  have pos: "0 \<le> fval sx" "0 \<le> fval sy" using roundings_pos [OF a(1)] roundings_pos [OF b(1)] by (simp_all add: a(2) b(2))
  have ms: "moderate 1004 (fval sx + fval sy)" using moderate_add [OF x(3) y(3) pos] by simp
  obtain c where c: "roundings 3 c" "fval sx + fval sy = (?dx\<^sup>2 + ?dy\<^sup>2) * c"
    using roundings_sum [OF a(1) b(1), of "?dx\<^sup>2" "?dy\<^sup>2"] unfolding a(2) b(2) by auto
  let ?s = "fadd64 sx sy"
  have "nearest_float (fval sx + fval sy) ?s" using moderate_packs [OF ms] by (intro fadd64_nearest x(1) y(1)) simp
  from moderate_nearest [OF this ms] obtain d where d: "f64_finite ?s" "roundings 1 d" "fval ?s = (fval sx + fval sy) * d" by auto
  have s0: "0 \<le> fval ?s" unfolding d(3) using pos roundings_pos [OF d(2)] by simp
  have "moderate 1005 (fval ?s)" unfolding d(3) using moderate_rounded [OF ms d(2)] by simp
  then have "moderate (2 * 503) (fval ?s)" by (rule moderate_mono) simp
  from moderate_sqrt [OF this s0] have mr: "moderate 503 (sqrt (fval ?s))" .
  from moderate_nearest [OF Sqrt_nearest [OF d(1) s0] mr] obtain e where
    e: "f64_finite (Sqrt ?s)" "roundings 1 e" "fval (Sqrt ?s) = sqrt (fval ?s) * e" by auto
  have D: "Distance p q = Sqrt ?s" by (simp add: Distance_def sx_def sy_def)
  have "roundings (2 * 2) (c * d)" using roundings_mult [OF c(1) d(2)] by simp
  then have "roundings 3 (sqrt (c * d) * e)" using roundings_mult [OF roundings_sqrt e(2), of 2 "c * d"] by simp
  moreover have "fval (Sqrt ?s) = sqrt (?dx\<^sup>2 + ?dy\<^sup>2) * (sqrt (c * d) * e)"
    unfolding e(3) d(3) c(2) by (simp add: real_sqrt_mult mult.assoc)
  ultimately show ?thesis unfolding D accurate_def euclid_def using e(1) by blast
qed

text \<open>Points whose coordinates are zero or within a range.\<close>

definition placed :: "nat \<Rightarrow> Point \<Rightarrow> bool" where
  "placed k p \<longleftrightarrow> f64_finite (pX p) \<and> f64_finite (pY p) \<and> moderate k (fval (pX p)) \<and> moderate k (fval (pY p))"

lemma moderate_euclid:
  assumes "moderate k (fval (pX p) - fval (pX q))" "moderate k (fval (pY p) - fval (pY q))"
  shows "moderate (k + 1) (euclid p q)"
proof -
  have "moderate (2 * k) ((fval (pX p) - fval (pX q))\<^sup>2)" "moderate (2 * k) ((fval (pY p) - fval (pY q))\<^sup>2)"
    unfolding power2_eq_square mult_2 using moderate_mult [OF assms(1,1)] moderate_mult [OF assms(2,2)] .
  from moderate_add [OF this] have "moderate (2 * (k + 1)) ((fval (pX p) - fval (pX q))\<^sup>2 + (fval (pY p) - fval (pY q))\<^sup>2)"
    by (intro moderate_mono [of "2 * k + 1" _ "2 * (k + 1)"]) simp_all
  then show ?thesis unfolding euclid_def by (rule moderate_sqrt) simp
qed

theorem Distance_placed:
  assumes "placed k p" "placed k q" "k \<le> 400"
  shows "accurate 3 (Distance p q) (euclid p q)" "moderate (k + 54) (fval (Distance p q))"
proof -
  have m: "moderate (k + 52) (fval (pX p) - fval (pX q))" "moderate (k + 52) (fval (pY p) - fval (pY q))"
    using assms by (auto simp: placed_def intro!: moderate_diff)
  show a: "accurate 3 (Distance p q) (euclid p q)"
    using assms m by (intro Distance_accurate moderate_mono [of "k + 52" _ 500]) (auto simp: placed_def)
  then obtain r where "roundings 3 r" "fval (Distance p q) = euclid p q * r" unfolding accurate_def by blast
  then show "moderate (k + 54) (fval (Distance p q))" using moderate_rounded [OF moderate_euclid [OF m], of 3 r] by (simp add: add.commute)
qed

end
