(* ===== verification/Models_Spec.thy ===== *)
theory Models_Spec
  imports Tour_Spec
begin

text \<open>
  The methods of \<open>src/models.go\<close>: the distance matrix is square and symmetric, and a clone has the
  value of the original.
\<close>

section \<open>Copies\<close>

lemma go_copy_all: "length dst = length src \<Longrightarrow> go_copy dst src = src"
  by (simp add: go_copy_def)

lemma Clone_same: "Clone s = Some \<lparr>SolInstance = SolInstance s, Days = map (\<lambda>day.
    \<lparr>Steps = Steps day, DistTotal = DistTotal day, TimeTotal = TimeTotal day\<rparr>) (Days s),
    TotalScore = TotalScore s, TotalDist = TotalDist s\<rparr>"
proof -
  let ?n = "length (Days s)"
  let ?c = "\<lambda>day. \<lparr>Steps = Steps day, DistTotal = DistTotal day, TimeTotal = TimeTotal day\<rparr>"
  let ?zero = "\<lparr>Steps = [], DistTotal = 0, TimeTotal = 0\<rparr> :: DayTour"
  have "\<exists>t. go_range (\<lambda>i ds. go_set ds i (?c (Days s ! nat i))) [int 0..int ?n - 1] (replicate ?n ?zero) = Some t \<and>
      t = map ?c (take ?n (Days s)) @ replicate (?n - ?n) ?zero"
  proof (rule go_range_upto [where I = "\<lambda>i t. t = map ?c (take i (Days s)) @ replicate (?n - i) ?zero"])
    fix i t assume i: "i < ?n" and t: "t = map ?c (take i (Days s)) @ replicate (?n - i) ?zero"
    have r: "replicate (?n - i) ?zero = ?zero # replicate (?n - Suc i) ?zero"
      using i by (metis Suc_diff_Suc replicate_Suc)
    have "t[i := ?c (Days s ! i)] = map ?c (take (Suc i) (Days s)) @ replicate (?n - Suc i) ?zero"
      using i unfolding t r by (simp add: list_update_append min_absorb2 take_Suc_conv_app_nth)
    then show "\<exists>t'. go_set t (int i) (?c (Days s ! nat (int i))) = Some t' \<and>
        t' = map ?c (take (Suc i) (Days s)) @ replicate (?n - Suc i) ?zero"
      using i t by (simp add: go_set_def)
  qed simp_all
  then have loop: "go_range (\<lambda>i ds. go_set ds i (?c (Days s ! nat i))) [int 0..int ?n - 1] (replicate ?n ?zero) =
      Some (map ?c (Days s))" by simp
  have "go_enum (Days s) = map (\<lambda>i. (i, Days s ! nat i)) [int 0..int ?n - 1]"
    by (rule nth_equalityI) (simp_all add: go_enum_def)
  then show ?thesis
    using loop by (simp add: Clone_def go_range_map go_copy_all Let_def)
qed

theorem Clone_id: "Clone s = Some s"
proof -
  have "\<lparr>Steps = Steps day, DistTotal = DistTotal day, TimeTotal = TimeTotal day\<rparr> = day" for day :: DayTour by simp
  then have "map (\<lambda>day. \<lparr>Steps = Steps day, DistTotal = DistTotal day, TimeTotal = TimeTotal day\<rparr>) (Days s) = Days s"
    by (simp add: map_idI)
  then show ?thesis unfolding Clone_same by simp
qed

section \<open>The distance matrix\<close>

definition square :: "nat \<Rightarrow> f64 list list \<Rightarrow> bool" where
  "square n m \<longleftrightarrow> length m = n \<and> (\<forall>row \<in> set m. length row = n)"

lemma mat_set_square:
  assumes "square n m" "i < n" "j < n"
  shows "\<exists>m'. mat_set m (int i) (int j) v = Some m' \<and> square n m' \<and>
    (\<forall>a < n. \<forall>b < n. m' ! a ! b = (if a = i \<and> b = j then v else m ! a ! b))"
proof -
  have l: "length m = n" "length (m ! i) = n" using assms by (simp_all add: square_def)
  have "mat_set m (int i) (int j) v = Some (m[i := (m ! i)[j := v]])"
    using assms(2,3) l by (simp add: mat_set_def)
  moreover have "square n (m[i := (m ! i)[j := v]])"
    using assms l by (auto simp: square_def dest!: set_update_subset_insert [THEN subsetD])
  moreover have "m[i := (m ! i)[j := v]] ! a ! b = (if a = i \<and> b = j then v else m ! a ! b)" if "a < n" "b < n" for a b
    using that l by (cases "a = i") (simp_all add: nth_list_update)
  ultimately show ?thesis by blast
qed

text \<open>The distance of two points, taken from the one with the smaller identifier.\<close>

definition pair_dist :: "Instance \<Rightarrow> nat \<Rightarrow> nat \<Rightarrow> f64" where
  "pair_dist inst a b =
     (if a = b then 0 else Distance (Points inst ! min a b) (Points inst ! max a b))"

theorem ComputeDistMatrix_spec:
  assumes "square (length (Points inst)) (DistMatrix inst)"
  shows "\<exists>m. ComputeDistMatrix inst = Some (inst\<lparr>DistMatrix := m\<rparr>) \<and> square (length (Points inst)) m \<and>
    (\<forall>a < length (Points inst). \<forall>b < length (Points inst). m ! a ! b = pair_dist inst a b)"
proof -
  let ?n = "length (Points inst)"
  let ?J = "\<lambda>i j m m'. square ?n m' \<and> (\<forall>a < ?n. \<forall>b < ?n.
    m' ! a ! b = (if min a b = i \<and> i < max a b \<and> max a b < j then pair_dist inst a b else m ! a ! b))"
  let ?jbody = "\<lambda>i j m. do {
              p \<leftarrow> go_nth (Points inst) i;
              q \<leftarrow> go_nth (Points inst) j;
              let dist = Distance p q;
              m \<leftarrow> mat_set m i j dist;
              mat_set m j i dist }"
  have inner: "\<exists>m'. go_range (?jbody (int i)) [int (Suc i)..int ?n - 1] m = Some m' \<and> ?J i ?n m m'"
    if i: "i < ?n" and m: "square ?n m" for i m
  proof (rule go_range_upto [where I = "\<lambda>j. ?J i j m"])
    show "?J i (Suc i) m m" using m by auto
    show "Suc i \<le> ?n" using i by simp
    fix j t assume j: "Suc i \<le> j" "j < ?n" and t: "?J i j m t"
    let ?d = "Distance (Points inst ! i) (Points inst ! j)"
    from t have sq: "square ?n t" by simp
    obtain m1 where m1: "mat_set t (int i) (int j) ?d = Some m1" "square ?n m1"
      "\<forall>a < ?n. \<forall>b < ?n. m1 ! a ! b = (if a = i \<and> b = j then ?d else t ! a ! b)"
      using mat_set_square [OF sq i j(2)] by blast
    obtain m2 where m2: "mat_set m1 (int j) (int i) ?d = Some m2" "square ?n m2"
      "\<forall>a < ?n. \<forall>b < ?n. m2 ! a ! b = (if a = j \<and> b = i then ?d else m1 ! a ! b)"
      using mat_set_square [OF m1(2) j(2) i] by blast
    have d: "pair_dist inst i j = ?d" "pair_dist inst j i = ?d"
      using j by (simp_all add: pair_dist_def min_def max_def)
    have run: "?jbody (int i) (int j) t = Some m2" using m1(1) m2(1) i j(2) by (simp add: Let_def)
    have "m2 ! a ! b = (if min a b = i \<and> i < max a b \<and> max a b < Suc j then pair_dist inst a b else m ! a ! b)"
      if ab: "a < ?n" "b < ?n" for a b
    proof (cases "(a = i \<and> b = j) \<or> (a = j \<and> b = i)")
      case True
      then show ?thesis using m1(3) [rule_format, OF ab] m2(3) [rule_format, OF ab] d j by (auto simp: min_def max_def)
    next
      case False
      then have "\<not> (a = j \<and> b = i)" "\<not> (a = i \<and> b = j)" by blast+
      then have "m2 ! a ! b = t ! a ! b" using m1(3) [rule_format, OF ab] m2(3) [rule_format, OF ab] by (simp only: if_False)
      moreover have "min a b = i \<and> i < max a b \<and> max a b < Suc j \<longleftrightarrow> min a b = i \<and> i < max a b \<and> max a b < j"
        using False j by (auto simp: min_def max_def split: if_splits)
      ultimately show ?thesis using t ab by simp
    qed
    with run m2(2) show "\<exists>s'. ?jbody (int i) (int j) t = Some s' \<and> ?J i (Suc j) m s'" by blast
  qed
  let ?I = "\<lambda>i m. square ?n m \<and> (\<forall>a < ?n. \<forall>b < ?n. min a b < i \<longrightarrow> m ! a ! b = pair_dist inst a b)"
  let ?ibody = "\<lambda>i m. do { m \<leftarrow> mat_set m i i 0; go_range (?jbody i) [i + 1..int ?n - 1] m }"
  have "\<exists>m. go_range ?ibody [int 0..int ?n - 1] (DistMatrix inst) = Some m \<and> ?I ?n m"
  proof (rule go_range_upto [where I = ?I])
    show "?I 0 (DistMatrix inst)" using assms by simp
    fix i m assume i: "i < ?n" and I: "?I i m"
    obtain m1 where m1: "mat_set m (int i) (int i) 0 = Some m1" "square ?n m1"
      "\<forall>a < ?n. \<forall>b < ?n. m1 ! a ! b = (if a = i \<and> b = i then 0 else m ! a ! b)"
      using mat_set_square [of ?n m i i] I i by blast
    obtain m2 where m2: "go_range (?jbody (int i)) [int (Suc i)..int ?n - 1] m1 = Some m2" "?J i ?n m1 m2"
      using inner [OF i m1(2)] by blast
    have run: "?ibody (int i) m = Some m2" using m1(1) m2(1) by (simp add: add.commute)
    have "m2 ! a ! b = pair_dist inst a b" if ab: "a < ?n" "b < ?n" "min a b < Suc i" for a b
    proof (cases "min a b = i \<and> i < max a b")
      case True
      then show ?thesis using m2(2) ab by simp
    next
      case False
      then have e: "m2 ! a ! b = m1 ! a ! b" using m2(2) ab by auto
      show ?thesis
      proof (cases "a = i \<and> b = i")
        case True
        then show ?thesis using e m1(3) ab by (simp add: pair_dist_def)
      next
        case f: False
        then have "min a b < i" using False ab(3) by (auto simp: min_def max_def split: if_splits)
        then show ?thesis using e f m1(3) I ab by auto
      qed
    qed
    with run m2(2) show "\<exists>s'. ?ibody (int i) m = Some s' \<and> ?I (Suc i) s'" by blast
  qed simp
  then obtain m where m: "go_range ?ibody [int 0..int ?n - 1] (DistMatrix inst) = Some m" "?I ?n m" by blast
  then have "ComputeDistMatrix inst = Some (inst\<lparr>DistMatrix := m\<rparr>)"
    by (simp add: ComputeDistMatrix_def Let_def)
  with m(2) show ?thesis by auto
qed

text \<open>The matrix is symmetric and has a zero diagonal.\<close>

lemma pair_dist_sym: "pair_dist inst a b = pair_dist inst b a" "pair_dist inst a a = 0"
  by (simp_all add: pair_dist_def min.commute max.commute)

end
