(* ===== verification/Real_Tour.thy ===== *)
theory Real_Tour
  imports Distance_Spec Models_Spec Validator_Spec
begin

text \<open>
  The rules of a tour over the real numbers, with Euclidean distances and exact waiting times, and the
  proof that the verdict of the validator, which computes with floats, is theirs up to a margin.
\<close>

section \<open>The exact rules\<close>

definition true_dist :: "Instance \<Rightarrow> int \<Rightarrow> int \<Rightarrow> real" where
  "true_dist inst p q = euclid (pt inst p) (pt inst q)"

definition true_start :: "Instance \<Rightarrow> int \<Rightarrow> real \<Rightarrow> real" where
  "true_start inst p t = (if pType (pt inst p) = TypeSite then max t (fval (pOpenTime (pt inst p))) else t)"

definition true_leave :: "Instance \<Rightarrow> int \<Rightarrow> real \<Rightarrow> real" where
  "true_leave inst p t =
     (if pType (pt inst p) = TypeSite then true_start inst p t + fval (pServiceTime (pt inst p)) else t)"

fun true_time :: "Instance \<Rightarrow> real \<Rightarrow> int \<Rightarrow> int list \<Rightarrow> real" where
  "true_time inst t p [] = t"
| "true_time inst t p (q # qs) = true_time inst (true_leave inst q (t + true_dist inst p q)) q qs"

fun true_length :: "Instance \<Rightarrow> int \<Rightarrow> int list \<Rightarrow> real" where
  "true_length inst p [] = 0"
| "true_length inst p (q # qs) = true_dist inst p q + true_length inst q qs"

text \<open>Every visit starts before the site closes, where the closing times are scaled by \<open>c\<close>.\<close>

fun true_on_time :: "real \<Rightarrow> Instance \<Rightarrow> real \<Rightarrow> int \<Rightarrow> int list \<Rightarrow> bool" where
  "true_on_time c inst t p [] = True"
| "true_on_time c inst t p (q # qs) =
     ((pType (pt inst q) = TypeSite \<longrightarrow>
        true_start inst q (t + true_dist inst p q) \<le> c * fval (pCloseTime (pt inst q))) \<and>
      true_on_time c inst (true_leave inst q (t + true_dist inst p q)) q qs)"

definition true_day :: "real \<Rightarrow> Instance \<Rightarrow> int \<Rightarrow> int list \<Rightarrow> bool" where
  "true_day c inst d ps \<longleftrightarrow> ps = [] \<or>
     (hotel inst (hd ps) \<and> (d = 0 \<longrightarrow> hd ps = StartHotelID inst) \<and>
      hotel inst (last ps) \<and> (d = NbDays inst - 1 \<longrightarrow> last ps = EndHotelID inst) \<and>
      true_on_time c inst 0 (hd ps) (tl ps) \<and>
      true_time inst 0 (hd ps) (tl ps) \<le> c * fval (budget inst d))"

fun true_days :: "real \<Rightarrow> Instance \<Rightarrow> int \<Rightarrow> int list list \<Rightarrow> bool" where
  "true_days c inst d [] = True"
| "true_days c inst d (ps # rs) = (true_day c inst d ps \<and> true_days c inst (d + 1) rs)"

definition true_tour :: "real \<Rightarrow> Instance \<Rightarrow> int list list \<Rightarrow> bool" where
  "true_tour c inst rs \<longleftrightarrow> true_days c inst 0 rs \<and> distinct (sites inst (concat rs))"

section \<open>Instances with ordinary numbers\<close>

definition ordinary :: "Point \<Rightarrow> bool" where
  "ordinary p \<longleftrightarrow> placed 60 p \<and>
     f64_finite (pOpenTime p) \<and> moderate 60 (fval (pOpenTime p)) \<and> 0 \<le> fval (pOpenTime p) \<and>
     f64_finite (pServiceTime p) \<and> moderate 60 (fval (pServiceTime p)) \<and> 0 \<le> fval (pServiceTime p) \<and>
     f64_finite (pCloseTime p)"

text \<open>The matrix is that of the loader.\<close>

definition measured :: "Instance \<Rightarrow> bool" where
  "measured inst \<longleftrightarrow> (\<forall>p \<in> set (Points inst). ordinary p) \<and>
     (\<forall>a < length (Points inst). \<forall>b < length (Points inst). DistMatrix inst ! a ! b = pair_dist inst a b)"

definition finite_budgets :: "Instance \<Rightarrow> bool" where
  "finite_budgets inst \<longleftrightarrow> (\<forall>d \<ge> 0. f64_finite (budget inst d))"

lemma fval_0 [simp]: "fval 0 = 0" "f64_finite 0"
  by (simp_all add: fval_zero f64_finite_def f64_mag_def)

lemma accurate_0: "accurate k 0 0" "moderate m 0"
  using accurate_itself [of 0 k] by (simp_all add: moderate_def)

lemma pair_dist_facts: "pair_dist inst a b = pair_dist inst b a" "pair_dist inst a a = 0"
  by (simp_all add: pair_dist_def min.commute max.commute)

lemma pair_dist_placed:
  assumes "placed k (Points inst ! a)" "placed k (Points inst ! b)" "k \<le> 400"
  shows "accurate 3 (pair_dist inst a b) (euclid (Points inst ! a) (Points inst ! b))" "moderate (k + 54) (fval (pair_dist inst a b))"
proof -
  have p: "placed k (Points inst ! min a b)" "placed k (Points inst ! max a b)" using assms by (auto simp: min_def max_def)
  have e: "euclid (Points inst ! min a b) (Points inst ! max a b) = euclid (Points inst ! a) (Points inst ! b)"
    using euclid_facts(2) by (auto simp: min_def max_def)
  show "accurate 3 (pair_dist inst a b) (euclid (Points inst ! a) (Points inst ! b))" "moderate (k + 54) (fval (pair_dist inst a b))"
    using Distance_placed [OF p assms(3), unfolded e] accurate_0 by (simp_all add: pair_dist_def euclid_facts(3))
qed

lemma measured_point: "measured inst \<Longrightarrow> in_range inst p \<Longrightarrow> ordinary (pt inst p)"
  by (auto simp: measured_def in_range_def)

lemma measured_dist:
  assumes "measured inst" "in_range inst p" "in_range inst q"
  shows "accurate 3 (D inst p q) (true_dist inst p q)" "moderate 114 (fval (D inst p q))"
proof -
  let ?a = "nat p" and ?b = "nat q"
  have r: "?a < length (Points inst)" "?b < length (Points inst)" using assms(2,3) by (auto simp: in_range_def)
  then have D: "D inst p q = pair_dist inst ?a ?b" using assms(1) by (simp add: measured_def)
  have "placed 60 (Points inst ! ?a)" "placed 60 (Points inst ! ?b)" using assms(1) r by (simp_all add: measured_def ordinary_def)
  from pair_dist_placed [OF this] show "accurate 3 (D inst p q) (true_dist inst p q)" "moderate 114 (fval (D inst p q))"
    by (simp_all add: D true_dist_def)
qed

section \<open>The timetable is accurate\<close>

lemma true_dist_nonneg: "0 \<le> true_dist inst p q"
  by (simp add: true_dist_def euclid_facts)

lemma accurate_max:
  assumes "0 \<le> x" "0 \<le> y" "accurate 2 f y" "x * round_down ^ k \<le> y"
  shows "accurate (k + 2) f (max x y)"
proof -
  have f: "f64_finite f" "y * round_down\<^sup>2 \<le> fval f" "fval f \<le> y * round_up\<^sup>2"
    using assms(3) unfolding accurate_iff [OF assms(2)] by blast+
  have "y * round_down ^ (k + 2) \<le> y * round_down\<^sup>2"
    using assms(2) round_factors by (intro mult_left_mono power_decreasing) simp_all
  moreover have "x * round_down ^ (k + 2) \<le> y * round_down\<^sup>2"
    using mult_right_mono [OF assms(4), of "round_down\<^sup>2"] by (simp add: power2_eq_square ac_simps)
  ultimately have "max x y * round_down ^ (k + 2) \<le> fval f" using f(2) by (auto simp: max_def)
  moreover have "y * round_up\<^sup>2 \<le> max x y * round_up ^ (k + 2)"
    using assms(2) round_factors by (intro mult_mono power_increasing) simp_all
  ultimately show ?thesis using f assms(1) by (subst accurate_iff) auto
qed

lemma accurate_reached:
  assumes "accurate k f x" "0 \<le> x" "0 \<le> y" "y \<le> fval f"
  shows "accurate k f (max x y)"
proof -
  have f: "f64_finite f" "x * round_down ^ k \<le> fval f" "fval f \<le> x * round_up ^ k"
    using assms(1) unfolding accurate_iff [OF assms(2)] by blast+
  have "y * round_down ^ k \<le> y * 1" using assms(3) round_factors by (intro mult_left_mono power_le_one) simp_all
  then have "max x y * round_down ^ k \<le> fval f" using f(2) assms(4) by (auto simp: max_def)
  moreover have "x * round_up ^ k \<le> max x y * round_up ^ k" using round_factors by (intro mult_right_mono) simp_all
  ultimately have "max x y * round_down ^ k \<le> fval f \<and> fval f \<le> max x y * round_up ^ k" using f(3) by linarith
  then show ?thesis using f(1) assms(2) by (subst accurate_iff) auto
qed

lemma start_accurate:
  assumes "measured inst" "in_range inst p" "accurate k t x" "0 \<le> x" "moderate m (fval t)" "60 \<le> m" "m \<le> 900"
    and "pType (pt inst p) = TypeSite"
  shows "accurate (k + 2) (start_at inst p t) (true_start inst p x)" "moderate (m + 2) (fval (start_at inst p t))"
proof -
  define opens where "opens = pOpenTime (pt inst p)"
  have op: "f64_finite opens" "moderate m (fval opens)" "0 \<le> fval opens"
    using measured_point [OF assms(1,2)] moderate_mono [OF _ assms(6)] by (auto simp: ordinary_def opens_def)
  have t: "f64_finite t" "0 \<le> fval t" using assms(3,4) accurate_nonneg by (auto simp: accurate_def)
  note ti = assms(3) [unfolded accurate_iff [OF assms(4)]]
  have ts: "true_start inst p x = max x (fval opens)" using assms(8) by (simp add: true_start_def opens_def)
  have M: "0 \<le> max x (fval opens)" "x \<le> max x (fval opens)" "fval opens \<le> max x (fval opens)" using assms(4) by auto
  have "accurate (k + 2) (start_at inst p t) (max x (fval opens)) \<and> moderate (m + 2) (fval (start_at inst p t))"
  proof (cases "flt64 t opens")
    case True
    then have less: "fval t < fval opens" using fgt64_fval op(1) t(1) by blast
    define w where "w = fsub64 opens t"
    have s: "start_at inst p t = fadd64 t w" using True assms(8) by (simp add: start_at_def wait_at_def opens_def w_def)
    have md: "moderate (m + 52) (fval opens - fval t)" using assms(7) by (intro moderate_diff op t assms(5)) simp
    have "nearest_float (fval opens - fval t) w"
      unfolding w_def using moderate_packs [of "m + 52" "fval opens" "- fval t"] md assms(7) by (intro fsub64_nearest op t) simp
    from moderate_nearest [OF this md] assms(7) obtain r where
      r: "f64_finite w" "roundings 1 r" "fval w = (fval opens - fval t) * r" by auto
    obtain r' where r': "roundings 1 r'" "fval t * 1 + (fval opens - fval t) * r = fval opens * r'"
      using roundings_sum [OF roundings_one r(2), of "fval t" "fval opens - fval t"] t(2) less by auto
    have ms: "moderate (m + 1) (fval t + fval w)" using moderate_rounded [OF op(2) r'(1)] r'(2) by (simp add: r(3))
    have "nearest_float (fval t + fval w) (fadd64 t w)" using moderate_packs [OF ms] assms(7) by (intro fadd64_nearest t r) simp
    from moderate_nearest [OF this ms] assms(7) obtain r'' where
      r'': "f64_finite (fadd64 t w)" "roundings 1 r''" "fval (fadd64 t w) = (fval t + fval w) * r''" by auto
    have "accurate 2 (fadd64 t w) (fval opens)"
      unfolding accurate_def using r'' roundings_mult [OF r'(1) r''(2), unfolded one_add_one] r'(2)
      by (intro conjI exI [of _ "r' * r''"]) (simp_all add: r(3) mult.assoc [symmetric])
    moreover have "moderate (m + 2) (fval (fadd64 t w))" unfolding r''(3) using moderate_rounded [OF ms r''(2)] by simp
    moreover have "x * round_down ^ k \<le> fval opens" using ti less by linarith
    ultimately show ?thesis unfolding s using accurate_max [OF assms(4) op(3)] by blast
  next
    case False
    then have less: "fval opens \<le> fval t" using fgt64_fval op(1) t(1) by (meson not_less)
    have s: "start_at inst p t = fadd64 t 0" using False assms(8) by (simp add: start_at_def wait_at_def opens_def)
    have z: "f64_finite 0" "fval 0 = 0" by (simp_all add: fval_zero f64_finite_def f64_mag_def)
    have "accurate k t (max x (fval opens))" using accurate_reached [OF assms(3,4) op(3) less] .
    from accurate_add [OF this accurate_itself [OF z(1)], of k k m] show ?thesis
      unfolding s using M assms(5,7) z by (auto simp: moderate_def elim: accurate_mono)
  qed
  then show "accurate (k + 2) (start_at inst p t) (true_start inst p x)" "moderate (m + 2) (fval (start_at inst p t))"
    unfolding ts by blast+
qed

lemma leave_accurate:
  assumes "measured inst" "in_range inst p" "accurate k t x" "0 \<le> x" "moderate m (fval t)" "60 \<le> m" "m \<le> 900"
  shows "accurate (k + 3) (leave_at inst p t) (true_leave inst p x)" "moderate (m + 4) (fval (leave_at inst p t))"
    "0 \<le> true_leave inst p x"
proof -
  let ?s = "pServiceTime (pt inst p)"
  have "accurate (k + 3) (leave_at inst p t) (true_leave inst p x) \<and> moderate (m + 4) (fval (leave_at inst p t)) \<and>
    0 \<le> true_leave inst p x"
  proof (cases "pType (pt inst p) = TypeSite")
    case True
    have s: "f64_finite ?s" "moderate (m + 2) (fval ?s)" "0 \<le> fval ?s"
      using measured_point [OF assms(1,2)] assms(6) by (auto simp: ordinary_def intro: moderate_mono)
    have ts: "0 \<le> true_start inst p x" using assms(4) by (auto simp: true_start_def)
    note st = start_accurate [OF assms True]
    have e: "k + 2 + 1 = k + 3" "m + 2 + 2 = m + 4" by simp_all
    from accurate_add [OF st(1) accurate_itself [OF s(1), of 0] order_refl _ ts s(3) st(2) s(2), unfolded e] assms(7)
    show ?thesis using True ts s(3) by (simp add: leave_at_def true_leave_def)
  next
    case False
    then show ?thesis
      using assms(3-5) by (auto simp: leave_at_def true_leave_def intro: accurate_mono moderate_mono)
  qed
  then show "accurate (k + 3) (leave_at inst p t) (true_leave inst p x)" "moderate (m + 4) (fval (leave_at inst p t))"
    "0 \<le> true_leave inst p x" by blast+
qed

lemma drive_accurate:
  assumes "measured inst" "in_range inst p" "in_range inst q" "accurate k t x" "0 \<le> x" "3 \<le> k" "moderate m (fval t)" "114 \<le> m" "m \<le> 890"
  shows "accurate (k + 1) (fadd64 t (D inst p q)) (x + true_dist inst p q)" "moderate (m + 2) (fval (fadd64 t (D inst p q)))"
    "0 \<le> x + true_dist inst p q"
  using accurate_add [OF assms(4) measured_dist(1) [OF assms(1-3)] order_refl assms(6,5) true_dist_nonneg assms(7)
      moderate_mono [OF measured_dist(2) [OF assms(1-3)] assms(8)]] assms(5,9) true_dist_nonneg [of inst p q] by simp_all

text \<open>A comparison with a bound is right up to the margin.\<close>

lemma round_down_power: "k \<le> 520 \<Longrightarrow> 1 - 520 / 2 ^ 53 \<le> round_down ^ k"
proof -
  assume k: "k \<le> 520"
  have "1 + real k * (- (1 / 2 ^ 53)) \<le> (1 + - (1 / 2 ^ 53)) ^ k" by (rule Bernoulli_inequality) simp
  then have "1 - real k / 2 ^ 53 \<le> round_down ^ k" by (simp add: round_down_def)
  moreover have "real k / 2 ^ 53 \<le> 520 / 2 ^ 53" using k by (intro divide_right_mono) simp_all
  ultimately show ?thesis by linarith
qed

lemma bound_margin:
  assumes "accurate k f x" "0 \<le> x" "k \<le> 520" "f64_finite g"
  shows "\<not> fgt64 f g \<Longrightarrow> x \<le> (1 + 1 / 2 ^ 43) * fval g" "x \<le> (1 - 1 / 2 ^ 43) * fval g \<Longrightarrow> \<not> fgt64 f g"
proof -
  have f: "f64_finite f" "x * round_down ^ k \<le> fval f" "fval f \<le> x * round_up ^ k"
    using assms(1) unfolding accurate_iff [OF assms(2)] by blast+
  have gt: "fgt64 f g \<longleftrightarrow> fval g < fval f" by (rule fgt64_fval [OF f(1) assms(4)])
  note down = round_down_power [OF assms(3)]
  show "x \<le> (1 + 1 / 2 ^ 43) * fval g" if "\<not> fgt64 f g"
  proof -
    have "1 \<le> (1 + 1 / 2 ^ 43) * (1 - 520 / 2 ^ 53 :: real)" by simp
    also have "\<dots> \<le> (1 + 1 / 2 ^ 43) * round_down ^ k" by (rule mult_left_mono [OF down]) simp
    finally have "x * 1 \<le> x * ((1 + 1 / 2 ^ 43) * round_down ^ k)" using assms(2) by (rule mult_left_mono)
    also have "\<dots> = (1 + 1 / 2 ^ 43) * (x * round_down ^ k)" by (simp only: ac_simps)
    also have "\<dots> \<le> (1 + 1 / 2 ^ 43) * fval g" using that f(2) by (intro mult_left_mono) (simp_all add: gt)
    finally show ?thesis by simp
  qed
  show "\<not> fgt64 f g" if "x \<le> (1 - 1 / 2 ^ 43) * fval g"
  proof -
    have g: "0 \<le> fval g" using that assms(2) by (simp add: zero_le_mult_iff)
    have "round_up * round_down \<le> 1" by (simp add: round_up_def round_down_def)
    then have "(round_up * round_down) ^ k \<le> 1" using round_factors by (intro power_le_one) simp_all
    moreover have "1 - 1 / 2 ^ 43 \<le> round_down ^ k" using down by simp
    then have "round_up ^ k * (1 - 1 / 2 ^ 43) \<le> round_up ^ k * round_down ^ k"
      using round_factors by (intro mult_left_mono) simp_all
    ultimately have one: "round_up ^ k * (1 - 1 / 2 ^ 43) \<le> 1" by (simp only: power_mult_distrib)
    have "fval f \<le> (1 - 1 / 2 ^ 43) * fval g * round_up ^ k"
      using round_factors by (intro order_trans [OF f(3)] mult_right_mono [OF that]) simp
    also have "\<dots> = round_up ^ k * (1 - 1 / 2 ^ 43) * fval g" by (simp only: ac_simps)
    also have "\<dots> \<le> 1 * fval g" by (rule mult_right_mono [OF one g])
    finally show ?thesis by (simp add: gt)
  qed
qed

section \<open>The verdict is exact up to the margin\<close>

lemma timetable_accurate:
  assumes "measured inst" "in_range inst p" "\<forall>q \<in> set qs. in_range inst q"
    and "accurate k t x" "0 \<le> x" "3 \<le> k" "moderate m (fval t)" "114 \<le> m"
    and "k + 4 * length qs \<le> 520" "m + 6 * length qs \<le> 890"
  shows "accurate (k + 4 * length qs) (route_time inst t p qs) (true_time inst x p qs) \<and> 0 \<le> true_time inst x p qs \<and>
    (on_time inst t p qs \<longrightarrow> true_on_time (1 + 1 / 2 ^ 43) inst x p qs) \<and>
    (true_on_time (1 - 1 / 2 ^ 43) inst x p qs \<longrightarrow> on_time inst t p qs)"
  using assms(2-)
proof (induction qs arbitrary: p k t x m)
  case (Cons q qs)
  let ?a = "fadd64 t (D inst p q)" and ?x = "x + true_dist inst p q"
  have r: "in_range inst q" and m: "m \<le> 884" using Cons.prems by simp_all
  note a = drive_accurate [OF assms(1) Cons.prems(1) r Cons.prems(3-7)]
  have a': "accurate (k + 1) ?a ?x" "0 \<le> ?x" "moderate (m + 2) (fval ?a)" using a m by simp_all
  have lim: "60 \<le> m + 2" "m + 2 \<le> 900" using Cons.prems m by simp_all
  note l = leave_accurate [OF assms(1) r a' lim]
  have l': "accurate (k + 4) (leave_at inst q ?a) (true_leave inst q ?x)" "moderate (m + 6) (fval (leave_at inst q ?a))"
    using l by (simp_all add: add.assoc add.commute)
  have IH: "accurate (k + 4 + 4 * length qs) (route_time inst (leave_at inst q ?a) q qs) (true_time inst (true_leave inst q ?x) q qs) \<and>
    0 \<le> true_time inst (true_leave inst q ?x) q qs \<and>
    (on_time inst (leave_at inst q ?a) q qs \<longrightarrow> true_on_time (1 + 1 / 2 ^ 43) inst (true_leave inst q ?x) q qs) \<and>
    (true_on_time (1 - 1 / 2 ^ 43) inst (true_leave inst q ?x) q qs \<longrightarrow> on_time inst (leave_at inst q ?a) q qs)"
    by (rule Cons.IH [OF r _ l'(1) l(3) _ l'(2)]) (use Cons.prems in simp_all)
  have "(open_at inst q ?a \<longrightarrow> true_start inst q ?x \<le> (1 + 1 / 2 ^ 43) * fval (pCloseTime (pt inst q))) \<and>
    (true_start inst q ?x \<le> (1 - 1 / 2 ^ 43) * fval (pCloseTime (pt inst q)) \<longrightarrow> open_at inst q ?a)"
    if site: "pType (pt inst q) = TypeSite"
  proof -
    have s: "accurate (k + 3) (start_at inst q ?a) (true_start inst q ?x)"
      using start_accurate(1) [OF assms(1) r a' lim site] by (simp add: add.assoc numeral_3_eq_3)
    have "f64_finite (pCloseTime (pt inst q))" using measured_point [OF assms(1) r] by (simp add: ordinary_def)
    moreover have "0 \<le> true_start inst q ?x" using a'(2) by (auto simp: true_start_def)
    moreover have "k + 3 \<le> 520" using Cons.prems(8) by simp
    ultimately show ?thesis using bound_margin [OF s] site unfolding open_at_def by blast
  qed
  then show ?case using IH by (auto simp: open_at_def add.assoc)
qed simp

lemma day_exact:
  assumes "measured inst" "finite_budgets inst" "\<forall>p \<in> set ps. in_range inst p" "length ps \<le> 128" "0 \<le> d"
  shows "day_rules inst d ps \<Longrightarrow> true_day (1 + 1 / 2 ^ 43) inst d ps" "true_day (1 - 1 / 2 ^ 43) inst d ps \<Longrightarrow> day_rules inst d ps"
proof -
  have "(day_rules inst d ps \<longrightarrow> true_day (1 + 1 / 2 ^ 43) inst d ps) \<and> (true_day (1 - 1 / 2 ^ 43) inst d ps \<longrightarrow> day_rules inst d ps)"
  proof (cases ps)
    case (Cons p qs)
    have fin: "f64_finite (budget inst d)" using assms(2,5) by (simp add: finite_budgets_def)
    have T: "accurate (3 + 4 * length qs) (route_time inst 0 p qs) (true_time inst 0 p qs) \<and> 0 \<le> true_time inst 0 p qs \<and>
      (on_time inst 0 p qs \<longrightarrow> true_on_time (1 + 1 / 2 ^ 43) inst 0 p qs) \<and>
      (true_on_time (1 - 1 / 2 ^ 43) inst 0 p qs \<longrightarrow> on_time inst 0 p qs)"
      using assms(3,4) Cons accurate_0(2)
      by (intro timetable_accurate [OF assms(1) _ _ accurate_0(1), where m = 114]) simp_all
    have "3 + 4 * length qs \<le> 520" using assms(4) Cons by simp
    from bound_margin [OF conjunct1 [OF T] conjunct1 [OF conjunct2 [OF T]] this fin] T show ?thesis
      unfolding day_rules_def true_day_def time_of_def Cons by auto
  qed (simp add: day_rules_def true_day_def)
  then show "day_rules inst d ps \<Longrightarrow> true_day (1 + 1 / 2 ^ 43) inst d ps" "true_day (1 - 1 / 2 ^ 43) inst d ps \<Longrightarrow> day_rules inst d ps"
    by blast+
qed

lemma days_exact:
  assumes "measured inst" "finite_budgets inst"
    and "\<forall>ps \<in> set rs. (\<forall>p \<in> set ps. in_range inst p) \<and> length ps \<le> 128" "0 \<le> d"
  shows "(days_rules inst d rs \<longrightarrow> true_days (1 + 1 / 2 ^ 43) inst d rs) \<and> (true_days (1 - 1 / 2 ^ 43) inst d rs \<longrightarrow> days_rules inst d rs)"
  using assms(3,4)
proof (induction rs arbitrary: d)
  case (Cons ps rs)
  then have "\<forall>p \<in> set ps. in_range inst p" "length ps \<le> 128" by simp_all
  from day_exact [OF assms(1,2) this Cons.prems(2)] Cons.IH [of "d + 1"] Cons.prems show ?case by auto
qed simp

lemma route_dist_accurate:
  assumes "measured inst" "in_range inst p" "\<forall>q \<in> set qs. in_range inst q"
    and "accurate k d x" "0 \<le> x" "3 \<le> k" "moderate m (fval d)" "114 \<le> m" "m + 2 * length qs \<le> 890"
  shows "accurate (k + length qs) (route_dist inst d p qs) (x + true_length inst p qs)"
  using assms(2-)
proof (induction qs arbitrary: p k d x m)
  case (Cons q qs)
  have r: "in_range inst q" and m: "m \<le> 890" using Cons.prems by simp_all
  note a = drive_accurate [OF assms(1) Cons.prems(1) r Cons.prems(3-7) m]
  have "accurate (k + 1 + length qs) (route_dist inst (fadd64 d (D inst p q)) q qs) (x + true_dist inst p q + true_length inst q qs)"
    by (rule Cons.IH [OF r _ a(1,3) _ a(2)]) (use Cons.prems in simp_all)
  then show ?case by (simp add: add.assoc)
qed simp

lemma length_of_accurate:
  assumes "measured inst" "\<forall>p \<in> set ps. in_range inst p" "ps \<noteq> []" "length ps \<le> 128"
  shows "accurate (2 + length ps) (length_of inst ps) (true_length inst (hd ps) (tl ps))"
  using assms route_dist_accurate [OF assms(1) _ _ accurate_0(1), of "hd ps" "tl ps" 3 114] accurate_0(2)
  by (cases ps) (simp_all add: length_of_def eval_nat_numeral)

theorem verdict_exact:
  assumes "wf_inst (SolInstance sol)" "known_points sol" "measured (SolInstance sol)" "finite_budgets (SolInstance sol)"
    and "\<forall>ps \<in> set (routes sol). length ps \<le> 128"
  shows "\<exists>sol' e. EvaluateSolution sol = Some (sol', e) \<and>
    (true_tour (1 - 1 / 2 ^ 43) (SolInstance sol) (routes sol) \<longrightarrow> e = None) \<and>
    (e = None \<longrightarrow> true_tour (1 + 1 / 2 ^ 43) (SolInstance sol) (routes sol) \<and>
       (\<forall>day \<in> set (Days sol'). Steps day \<noteq> [] \<longrightarrow>
          accurate 130 (DistTotal day) (true_length (SolInstance sol) (hd (route day)) (tl (route day)))))"
proof -
  let ?inst = "SolInstance sol"
  have known: "\<forall>ps \<in> set (routes sol). (\<forall>p \<in> set ps. in_range ?inst p) \<and> length ps \<le> 128"
    using assms(2,5) by (simp add: known_points_def)
  note days = days_exact [OF assms(3,4) known order_refl]
  show ?thesis
  proof (cases "valid_routes ?inst (routes sol)")
    case True
    have "accurate 130 (DistTotal (replan ?inst day)) (true_length ?inst (hd (route day)) (tl (route day)))"
      if "day \<in> set (Days sol)" "Steps day \<noteq> []" for day
    proof -
      have r: "route day \<in> set (routes sol)" "route day \<noteq> []" using that by (simp_all add: routes_def route_def)
      then have "accurate (2 + length (route day)) (length_of ?inst (route day)) (true_length ?inst (hd (route day)) (tl (route day)))"
        using known by (intro length_of_accurate assms(3)) simp_all
      then have "accurate 130 (length_of ?inst (route day)) (true_length ?inst (hd (route day)) (tl (route day)))"
        by (rule accurate_mono) (use assms(5) r(1) in simp)
      then show ?thesis using that(2) by (simp add: replan_def)
    qed
    moreover have "Steps (replan ?inst day) \<noteq> [] \<longleftrightarrow> Steps day \<noteq> []" for day by (simp add: replan_def route_def)
    ultimately show ?thesis
      using True days EvaluateSolution_ok [OF assms(1,2) True]
      by (auto simp: valid_routes_def true_tour_def revalued_def)
  next
    case False
    then have "\<not> true_tour (1 - 1 / 2 ^ 43) ?inst (routes sol)" using days by (auto simp: valid_routes_def true_tour_def)
    then show ?thesis using EvaluateSolution_err [OF assms(1,2) False] by auto
  qed
qed

end
