(* ===== verification/Go_Scanner.thy ===== *)
theory Go_Scanner
  imports Go_Prelude
begin

text \<open>
  The line scanner of \<open>bufio/scan.go\<close>. The buffer is its length and the bytes \<open>buf[start:end]\<close> with
  \<open>start\<close>; the bytes outside are never read. A reader is its state with a parameter \<open>rd\<close>: from a state
  and the room in the buffer to the bytes read, the error, and the next state.
\<close>

section \<open>The type\<close>

datatype io_error = EOF | ErrTooLong | ErrNegativeAdvance | ErrAdvanceTooFar | ErrBadReadCount
  | ErrNoProgress | ErrFinalToken | IOError string

type_synonym 'r reader = "'r \<Rightarrow> nat \<Rightarrow> string \<times> io_error option \<times> 'r"

type_synonym split_func = "string \<Rightarrow> bool \<Rightarrow> int \<times> string option \<times> io_error option"

record 'r Scanner =
  sR :: 'r
  sSplit :: split_func
  sMax :: nat
  sToken :: "string option"
  sLen :: nat
  sData :: string
  sStart :: nat
  sErr :: "io_error option"
  sEmpties :: nat
  sDone :: bool

definition MaxScanTokenSize :: nat where "MaxScanTokenSize = 64 * 1024"
definition startBufSize :: nat where "startBufSize = 4096"
definition maxConsecutiveEmptyReads :: nat where "maxConsecutiveEmptyReads = 100"

section \<open>Lines\<close>

definition dropCR :: "string \<Rightarrow> string" where
  "dropCR data = (if length data > 0 \<and> last data = CHR 0x0D then butlast data else data)"

text \<open>The newline character, and the bytes before the first one.\<close>

abbreviation newline :: char where "newline \<equiv> CHR 0x0A"

definition ScanLines :: split_func where
  "ScanLines data atEOF =
     (if atEOF \<and> data = [] then (0, None, None)
      else
        let i = length (takeWhile (\<lambda>c. c \<noteq> newline) data)
        in if i < length data then (int i + 1, Some (dropCR (take i data)), None)
           else if atEOF then (int (length data), Some (dropCR data), None)
           else (0, None, None))"

definition NewScanner :: "'r \<Rightarrow> 'r Scanner" where
  "NewScanner r =
     \<lparr>sR = r, sSplit = ScanLines, sMax = MaxScanTokenSize, sToken = None, sLen = 0, sData = [], sStart = 0,
      sErr = None, sEmpties = 0, sDone = False\<rparr>"

section \<open>Methods\<close>

definition Scanner_Err :: "'r Scanner \<Rightarrow> io_error option" where
  "Scanner_Err s = (if sErr s = Some EOF then None else sErr s)"

definition Scanner_Text :: "'r Scanner \<Rightarrow> string" where
  "Scanner_Text s = (case sToken s of None \<Rightarrow> [] | Some t \<Rightarrow> t)"

definition setErr :: "io_error \<Rightarrow> 'r Scanner \<Rightarrow> 'r Scanner" where
  "setErr e s = (if sErr s = None \<or> sErr s = Some EOF then s\<lparr>sErr := Some e\<rparr> else s)"

definition advance :: "int \<Rightarrow> 'r Scanner \<Rightarrow> bool \<times> 'r Scanner" where
  "advance n s =
     (if n < 0 then (False, setErr ErrNegativeAdvance s)
      else if n > int (length (sData s)) then (False, setErr ErrAdvanceTooFar s)
      else (True, s\<lparr>sData := drop (nat n) (sData s), sStart := sStart s + nat n\<rparr>))"

text \<open>The end of the data in the buffer, and the two ways of making room.\<close>

definition sEnd :: "'r Scanner \<Rightarrow> nat" where
  "sEnd s = sStart s + length (sData s)"

definition shiftData :: "'r Scanner \<Rightarrow> 'r Scanner" where
  "shiftData s =
     (if sStart s > 0 \<and> (sEnd s = sLen s \<or> sStart s > sLen s div 2) then s\<lparr>sStart := 0\<rparr> else s)"

text \<open>The flag tells that the buffer may not grow. The test against \<open>maxInt/2\<close> is on the length of a slice.\<close>

definition growBuffer :: "'r Scanner \<Rightarrow> bool \<times> 'r Scanner" where
  "growBuffer s =
     (if sEnd s = sLen s then
        if sLen s \<ge> sMax s \<or> sLen s > (2 ^ 63 - 1) div 2 then (False, setErr ErrTooLong s)
        else
          let newSize = sLen s * 2; newSize = (if newSize = 0 then startBufSize else newSize)
          in (True, s\<lparr>sLen := min newSize (sMax s), sStart := 0\<rparr>)
      else (True, s))"

text \<open>The inner loop; its counter bounds the reads without data. A count of bytes is never negative here.\<close>

function readMore :: "'r reader \<Rightarrow> nat \<Rightarrow> 'r Scanner \<Rightarrow> 'r Scanner" where
  "readMore rd loop s =
     (let (bs, err, r) = rd (sR s) (sLen s - sEnd s); s = s\<lparr>sR := r\<rparr>
      in if sLen s - sEnd s < length bs then setErr ErrBadReadCount s
         else
           let s = s\<lparr>sData := sData s @ bs\<rparr>
           in case err of Some e \<Rightarrow> setErr e s
              | None \<Rightarrow>
                  if bs \<noteq> [] then s\<lparr>sEmpties := 0\<rparr>
                  else if loop + 1 > maxConsecutiveEmptyReads then setErr ErrNoProgress s
                  else readMore rd (loop + 1) s)"
  by auto
termination
  by (relation "measure (\<lambda>(rd, loop, s). maxConsecutiveEmptyReads - loop)") auto

declare readMore.simps [simp del]

text \<open>
  The first half of the loop body of \<open>Scan\<close>: a result to return, or the scanner with which to go on.
  \<^const>\<open>None\<close> is the panic on too many empty tokens.
\<close>

definition takeToken :: "'r Scanner \<Rightarrow> ((bool \<times> 'r Scanner) + 'r Scanner) option" where
  "takeToken s =
     (if sData s \<noteq> [] \<or> sErr s \<noteq> None then
        let (adv, token, err) = sSplit s (sData s) (sErr s \<noteq> None)
        in case err of
             Some e \<Rightarrow>
               if e = ErrFinalToken then Some (Inl (token \<noteq> None, s\<lparr>sToken := token, sDone := True\<rparr>))
               else Some (Inl (False, setErr e s))
           | None \<Rightarrow>
               let (ok, s) = advance adv s
               in if \<not> ok then Some (Inl (False, s))
                  else
                    let s = s\<lparr>sToken := token\<rparr>
                    in if token = None then Some (Inr s)
                       else if sErr s = None \<or> adv > 0 then Some (Inl (True, s\<lparr>sEmpties := 0\<rparr>))
                       else if sEmpties s + 1 > maxConsecutiveEmptyReads then None
                       else Some (Inl (True, s\<lparr>sEmpties := sEmpties s + 1\<rparr>))
      else Some (Inr s))"

partial_function (option) scanLoop :: "'r reader \<Rightarrow> 'r Scanner \<Rightarrow> (bool \<times> 'r Scanner) option" where
  "scanLoop rd s = do {
     res \<leftarrow> takeToken s;
     (case res of Inl ret \<Rightarrow> Some ret
      | Inr s \<Rightarrow>
          if sErr s \<noteq> None then Some (False, s\<lparr>sData := [], sStart := 0\<rparr>)
          else
            let (ok, s) = growBuffer (shiftData s)
            in if \<not> ok then Some (False, s) else scanLoop rd (readMore rd 0 s)) }"

declare scanLoop.simps [code]

definition Scan :: "'r reader \<Rightarrow> 'r Scanner \<Rightarrow> (bool \<times> 'r Scanner) option" where
  "Scan rd s = (if sDone s then Some (False, s) else scanLoop rd s)"

section \<open>Reading a file\<close>

text \<open>
  \<open>FD.Read\<close> of \<open>internal/poll/fd_unix.go\<close>, which \<open>os.File.Read\<close> calls, with \<open>eofError\<close>. The system call
  is the parameter \<open>sys\<close>, whose end of file is a read of no bytes.
\<close>

definition maxRW :: nat where "maxRW = 2 ^ 30"

definition FD_Read :: "'r reader \<Rightarrow> 'r reader" where
  "FD_Read sys r n =
     (if n = 0 then ([], None, r)
      else
        let (bs, err, r) = sys r (if n > maxRW then maxRW else n)
        in if err \<noteq> None then ([], err, r)
           else (bs, if bs = [] then Some EOF else None, r))"

end
