(* ===== verification/Parser.thy ===== *)
theory Parser
  imports Go_Atof Go_Scanner Models
begin

text \<open>
  \<open>parser.go\<close>: an instance from a text file. The files are a parameter \<open>files\<close>, from a path to a freshly
  opened file, and \<open>sys\<close> is the system call that reads it; closing the file has no effect on the result.
  The texts of the errors are constructors that hold what they print.
\<close>

datatype load_error = CannotOpen | EmptyFile | BadHeader string | BadTmax strconv_error | NoTmax | NoTd
  | ScanFailed io_error

text \<open>The value of \<open>v, _ := strconv.ParseFloat(f, 64)\<close>.\<close>

definition parsedFloat :: "string \<Rightarrow> f64 option" where
  "parsedFloat f = map_option fst (ParseFloat f)"

text \<open>
  \<open>for scanner.Scan()\<close> up to the first line that is not blank, which the three head lines are read
  with; \<^const>\<open>None\<close> inside is the end of the loop without a line.
\<close>

partial_function (option) nextLine :: "'r reader \<Rightarrow> 'r Scanner \<Rightarrow> (string option \<times> 'r Scanner) option" where
  "nextLine rd scanner = do {
     (ok, scanner) \<leftarrow> Scan rd scanner;
     if \<not> ok then Some (None, scanner)
     else
       let line = TrimSpace (Scanner_Text scanner)
       in if line \<noteq> [] then Some (Some line, scanner) else nextLine rd scanner }"

text \<open>The budgets of the days: a field that is no number is left out.\<close>

definition parseBudgets :: "string \<Rightarrow> f64 list option" where
  "parseBudgets line = do {
     fields \<leftarrow> Fields line;
     go_range (\<lambda>f maxDistPerDay. do {
         (v, err) \<leftarrow> ParseFloat f;
         Some (if err = None then maxDistPerDay @ [v] else maxDistPerDay) }) fields [] }"

text \<open>The local variables of the loop over the points; \<open>idCounter\<close> is the number of points.\<close>

record pointLists =
  plPoints :: "Point list"
  plHotels :: "int list"
  plSites :: "int list"
  plCounter :: int

definition noPoints :: pointLists where
  "noPoints = \<lparr>plPoints = [], plHotels = [], plSites = [], plCounter = 0\<rparr>"

text \<open>\<open>name x y Si St Oi Ci\<close>; a line with fewer fields is skipped, and a field that is no number is what \<open>ParseFloat\<close> returns with its error.\<close>

definition addPoint :: "string list \<Rightarrow> pointLists \<Rightarrow> pointLists option" where
  "addPoint flds st =
     (if length flds < 7 then Some st
      else do {
        x \<leftarrow> parsedFloat (flds ! 1);
        y \<leftarrow> parsedFloat (flds ! 2);
        score \<leftarrow> parsedFloat (flds ! 3);
        serviceTime \<leftarrow> parsedFloat (flds ! 4);
        openTime \<leftarrow> parsedFloat (flds ! 5);
        closeTime \<leftarrow> parsedFloat (flds ! 6);
        let idCounter = plCounter st;
        let isHotel = HasPrefix (flds ! 0) ''H'';
        let p = \<lparr>pID = idCounter, pType = (if isHotel then TypeHotel else TypeSite), pX = x, pY = y, pScore = score,
                 pOpenTime = openTime, pCloseTime = closeTime, pServiceTime = serviceTime\<rparr>;
        Some \<lparr>plPoints = plPoints st @ [p],
              plHotels = (if isHotel then plHotels st @ [idCounter] else plHotels st),
              plSites = (if isHotel then plSites st else plSites st @ [idCounter]),
              plCounter = idCounter + 1\<rparr> })"

partial_function (option) readPoints :: "'r reader \<Rightarrow> 'r Scanner \<Rightarrow> pointLists \<Rightarrow> (pointLists \<times> 'r Scanner) option" where
  "readPoints rd scanner st = do {
     (ok, scanner) \<leftarrow> Scan rd scanner;
     if \<not> ok then Some (st, scanner)
     else
       let line = TrimSpace (Scanner_Text scanner)
       in if line = [] then readPoints rd scanner st
          else do {
            flds \<leftarrow> Fields line;
            st \<leftarrow> addPoint flds st;
            readPoints rd scanner st } }"

declare nextLine.simps [code] readPoints.simps [code]

text \<open>
  The instance from the parsed parts. The matrix is allocated before it is filled, and the first two
  points are the start and the end, which stay 0 when there are fewer points.
\<close>

definition makeInstance :: "string \<Rightarrow> int \<Rightarrow> f64 \<Rightarrow> f64 list \<Rightarrow> pointLists \<Rightarrow> Instance option" where
  "makeInstance filePath dCount tMax maxDistPerDay st = do {
     let n = length (plPoints st);
     let inst = \<lparr>Name = filePath, NbDays = dCount, MaxDist = tMax, MaxDistPerDay = maxDistPerDay,
        Points = plPoints st, HotelIDs = plHotels st, SiteIDs = plSites st,
        DistMatrix = replicate n (replicate n 0), StartHotelID = 0, EndHotelID = 0\<rparr>;
     inst \<leftarrow> ComputeDistMatrix inst;
     Some (if n \<ge> 2 then inst\<lparr>StartHotelID := 0, EndHotelID := 1\<rparr> else inst) }"

definition LoadInstance :: "'r reader \<Rightarrow> (string \<Rightarrow> 'r option) \<Rightarrow> string \<Rightarrow> (load_error + Instance) option" where
  "LoadInstance sys files filePath =
     (case files filePath of None \<Rightarrow> Some (Inl CannotOpen)
      | Some file \<Rightarrow> do {
          let rd = FD_Read sys;
          (headerLine, scanner) \<leftarrow> nextLine rd (NewScanner file);
          case headerLine of None \<Rightarrow> Some (Inl EmptyFile)
          | Some headerLine \<Rightarrow> do {
              parts \<leftarrow> Fields headerLine;
              if length parts < 3 then Some (Inl (BadHeader headerLine))
              else do {
                let dCount = fst (Atoi (parts ! 2));
                (line, scanner) \<leftarrow> nextLine rd scanner;
                case line of None \<Rightarrow> Some (Inl NoTmax)
                | Some line \<Rightarrow> do {
                    (tMax, err) \<leftarrow> ParseFloat line;
                    case err of Some e \<Rightarrow> Some (Inl (BadTmax e))
                    | None \<Rightarrow> do {
                        (line, scanner) \<leftarrow> nextLine rd scanner;
                        case line of None \<Rightarrow> Some (Inl NoTd)
                        | Some line \<Rightarrow> do {
                            maxDistPerDay \<leftarrow> parseBudgets line;
                            (st, scanner) \<leftarrow> readPoints rd scanner noPoints;
                            case Scanner_Err scanner of Some e \<Rightarrow> Some (Inl (ScanFailed e))
                            | None \<Rightarrow> do {
                                inst \<leftarrow> makeInstance filePath dCount tMax maxDistPerDay st;
                                Some (Inr inst) } } } } } } })"

end
