(* ===== verification/Writer.thy ===== *)
theory Writer
  imports Go_Ftoa Go_Scanner Models
begin

text \<open>
  \<open>writer.go\<close>: a solution as text. The operating system is a parameter: what it does to the state of the
  files is a record of functions, each from the state before to the state after.
\<close>

record ('fs, 'r) os =
  osOpen :: "'fs \<Rightarrow> string \<Rightarrow> 'r option"
  osRead :: "'r reader"
  osReadFile :: "'fs \<Rightarrow> string \<Rightarrow> string option"
  osCreate :: "'fs \<Rightarrow> string \<Rightarrow> 'fs option"
  osWrite :: "'fs \<Rightarrow> string \<Rightarrow> string \<Rightarrow> io_error option \<times> 'fs"
  osWriteFile :: "'fs \<Rightarrow> string \<Rightarrow> string \<Rightarrow> 'fs"
  osMkdirAll :: "'fs \<Rightarrow> string \<Rightarrow> 'fs"
  osGlob :: "'fs \<Rightarrow> string \<Rightarrow> string list option"

datatype write_error = CannotCreate | WriteFailed io_error

text \<open>The line of a day: \<open>ids\<close> joined with spaces; an identifier is printed with \<open>%d\<close>.\<close>

definition dayLine :: "DayTour \<Rightarrow> string" where
  "dayLine day = Join (map (\<lambda>step. fmtInteger (word_of_int (PointID step)) True) (Steps day)) '' ''"

fun writeDays :: "('fs, 'r) os \<Rightarrow> string \<Rightarrow> DayTour list \<Rightarrow> 'fs \<Rightarrow> write_error option \<times> 'fs" where
  "writeDays os filePath [] fs = (None, fs)"
| "writeDays os filePath (day # days) fs =
     (let (err, fs) = osWrite os fs filePath (dayLine day @ [newline])
      in case err of Some e \<Rightarrow> (Some (WriteFailed e), fs) | None \<Rightarrow> writeDays os filePath days fs)"

text \<open>The error of the first line is not looked at.\<close>

definition WriteSolution :: "('fs, 'r) os \<Rightarrow> Solution \<Rightarrow> string \<Rightarrow> 'fs \<Rightarrow> (write_error option \<times> 'fs) option" where
  "WriteSolution os sol filePath fs =
     (case osCreate os fs filePath of None \<Rightarrow> Some (Some CannotCreate, fs)
      | Some fs \<Rightarrow> do {
          score \<leftarrow> fmtFloat (TotalScore sol) 0;
          let (_, fs) = osWrite os fs filePath (score @ [newline]);
          Some (writeDays os filePath (Days sol) fs) })"

end
