(* ===== verification/Solver.thy ===== *)
theory Solver
  imports Validator_Spec Go_Sort
begin

text \<open>
  The constructive heuristic (\<open>src/solver.go\<close>): day after day, every unvisited site that can still be
  served is a candidate; the best one, or one of the best \<open>rclSize\<close> at random, is visited next, until
  no candidate is left and the day ends at a hotel. A \<open>nil\<close> random source is \<^term>\<open>None\<close>.
\<close>

section \<open>Translation\<close>

record candidate =
  cand_id :: int
  cand_ratio :: f64
  cand_arrival :: f64
  cand_wait :: f64
  cand_departure :: f64
  cand_dist :: f64

definition zeroCandidate :: candidate where
  "zeroCandidate = \<lparr>cand_id = 0, cand_ratio = 0, cand_arrival = 0, cand_wait = 0, cand_departure = 0, cand_dist = 0\<rparr>"

text \<open>The constants \<open>0.001\<close>, \<open>10000\<close>, \<open>1.0\<close> and \<open>-1.0\<close>.\<close>

definition f64_milli :: f64 where "f64_milli = 0x3F50624DD2F1A9FC"
definition f64_10000 :: f64 where "f64_10000 = 0x40C3880000000000"
definition f64_one :: f64 where "f64_one = 0x3FF0000000000000"
definition f64_minus_one :: f64 where "f64_minus_one = 0xBFF0000000000000"

text \<open>The loop over the hotels with its \<open>break\<close>, and the test of the last day.\<close>

fun someHotelInTime :: "Instance \<Rightarrow> int \<Rightarrow> int \<Rightarrow> f64 \<Rightarrow> int list \<Rightarrow> bool option" where
  "someHotelInTime inst d i departure [] = Some False"
| "someHotelInTime inst d i departure (hID # hs) = do {
     distBack \<leftarrow> dist_at inst i hID;
     maxd \<leftarrow> DayMaxDist inst d;
     if fle64 (fadd64 departure distBack) maxd then Some True
     else someHotelInTime inst d i departure hs }"

definition canReturn :: "Instance \<Rightarrow> int \<Rightarrow> int \<Rightarrow> f64 \<Rightarrow> bool option" where
  "canReturn inst d i departure =
     (if d = NbDays inst - 1 then do {
        distBack \<leftarrow> dist_at inst i (EndHotelID inst);
        maxd \<leftarrow> DayMaxDist inst d;
        Some (fle64 (fadd64 departure distBack) maxd) }
      else someHotelInTime inst d i departure (HotelIDs inst))"

definition ratioOf :: "int \<Rightarrow> Point \<Rightarrow> f64 \<Rightarrow> f64 \<Rightarrow> f64 \<Rightarrow> f64" where
  "ratioOf ratioMode p dist arrival cost =
     (if ratioMode = 1 then
        let window = fsub64 (pCloseTime p) arrival;
            window = (if flt64 window f64_milli then f64_milli else window)
        in fdiv64 (pScore p) window
      else if ratioMode = 2 then pScore p
      else if ratioMode = 3 then (if flt64 dist f64_milli then f64_10000 else fdiv64 f64_one dist)
      else fdiv64 (pScore p) cost)"

text \<open>
  One iteration of the loop over the points: \<open>Some None\<close> is \<open>continue\<close>, \<open>Some (Some c)\<close> the candidate
  it builds. \<open>loc\<close> is \<open>currentLocationID\<close>, \<open>dep\<close> the departure of the last step.
\<close>

definition candidateFor ::
  "Instance \<Rightarrow> int \<Rightarrow> int \<Rightarrow> bool list \<Rightarrow> int \<Rightarrow> f64 \<Rightarrow> int \<Rightarrow> Point \<Rightarrow> candidate option option" where
  "candidateFor inst ratioMode d visited loc dep i p = do {
     v \<leftarrow> go_nth visited i;
     if v \<or> pType p = TypeHotel then Some None
     else do {
       dist \<leftarrow> dist_at inst loc i;
       let arrival = fadd64 dep dist;
       if fgt64 arrival (pCloseTime p) then Some None
       else do {
         let wait = (if flt64 arrival (pOpenTime p) then fsub64 (pOpenTime p) arrival else 0);
         let departure = fadd64 (fadd64 arrival wait) (pServiceTime p);
         ret \<leftarrow> canReturn inst d i departure;
         if \<not> ret then Some None
         else do {
           let cost = fadd64 dist wait;
           let cost = (if flt64 cost f64_milli then f64_milli else cost);
           let ratio = ratioOf ratioMode p dist arrival cost;
           Some (Some \<lparr>cand_id = i, cand_ratio = ratio, cand_arrival = arrival, cand_wait = wait,
                       cand_departure = departure, cand_dist = dist\<rparr>) } } } }"

text \<open>The loop: its variables are \<open>bestRatio\<close>, \<open>bestCand\<close> and \<open>candidates\<close>.\<close>

definition scanBody ::
  "Instance \<Rightarrow> int \<Rightarrow> int \<Rightarrow> int \<Rightarrow> bool list \<Rightarrow> int \<Rightarrow> f64 \<Rightarrow> int \<times> Point \<Rightarrow> f64 \<times> candidate \<times> candidate list \<Rightarrow>
   (f64 \<times> candidate \<times> candidate list) option" where
  "scanBody inst rclSize ratioMode d visited loc dep = (\<lambda>(i, p) (bestRatio, bestCand, candidates). do {
     r \<leftarrow> candidateFor inst ratioMode d visited loc dep i p;
     case r of None \<Rightarrow> Some (bestRatio, bestCand, candidates)
     | Some c \<Rightarrow>
         if rclSize \<le> 1 then
           if fgt64 (cand_ratio c) bestRatio then Some (cand_ratio c, c, candidates)
           else Some (bestRatio, bestCand, candidates)
         else Some (bestRatio, bestCand, candidates @ [c]) })"

definition scanPoints ::
  "Instance \<Rightarrow> int \<Rightarrow> int \<Rightarrow> int \<Rightarrow> bool list \<Rightarrow> int \<Rightarrow> f64 \<Rightarrow> (f64 \<times> candidate \<times> candidate list) option" where
  "scanPoints inst rclSize ratioMode d visited loc dep =
     go_range (scanBody inst rclSize ratioMode d visited loc dep) (go_enum (Points inst))
       (f64_minus_one, zeroCandidate, [])"

text \<open>The selection: the chosen candidate, if one is found, and the random source after the draw.\<close>

definition selectCandidate ::
  "int \<Rightarrow> f64 \<Rightarrow> candidate \<Rightarrow> candidate list \<Rightarrow> rngSource option \<Rightarrow> (candidate option \<times> rngSource option) option" where
  "selectCandidate rclSize bestRatio bestCand candidates rng =
     (if rclSize \<le> 1 then
        if fge64 bestRatio 0 then Some (Some bestCand, rng) else Some (None, rng)
      else if length candidates > 0 then do {
        candidates \<leftarrow> Slice (\<lambda>a b. fgt64 (cand_ratio a) (cand_ratio b)) candidates;
        let k = (if rclSize > int (length candidates) then int (length candidates) else rclSize);
        r \<leftarrow> rng;
        (n, r) \<leftarrow> Intn k r;
        c \<leftarrow> go_nth candidates n;
        Some (Some c, Some r) }
      else Some (None, rng))"

definition stepOf :: "candidate \<Rightarrow> Step" where
  "stepOf c = \<lparr>PointID = cand_id c, Arrival = cand_arrival c, Wait = cand_wait c,
     Departure = cand_departure c, DistFromPrev = cand_dist c\<rparr>"

text \<open>
  The inner \<open>for\<close> loop of a day, with the slices and variables it writes. Nothing in its text bounds
  it, so it is a partial function; \<open>greedyVisits_returns\<close> below shows that it ends.
\<close>

partial_function (option) greedyVisits ::
  "Instance \<Rightarrow> int \<Rightarrow> int \<Rightarrow> int \<Rightarrow> Step list \<Rightarrow> bool list \<Rightarrow> int \<Rightarrow> rngSource option \<Rightarrow>
   (Step list \<times> bool list \<times> int \<times> rngSource option) option" where
  "greedyVisits inst rclSize ratioMode d steps visited loc rng = do {
     lastStep \<leftarrow> go_nth steps (int (length steps) - 1);
     (bestRatio, bestCand, candidates) \<leftarrow> scanPoints inst rclSize ratioMode d visited loc (Departure lastStep);
     (chosen, rng) \<leftarrow> selectCandidate rclSize bestRatio bestCand candidates rng;
     case chosen of None \<Rightarrow> Some (steps, visited, loc, rng)
     | Some c \<Rightarrow> do {
         visited \<leftarrow> go_set visited (cand_id c) True;
         greedyVisits inst rclSize ratioMode d (steps @ [stepOf c]) visited (cand_id c) rng } }"

text \<open>The hotel at the end of a day that is not the last: the nearest one in time.\<close>

definition nearestHotel :: "Instance \<Rightarrow> int \<Rightarrow> Step \<Rightarrow> int option" where
  "nearestHotel inst d lastStep = do {
     (minDistH, bestH) \<leftarrow> go_range (\<lambda>hID (minDistH, bestH). do {
         dist \<leftarrow> dist_at inst (PointID lastStep) hID;
         maxd \<leftarrow> DayMaxDist inst d;
         if fle64 (fadd64 (Departure lastStep) dist) maxd then
           if flt64 dist minDistH then Some (dist, hID) else Some (minDistH, bestH)
         else Some (minDistH, bestH) }) (HotelIDs inst) (MaxFloat64, -1);
     Some (if bestH = -1 then EndHotelID inst else bestH) }"

definition greedyDay ::
  "Instance \<Rightarrow> int \<Rightarrow> int \<Rightarrow> int \<Rightarrow> bool list \<Rightarrow> int \<Rightarrow> rngSource option \<Rightarrow>
   (DayTour \<times> bool list \<times> int \<times> rngSource option) option" where
  "greedyDay inst rclSize ratioMode d visited loc rng = do {
     let steps = [\<lparr>PointID = loc, Arrival = 0, Wait = 0, Departure = 0, DistFromPrev = 0\<rparr>];
     (steps, visited, loc, rng) \<leftarrow> greedyVisits inst rclSize ratioMode d steps visited loc rng;
     lastStep \<leftarrow> go_nth steps (int (length steps) - 1);
     endHotelID \<leftarrow> (if d = NbDays inst - 1 then Some (EndHotelID inst) else nearestHotel inst d lastStep);
     distToEnd \<leftarrow> dist_at inst (PointID lastStep) endHotelID;
     let arrival = fadd64 (Departure lastStep) distToEnd;
     let steps = steps @ [\<lparr>PointID = endHotelID, Arrival = arrival, Wait = 0, Departure = arrival,
                           DistFromPrev = distToEnd\<rparr>];
     let total = fold (\<lambda>s d. fadd64 d (DistFromPrev s)) steps 0;
     end \<leftarrow> go_nth steps (int (length steps) - 1);
     Some (\<lparr>Steps = steps, DistTotal = total, TimeTotal = Arrival end\<rparr>, visited, endHotelID, rng) }"

definition solveGreedyInternal ::
  "Instance \<Rightarrow> int \<Rightarrow> rngSource option \<Rightarrow> int \<Rightarrow> (Solution \<times> rngSource option) option" where
  "solveGreedyInternal inst rclSize rng ratioMode = do {
     (days, visited, loc, rng) \<leftarrow> go_range (\<lambda>d (days, visited, loc, rng). do {
         (day, visited, loc, rng) \<leftarrow> greedyDay inst rclSize ratioMode d visited loc rng;
         Some (days @ [day], visited, loc, rng) })
       [0..NbDays inst - 1] ([], replicate (length (Points inst)) False, StartHotelID inst, rng);
     sol \<leftarrow> EvaluateScore \<lparr>SolInstance = inst, Days = days, TotalScore = 0, TotalDist = 0\<rparr>;
     Some (sol, rng) }"

definition SolveGreedy :: "Instance \<Rightarrow> Solution option" where
  "SolveGreedy inst = map_option fst (solveGreedyInternal inst 1 None 0)"

definition SolveGreedyRandomized ::
  "Instance \<Rightarrow> int \<Rightarrow> rngSource option \<Rightarrow> int \<Rightarrow> (Solution \<times> rngSource option) option" where
  "SolveGreedyRandomized inst rclSize rng ratioMode = solveGreedyInternal inst rclSize rng ratioMode"

end
