(* ===== verification/Go_Rand_Returns.thy ===== *)
theory Go_Rand_Returns
  imports Go_Rand
begin

text \<open>
  \<open>Intn\<close> redraws until a value is small enough, and nothing in its text bounds the number of redraws.
  It returns all the same, from every state of the source: a rejected value lies just below \<open>2^63\<close>, so
  its distance to \<open>2^63\<close> is small and positive; the source adds two of its entries, so the distances add
  too, and after every round over its 607 entries the smallest distance has at least doubled.
\<close>

section \<open>The orbit of the source\<close>

definition next_state :: "rngSource \<Rightarrow> rngSource" where
  "next_state r = (case Uint64 r of Some (_, r') \<Rightarrow> r' | None \<Rightarrow> r)"

definition orbit :: "rngSource \<Rightarrow> nat \<Rightarrow> rngSource" where
  "orbit r i = (next_state ^^ i) r"

text \<open>
  A multiple of an entry modulo \<open>2^63\<close>: the source adds entries, so their multiples add. The distance of
  an entry to the next multiple of \<open>2^63\<close> is one of them.
\<close>

definition scaled :: "int \<Rightarrow> rngSource \<Rightarrow> int \<Rightarrow> int" where
  "scaled c r p = (c * uint (vec r ! nat p)) mod 2 ^ 63"

abbreviation gap :: "rngSource \<Rightarrow> int \<Rightarrow> int" where "gap \<equiv> scaled (- 1)"

lemma scaled_bounds: "0 \<le> scaled c r p" "scaled c r p < 2 ^ 63"
  by (simp_all add: scaled_def)

lemma orbit_simps: "orbit r 0 = r" "orbit r (Suc i) = next_state (orbit r i)"
  by (simp_all add: orbit_def)

lemma orbit_orbit: "orbit (orbit r i) j = orbit r (i + j)"
  by (induction j) (simp_all add: orbit_simps)

lemma mod_607: "0 \<le> x \<Longrightarrow> x < rngLen \<Longrightarrow> (if x - 1 < 0 then x - 1 + rngLen else x - 1) = (x - 1) mod rngLen"
  by (cases "x = 0") (simp_all add: rngLen_def)

lemma next_state_Uint64:
  assumes "rng_ok r"
  shows "Uint64 r = Some (vec (next_state r) ! nat (feed (next_state r)), next_state r)" "rng_ok (next_state r)"
    "feed (next_state r) = (feed r - 1) mod rngLen"
    "tap (next_state r) = (tap r - 1) mod rngLen"
    "vec (next_state r) =
       (vec r)[nat (feed (next_state r)) := vec r ! nat (feed (next_state r)) + vec r ! nat (tap (next_state r))]"
proof -
  define f where "f = (feed r - 1) mod rngLen"
  define t where "t = (tap r - 1) mod rngLen"
  have f: "0 \<le> f" "f < int (length (vec r))" and t: "0 \<le> t" "t < int (length (vec r))"
    using assms by (simp_all add: f_def t_def rng_ok_def rngLen_def)
  let ?x = "vec r ! nat f + vec r ! nat t"
  let ?r = "\<lparr>tap = t, feed = f, vec = (vec r)[nat f := ?x]\<rparr>"
  have u: "Uint64 r = Some (?x, ?r)"
    using assms f t mod_607 [of "feed r"] mod_607 [of "tap r"]
    by (simp add: Uint64_def rng_ok_def f_def t_def Let_def cong: if_cong)
  then have n: "next_state r = ?r" by (simp add: next_state_def)
  show "Uint64 r = Some (vec (next_state r) ! nat (feed (next_state r)), next_state r)"
    unfolding n u using f by simp
  show "rng_ok (next_state r)" unfolding n using Uint64_total [OF assms] u by auto
  show "feed (next_state r) = (feed r - 1) mod rngLen" unfolding n by (simp add: f_def)
  show "tap (next_state r) = (tap r - 1) mod rngLen" unfolding n by (simp add: t_def)
  show "vec (next_state r) =
       (vec r)[nat (feed (next_state r)) := vec r ! nat (feed (next_state r)) + vec r ! nat (tap (next_state r))]"
    unfolding n by simp
qed

lemma orbit_ok: "rng_ok r \<Longrightarrow> rng_ok (orbit r i)"
  by (induction i) (simp_all add: orbit_simps next_state_Uint64(2))

lemma feed_orbit: "rng_ok r \<Longrightarrow> feed (orbit r i) = (feed r - int i) mod rngLen"
proof (induction i)
  case 0
  then show ?case by (simp add: orbit_simps rng_ok_def)
next
  case (Suc i)
  then have "feed (orbit r (Suc i)) = (feed (orbit r i) - 1) mod rngLen"
    by (simp add: orbit_simps next_state_Uint64(3) orbit_ok)
  also have "\<dots> = (feed r - int i - 1) mod rngLen" using Suc by (simp add: mod_diff_left_eq)
  finally show ?case by (simp add: algebra_simps)
qed

lemma tap_orbit: "rng_ok r \<Longrightarrow> tap (orbit r i) = (tap r - int i) mod rngLen"
proof (induction i)
  case 0
  then show ?case by (simp add: orbit_simps rng_ok_def)
next
  case (Suc i)
  then have "tap (orbit r (Suc i)) = (tap (orbit r i) - 1) mod rngLen"
    by (simp add: orbit_simps next_state_Uint64(4) orbit_ok)
  also have "\<dots> = (tap r - int i - 1) mod rngLen" using Suc by (simp add: mod_diff_left_eq)
  finally show ?case by (simp add: algebra_simps)
qed

lemma scaled_next:
  assumes "rng_ok r" "0 \<le> p"
  shows "p \<noteq> feed (next_state r) \<Longrightarrow> scaled c (next_state r) p = scaled c r p"
    "scaled c (next_state r) (feed (next_state r)) =
       (scaled c r (feed (next_state r)) + scaled c r (tap (next_state r))) mod 2 ^ 63"
proof -
  let ?f = "feed (next_state r)" and ?t = "tap (next_state r)"
  note v = next_state_Uint64(5) [OF assms(1)]
  have f: "0 \<le> ?f" "?f < int (length (vec r))"
    using next_state_Uint64(2) [OF assms(1)] assms(1) by (simp_all add: rng_ok_def)
  show "scaled c (next_state r) p = scaled c r p" if "p \<noteq> ?f"
    using that f assms(2) v by (simp add: scaled_def nth_list_update)
  have "(c * uint (a + b)) mod 2 ^ 63 = ((c * uint a) mod 2 ^ 63 + (c * uint b) mod 2 ^ 63) mod 2 ^ 63" for a b :: "64 word"
  proof -
    have "uint (a + b) mod 2 ^ 63 = (uint a + uint b) mod 2 ^ 63"
      by (simp add: uint_word_ariths mod_mod_cancel)
    then have "(c * uint (a + b)) mod 2 ^ 63 = (c * (uint a + uint b)) mod 2 ^ 63" by (metis mod_mult_right_eq)
    also have "\<dots> = (c * uint a + c * uint b) mod 2 ^ 63" by (simp add: distrib_left)
    also have "\<dots> = ((c * uint a) mod 2 ^ 63 + (c * uint b) mod 2 ^ 63) mod 2 ^ 63" by (rule mod_add_eq [symmetric])
    finally show ?thesis .
  qed
  then show "scaled c (next_state r) ?f = (scaled c r ?f + scaled c r ?t) mod 2 ^ 63"
    using v f by (simp add: scaled_def)
qed

lemma tap_range: "rng_ok r \<Longrightarrow> 0 \<le> tap r \<and> tap r < rngLen" and feed_range: "rng_ok r \<Longrightarrow> 0 \<le> feed r \<and> feed r < rngLen"
  by (simp_all add: rng_ok_def)

section \<open>A source whose draws are all rejected\<close>

definition all_low :: "int \<Rightarrow> rngSource \<Rightarrow> bool" where
  "all_low a r \<longleftrightarrow> (\<forall>p. 0 \<le> p \<longrightarrow> p < rngLen \<longrightarrow> a \<le> gap r p \<and> gap r p < 2 ^ 62)"

definition keeps_low :: "rngSource \<Rightarrow> bool" where
  "keeps_low r \<longleftrightarrow> (\<forall>i > 0. 1 \<le> gap (orbit r i) (feed (orbit r i)) \<and> gap (orbit r i) (feed (orbit r i)) < 2 ^ 62)"

lemma keeps_low_orbit: "keeps_low r \<Longrightarrow> keeps_low (orbit r i)"
  by (simp add: keeps_low_def orbit_orbit)

text \<open>What holds of every value written holds of every entry after a round.\<close>

lemma written:
  assumes "rng_ok r" "\<And>j. 0 < j \<Longrightarrow> j \<le> i \<Longrightarrow> P (scaled c (orbit r j) (feed (orbit r j)))"
  shows "\<forall>j. 0 < j \<longrightarrow> j \<le> i \<longrightarrow> P (scaled c (orbit r i) ((feed r - int j) mod rngLen))"
  using assms(2)
proof (induction i)
  case 0
  then show ?case by simp
next
  case (Suc i)
  show ?case
  proof (intro allI impI)
    fix j :: nat assume j: "0 < j" "j \<le> Suc i"
    let ?p = "(feed r - int j) mod rngLen"
    show "P (scaled c (orbit r (Suc i)) ?p)"
    proof (cases "?p = feed (orbit r (Suc i))")
      case True
      then show ?thesis using Suc.prems [of "Suc i"] by simp
    next
      case False
      have "j \<le> i" using j False feed_orbit [OF assms(1), of "Suc i"] by (cases "j = Suc i") auto
      then have "P (scaled c (orbit r i) ?p)" using Suc.IH Suc.prems j by simp
      moreover have "0 \<le> ?p" by (simp add: rngLen_def)
      ultimately show ?thesis
        using scaled_next(1) [OF orbit_ok [OF assms(1)], of ?p i] False by (simp add: orbit_simps)
    qed
  qed
qed

lemma round_covers:
  assumes "0 \<le> p" "p < rngLen" "0 \<le> f" "f < rngLen"
  shows "\<exists>j. 0 < j \<and> j \<le> nat rngLen \<and> p = (f - int j) mod rngLen"
proof (cases "p < f")
  case True
  then show ?thesis using assms by (intro exI [of _ "nat (f - p)"]) (auto simp: rngLen_def)
next
  case False
  have "(f - (f - p + rngLen)) mod rngLen = p" using assms by (simp add: mod_diff_right_eq)
  then show ?thesis using False assms by (intro exI [of _ "nat (f - p + rngLen)"]) auto
qed

lemma round:
  assumes "rng_ok r" "\<And>j. 0 < j \<Longrightarrow> P (scaled c (orbit r j) (feed (orbit r j)))" "0 \<le> p" "p < rngLen"
  shows "P (scaled c (orbit r (nat rngLen)) p)"
proof -
  have "0 \<le> feed r" "feed r < rngLen" using assms(1) by (simp_all add: rng_ok_def)
  then show ?thesis using round_covers [OF assms(3,4)] written [OF assms(1), of "nat rngLen" P] assms(2) by blast
qed

lemma all_low_orbit:
  assumes "rng_ok r" "keeps_low r" "all_low a r" "1 \<le> a"
  shows "all_low a (orbit r i) \<and> (0 < i \<longrightarrow> 2 * a \<le> gap (orbit r i) (feed (orbit r i)))"
proof (induction i)
  case 0
  then show ?case using assms(3) by (simp add: orbit_simps)
next
  case (Suc i)
  let ?r = "orbit r i" and ?f = "feed (orbit r (Suc i))"
  have ok: "rng_ok ?r" "rng_ok (orbit r (Suc i))" using assms(1) by (simp_all add: orbit_ok)
  then have f: "0 \<le> ?f" "?f < rngLen" by (simp_all add: rng_ok_def)
  let ?t = "tap (orbit r (Suc i))"
  have t: "0 \<le> ?t" "?t < rngLen" "gap (orbit r (Suc i)) ?f = (gap ?r ?f + gap ?r ?t) mod 2 ^ 63"
    using scaled_next(2) [OF ok(1) f(1)] tap_range [OF ok(2)] by (simp_all add: orbit_simps)
  have "a \<le> gap ?r ?f" "gap ?r ?f < 2 ^ 62" "a \<le> gap ?r ?t" "gap ?r ?t < 2 ^ 62"
    using Suc.IH f t by (auto simp: all_low_def)
  then have new: "2 * a \<le> gap (orbit r (Suc i)) ?f" using t(3) assms(4) by simp
  have "gap (orbit r (Suc i)) ?f < 2 ^ 62" using assms(2) by (simp add: keeps_low_def)
  then have "a \<le> gap (orbit r (Suc i)) p \<and> gap (orbit r (Suc i)) p < 2 ^ 62" if "0 \<le> p" "p < rngLen" for p
    using Suc.IH scaled_next(1) [OF ok(1) that(1)] new assms(4) that
    by (cases "p = ?f") (auto simp: all_low_def orbit_simps)
  then show ?case using new by (simp add: all_low_def)
qed

lemma all_low_doubles:
  assumes "rng_ok r" "keeps_low r" "all_low a r" "1 \<le> a"
  shows "all_low (2 * a) (orbit r (nat rngLen))"
  using all_low_orbit [OF assms] round [OF assms(1), of "\<lambda>g. 2 * a \<le> g" "- 1"] by (auto simp: all_low_def)

lemma all_low_power:
  assumes "rng_ok r" "keeps_low r"
  shows "\<exists>i. all_low (2 ^ k) (orbit r i)"
proof (induction k)
  case 0
  have "all_low 1 (orbit r (nat rngLen))"
    using round [OF assms(1), of "\<lambda>g. 1 \<le> g \<and> g < 2 ^ 62" "- 1"] assms(2) by (auto simp: all_low_def keeps_low_def)
  then show ?case by auto
next
  case (Suc k)
  then obtain i where i: "all_low (2 ^ k) (orbit r i)" ..
  have "all_low (2 * 2 ^ k) (orbit (orbit r i) (nat rngLen))"
    by (rule all_low_doubles [OF orbit_ok [OF assms(1)] keeps_low_orbit [OF assms(2)] i]) simp
  then show ?case by (auto simp: orbit_orbit)
qed

lemma not_keeps_low: "rng_ok r \<Longrightarrow> \<not> keeps_low r"
proof
  assume r: "rng_ok r" "keeps_low r"
  obtain i where "all_low (2 ^ 62) (orbit r i)" using all_low_power [OF r] by blast
  moreover have "(0 :: int) < rngLen" by (simp add: rngLen_def)
  ultimately show False by (force simp: all_low_def)
qed

section \<open>The draws return\<close>

lemma Int31_next:
  assumes "rng_ok r"
  shows "Int31 r = Some (uint (take_bit 63 (vec (next_state r) ! nat (feed (next_state r)))) div 2 ^ 32, next_state r)"
  using next_state_Uint64(1) [OF assms] by (simp add: Int31_def Int63_def)

lemma reject_returns:
  assumes "rng_ok r" "fst (the (Int31 (orbit r i))) \<le> m"
  shows "reject Int31 m v r \<noteq> None"
  using assms
proof (induction i arbitrary: r v)
  case 0
  then obtain w r' where w: "Int31 r = Some (w, r')" "w \<le> m" using Int31_total by (fastforce simp: orbit_simps)
  then have "reject Int31 m w r' = Some (w, r')" by (subst reject.simps) simp
  with w show ?case by (subst reject.simps) simp
next
  case (Suc i)
  have "orbit (next_state r) i = orbit r (Suc i)" using orbit_orbit [of r 1 i] by (simp add: orbit_simps)
  then have "reject Int31 m w (next_state r) \<noteq> None" for w
    using Suc next_state_Uint64(2) by simp
  then show ?case by (subst reject.simps) (simp add: Int31_next [OF Suc.prems(1)])
qed

lemma rejected_is_low:
  assumes "rng_ok r" "0 < n" "n \<le> 2 ^ 30" "2 ^ 31 - 1 - 2 ^ 31 mod n < fst (the (Int31 r))"
  shows "1 \<le> gap (next_state r) (feed (next_state r)) \<and> gap (next_state r) (feed (next_state r)) < 2 ^ 62"
proof -
  let ?x = "vec (next_state r) ! nat (feed (next_state r))"
  define v where "v = uint ?x mod 2 ^ 63"
  have v: "0 \<le> v" "v < 2 ^ 63" by (simp_all add: v_def)
  have "uint (take_bit 63 ?x) = v" by (simp only: v_def unsigned_take_bit_eq) (simp add: take_bit_eq_mod)
  then have "2 ^ 31 - 1 - 2 ^ 31 mod n < v div 2 ^ 32" using assms(4) by (simp add: Int31_next [OF assms(1)])
  moreover have "2 ^ 31 mod n < n" using assms(2) by (rule pos_mod_bound)
  ultimately have "2 ^ 30 < v div 2 ^ 32" using assms(3) by simp
  then have "2 ^ 62 < v" by simp
  moreover have "gap (next_state r) (feed (next_state r)) = (- v) mod 2 ^ 63"
    by (simp add: scaled_def v_def mod_minus_eq)
  moreover have "(- v) mod 2 ^ 63 = 2 ^ 63 - v"
    using v \<open>2 ^ 62 < v\<close> by (simp add: zmod_zminus1_eq_if)
  ultimately show ?thesis using v by simp
qed

theorem Int31n_returns:
  assumes "rng_ok r" "0 < n" "n \<le> 2 ^ 30"
  shows "Int31n n r \<noteq> None"
proof -
  let ?m = "2 ^ 31 - 1 - 2 ^ 31 mod n"
  obtain i where i: "0 < i" "\<not> (1 \<le> gap (orbit (next_state r) i) (feed (orbit (next_state r) i)) \<and>
      gap (orbit (next_state r) i) (feed (orbit (next_state r) i)) < 2 ^ 62)"
    using not_keeps_low [OF next_state_Uint64(2) [OF assms(1)]] by (auto simp: keeps_low_def)
  then obtain j where j: "i = Suc j" by (cases i) auto
  let ?r = "orbit (next_state r) j"
  have ok: "rng_ok (next_state r)" "rng_ok ?r" using assms(1) by (simp_all add: next_state_Uint64 orbit_ok)
  then have "fst (the (Int31 ?r)) \<le> ?m"
    using rejected_is_low [OF ok(2) assms(2,3)] i(2) j by (force simp: orbit_simps)
  then have "reject Int31 ?m (fst (the (Int31 r))) (next_state r) \<noteq> None"
    by (rule reject_returns [OF ok(1)])
  then obtain w r' where "reject Int31 ?m (fst (the (Int31 r))) (next_state r) = Some (w, r')" by force
  then show ?thesis using assms(2) Int31_next [OF assms(1)] by (simp add: Int31n_def)
qed

theorem Intn_returns:
  assumes "rng_ok r" "0 < n" "n \<le> 2 ^ 30"
  shows "\<exists>v r'. Intn n r = Some (v, r') \<and> 0 \<le> v \<and> v < n \<and> rng_ok r'"
proof -
  have "Intn n r \<noteq> None" using Int31n_returns [OF assms] assms(2,3) by (simp add: Intn_def)
  then obtain v r' where "Intn n r = Some (v, r')" by force
  with Intn_ok [OF assms(1) this] show ?thesis by blast
qed

section \<open>The draws of a shuffle return\<close>

text \<open>
  \<open>int31n\<close> redraws while the low half of \<open>v * n\<close> is small. Then \<open>n\<close> times the entry is small modulo
  \<open>2^63\<close>, so that the sum of these multiples over the register never wraps, and it grows with every
  draw that adds a non-zero multiple. A register of zero multiples is not live.
\<close>

definition all_small :: "int \<Rightarrow> rngSource \<Rightarrow> bool" where
  "all_small c r \<longleftrightarrow> (\<forall>p. 0 \<le> p \<longrightarrow> p < rngLen \<longrightarrow> scaled c r p < 2 ^ 62)"

definition keeps_small :: "int \<Rightarrow> rngSource \<Rightarrow> bool" where
  "keeps_small c r \<longleftrightarrow> (\<forall>i > 0. scaled c (orbit r i) (feed (orbit r i)) < 2 ^ 62)"

definition register_sum :: "int \<Rightarrow> rngSource \<Rightarrow> int" where
  "register_sum c r = (\<Sum>p \<in> {0..<rngLen}. scaled c r p)"

lemma small_orbit:
  assumes "rng_ok r" "keeps_small c r" "all_small c r"
  shows "all_small c (orbit r i)"
proof (induction i)
  case 0
  then show ?case using assms(3) by (simp add: orbit_simps)
next
  case (Suc i)
  have new: "scaled c (orbit r (Suc i)) (feed (orbit r (Suc i))) < 2 ^ 62" using assms(2) by (simp add: keeps_small_def)
  show ?case
    unfolding all_small_def
  proof (intro allI impI)
    fix p :: int assume p: "0 \<le> p" "p < rngLen"
    show "scaled c (orbit r (Suc i)) p < 2 ^ 62"
      using new Suc.IH p scaled_next(1) [OF orbit_ok [OF assms(1)] p(1), of i c]
      by (cases "p = feed (orbit r (Suc i))") (auto simp: all_small_def orbit_simps)
  qed
qed

lemma sum_next:
  assumes "rng_ok r" "all_small c r"
  shows "register_sum c (next_state r) = register_sum c r + scaled c r (tap (next_state r))"
proof -
  let ?f = "feed (next_state r)" and ?t = "tap (next_state r)" and ?A = "{0..<rngLen} - {feed (next_state r)}"
  note ok = next_state_Uint64(2) [OF assms(1)]
  have f: "0 \<le> ?f" "?f < rngLen" and t: "0 \<le> ?t" "?t < rngLen" using feed_range [OF ok] tap_range [OF ok] by simp_all
  have "scaled c r ?f < 2 ^ 62" "scaled c r ?t < 2 ^ 62" using assms(2) f t by (simp_all add: all_small_def)
  then have new: "scaled c (next_state r) ?f = scaled c r ?f + scaled c r ?t"
    using scaled_next(2) [OF assms(1) f(1)] scaled_bounds(1) [of c r ?f] scaled_bounds(1) [of c r ?t] by simp
  have rest: "(\<Sum>p \<in> ?A. scaled c (next_state r) p) = (\<Sum>p \<in> ?A. scaled c r p)"
    by (rule sum.cong) (use scaled_next(1) [OF assms(1)] in auto)
  have "?f \<in> {0..<rngLen}" using f by simp
  then have "register_sum c r = scaled c r ?f + (\<Sum>p \<in> ?A. scaled c r p)" for r
    unfolding register_sum_def by (intro sum.remove) simp_all
  with new rest show ?thesis by simp
qed

text \<open>A bounded sum stands still over a whole round, and then every entry has been added as a zero.\<close>

lemma sum_bounds:
  assumes "all_small c r"
  shows "0 \<le> register_sum c r" "register_sum c r \<le> 607 * 2 ^ 62"
proof -
  show "0 \<le> register_sum c r" unfolding register_sum_def by (intro sum_nonneg) (simp add: scaled_bounds)
  have "register_sum c r \<le> (\<Sum>p \<in> {0..<rngLen}. 2 ^ 62)"
    unfolding register_sum_def by (rule sum_mono) (use assms in \<open>auto simp: all_small_def intro: less_imp_le\<close>)
  then show "register_sum c r \<le> 607 * 2 ^ 62" by (simp add: rngLen_def)
qed

lemma sum_mono:
  assumes "rng_ok r" "keeps_small c r" "all_small c r" "i \<le> j"
  shows "register_sum c (orbit r i) \<le> register_sum c (orbit r j)"
  using assms(4)
proof (induction j)
  case (Suc j)
  have "register_sum c (orbit r j) \<le> register_sum c (orbit r (Suc j))"
    using sum_next [OF orbit_ok [OF assms(1)] small_orbit [OF assms(1-3)], of j] scaled_bounds(1)
    by (simp add: orbit_simps)
  then show ?case using Suc by (cases "i = Suc j") auto
qed simp

lemma sum_stands:
  assumes "rng_ok r" "keeps_small c r" "all_small c r"
  shows "\<exists>i. register_sum c (orbit r (i + 607)) = register_sum c (orbit r i)"
proof (rule ccontr)
  assume no: "\<nexists>i. register_sum c (orbit r (i + 607)) = register_sum c (orbit r i)"
  have grow: "int k \<le> register_sum c (orbit r (607 * k))" for k
  proof (induction k)
    case 0
    then show ?case using sum_bounds(1) [OF assms(3)] by (simp add: orbit_simps)
  next
    case (Suc k)
    have "register_sum c (orbit r (607 * k)) \<noteq> register_sum c (orbit r (607 * k + 607))" using no by metis
    moreover have "register_sum c (orbit r (607 * k)) \<le> register_sum c (orbit r (607 * k + 607))"
      by (rule sum_mono [OF assms]) simp
    ultimately show ?case using Suc by (simp add: add.commute)
  qed
  have "register_sum c (orbit r (607 * nat (607 * 2 ^ 62 + 1))) \<le> 607 * 2 ^ 62"
    by (rule sum_bounds(2) [OF small_orbit [OF assms]])
  with grow [of "nat (607 * 2 ^ 62 + 1)"] show False by simp
qed

lemma zero_register:
  assumes "rng_ok r" "keeps_small c r" "all_small c r"
  shows "\<exists>i. \<forall>p. 0 \<le> p \<longrightarrow> p < rngLen \<longrightarrow> scaled c (orbit r i) p = 0"
proof -
  obtain i where i: "register_sum c (orbit r (i + 607)) = register_sum c (orbit r i)"
    using sum_stands [OF assms] ..
  have same: "register_sum c (orbit r (i + j)) = register_sum c (orbit r i)" if "j \<le> 607" for j
    using sum_mono [OF assms, of i "i + j"] sum_mono [OF assms, of "i + j" "i + 607"] i that by simp
  have zero: "scaled c (orbit r (i + j)) (tap (orbit r (i + Suc j))) = 0" if "j < 607" for j
    using sum_next [OF orbit_ok [OF assms(1)] small_orbit [OF assms], of "i + j"] same [of j] same [of "Suc j"] that
    by (simp add: orbit_simps)
  have keep: "scaled c (orbit r (i + j)) p = scaled c (orbit r i) p" if "j \<le> 607" "0 \<le> p" for j p
    using that(1)
  proof (induction j)
    case (Suc j)
    let ?r = "orbit r (i + j)"
    have ok: "rng_ok ?r" using assms(1) by (rule orbit_ok)
    have e: "orbit r (i + Suc j) = next_state ?r" by (simp add: orbit_simps)
    have z: "scaled c ?r (tap (next_state ?r)) = 0" using zero [of j] Suc.prems e by simp
    have "scaled c (next_state ?r) p = scaled c ?r p"
      using scaled_next [OF ok that(2), of c] z scaled_bounds [of c ?r p] by (cases "p = feed (next_state ?r)") simp_all
    then show ?case using Suc e by simp
  qed simp
  show ?thesis
  proof (intro exI [of _ i] allI impI)
    fix p :: int assume p: "0 \<le> p" "p < rngLen"
    have "0 \<le> tap (orbit r i)" "tap (orbit r i) < rngLen" using tap_range [OF orbit_ok [OF assms(1)]] by simp_all
    then obtain j where j: "0 < j" "j \<le> nat rngLen" "p = (tap (orbit r i) - int j) mod rngLen"
      using round_covers [OF p] by blast
    have "tap (orbit r (i + j)) = p"
      using tap_orbit [OF orbit_ok [OF assms(1)], of i j] j(3) by (simp add: orbit_orbit)
    moreover obtain j' where j': "j = Suc j'" using j(1) by (cases j) auto
    ultimately have "scaled c (orbit r (i + j')) p = 0" using zero [of j'] j(2) by (simp add: rngLen_def)
    then show "scaled c (orbit r i) p = 0" using keep [of j' p] j(2) j' p(1) by (simp add: rngLen_def)
  qed
qed

lemma odd_part: "0 < (n :: nat) \<Longrightarrow> \<exists>k m. n = 2 ^ k * m \<and> odd m"
proof (induction n rule: less_induct)
  case (less n)
  show ?case
  proof (cases "odd n")
    case True
    then show ?thesis by (intro exI [of _ 0] exI [of _ n]) simp
  next
    case False
    then obtain n' where n': "n = 2 * n'" by blast
    then obtain k m where "n' = 2 ^ k * m" "odd m" using less.IH [of n'] less.prems by auto
    then show ?thesis using n' by (intro exI [of _ "Suc k"] exI [of _ m]) simp
  qed
qed

lemma dvd_cancel_small:
  fixes n x :: nat
  assumes "2 ^ 63 dvd n * x" "0 < n" "n \<le> 2 ^ 30"
  shows "2 ^ 20 dvd x"
proof -
  obtain k m where n: "n = 2 ^ k * m" "odd m" using odd_part [OF assms(2)] by blast
  have "(2 :: nat) ^ k \<le> 2 ^ k * m" using n(2) odd_pos [of m] by simp
  then have "(2 :: nat) ^ k \<le> 2 ^ 30" using n(1) assms(3) by linarith
  then have k: "k \<le> 30" by (rule power_le_imp_le_exp [rotated]) simp
  then have "(2 :: nat) ^ 63 = 2 ^ k * 2 ^ (63 - k)" by (simp flip: power_add)
  then have "2 ^ k * 2 ^ (63 - k) dvd 2 ^ k * (m * x)" using assms(1) n(1) by (simp only: mult.assoc)
  then have "2 ^ (63 - k) dvd m * x" by simp
  moreover have "coprime ((2 :: nat) ^ (63 - k)) m" using n(2) by (simp add: coprime_commute)
  ultimately have "2 ^ (63 - k) dvd x" by (simp add: coprime_dvd_mult_right_iff)
  moreover have "(2 :: nat) ^ 20 dvd 2 ^ (63 - k)" using k by (intro le_imp_power_dvd) simp
  ultimately show ?thesis by (rule dvd_trans [rotated])
qed

lemma not_keeps_small:
  assumes "rng_ok r" "0 < n" "n \<le> 2 ^ 30"
  shows "\<not> keeps_small n r"
proof
  assume k: "keeps_small n r"
  let ?r = "orbit r (nat rngLen)"
  have ok: "rng_ok ?r" using assms(1) by (rule orbit_ok)
  have ks: "keeps_small n ?r" using k by (simp add: keeps_small_def orbit_orbit)
  have "all_small n ?r"
    using round [OF assms(1), of "\<lambda>g. g < 2 ^ 62" n] k by (auto simp: all_small_def keeps_small_def)
  then obtain i where i: "\<And>p. 0 \<le> p \<Longrightarrow> p < rngLen \<Longrightarrow> scaled n (orbit ?r i) p = 0"
    using zero_register [OF ok ks] by blast
  let ?s = "orbit ?r i"
  have s: "rng_ok ?s" using ok by (rule orbit_ok)
  then obtain x where x: "x \<in> set (vec ?s)" "take_bit 20 x \<noteq> 0" by (auto simp: rng_ok_def live_def)
  then obtain p where p: "p < length (vec ?s)" "x = vec ?s ! p" by (auto simp: in_set_conv_nth)
  have "int p < rngLen" using p(1) s by (simp add: rng_ok_def)
  then have "scaled n ?s (int p) = 0" by (intro i) simp_all
  then have "(n * uint x) mod 2 ^ 63 = 0" by (simp only: scaled_def nat_int p(2))
  moreover have "n * uint x = int (nat n * unat x)" using assms(2) by (simp only: uint_nat of_nat_mult nat_0_le less_imp_le)
  ultimately have "int (nat n * unat x) mod int (2 ^ 63) = 0" by (simp only: of_nat_power of_nat_numeral)
  then have "int (2 ^ 63) dvd int (nat n * unat x)" by (simp only: dvd_eq_mod_eq_0)
  then have "2 ^ 63 dvd nat n * unat x" by (simp only: int_dvd_int_iff)
  then have "2 ^ 20 dvd unat x" by (rule dvd_cancel_small) (use assms in simp_all)
  then have "unat (take_bit 20 x) = 0" unfolding unat_take_bit_64 by (simp add: dvd_eq_mod_eq_0)
  with x(2) show False by (simp add: unat_eq_0)
qed

lemma Uint32_next:
  assumes "rng_ok r"
  shows "Uint32 r = Some (uint (take_bit 63 (vec (next_state r) ! nat (feed (next_state r)))) div 2 ^ 31, next_state r)"
  using next_state_Uint64(1) [OF assms] by (simp add: Uint32_def Int63_def)

lemma redrawn_is_small:
  assumes "rng_ok r" "0 < n" "n \<le> 2 ^ 30" "t \<le> n" "fst (the (Uint32 r)) * n mod 2 ^ 32 < t"
  shows "scaled n (next_state r) (feed (next_state r)) < 2 ^ 62"
proof -
  let ?x = "vec (next_state r) ! nat (feed (next_state r))"
  define z where "z = uint ?x mod 2 ^ 63"
  define v where "v = z div 2 ^ 31"
  define b where "b = v * n mod 2 ^ 32"
  define rho where "rho = z mod 2 ^ 31"
  have "uint (take_bit 63 ?x) = z" by (simp only: z_def unsigned_take_bit_eq) (simp add: take_bit_eq_mod)
  then have "b < t" using assms(5) by (simp add: Uint32_next [OF assms(1)] b_def v_def)
  then have b: "0 \<le> b" "b < n" using assms(4) by (simp_all add: b_def)
  have rho: "0 \<le> rho" "rho < 2 ^ 31" by (simp_all add: rho_def)
  have z: "z = v * 2 ^ 31 + rho" by (simp add: v_def rho_def)
  have vn: "v * n = 2 ^ 32 * (v * n div 2 ^ 32) + b" by (simp add: b_def)
  have "n * z = (v * n) * 2 ^ 31 + n * rho" unfolding z by (simp add: algebra_simps)
  also have "\<dots> = 2 ^ 63 * (v * n div 2 ^ 32) + (b * 2 ^ 31 + n * rho)" by (subst vn) (simp add: algebra_simps)
  finally have e: "n * z mod 2 ^ 63 = (b * 2 ^ 31 + n * rho) mod 2 ^ 63" by simp
  have "n * rho \<le> 2 ^ 30 * 2 ^ 31" using rho assms(2,3) by (intro mult_mono) simp_all
  then have "n * rho \<le> 2 ^ 61" by simp
  moreover have "0 \<le> n * rho" using rho assms(2) by simp
  moreover have "b * 2 ^ 31 < 2 ^ 61" using b assms(3) by simp
  ultimately have "b * 2 ^ 31 + n * rho < 2 ^ 62" "0 \<le> b * 2 ^ 31 + n * rho" using b by simp_all
  then have "(b * 2 ^ 31 + n * rho) mod 2 ^ 63 < 2 ^ 62" by simp
  then have "n * z mod 2 ^ 63 < 2 ^ 62" unfolding e .
  moreover have "scaled n (next_state r) (feed (next_state r)) = n * z mod 2 ^ 63"
    unfolding scaled_def z_def by (rule mod_mult_right_eq [symmetric])
  ultimately show ?thesis by simp
qed

lemma reject_low_returns:
  assumes "rng_ok r" "\<not> fst (the (Uint32 (orbit r i))) * n mod 2 ^ 32 < t"
  shows "reject_low n t pr r \<noteq> None"
  using assms
proof (induction i arbitrary: r pr)
  case 0
  obtain w r' where w: "Uint32 r = Some (w, r')" using Uint32_total [OF "0.prems"(1)] by blast
  then have "\<not> w * n mod 2 ^ 32 < t" using "0.prems"(2) by (simp add: orbit_simps)
  then have "reject_low n t (w * n) r' = Some (w * n, r')" by (subst reject_low.simps) simp
  with w show ?case by (subst reject_low.simps) simp
next
  case (Suc i)
  have "orbit (next_state r) i = orbit r (Suc i)" using orbit_orbit [of r 1 i] by (simp add: orbit_simps)
  then have "reject_low n t pr (next_state r) \<noteq> None" for pr
    using Suc next_state_Uint64(2) by simp
  then show ?case by (subst reject_low.simps) (simp add: Uint32_next [OF Suc.prems(1)])
qed

theorem int31n_returns:
  assumes "rng_ok r" "0 < n" "n \<le> 2 ^ 30"
  shows "\<exists>v r'. int31n n r = Some (v, r') \<and> 0 \<le> v \<and> v < n \<and> rng_ok r'"
proof -
  let ?t = "(2 ^ 32 - n) mod n"
  let ?r = "next_state r"
  have ok: "rng_ok ?r" using assms(1) by (rule next_state_Uint64(2))
  have t: "?t \<le> n" using assms(2) by (simp add: less_imp_le)
  obtain i where i: "0 < i" "\<not> scaled n (orbit ?r i) (feed (orbit ?r i)) < 2 ^ 62"
    using not_keeps_small [OF ok assms(2,3)] by (auto simp: keeps_small_def)
  then obtain j where j: "i = Suc j" by (cases i) auto
  have "\<not> fst (the (Uint32 (orbit ?r j))) * n mod 2 ^ 32 < ?t"
    using redrawn_is_small [OF orbit_ok [OF ok] assms(2,3) t, of j] i(2) j by (auto simp: orbit_simps)
  then have ret: "reject_low n ?t pr ?r \<noteq> None" for pr by (rule reject_low_returns [OF ok])
  obtain w where w: "Uint32 r = Some (w, ?r)" using Uint32_next [OF assms(1)] by blast
  obtain pr r' where "(if w * n mod 2 ^ 32 < n then reject_low n ?t (w * n) ?r else Some (w * n, ?r)) = Some (pr, r')"
    using ret [of "w * n"] by fastforce
  then have "int31n n r = Some (pr div 2 ^ 32, r')" by (simp only: int31n_def w Option.bind.simps prod.case Let_def)
  with int31n_ok [OF assms(1,2) this] show ?thesis by blast
qed

lemma Shuffle_small_returns:
  assumes "rng_ok r" "i < 2 ^ 30" "I s"
    and "\<And>a b s. 0 < a \<Longrightarrow> a \<le> i \<Longrightarrow> 0 \<le> b \<Longrightarrow> b \<le> a \<Longrightarrow> I s \<Longrightarrow> \<exists>s'. swap a b s = Some s' \<and> I s'"
  shows "\<exists>s' r'. Shuffle_small swap i s r = Some (s', r') \<and> I s' \<and> rng_ok r'"
  using assms
proof (induction "nat i" arbitrary: i s r)
  case 0
  then show ?case by (subst Shuffle_small.simps) simp
next
  case (Suc k)
  then have i: "0 < i" by simp
  obtain j r1 where j: "int31n (i + 1) r = Some (j, r1)" "0 \<le> j" "j < i + 1" "rng_ok r1"
    using int31n_returns [of r "i + 1"] Suc.prems(1,2) i by auto
  obtain s1 where s1: "swap i j s = Some s1" "I s1"
    using Suc.prems(4) [of i j s] Suc.prems(3) i j by auto
  have "\<exists>s' r'. Shuffle_small swap (i - 1) s1 r1 = Some (s', r') \<and> I s' \<and> rng_ok r'"
    using Suc.hyps(1) [of "i - 1" r1 s1] Suc.hyps(2) Suc.prems(2,4) s1(2) j(4) by auto
  then show ?case using i j(1) s1(1) by (subst Shuffle_small.simps) simp
qed

theorem Shuffle_returns:
  assumes "rng_ok r" "0 \<le> n" "n \<le> 2 ^ 30" "I s"
    and "\<And>a b s. 0 < a \<Longrightarrow> a < n \<Longrightarrow> 0 \<le> b \<Longrightarrow> b \<le> a \<Longrightarrow> I s \<Longrightarrow> \<exists>s'. swap a b s = Some s' \<and> I s'"
  shows "\<exists>s' r'. Shuffle n swap s r = Some (s', r') \<and> I s' \<and> rng_ok r'"
proof -
  have "Shuffle_big swap (n - 1) s r = Some (n - 1, s, r)"
    using assms(3) by (subst Shuffle_big.simps) simp
  moreover have "\<exists>s' r'. Shuffle_small swap (n - 1) s r = Some (s', r') \<and> I s' \<and> rng_ok r'"
    by (rule Shuffle_small_returns [OF assms(1)]) (use assms in auto)
  ultimately show ?thesis using assms(2) by (auto simp: Shuffle_def)
qed

theorem Shuffle_permutation:
  assumes "rng_ok r" "length xs \<le> 2 ^ 30"
  shows "\<exists>ys r'. Shuffle (int (length xs)) go_swap xs r = Some (ys, r') \<and> mset ys = mset xs \<and> rng_ok r'"
proof (rule Shuffle_returns [where I = "\<lambda>ys. mset ys = mset xs", OF assms(1)])
  fix a b :: int and ys assume b: "0 < a" "a < int (length xs)" "0 \<le> b" "b \<le> a" "mset ys = mset xs"
  then have "length ys = length xs" by (metis size_mset)
  then have "\<exists>zs. go_swap a b ys = Some zs" using b by (simp add: go_swap_def)
  then show "\<exists>zs. go_swap a b ys = Some zs \<and> mset zs = mset xs" using go_swap_mset b(5) by metis
qed (use assms(2) in simp_all)

end
