(* ===== verification/Relocate.thy ===== *)
theory Relocate
  imports Tour_Shape Best_Choice Go_Rand_Returns
begin

text \<open>
  The fourth neighbourhood (\<open>applyRelocate\<close> of \<open>src/optimizer.go\<close>): random trials that move a site
  within its day, move it to the best position of another day, or insert an unvisited site.
\<close>

section \<open>Translation\<close>

text \<open>\<open>copy(xs[pos:], xs[pos+1:]); xs = xs[:len(xs)-1]\<close>\<close>

definition go_remove :: "int list \<Rightarrow> int \<Rightarrow> int list option" where
  "go_remove xs pos = do {
     l \<leftarrow> go_slice xs 0 pos;
     r \<leftarrow> go_slice xs (pos + 1) (int (length xs));
     Some (l @ r) }"

text \<open>
  The three branches of an iteration. Each returns whether it improved the solution, and the state it
  leaves; \<open>continue\<close> is a branch that leaves the state as it is.
\<close>

definition relocateInDay :: "int \<Rightarrow> Solution \<Rightarrow> rngSource \<Rightarrow> (bool \<times> Solution \<times> rngSource) option" where
  "relocateInDay dayIdx sol rng = do {
     let inst = SolInstance sol;
     day \<leftarrow> go_nth (Days sol) dayIdx;
     let nbSteps = int (length (Steps day));
     (n1, rng) \<leftarrow> Intn (nbSteps - 2) rng;
     (n2, rng) \<leftarrow> Intn (nbSteps - 2) rng;
     let pos1 = 1 + n1;
     let pos2 = 1 + n2;
     if pos1 = pos2 then Some (False, sol, rng)
     else do {
       let ptsBuf = extractDayPoints day;
       let oldDist = DistTotal day;
       val \<leftarrow> go_nth ptsBuf pos1;
       ptsBuf \<leftarrow> go_remove ptsBuf pos1;
       let pos2 = (if pos2 > pos1 then pos2 - 1 else pos2);
       newPts \<leftarrow> go_insert ptsBuf pos2 val;
       (feasible, newDist) \<leftarrow> evalDayFast inst dayIdx newPts;
       if feasible \<and> flt64 newDist oldDist then do {
         (_, _, newSteps) \<leftarrow> evalDay inst dayIdx newPts;
         sol \<leftarrow> set_day dayIdx newSteps newDist sol;
         Some (True, sol, rng) }
       else Some (False, sol, rng) } }"

text \<open>The loop over the positions of the other day.\<close>

definition tryPlace :: "Instance \<Rightarrow> int \<Rightarrow> int \<Rightarrow> f64 \<Rightarrow> int list \<Rightarrow> int \<Rightarrow> f64 \<times> int \<Rightarrow> (f64 \<times> int) option" where
  "tryPlace inst siteID destDay destTotal destBuf p = (\<lambda>(bestDestDist, bestDestPos). do {
     prevID \<leftarrow> go_nth destBuf (p - 1);
     nextID \<leftarrow> go_nth destBuf p;
     d1 \<leftarrow> dist_at inst prevID siteID;
     d2 \<leftarrow> dist_at inst siteID nextID;
     d3 \<leftarrow> dist_at inst prevID nextID;
     let deltaDist = fsub64 (fadd64 d1 d2) d3;
     maxd \<leftarrow> DayMaxDist inst destDay;
     if fgt64 (fadd64 destTotal deltaDist) maxd then Some (bestDestDist, bestDestPos)
     else do {
       trial \<leftarrow> go_insert destBuf p siteID;
       (ok, d) \<leftarrow> evalDayFast inst destDay trial;
       Some (if ok \<and> (bestDestPos = -1 \<or> flt64 d bestDestDist) then (d, p) else (bestDestDist, bestDestPos)) } })"

definition f64_neg_one :: f64 where "f64_neg_one = 0xBFF0000000000000"

definition relocateToDay :: "int \<Rightarrow> Solution \<Rightarrow> rngSource \<Rightarrow> (bool \<times> Solution \<times> rngSource) option" where
  "relocateToDay dayIdx sol rng = do {
     let inst = SolInstance sol;
     day \<leftarrow> go_nth (Days sol) dayIdx;
     let nbSteps = int (length (Steps day));
     let nbDays = int (length (Days sol));
     (n, rng) \<leftarrow> Intn (nbSteps - 2) rng;
     let pos = 1 + n;
     st \<leftarrow> go_nth (Steps day) pos;
     let siteID = PointID st;
     p \<leftarrow> go_nth (Points inst) siteID;
     if pType p \<noteq> TypeSite then Some (False, sol, rng)
     else do {
       (destDay, rng) \<leftarrow> Intn nbDays rng;
       if destDay = dayIdx then Some (False, sol, rng)
       else do {
         srcPts \<leftarrow> go_remove (extractDayPoints day) pos;
         (srcOk, srcDist) \<leftarrow> evalDayFast inst dayIdx srcPts;
         if \<not> srcOk then Some (False, sol, rng)
         else do {
           dest \<leftarrow> go_nth (Days sol) destDay;
           let destBuf = extractDayPoints dest;
           let destLen = int (length destBuf);
           if destLen < 2 then Some (False, sol, rng)
           else do {
             (_, bestDestPos) \<leftarrow> go_range (tryPlace inst siteID destDay (DistTotal dest) destBuf) [1..destLen - 1]
               (f64_neg_one, -1);
             if bestDestPos = -1 then Some (False, sol, rng)
             else do {
               (_, _, srcSteps) \<leftarrow> evalDay inst dayIdx srcPts;
               sol \<leftarrow> set_day dayIdx srcSteps srcDist sol;
               destPts \<leftarrow> go_insert destBuf bestDestPos siteID;
               (_, destDist, destSteps) \<leftarrow> evalDay inst destDay destPts;
               sol \<leftarrow> set_day destDay destSteps destDist sol;
               Some (True, sol, rng) } } } } } }"

definition relocateUnvisited ::
  "int \<Rightarrow> Solution \<Rightarrow> SearchState \<Rightarrow> rngSource \<Rightarrow> (bool \<times> Solution \<times> SearchState \<times> rngSource) option" where
  "relocateUnvisited dayIdx sol state rng = do {
     let inst = SolInstance sol;
     day \<leftarrow> go_nth (Days sol) dayIdx;
     let nbSteps = int (length (Steps day));
     (uIdx, rng) \<leftarrow> Intn (int (length (ssUnvisited state))) rng;
     u \<leftarrow> go_nth (ssUnvisited state) uIdx;
     (n, rng) \<leftarrow> Intn (nbSteps - 1) rng;
     let pos = 1 + n;
     let ptsBuf = extractDayPoints day;
     prevID \<leftarrow> go_nth ptsBuf (pos - 1);
     nextID \<leftarrow> go_nth ptsBuf pos;
     d1 \<leftarrow> dist_at inst prevID u;
     d2 \<leftarrow> dist_at inst u nextID;
     d3 \<leftarrow> dist_at inst prevID nextID;
     let deltaDist = fsub64 (fadd64 d1 d2) d3;
     maxd \<leftarrow> DayMaxDist inst dayIdx;
     if fgt64 (fadd64 (DistTotal day) deltaDist) maxd then Some (False, sol, state, rng)
     else do {
       newPts \<leftarrow> go_insert ptsBuf pos u;
       (feasible, newDist) \<leftarrow> evalDayFast inst dayIdx newPts;
       if feasible then do {
         (_, _, newSteps) \<leftarrow> evalDay inst dayIdx newPts;
         sol \<leftarrow> set_day dayIdx newSteps newDist sol;
         p \<leftarrow> go_nth (Points inst) u;
         let sol = sol\<lparr>TotalScore := fadd64 (TotalScore sol) (pScore p)\<rparr>;
         state \<leftarrow> markVisited u state;
         Some (True, sol, state, rng) }
       else Some (False, sol, state, rng) } }"

text \<open>One iteration of the loop over \<open>iter\<close>.\<close>

definition relocateOnce ::
  "Solution \<Rightarrow> SearchState \<Rightarrow> rngSource \<Rightarrow> (bool \<times> Solution \<times> SearchState \<times> rngSource) option" where
  "relocateOnce sol state rng = do {
     let nbDays = int (length (Days sol));
     (dayIdx, rng) \<leftarrow> Intn nbDays rng;
     day \<leftarrow> go_nth (Days sol) dayIdx;
     let nbSteps = int (length (Steps day));
     if nbSteps \<le> 2 then Some (False, sol, state, rng)
     else do {
       (moveType, rng) \<leftarrow> Intn 3 rng;
       if moveType = 0 \<and> nbSteps > 3 then do {
         (b, sol, rng) \<leftarrow> relocateInDay dayIdx sol rng;
         Some (b, sol, state, rng) }
       else if moveType = 1 \<and> nbDays > 1 \<and> nbSteps > 2 then do {
         (b, sol, rng) \<leftarrow> relocateToDay dayIdx sol rng;
         Some (b, sol, state, rng) }
       else if length (ssUnvisited state) > 0 \<and> nbSteps \<ge> 2 then relocateUnvisited dayIdx sol state rng
       else Some (False, sol, state, rng) } }"

definition applyRelocate ::
  "Solution \<Rightarrow> SearchState \<Rightarrow> rngSource \<Rightarrow> int \<Rightarrow> (bool \<times> Solution \<times> SearchState \<times> rngSource) option" where
  "applyRelocate sol state rng maxIter =
     (if int (length (Days sol)) = 0 then Some (False, sol, state, rng)
      else go_range (\<lambda>_ (improved, sol, state, rng). do {
          (b, sol, state, rng) \<leftarrow> relocateOnce sol state rng;
          Some (improved \<or> b, sol, state, rng) }) [0..maxIter - 1] (False, sol, state, rng))"

section \<open>Removing a site from a route\<close>

definition remove_at :: "'a list \<Rightarrow> nat \<Rightarrow> 'a list" where
  "remove_at xs pos = take pos xs @ drop (Suc pos) xs"

lemma go_remove_in: "pos < length xs \<Longrightarrow> go_remove xs (int pos) = Some (remove_at xs pos)"
  by (simp add: go_remove_def remove_at_def go_slice_to go_slice_from nat_add_distrib)

lemma remove_at_route:
  assumes "wf_route inst ps" "0 < pos" "pos < length ps - 1"
  shows "wf_route inst (remove_at ps pos)" "hd (remove_at ps pos) = hd ps" "last (remove_at ps pos) = last ps"
    "site inst (ps ! pos)" "add_mset (ps ! pos) (mset (sites inst (remove_at ps pos))) = mset (sites inst ps)"
    "length (remove_at ps pos) = length ps - 1"
proof -
  obtain p qs e where ps: "ps = p # qs @ [e]" "hotel inst p" "hotel inst e" "\<forall>q \<in> set qs. site inst q"
    using assms(1) by (elim wf_routeE)
  obtain k where k: "pos = Suc k" "k < length qs" using assms(2,3) ps by (cases pos) auto
  have r: "remove_at ps pos = p # remove_at qs k @ [e]" "ps ! pos = qs ! k"
    using ps k by (simp_all add: remove_at_def nth_append)
  have s: "\<forall>q \<in> set (remove_at qs k). site inst q"
    using ps(4) by (auto simp: remove_at_def dest: in_set_takeD in_set_dropD)
  show "wf_route inst (remove_at ps pos)" unfolding wf_route_iff r using ps s by blast
  show "hd (remove_at ps pos) = hd ps" "last (remove_at ps pos) = last ps" using r ps(1) by simp_all
  show "site inst (ps ! pos)" using r ps(4) k by simp
  show "length (remove_at ps pos) = length ps - 1" using assms(3) by (simp add: remove_at_def)
  have "qs = take k qs @ qs ! k # drop (Suc k) qs" using k by (simp add: id_take_nth_drop)
  then have "mset qs = add_mset (qs ! k) (mset (remove_at qs k))"
    unfolding remove_at_def by (metis mset.simps(2) mset_append union_mset_add_mset_right)
  then show "add_mset (ps ! pos) (mset (sites inst (remove_at ps pos))) = mset (sites inst ps)"
    using sites_wf_route [OF ps(2-4)] sites_wf_route [OF ps(2,3) s] ps(1) r by simp
qed

lemma tour_same_sites:
  assumes "tour inst rs" "d < length rs" "wf_route inst ps" "hd ps = hd (rs ! d)" "last ps = last (rs ! d)"
    and "mset (sites inst ps) = mset (sites inst (rs ! d))"
  shows "tour inst (rs[d := ps])" "visited_sites inst (rs[d := ps]) = visited_sites inst rs"
proof -
  have m: "mset (sites inst (concat (rs[d := ps]))) = mset (sites inst (concat rs))"
    using mset_sites_update [OF assms(2), of inst ps] assms(6) by simp
  then have "distinct (sites inst (concat (rs[d := ps])))"
    using assms(1) by (metis mset_eq_imp_distinct_iff tour_def)
  then show "tour inst (rs[d := ps])" by (rule tour_update [OF assms(1-5)])
  show "visited_sites inst (rs[d := ps]) = visited_sites inst rs"
    unfolding visited_sites_def using m by (rule mset_eq_setD)
qed

section \<open>The branches\<close>

text \<open>The state the search works on, and instances whose draws are small.\<close>

definition searching :: "Instance \<Rightarrow> Solution \<Rightarrow> SearchState \<Rightarrow> bool" where
  "searching inst sol ss \<longleftrightarrow>
     wf_inst inst \<and> SolInstance sol = inst \<and> tour inst (routes sol) \<and> tracks inst ss (visited_sites inst (routes sol))"

definition small :: "Instance \<Rightarrow> bool" where
  "small inst \<longleftrightarrow> length (Points inst) < 2 ^ 29 \<and> NbDays inst \<le> 2 ^ 29 \<and> length (HotelIDs inst) \<le> 2 ^ 29"

lemma length_le_points:
  assumes "distinct ps" "\<forall>p \<in> set ps. in_range inst p"
  shows "length ps \<le> length (Points inst)"
proof -
  have "set ps \<subseteq> {0..<int (length (Points inst))}" using assms(2) by (auto simp: in_range_def)
  then have "card (set ps) \<le> card {0..<int (length (Points inst))}" by (intro card_mono) auto
  then show ?thesis using assms(1) by (simp add: distinct_card)
qed

lemma route_small:
  assumes "tour inst rs" "d < length rs" "small inst"
  shows "int (length (rs ! d)) \<le> 2 ^ 30"
proof -
  obtain p qs e where ps: "rs ! d = p # qs @ [e]" "hotel inst p" "hotel inst e" "\<forall>q \<in> set qs. site inst q"
    using tour_nth(1) [OF assms(1,2)] by (elim wf_routeE)
  have "rs = take d rs @ rs ! d # drop (Suc d) rs" using assms(2) by (rule id_take_nth_drop)
  then have "distinct (sites inst (rs ! d))"
    using assms(1) unfolding tour_def by (metis concat.simps(2) concat_append distinct_append sites_append)
  then have "distinct qs" using sites_wf_route [OF ps(2-4)] ps(1) by simp
  moreover have "\<forall>q \<in> set qs. in_range inst q" using ps(4) by auto
  ultimately have "length qs \<le> length (Points inst)" by (rule length_le_points)
  then show ?thesis using ps(1) assms(3) by (simp add: small_def)
qed

lemma unvisited_small:
  assumes "tracks inst ss V" "small inst"
  shows "int (length (ssUnvisited ss)) \<le> 2 ^ 30"
proof -
  have "\<forall>p \<in> set (ssUnvisited ss). in_range inst p" using assms(1) by (auto simp: tracks_def)
  then have "length (ssUnvisited ss) \<le> length (Points inst)"
    using assms(1) by (intro length_le_points) (auto simp: tracks_def)
  then show ?thesis using assms(2) by (simp add: small_def)
qed

lemma nat_draw:
  assumes "rng_ok r" "0 < n" "n \<le> 2 ^ 30"
  obtains v r' where "Intn n r = Some (int v, r')" "int v < n" "rng_ok r'"
proof -
  obtain v r' where "Intn n r = Some (v, r')" "0 \<le> v" "v < n" "rng_ok r'" using Intn_returns [OF assms] by blast
  then show ?thesis using that [of "nat v" r'] by simp
qed

lemma relocateInDay_ok:
  assumes "searching inst sol ss" "d < length (Days sol)" "3 < length (routes sol ! d)"
    and "int (length (routes sol ! d)) \<le> 2 ^ 30" "rng_ok r"
  shows "\<exists>b sol' r'. relocateInDay (int d) sol r = Some (b, sol', r') \<and> rng_ok r' \<and> replanned sol sol' \<and>
    searching inst sol' ss \<and> visited_sites inst (routes sol') = visited_sites inst (routes sol)"
proof -
  note sr = assms(1) [unfolded searching_def]
  let ?ps = "routes sol ! d" and ?day = "Days sol ! d"
  have inst: "wf_inst inst" "SolInstance sol = inst" "tour inst (routes sol)" using sr by simp_all
  have dl: "d < length (routes sol)" using assms(2) by simp
  note w = tour_nth(1) [OF inst(3) dl]
  have pts: "extractDayPoints ?day = ?ps" "length (Steps ?day) = length ?ps"
    using assms(2) by (simp_all add: extractDayPoints_def routes_nth route_def)
  let ?n = "int (length ?ps) - 2"
  have n: "0 < ?n" "?n \<le> 2 ^ 30" using assms(3,4) by auto
  obtain a r1 where a: "Intn ?n r = Some (int a, r1)" "int a < ?n" "rng_ok r1" using nat_draw [OF assms(5) n] .
  obtain b r2 where b: "Intn ?n r1 = Some (int b, r2)" "int b < ?n" "rng_ok r2" using nat_draw [OF a(3) n] .
  show ?thesis
  proof (cases "a = b")
    case True
    then have "relocateInDay (int d) sol r = Some (False, sol, r2)"
      using a b assms(2) pts by (simp add: relocateInDay_def Let_def)
    then show ?thesis using b(3) assms(1) by auto
  next
    case False
    have p1: "0 < Suc a" "Suc a < length ?ps - 1" using a(2) assms(3) by auto
    note rm = remove_at_route [OF w p1]
    let ?rm = "remove_at ?ps (Suc a)" and ?v = "?ps ! Suc a"
    define p2 where "p2 = (if b > a then b else Suc b)"
    have p2: "0 < p2" "p2 < length ?rm" "int p2 = (if 1 + int b > 1 + int a then 1 + int b - 1 else 1 + int b)"
      using False b(2) assms(3) rm(6) by (auto simp: p2_def)
    note ins = insert_at_route [OF rm(1) rm(4) p2(1,2)]
    let ?new = "insert_at ?rm p2 ?v"
    have m: "mset (sites inst ?new) = mset (sites inst ?ps)" using ins(4) rm(5) by simp
    note t = tour_same_sites [OF inst(3) dl ins(1) _ _ m, unfolded ins(2,3), OF rm(2,3)]
    note eval = evalDay_route [OF inst(1) ins(1), of "int d"]
    have acc: "go_nth ?ps (1 + int a) = Some ?v" "go_remove ?ps (1 + int a) = Some ?rm"
      "go_insert ?rm (if 1 + int b > 1 + int a then 1 + int b - 1 else 1 + int b) ?v = Some ?new"
      using p1 go_remove_in [of "Suc a" ?ps] go_insert_in [of p2 ?rm ?v] p2 by (simp_all add: go_nth_def nat_add_distrib)
    show ?thesis
    proof (cases "feasible inst (budget inst (int d)) ?new \<and> flt64 (length_of inst ?new) (DistTotal ?day)")
      case True
      obtain sol' where s: "set_day (int d) (plan inst ?new) (length_of inst ?new) sol = Some sol'" "replanned sol sol'"
        "routes sol' = (routes sol)[d := ?new]"
        using set_day_planned [of d sol ?new] assms(2) True inst(2) by auto
      have "relocateInDay (int d) sol r = Some (True, sol', r2)"
        using a b assms(2) pts False acc True eval s(1) inst(2)
        by (simp add: relocateInDay_def Let_def del: go_nth_in)
      moreover have "searching inst sol' ss"
        using sr s t by (simp add: searching_def replanned_def)
      ultimately show ?thesis using b(3) s t by auto
    next
      case no: False
      have "relocateInDay (int d) sol r = Some (False, sol, r2)"
        using a b assms(2) pts False acc no eval inst(2)
        by (auto simp: relocateInDay_def Let_def simp del: go_nth_in)
      then show ?thesis using b(3) assms(1) by auto
    qed
  qed
qed

lemma tour_remove:
  assumes "tour inst rs" "d < length rs" "0 < pos" "pos < length (rs ! d) - 1"
  shows "tour inst (rs[d := remove_at (rs ! d) pos])" "site inst (rs ! d ! pos)"
    "visited_sites inst (rs[d := remove_at (rs ! d) pos]) = visited_sites inst rs - {rs ! d ! pos}"
    "rs ! d ! pos \<in> visited_sites inst rs"
proof -
  let ?s = "rs ! d ! pos" and ?rs = "rs[d := remove_at (rs ! d) pos]"
  note r = remove_at_route [OF tour_nth(1) [OF assms(1,2)] assms(3,4)]
  have m: "mset (?s # sites inst (concat ?rs)) = mset (sites inst (concat rs))"
    using mset_sites_update [OF assms(2), of inst "remove_at (rs ! d) pos"] by (simp flip: r(5))
  then have d: "distinct (?s # sites inst (concat ?rs))"
    using assms(1) by (metis mset_eq_imp_distinct_iff tour_def)
  then show "tour inst ?rs" by (intro tour_update [OF assms(1,2) r(1-3)]) simp
  show "site inst ?s" by (rule r(4))
  have "insert ?s (visited_sites inst ?rs) = visited_sites inst rs"
    using m by (metis mset_eq_setD list.simps(15) visited_sites_def)
  moreover have "?s \<notin> visited_sites inst ?rs" using d by (simp add: visited_sites_def)
  ultimately show "visited_sites inst ?rs = visited_sites inst rs - {?s}" "?s \<in> visited_sites inst rs" by blast+
qed

text \<open>The position that is found is one at which the day is feasible.\<close>

definition place_inv :: "Instance \<Rightarrow> int \<Rightarrow> int list \<Rightarrow> int \<Rightarrow> f64 \<times> int \<Rightarrow> bool" where
  "place_inv inst d ps u best \<longleftrightarrow>
     snd best = -1 \<or>
     (\<exists>p. 0 < p \<and> p < length ps \<and> snd best = int p \<and> feasible inst (budget inst d) (insert_at ps p u))"

definition places :: "Instance \<Rightarrow> int \<Rightarrow> f64 \<Rightarrow> int list \<Rightarrow> int \<Rightarrow> nat \<Rightarrow> (f64 \<times> int) set" where
  "places inst d tot ps u p =
     (if feasible inst (budget inst d) (insert_at ps p u) \<and>
        \<not> fgt64 (fadd64 tot (fsub64 (fadd64 (D inst (ps ! (p - 1)) u) (D inst u (ps ! p))) (D inst (ps ! (p - 1)) (ps ! p))))
            (budget inst d)
      then {(length_of inst (insert_at ps p u), int p)} else {})"

lemma tryPlace_step:
  assumes "wf_inst inst" "wf_route inst ps" "site inst u" "0 \<le> d" "0 < p" "p < length ps" "place_inv inst d ps u best"
  shows "\<exists>best'. tryPlace inst u d tot ps (int p) best = Some best' \<and> place_inv inst d ps u best' \<and>
    place.improves best' best \<and> (\<forall>c \<in> places inst d tot ps u p. \<not> better_place c best')"
proof -
  obtain bd bp where best: "best = (bd, bp)" by (cases best)
  have range: "\<forall>q \<in> set ps. in_range inst q" by (rule wf_route_in_range [OF assms(2)])
  have prev: "go_nth ps (int p - 1) = Some (ps ! (p - 1))"
    using assms(5,6) by (simp add: go_nth_def nat_diff_distrib)
  have r: "in_range inst (ps ! (p - 1))" "in_range inst (ps ! p)" "in_range inst u"
    using range assms(3,5,6) by auto
  have ins: "go_insert ps (int p) u = Some (insert_at ps p u)" using assms(6) by (simp add: go_insert_in)
  note eval = evalDay_route [OF assms(1) insert_at_route(1) [OF assms(2,3,5,6)] assms(4)]
  have val: "tryPlace inst u d tot ps (int p) best =
    Some (if \<exists>c \<in> places inst d tot ps u p. better_place c best
      then (length_of inst (insert_at ps p u), int p) else best)"
    unfolding best tryPlace_def
    using prev r assms(1,4,6) ins eval by (simp add: places_def better_place_def Let_def)
  show ?thesis
    unfolding val using assms(5-7)
    by (auto simp: place_inv_def place.improves_def places_def) (auto simp: better_place_def fgt64_iff split: if_splits)
qed

lemma placeSearch_ok:
  assumes "wf_inst inst" "wf_route inst ps" "site inst u" "0 \<le> d"
  shows "\<exists>best. go_range (tryPlace inst u d tot ps) [1..int (length ps) - 1] (x, -1) = Some best \<and>
    place_inv inst d ps u best \<and> (\<forall>p. 0 < p \<longrightarrow> p < length ps \<longrightarrow> (\<forall>c \<in> places inst d tot ps u p. \<not> better_place c best))"
proof -
  obtain best where b: "go_range (tryPlace inst u d tot ps) [1..int (length ps) - 1] (x, -1) = Some best"
    "place_inv inst d ps u best"
    "\<forall>p \<in> set [1..int (length ps) - 1]. \<forall>c \<in> places inst d tot ps u (nat p). \<not> better_place c best"
  proof (atomize_elim, goal_cases)
    case 1
    have "\<exists>best. go_range (tryPlace inst u d tot ps) [1..int (length ps) - 1] (x, -1) = Some best \<and>
      place_inv inst d ps u best \<and> place.improves best (x, -1) \<and>
      (\<forall>p \<in> set [1..int (length ps) - 1]. \<forall>c \<in> places inst d tot ps u (nat p). \<not> better_place c best)"
    proof (rule place.search [where I = "place_inv inst d ps u"], goal_cases)
      case 1
      then show ?case by (simp add: place_inv_def)
    next
      case (2 p best)
      then have "0 < nat p" "nat p < length ps" "int (nat p) = p" by auto
      with tryPlace_step [OF assms this(1,2) 2(2), of tot] show ?case by simp
    qed
    then show ?case by blast
  qed
  have "\<forall>c \<in> places inst d tot ps u p. \<not> better_place c best" if "0 < p" "p < length ps" for p
  proof -
    have "int p \<in> set [1..int (length ps) - 1]" using that by auto
    with b(3) show ?thesis by (metis nat_int)
  qed
  with b(1,2) show ?thesis by blast
qed

lemma relocateToDay_ok:
  assumes "searching inst sol ss" "d < length (Days sol)" "2 < length (routes sol ! d)"
    and "int (length (routes sol ! d)) \<le> 2 ^ 30" "int (length (Days sol)) \<le> 2 ^ 30" "rng_ok r"
  shows "\<exists>b sol' r'. relocateToDay (int d) sol r = Some (b, sol', r') \<and> rng_ok r' \<and> replanned sol sol' \<and>
    searching inst sol' ss \<and> visited_sites inst (routes sol') = visited_sites inst (routes sol)"
proof -
  note sr = assms(1) [unfolded searching_def]
  let ?rs = "routes sol"
  let ?ps = "?rs ! d" and ?day = "Days sol ! d"
  have inst: "wf_inst inst" "SolInstance sol = inst" "tour inst ?rs" using sr by simp_all
  have dl: "d < length ?rs" using assms(2) by simp
  note w = tour_nth(1) [OF inst(3) dl]
  have pts: "extractDayPoints (Days sol ! i) = ?rs ! i" "length (Steps (Days sol ! i)) = length (?rs ! i)"
    if "i < length (Days sol)" for i
    using that by (simp_all add: extractDayPoints_def routes_nth route_def)
  let ?n = "int (length ?ps) - 2"
  have n: "0 < ?n" "?n \<le> 2 ^ 30" using assms(3,4) by auto
  have nd: "0 < int (length (Days sol))" using assms(2) by (cases "Days sol") simp_all
  obtain a r1 where a: "Intn ?n r = Some (int a, r1)" "int a < ?n" "rng_ok r1" using nat_draw [OF assms(6) n] .
  obtain e r2 where e: "Intn (int (length (Days sol))) r1 = Some (int e, r2)" "int e < int (length (Days sol))" "rng_ok r2"
    using nat_draw [OF a(3) nd assms(5)] .
  have p1: "0 < Suc a" "Suc a < length ?ps - 1" using a(2) assms(3) by auto
  let ?s = "?ps ! Suc a" and ?rm = "remove_at ?ps (Suc a)"
  note rm = remove_at_route [OF w p1] and trm = tour_remove [OF inst(3) dl p1]
  have len: "Suc a < length (Steps ?day)" using p1 pts(2) [OF assms(2)] by linarith
  have acc: "go_nth (Steps ?day) (1 + int a) = Some (Steps ?day ! Suc a)"
    using len by (simp add: go_nth_def nat_add_distrib)
  have acc2: "PointID (Steps ?day ! Suc a) = ?s" using len assms(2) by (simp add: routes_nth route_def)
  have acc3: "go_remove ?ps (1 + int a) = Some ?rm" using p1 go_remove_in [of "Suc a" ?ps] by simp
  have acc4: "go_nth (Points inst) ?s = Some (pt inst ?s)" "pType (pt inst ?s) = TypeSite"
    using rm(4) site_in_range [OF rm(4)] by (simp_all add: site_def)
  note acc = acc acc2 acc3 acc4
  note evs = evalDay_route [OF inst(1) rm(1), of "int d"]
  note prefix = a e(1) assms(2) pts acc evs inst(2)
  show ?thesis
  proof (cases "e = d \<or> \<not> feasible inst (budget inst (int d)) ?rm")
    case True
    then have "relocateToDay (int d) sol r = Some (False, sol, r2)"
      using prefix by (auto simp: relocateToDay_def Let_def simp del: go_nth_in)
    then show ?thesis using e(3) assms(1) by auto
  next
    case False
    then have ed: "e \<noteq> d" and f1: "feasible inst (budget inst (int d)) ?rm" by auto
    have el: "e < length (Days sol)" "e < length ?rs" using e(2) by simp_all
    note we = tour_nth(1) [OF inst(3) el(2)]
    have l2: "\<not> int (length (?rs ! e)) < 2" using we by (simp add: wf_route_def)
    obtain bd bp where b: "go_range (tryPlace inst ?s (int e) (DistTotal (Days sol ! e)) (?rs ! e)) [1..int (length (?rs ! e)) - 1]
        (f64_neg_one, -1) = Some (bd, bp)" "place_inv inst (int e) (?rs ! e) ?s (bd, bp)"
      using placeSearch_ok [OF inst(1) we rm(4), of "int e" "DistTotal (Days sol ! e)" f64_neg_one] by auto
    show ?thesis
    proof (cases "bp = -1")
      case True
      then have "relocateToDay (int d) sol r = Some (False, sol, r2)"
        using prefix ed f1 el b(1) l2 by (simp add: relocateToDay_def Let_def del: go_nth_in)
      then show ?thesis using e(3) assms(1) by auto
    next
      case bp: False
      then obtain p where p: "bp = int p" "0 < p" "p < length (?rs ! e)"
        and f2: "feasible inst (budget inst (int e)) (insert_at (?rs ! e) p ?s)"
        using b(2) by (auto simp: place_inv_def)
      note ev2 = evalDay_route [OF inst(1) insert_at_route(1) [OF we rm(4) p(2,3)], of "int e"]
      let ?ins = "insert_at (?rs ! e) p ?s"
      obtain sol1 where s1: "set_day (int d) (plan inst ?rm) (length_of inst ?rm) sol = Some sol1" "replanned sol sol1"
        "routes sol1 = ?rs[d := ?rm]"
        using set_day_planned [of d sol ?rm] assms(2) f1 inst(2) by auto
      have i1: "SolInstance sol1 = inst" "length (Days sol1) = length (Days sol)"
        using s1(2) inst(2) by (simp_all add: replanned_def)
      obtain sol2 where s2: "set_day (int e) (plan inst ?ins) (length_of inst ?ins) sol1 = Some sol2" "replanned sol1 sol2"
        "routes sol2 = (routes sol1)[e := ?ins]"
        using set_day_planned [of e sol1 ?ins] el(1) f2 i1 by auto
      have el1: "e < length (routes sol1)" "routes sol1 ! e = ?rs ! e" using el ed i1 s1(3) by simp_all
      have t1: "tour inst (routes sol1)" "visited_sites inst (routes sol1) = visited_sites inst ?rs - {?s}"
        using trm s1(3) by simp_all
      have "?s \<notin> visited_sites inst (routes sol1)" "p < length (routes sol1 ! e)" using t1 p el1 by simp_all
      note t2 = tour_insert [OF t1(1) el1(1) rm(4) this(1) p(2) this(2), unfolded el1(2)]
      have v: "visited_sites inst (routes sol2) = visited_sites inst ?rs"
        using t2(3) s2(3) t1(2) trm(4) by (auto simp: insert_absorb)
      have "relocateToDay (int d) sol r = Some (True, sol2, r2)"
        using prefix ed f1 f2 el b(1) l2 p ev2 s1(1) s2(1) i1 go_insert_in [of p "?rs ! e" ?s]
        by (simp add: relocateToDay_def Let_def del: go_nth_in)
      moreover have "replanned sol sol2" by (rule replanned_trans [OF s1(2) s2(2)])
      moreover have "searching inst sol2 ss"
        using sr t2(1) s2(2,3) i1(1) v by (simp add: searching_def replanned_def)
      ultimately show ?thesis using e(3) v by auto
    qed
  qed
qed

lemma relocateUnvisited_ok:
  assumes "searching inst sol ss" "d < length (Days sol)" "2 < length (routes sol ! d)" "ssUnvisited ss \<noteq> []"
    and "int (length (routes sol ! d)) \<le> 2 ^ 30" "int (length (ssUnvisited ss)) \<le> 2 ^ 30" "rng_ok r"
  shows "\<exists>b sol' ss' r'. relocateUnvisited (int d) sol ss r = Some (b, sol', ss', r') \<and> rng_ok r' \<and> replanned sol sol' \<and>
    searching inst sol' ss' \<and> visited_sites inst (routes sol) \<subseteq> visited_sites inst (routes sol')"
proof -
  note sr = assms(1) [unfolded searching_def]
  let ?rs = "routes sol" and ?us = "ssUnvisited ss"
  let ?ps = "?rs ! d" and ?day = "Days sol ! d"
  have inst: "wf_inst inst" "SolInstance sol = inst" "tour inst ?rs" "tracks inst ss (visited_sites inst ?rs)"
    using sr by simp_all
  have dl: "d < length ?rs" using assms(2) by simp
  note w = tour_nth(1) [OF inst(3) dl]
  have pts: "extractDayPoints ?day = ?ps" "length (Steps ?day) = length ?ps"
    using assms(2) by (simp_all add: extractDayPoints_def routes_nth route_def)
  have n: "0 < int (length ?us)" "0 < int (length ?ps) - 1" "int (length ?ps) - 1 \<le> 2 ^ 30"
    using assms(3-5) by auto
  obtain i r1 where i: "Intn (int (length ?us)) r = Some (int i, r1)" "int i < int (length ?us)" "rng_ok r1"
    using nat_draw [OF assms(7) n(1) assms(6)] .
  obtain a r2 where a: "Intn (int (length ?ps) - 1) r1 = Some (int a, r2)" "int a < int (length ?ps) - 1" "rng_ok r2"
    using nat_draw [OF i(3) n(2,3)] .
  let ?u = "?us ! i" and ?new = "insert_at ?ps (Suc a) (?us ! i)"
  have "?u \<in> set ?us" using i(2) by simp
  then have u: "site inst ?u" "?u \<notin> visited_sites inst ?rs" using inst(4) by (simp_all add: tracks_def)
  have p: "0 < Suc a" "Suc a < length ?ps" using a(2) by auto
  note ins = insert_at_route [OF w u(1) p] and t = tour_insert [OF inst(3) dl u p]
  note eval = evalDay_route [OF inst(1) ins(1), of "int d"]
  have range: "\<forall>q \<in> set ?ps. in_range inst q" by (rule wf_route_in_range [OF w])
  have rr: "in_range inst (?ps ! a)" "in_range inst (?ps ! Suc a)" "in_range inst ?u"
    using range p site_in_range [OF u(1)] by auto
  have acc: "go_nth ?us (int i) = Some ?u" "go_nth ?ps (1 + int a - 1) = Some (?ps ! a)"
    "go_nth ?ps (1 + int a) = Some (?ps ! Suc a)" "go_insert ?ps (1 + int a) ?u = Some ?new"
    using i(2) p go_insert_in [of "Suc a" ?ps ?u] by (simp_all add: go_nth_def nat_add_distrib)
  let ?pruned = "fgt64 (fadd64 (DistTotal ?day) (fsub64 (fadd64 (D inst (?ps ! a) ?u) (D inst ?u (?ps ! Suc a)))
      (D inst (?ps ! a) (?ps ! Suc a)))) (budget inst (int d))"
  note prefix = i(1) a(1) assms(2) pts acc eval inst(1,2) rr
  show ?thesis
  proof (cases "?pruned \<or> \<not> feasible inst (budget inst (int d)) ?new")
    case True
    then have "relocateUnvisited (int d) sol ss r = Some (False, sol, ss, r2)"
      using prefix by (auto simp: relocateUnvisited_def Let_def simp del: go_nth_in)
    then show ?thesis using a(3) assms(1) by auto
  next
    case False
    then have f: "feasible inst (budget inst (int d)) ?new" by simp
    obtain sol1 where s1: "set_day (int d) (plan inst ?new) (length_of inst ?new) sol = Some sol1" "replanned sol sol1"
      "routes sol1 = ?rs[d := ?new]"
      using set_day_planned [of d sol ?new] assms(2) f inst(2) by auto
    obtain ss' where ss': "markVisited ?u ss = Some ss'" "tracks inst ss' (insert ?u (visited_sites inst ?rs))"
      using markVisited_tracks [OF inst(4) u] by blast
    let ?sol' = "sol1\<lparr>TotalScore := fadd64 (TotalScore sol1) (pScore (pt inst ?u))\<rparr>"
    have "relocateUnvisited (int d) sol ss r = Some (True, ?sol', ss', r2)"
      using prefix False s1(1) ss'(1) by (simp add: relocateUnvisited_def Let_def del: go_nth_in)
    moreover have "searching inst ?sol' ss'"
      using sr t s1 ss'(2) by (simp add: searching_def replanned_def)
    ultimately show ?thesis using a(3) s1 t by auto
  qed
qed

section \<open>The loop\<close>

lemma relocateOnce_ok:
  assumes "searching inst sol ss" "Days sol \<noteq> []" "small inst" "rng_ok r"
  shows "\<exists>b sol' ss' r'. relocateOnce sol ss r = Some (b, sol', ss', r') \<and> rng_ok r' \<and> replanned sol sol' \<and>
    searching inst sol' ss' \<and> visited_sites inst (routes sol) \<subseteq> visited_sites inst (routes sol')"
proof -
  note sr = assms(1) [unfolded searching_def]
  have tour: "tour inst (routes sol)" and tr: "tracks inst ss (visited_sites inst (routes sol))" using sr by simp_all
  have nd: "0 < int (length (Days sol))" "int (length (Days sol)) \<le> 2 ^ 30"
  proof -
    show pos: "0 < int (length (Days sol))" using assms(2) by simp
    have "length (Days sol) = nat (NbDays inst)" using tour by (simp add: tour_def)
    then show "int (length (Days sol)) \<le> 2 ^ 30" using pos assms(3) by (simp add: small_def)
  qed
  obtain d r1 where d: "Intn (int (length (Days sol))) r = Some (int d, r1)" "int d < int (length (Days sol))" "rng_ok r1"
    using nat_draw [OF assms(4) nd] .
  have dl: "d < length (Days sol)" "d < length (routes sol)" using d(2) by simp_all
  have len: "length (Steps (Days sol ! d)) = length (routes sol ! d)" using dl by (simp add: routes_nth route_def)
  note sm = route_small [OF tour dl(2) assms(3)]
  show ?thesis
  proof (cases "length (routes sol ! d) \<le> 2")
    case True
    then have "relocateOnce sol ss r = Some (False, sol, ss, r1)"
      using d(1) dl len by (simp add: relocateOnce_def Let_def)
    then show ?thesis using d(3) assms(1) by auto
  next
    case False
    then have l2: "2 < length (routes sol ! d)" by simp
    obtain mt r2 where mt: "Intn 3 r1 = Some (int mt, r2)" "rng_ok r2" by (rule nat_draw [OF d(3), of 3]) simp_all
    note prefix = d(1) dl(1) len mt(1) False
    consider "mt = 0" "3 < length (routes sol ! d)"
      | "\<not> (mt = 0 \<and> 3 < length (routes sol ! d))" "mt = 1" "1 < length (Days sol)"
      | "\<not> (mt = 0 \<and> 3 < length (routes sol ! d))" "\<not> (mt = 1 \<and> 1 < length (Days sol))" "ssUnvisited ss \<noteq> []"
      | "\<not> (mt = 0 \<and> 3 < length (routes sol ! d))" "\<not> (mt = 1 \<and> 1 < length (Days sol))" "ssUnvisited ss = []" by blast
    then show ?thesis
    proof cases
      case 1
      obtain b sol' r' where m: "relocateInDay (int d) sol r2 = Some (b, sol', r')" "rng_ok r'" "replanned sol sol'"
        "searching inst sol' ss" "visited_sites inst (routes sol') = visited_sites inst (routes sol)"
        using relocateInDay_ok [OF assms(1) dl(1) 1(2) sm mt(2)] by blast
      then have "relocateOnce sol ss r = Some (b, sol', ss, r')"
        using prefix 1 by (simp add: relocateOnce_def Let_def)
      with m show ?thesis by auto
    next
      case 2
      obtain b sol' r' where m: "relocateToDay (int d) sol r2 = Some (b, sol', r')" "rng_ok r'" "replanned sol sol'"
        "searching inst sol' ss" "visited_sites inst (routes sol') = visited_sites inst (routes sol)"
        using relocateToDay_ok [OF assms(1) dl(1) l2 sm nd(2) mt(2)] by blast
      then have "relocateOnce sol ss r = Some (b, sol', ss, r')"
        using prefix 2 by (simp add: relocateOnce_def Let_def)
      with m show ?thesis by auto
    next
      case 3
      obtain b sol' ss' r' where m: "relocateUnvisited (int d) sol ss r2 = Some (b, sol', ss', r')" "rng_ok r'"
        "replanned sol sol'" "searching inst sol' ss'"
        "visited_sites inst (routes sol) \<subseteq> visited_sites inst (routes sol')"
        using relocateUnvisited_ok [OF assms(1) dl(1) l2 3(3) sm unvisited_small [OF tr assms(3)] mt(2)] by blast
      then have "relocateOnce sol ss r = Some (b, sol', ss', r')"
        using prefix 3 by (auto simp: relocateOnce_def Let_def)
      with m show ?thesis by auto
    next
      case 4
      then have "relocateOnce sol ss r = Some (False, sol, ss, r2)"
        using prefix by (auto simp: relocateOnce_def Let_def)
      then show ?thesis using mt(2) assms(1) by auto
    qed
  qed
qed

theorem applyRelocate_ok:
  assumes "searching inst sol ss" "small inst" "rng_ok r"
  shows "\<exists>b sol' ss' r'. applyRelocate sol ss r maxIter = Some (b, sol', ss', r') \<and> rng_ok r' \<and> replanned sol sol' \<and>
    searching inst sol' ss' \<and> visited_sites inst (routes sol) \<subseteq> visited_sites inst (routes sol')"
proof (cases "Days sol = []")
  case True
  then have "applyRelocate sol ss r maxIter = Some (False, sol, ss, r)" by (simp add: applyRelocate_def)
  then show ?thesis using assms by (intro exI [of _ False] exI [of _ sol] exI [of _ ss] exI [of _ r]) simp
next
  case False
  let ?I = "\<lambda>(b :: bool, sol', ss', r'). rng_ok r' \<and> replanned sol sol' \<and> searching inst sol' ss' \<and>
    visited_sites inst (routes sol) \<subseteq> visited_sites inst (routes sol')"
  have "\<exists>t. go_range (\<lambda>_ (improved, sol, state, rng). do {
          (b, sol, state, rng) \<leftarrow> relocateOnce sol state rng;
          Some (improved \<or> b, sol, state, rng) }) [0..maxIter - 1] (False, sol, ss, r) = Some t \<and> ?I t"
  proof (rule go_range_total [where I = ?I], goal_cases)
    case 1
    then show ?case using assms by simp
  next
    case (2 x s)
    obtain b sol1 ss1 r1 where s: "s = (b, sol1, ss1, r1)" by (metis prod_cases4)
    have I: "rng_ok r1" "replanned sol sol1" "searching inst sol1 ss1"
      "visited_sites inst (routes sol) \<subseteq> visited_sites inst (routes sol1)" using 2(2) s by simp_all
    have "Days sol1 \<noteq> []" using I(2) False by (auto simp: replanned_def)
    then obtain b' sol2 ss2 r2 where "relocateOnce sol1 ss1 r1 = Some (b', sol2, ss2, r2)" "rng_ok r2" "replanned sol1 sol2"
      "searching inst sol2 ss2" "visited_sites inst (routes sol1) \<subseteq> visited_sites inst (routes sol2)"
      using relocateOnce_ok [OF I(3) _ assms(2) I(1)] by blast
    with I s show ?case using replanned_trans [OF I(2)] by auto
  qed
  with False show ?thesis by (auto simp: applyRelocate_def)
qed

end
