(* ===== verification/Hotel_Swap.thy ===== *)
theory Hotel_Swap
  imports Relocate
begin

text \<open>
  The fifth neighbourhood (\<open>tryHotelSwap\<close> of \<open>src/optimizer.go\<close>): the hotel between two days is
  replaced when both days stay feasible and get shorter together.
\<close>

section \<open>Translation\<close>

text \<open>One iteration of the loop over the hotels; \<open>bestHotel\<close> is its variable.\<close>

definition tryHotel :: "Instance \<Rightarrow> int \<Rightarrow> DayTour \<Rightarrow> DayTour \<Rightarrow> int \<Rightarrow> int \<Rightarrow> int \<Rightarrow> int option" where
  "tryHotel inst d day nextDay currentHotelID hID bestHotel =
     (if hID = currentHotelID then Some bestHotel
      else do {
        ptsDayD \<leftarrow> go_set (extractDayPoints day) (int (length (Steps day)) - 1) hID;
        (feasD, distD) \<leftarrow> evalDayFast inst d ptsDayD;
        if \<not> feasD then Some bestHotel
        else do {
          ptsNextDay \<leftarrow> go_set (extractDayPoints nextDay) 0 hID;
          (feasN, distN) \<leftarrow> evalDayFast inst (d + 1) ptsNextDay;
          if \<not> feasN then Some bestHotel
          else
            let totalNewDist = fadd64 distD distN;
                totalOldDist = fadd64 (DistTotal day) (DistTotal nextDay)
            in Some (if flt64 totalNewDist totalOldDist then hID else bestHotel) } })"

text \<open>One junction, between the days \<open>d\<close> and \<open>d+1\<close>.\<close>

definition swapHotelAt :: "int \<Rightarrow> bool \<times> Solution \<Rightarrow> (bool \<times> Solution) option" where
  "swapHotelAt d = (\<lambda>(improved, sol). do {
     let inst = SolInstance sol;
     day \<leftarrow> go_nth (Days sol) d;
     nextDay \<leftarrow> go_nth (Days sol) (d + 1);
     if length (Steps day) < 2 \<or> length (Steps nextDay) < 2 then Some (improved, sol)
     else do {
       lastStep \<leftarrow> go_nth (Steps day) (int (length (Steps day)) - 1);
       let currentHotelID = PointID lastStep;
       bestHotel \<leftarrow> go_range (tryHotel inst d day nextDay currentHotelID) (HotelIDs inst) (-1);
       if bestHotel \<ge> 0 then do {
         ptsDayD \<leftarrow> go_set (extractDayPoints day) (int (length (Steps day)) - 1) bestHotel;
         (_, distD, stepsD) \<leftarrow> evalDay inst d ptsDayD;
         sol \<leftarrow> set_day d stepsD distD sol;
         ptsNextDay \<leftarrow> go_set (extractDayPoints nextDay) 0 bestHotel;
         (_, distN, stepsN) \<leftarrow> evalDay inst (d + 1) ptsNextDay;
         sol \<leftarrow> set_day (d + 1) stepsN distN sol;
         Some (True, sol) }
       else Some (improved, sol) } })"

definition tryHotelSwap :: "Solution \<Rightarrow> (bool \<times> Solution) option" where
  "tryHotelSwap sol =
     (if NbDays (SolInstance sol) \<le> 1 then Some (False, sol)
      else do {
        (improved, sol) \<leftarrow> go_range swapHotelAt [0..int (length (Days sol)) - 2] (False, sol);
        sol \<leftarrow> EvaluateScore sol;
        Some (improved, sol) })"

section \<open>Changing the hotel between two days\<close>

definition with_end :: "int list \<Rightarrow> int \<Rightarrow> int list" where
  "with_end ps h = ps[length ps - 1 := h]"

definition with_start :: "int list \<Rightarrow> int \<Rightarrow> int list" where
  "with_start ps h = ps[0 := h]"

lemma with_end_route:
  assumes "wf_route inst ps" "hotel inst h"
  shows "wf_route inst (with_end ps h)" "hd (with_end ps h) = hd ps" "last (with_end ps h) = h"
    "sites inst (with_end ps h) = sites inst ps"
proof -
  obtain p qs e where ps: "ps = p # qs @ [e]" "hotel inst p" "hotel inst e" "\<forall>q \<in> set qs. site inst q"
    using assms(1) by (elim wf_routeE)
  have r: "with_end ps h = p # qs @ [h]" using ps by (simp add: with_end_def)
  show "wf_route inst (with_end ps h)" unfolding wf_route_iff r using ps assms(2) by blast
  show "hd (with_end ps h) = hd ps" "last (with_end ps h) = h" using r ps by simp_all
  show "sites inst (with_end ps h) = sites inst ps"
    using sites_wf_route [OF ps(2) assms(2) ps(4)] sites_wf_route [OF ps(2-4)] r by (simp add: ps(1))
qed

lemma with_start_route:
  assumes "wf_route inst ps" "hotel inst h"
  shows "wf_route inst (with_start ps h)" "hd (with_start ps h) = h" "last (with_start ps h) = last ps"
    "sites inst (with_start ps h) = sites inst ps"
proof -
  obtain p qs e where ps: "ps = p # qs @ [e]" "hotel inst p" "hotel inst e" "\<forall>q \<in> set qs. site inst q"
    using assms(1) by (elim wf_routeE)
  have r: "with_start ps h = h # qs @ [e]" using ps by (simp add: with_start_def)
  show "wf_route inst (with_start ps h)" unfolding wf_route_iff r using ps assms(2) by blast
  show "hd (with_start ps h) = h" "last (with_start ps h) = last ps" using r ps by simp_all
  show "sites inst (with_start ps h) = sites inst ps"
    using sites_wf_route [OF assms(2) ps(3,4)] sites_wf_route [OF ps(2-4)] r by (simp add: ps(1))
qed

lemma go_set_end: "2 \<le> length ps \<Longrightarrow> go_set ps (int (length ps) - 1) h = Some (with_end ps h)"
  by (cases ps rule: rev_cases) (simp_all add: with_end_def)

lemma go_set_start: "2 \<le> length ps \<Longrightarrow> go_set ps 0 h = Some (with_start ps h)"
  by (cases ps) (simp_all add: go_set_def with_start_def)

lemma linked_iff:
  "linked p rs \<longleftrightarrow> (rs \<noteq> [] \<longrightarrow> hd (rs ! 0) = p) \<and> (\<forall>i. Suc i < length rs \<longrightarrow> hd (rs ! Suc i) = last (rs ! i))"
proof (induction rs arbitrary: p)
  case (Cons ps rs)
  have "(\<forall>i. Suc i < length (ps # rs) \<longrightarrow> hd ((ps # rs) ! Suc i) = last ((ps # rs) ! i)) \<longleftrightarrow>
      (rs \<noteq> [] \<longrightarrow> hd (rs ! 0) = last ps) \<and> (\<forall>i. Suc i < length rs \<longrightarrow> hd (rs ! Suc i) = last (rs ! i))"
    by (auto simp: nth_Cons split: nat.splits)
  with Cons.IH show ?case by simp
qed simp

lemma tour_with_hotel:
  assumes "tour inst rs" "Suc d < length rs" "hotel inst h"
  shows "tour inst (rs[d := with_end (rs ! d) h, Suc d := with_start (rs ! Suc d) h])"
    "visited_sites inst (rs[d := with_end (rs ! d) h, Suc d := with_start (rs ! Suc d) h]) = visited_sites inst rs"
proof -
  let ?rs = "rs[d := with_end (rs ! d) h, Suc d := with_start (rs ! Suc d) h]"
  have d: "d < length rs" using assms(2) by simp
  note w = tour_nth(1) [OF assms(1) d] tour_nth(1) [OF assms(1,2)]
  note e = with_end_route [OF w(1) assms(3)] and s = with_start_route [OF w(2) assms(3)]
  have n: "?rs ! i = (if i = d then with_end (rs ! d) h else if i = Suc d then with_start (rs ! Suc d) h else rs ! i)"
    if "i < length rs" for i using that by (simp add: nth_list_update)
  have "map (sites inst) ?rs = map (sites inst) rs"
  proof (rule nth_equalityI)
    fix i assume "i < length (map (sites inst) ?rs)"
    then have i: "i < length rs" by simp
    then show "map (sites inst) ?rs ! i = map (sites inst) rs ! i" using n [OF i] e(4) s(4) by simp
  qed simp
  moreover have "sites inst (concat xs) = concat (map (sites inst) xs)" for xs
    by (induction xs) simp_all
  ultimately have c: "sites inst (concat ?rs) = sites inst (concat rs)" by metis
  then show "visited_sites inst ?rs = visited_sites inst rs" by (simp add: visited_sites_def)
  have n0: "?rs ! 0 = (if 0 = d then with_end (rs ! d) h else rs ! 0)" and rs: "rs \<noteq> []" using n [of 0] d by auto
  have l: "linked (StartHotelID inst) rs" using assms(1) by (simp add: tour_def)
  have "linked (StartHotelID inst) ?rs"
    unfolding linked_iff
  proof (intro conjI impI allI)
    show "hd (?rs ! 0) = StartHotelID inst" if "?rs \<noteq> []"
      using l rs e(2) unfolding n0 linked_iff by (cases "0 = d") simp_all
    fix i assume i: "Suc i < length ?rs"
    have li: "hd (rs ! Suc i) = last (rs ! i)" using l i by (simp add: linked_iff)
    show "hd (?rs ! Suc i) = last (?rs ! i)"
      using n [of i] n [of "Suc i"] i li e(2,3) s(2,3) by (auto split: if_splits)
  qed
  moreover have "last (last ?rs) = EndHotelID inst"
  proof -
    have "last ?rs = ?rs ! (length rs - 1)" using d by (subst last_conv_nth) auto
    moreover have "last (rs ! (length rs - 1)) = EndHotelID inst"
      using assms(1) d by (auto simp: tour_def last_conv_nth)
    ultimately show ?thesis using n [of "length rs - 1"] assms(2) s(3) by (auto split: if_splits)
  qed
  moreover have "\<forall>ps \<in> set ?rs. wf_route inst ps"
    using assms(1) e(1) s(1) by (auto simp: tour_def dest!: set_update_subset_insert [THEN subsetD])
  ultimately show "tour inst ?rs" using assms(1) c by (simp add: tour_def)
qed

section \<open>The junctions\<close>

text \<open>The hotels that make the two days shorter together.\<close>

definition hotel_gain :: "Solution \<Rightarrow> nat \<Rightarrow> int \<Rightarrow> bool" where
  "hotel_gain sol d h \<longleftrightarrow>
     (let inst = SolInstance sol; ps = with_end (routes sol ! d) h; qs = with_start (routes sol ! Suc d) h
      in h \<noteq> last (routes sol ! d) \<and> feasible inst (budget inst (int d)) ps \<and>
         feasible inst (budget inst (int d + 1)) qs \<and>
         flt64 (fadd64 (length_of inst ps) (length_of inst qs))
           (fadd64 (DistTotal (Days sol ! d)) (DistTotal (Days sol ! Suc d))))"

lemma tryHotel_spec:
  assumes "wf_inst (SolInstance sol)" "tour (SolInstance sol) (routes sol)" "Suc d < length (Days sol)"
    and "hotel (SolInstance sol) h"
  shows "tryHotel (SolInstance sol) (int d) (Days sol ! d) (Days sol ! Suc d) (last (routes sol ! d)) h b =
    Some (if hotel_gain sol d h then h else b)"
proof -
  let ?inst = "SolInstance sol"
  have d: "d < length (routes sol)" "Suc d < length (routes sol)" using assms(3) by simp_all
  note w = tour_nth(1) [OF assms(2) d(1)] tour_nth(1) [OF assms(2) d(2)]
  note ev = evalDay_route [OF assms(1) with_end_route(1) [OF w(1) assms(4)], of "int d"]
    evalDay_route [OF assms(1) with_start_route(1) [OF w(2) assms(4)], of "int d + 1"]
  have pts: "extractDayPoints (Days sol ! d) = routes sol ! d" "extractDayPoints (Days sol ! Suc d) = routes sol ! Suc d"
    using assms(3) by (simp_all add: extractDayPoints_def routes_nth route_def)
  have len: "length (Steps (Days sol ! d)) = length (routes sol ! d)" using assms(3) by (simp add: routes_nth route_def)
  have ne: "2 \<le> length (routes sol ! d)" "2 \<le> length (routes sol ! Suc d)" using w by (simp_all add: wf_route_def)
  have st: "go_set (routes sol ! d) (int (length (routes sol ! d)) - 1) h = Some (with_end (routes sol ! d) h)"
    "go_set (routes sol ! Suc d) 0 h = Some (with_start (routes sol ! Suc d) h)"
    using ne by (simp_all add: go_set_end go_set_start del: go_set_in)
  show ?thesis
    unfolding tryHotel_def pts len
    using st ev by (simp add: hotel_gain_def Let_def del: go_set_in)
qed

text \<open>The hotel that is taken is the last one of the list that is a gain, not the one of the shortest days.\<close>

definition chosen_hotel :: "Solution \<Rightarrow> nat \<Rightarrow> int option" where
  "chosen_hotel sol d =
     (let hs = filter (hotel_gain sol d) (HotelIDs (SolInstance sol)) in if hs = [] then None else Some (last hs))"

lemma tryHotel_loop:
  assumes "wf_inst (SolInstance sol)" "tour (SolInstance sol) (routes sol)" "Suc d < length (Days sol)"
    and "\<forall>h \<in> set hs. hotel (SolInstance sol) h"
  shows "go_range (tryHotel (SolInstance sol) (int d) (Days sol ! d) (Days sol ! Suc d) (last (routes sol ! d))) hs b =
    Some (if filter (hotel_gain sol d) hs = [] then b else last (filter (hotel_gain sol d) hs))"
  using assms(4)
proof (induction hs arbitrary: b)
  case (Cons h hs)
  then show ?case using tryHotel_spec [OF assms(1-3), of h b] by auto
qed simp

definition hotel_swapped :: "Solution \<Rightarrow> nat \<Rightarrow> Solution \<Rightarrow> bool" where
  "hotel_swapped sol d sol' \<longleftrightarrow>
     (case chosen_hotel sol d of
        None \<Rightarrow> sol' = sol
      | Some h \<Rightarrow> routes sol' = (routes sol)[d := with_end (routes sol ! d) h, Suc d := with_start (routes sol ! Suc d) h])"

lemma swapHotelAt_ok:
  assumes "wf_inst inst" "tour inst (routes sol)" "SolInstance sol = inst" "Suc d < length (Days sol)"
  shows "\<exists>sol'. swapHotelAt (int d) (improved, sol) = Some (improved \<or> chosen_hotel sol d \<noteq> None, sol') \<and>
    replanned sol sol' \<and> tour inst (routes sol') \<and> visited_sites inst (routes sol') = visited_sites inst (routes sol) \<and>
    hotel_swapped sol d sol'"
proof -
  have d: "d < length (Days sol)" "d < length (routes sol)" "Suc d < length (routes sol)" using assms(4) by simp_all
  note w = tour_nth(1) [OF assms(2) d(2)] tour_nth(1) [OF assms(2) d(3)]
  have nth: "go_nth (Days sol) (int d) = Some (Days sol ! d)" "go_nth (Days sol) (int d + 1) = Some (Days sol ! Suc d)"
    using assms(4) by (simp_all add: go_nth_def nat_add_distrib)
  have pts: "extractDayPoints (Days sol ! d) = routes sol ! d" "extractDayPoints (Days sol ! Suc d) = routes sol ! Suc d"
    using assms(4) by (simp_all add: extractDayPoints_def routes_nth route_def)
  have len: "length (Steps (Days sol ! d)) = length (routes sol ! d)" "length (Steps (Days sol ! Suc d)) = length (routes sol ! Suc d)"
    using assms(4) by (simp_all add: routes_nth route_def)
  have len2: "2 \<le> length (routes sol ! d)" "2 \<le> length (routes sol ! Suc d)" using w by (simp_all add: wf_route_def)
  have ne: "Steps (Days sol ! d) \<noteq> []" using len(1) len2(1) by auto
  have last: "go_nth (Steps (Days sol ! d)) (int (length (routes sol ! d)) - 1) = Some (last (Steps (Days sol ! d)))"
    using go_nth_last [OF ne] len(1) by simp
  have lid: "PointID (last (Steps (Days sol ! d))) = last (routes sol ! d)"
    using last_route [OF ne] d(1) by (simp add: routes_nth)
  have hs: "\<forall>h \<in> set (HotelIDs inst). hotel inst h" using assms(1) by (simp add: wf_inst_def)
  let ?fs = "filter (hotel_gain sol d) (HotelIDs inst)"
  have loop: "go_range (tryHotel inst (int d) (Days sol ! d) (Days sol ! Suc d) (last (routes sol ! d))) (HotelIDs inst) (-1) =
      Some (if ?fs = [] then -1 else last ?fs)"
    using tryHotel_loop [of sol d "HotelIDs inst" "-1"] assms hs by simp
  note prefix = nth pts len last lid loop assms(3)
  have two: "\<not> (length (routes sol ! d) < 2 \<or> length (routes sol ! Suc d) < 2)" using len2 by simp
  show ?thesis
  proof (cases "?fs = []")
    case True
    then have "swapHotelAt (int d) (improved, sol) = Some (improved, sol)" "chosen_hotel sol d = None"
      using prefix two assms(3) by (simp_all add: swapHotelAt_def chosen_hotel_def Let_def del: go_nth_in)
    then show ?thesis using assms(2) by (simp add: hotel_swapped_def)
  next
    case False
    define h where "h = last ?fs"
    have mem: "h \<in> set ?fs" unfolding h_def using False by (rule last_in_set)
    then have h: "hotel inst h" "0 \<le> h" using hs by (auto simp: hotel_def in_range_def)
    let ?ps = "with_end (routes sol ! d) h" and ?qs = "with_start (routes sol ! Suc d) h"
    have f: "feasible inst (budget inst (int d)) ?ps" "feasible inst (budget inst (int d + 1)) ?qs"
      using mem assms(3) by (simp_all add: hotel_gain_def Let_def)
    note e = with_end_route [OF w(1) h(1)] and s = with_start_route [OF w(2) h(1)]
    note ev = evalDay_route [OF assms(1) e(1), of "int d"] evalDay_route [OF assms(1) s(1), of "int d + 1"]
    have st: "go_set (routes sol ! d) (int (length (routes sol ! d)) - 1) h = Some ?ps"
      "go_set (routes sol ! Suc d) 0 h = Some ?qs"
      using len2 by (simp_all add: go_set_end go_set_start del: go_set_in)
    obtain sol1 where s1: "set_day (int d) (plan inst ?ps) (length_of inst ?ps) sol = Some sol1" "replanned sol sol1"
      "routes sol1 = (routes sol)[d := ?ps]"
      using set_day_planned [OF d(1), of ?ps] f(1) assms(3) by auto
    have i1: "SolInstance sol1 = inst" "length (Days sol1) = length (Days sol)"
      using s1(2) assms(3) by (simp_all add: replanned_def)
    obtain sol2 where s2: "set_day (int (Suc d)) (plan inst ?qs) (length_of inst ?qs) sol1 = Some sol2" "replanned sol1 sol2"
      "routes sol2 = (routes sol1)[Suc d := ?qs]"
      using set_day_planned [of "Suc d" sol1 ?qs] f(2) i1 assms(4) by (auto simp: add.commute)
    have run: "swapHotelAt (int d) (improved, sol) = Some (True, sol2)"
      using prefix two False h st ev f s1(1) s2(1)
      by (simp add: swapHotelAt_def Let_def h_def [symmetric] add.commute del: go_nth_in go_set_in)
    have ch: "chosen_hotel sol d = Some h" using False assms(3) by (simp add: chosen_hotel_def h_def)
    have "routes sol2 = (routes sol)[d := ?ps, Suc d := ?qs]" using s1(3) s2(3) by simp
    with run ch tour_with_hotel [OF assms(2) d(3) h(1)] replanned_trans [OF s1(2) s2(2)] show ?thesis
      by (intro exI [of _ sol2]) (simp add: hotel_swapped_def)
  qed
qed

theorem tryHotelSwap_ok:
  assumes "wf_inst inst" "tour inst (routes sol)" "SolInstance sol = inst"
  shows "\<exists>b sol'. tryHotelSwap sol = Some (b, sol') \<and> replanned sol sol' \<and> tour inst (routes sol') \<and>
    visited_sites inst (routes sol') = visited_sites inst (routes sol)"
proof (cases "NbDays inst \<le> 1")
  case True
  then have "tryHotelSwap sol = Some (False, sol)" using assms(3) by (simp add: tryHotelSwap_def)
  then show ?thesis using assms by (intro exI [of _ False] exI [of _ sol]) simp
next
  case False
  let ?I = "\<lambda>(b :: bool, sol'). replanned sol sol' \<and> tour inst (routes sol') \<and>
    visited_sites inst (routes sol') = visited_sites inst (routes sol)"
  have "\<exists>t. go_range swapHotelAt [0..int (length (Days sol)) - 2] (False, sol) = Some t \<and> ?I t"
  proof (rule go_range_total [where I = ?I], goal_cases)
    case 1
    then show ?case using assms by simp
  next
    case (2 x s)
    obtain b sol1 where s: "s = (b, sol1)" by (cases s)
    have I: "replanned sol sol1" "tour inst (routes sol1)" "visited_sites inst (routes sol1) = visited_sites inst (routes sol)"
      using 2(2) s by simp_all
    have i: "SolInstance sol1 = inst" "length (Days sol1) = length (Days sol)" using I(1) assms(3) by (simp_all add: replanned_def)
    have x: "int (nat x) = x" "Suc (nat x) < length (Days sol1)" using 2(1) i by auto
    obtain b' sol2 where "swapHotelAt x (b, sol1) = Some (b', sol2)" "replanned sol1 sol2" "tour inst (routes sol2)"
      "visited_sites inst (routes sol2) = visited_sites inst (routes sol1)"
      using swapHotelAt_ok [OF assms(1) I(2) i(1) x(2), of b] x(1) by auto
    with I s show ?case using replanned_trans [OF I(1)] by auto
  qed
  then obtain b sol1 where g: "go_range swapHotelAt [0..int (length (Days sol)) - 2] (False, sol) = Some (b, sol1)"
    and I: "?I (b, sol1)" by auto
  have i: "SolInstance sol1 = inst" using I assms(3) by (simp add: replanned_def)
  then have "known_points sol1" using I tour_known_points [of sol1] by simp
  then obtain t s where "EvaluateScore sol1 = Some (sol1\<lparr>TotalScore := s, TotalDist := t\<rparr>)"
    using EvaluateScore_spec by blast
  with g False assms(3) have "tryHotelSwap sol = Some (b, sol1\<lparr>TotalScore := s, TotalDist := t\<rparr>)"
    by (simp add: tryHotelSwap_def)
  with I show ?thesis by simp
qed

end
