(* ===== verification/Descent.thy ===== *)
theory Descent
  imports Insertion Two_Opt Swap_Move Hotel_Swap Go_Float64_Diff
begin

text \<open>
  The variable neighbourhood descent (\<open>applyVND\<close> of \<open>src/optimizer.go\<close>): the five neighbourhoods in
  turn, from the first one again after every gain in score, until none gains or the time is over.

  The clock is a parameter: \<open>clk n\<close> is the value of the \<open>n\<close>-th call of \<open>time.Now()\<close>, and the number of
  the next reading is passed and returned.
\<close>

section \<open>Translation\<close>

type_synonym clock = "nat \<Rightarrow> int"

text \<open>\<open>for bestInsertion(sol, state) { if time.Now().After(deadline) { break } }\<close>, and the same for \<open>bestSwap\<close>.\<close>

partial_function (option) insertLoop ::
  "clock \<Rightarrow> int \<Rightarrow> Solution \<Rightarrow> SearchState \<Rightarrow> nat \<Rightarrow> (Solution \<times> SearchState \<times> nat) option" where
  "insertLoop clk deadline sol state n = do {
     (b, sol, state) \<leftarrow> bestInsertion sol state;
     if \<not> b then Some (sol, state, n)
     else if clk n > deadline then Some (sol, state, n + 1)
     else insertLoop clk deadline sol state (n + 1) }"

partial_function (option) swapLoop ::
  "clock \<Rightarrow> int \<Rightarrow> Solution \<Rightarrow> SearchState \<Rightarrow> nat \<Rightarrow> (Solution \<times> SearchState \<times> nat) option" where
  "swapLoop clk deadline sol state n = do {
     (b, sol, state) \<leftarrow> bestSwap sol state;
     if \<not> b then Some (sol, state, n)
     else if clk n > deadline then Some (sol, state, n + 1)
     else swapLoop clk deadline sol state (n + 1) }"

text \<open>The \<open>switch k\<close>.\<close>

definition vndMove ::
  "clock \<Rightarrow> int \<Rightarrow> int \<Rightarrow> Solution \<Rightarrow> rngSource \<Rightarrow> nat \<Rightarrow> (Solution \<times> rngSource \<times> nat) option" where
  "vndMove clk deadline k sol rng n =
     (if k = 0 then do {
        state \<leftarrow> newSearchState sol;
        (sol, state, n) \<leftarrow> insertLoop clk deadline sol state n;
        sol \<leftarrow> EvaluateScore sol;
        Some (sol, rng, n) }
      else if k = 1 then do {
        (_, sol) \<leftarrow> apply2OptAllDays sol;
        sol \<leftarrow> EvaluateScore sol;
        Some (sol, rng, n) }
      else if k = 2 then do {
        state \<leftarrow> newSearchState sol;
        (sol, state, n) \<leftarrow> swapLoop clk deadline sol state n;
        sol \<leftarrow> EvaluateScore sol;
        Some (sol, rng, n) }
      else if k = 3 then do {
        state \<leftarrow> newSearchState sol;
        (_, sol, state, rng) \<leftarrow> applyRelocate sol state rng 2000;
        sol \<leftarrow> EvaluateScore sol;
        Some (sol, rng, n) }
      else if k = 4 then do {
        (_, sol) \<leftarrow> tryHotelSwap sol;
        Some (sol, rng, n) }
      else Some (sol, rng, n))"

partial_function (option) vndLoop ::
  "clock \<Rightarrow> int \<Rightarrow> int \<Rightarrow> Solution \<Rightarrow> rngSource \<Rightarrow> nat \<Rightarrow> (Solution \<times> rngSource \<times> nat) option" where
  "vndLoop clk deadline k sol rng n =
     (if k < 5 then
        if clk n > deadline then Some (sol, rng, n + 1)
        else do {
          let oldScore = TotalScore sol;
          (sol, rng, n) \<leftarrow> vndMove clk deadline k sol rng (n + 1);
          vndLoop clk deadline (if fgt64 (TotalScore sol) oldScore then 0 else k + 1) sol rng n }
      else Some (sol, rng, n))"

definition applyVND :: "clock \<Rightarrow> int \<Rightarrow> Solution \<Rightarrow> rngSource \<Rightarrow> nat \<Rightarrow> (Solution \<times> rngSource \<times> nat) option" where
  "applyVND clk deadline sol rng n = vndLoop clk deadline 0 sol rng n"

section \<open>The inner loops end without the clock\<close>

text \<open>What a descent preserves.\<close>

definition descends :: "Instance \<Rightarrow> Solution \<Rightarrow> Solution \<Rightarrow> bool" where
  "descends inst sol sol' \<longleftrightarrow> SolInstance sol' = inst \<and> tour inst (routes sol') \<and> replanned sol sol'"

lemma descends_trans: "descends inst a b \<Longrightarrow> descends inst b c \<Longrightarrow> descends inst a c"
  by (auto simp: descends_def intro: replanned_trans)

lemma descends_refl: "SolInstance sol = inst \<Longrightarrow> tour inst (routes sol) \<Longrightarrow> descends inst sol sol"
  by (simp add: descends_def)

lemma finite_sites: "finite {p. site inst p}"
  by (rule finite_subset [of _ "{0 ..< int (length (Points inst))}"]) (auto simp: site_def in_range_def)

lemma searching_sites: "searching inst sol ss \<Longrightarrow> visited_sites inst (routes sol) \<subseteq> {p. site inst p}"
  by (simp add: searching_def tracks_def)

lemma searching_descends: "searching inst sol ss \<Longrightarrow> replanned sol0 sol \<Longrightarrow> descends inst sol0 sol"
  by (simp add: searching_def descends_def)

lemma bestInsertion_searching:
  assumes "searching inst sol ss"
  shows "\<exists>b sol' ss'. bestInsertion sol ss = Some (b, sol', ss') \<and> replanned sol sol' \<and> searching inst sol' ss' \<and>
    (if b then \<exists>u d pos. best_insertion sol u d pos \<and>
         routes sol' = (routes sol)[d := insert_at (routes sol ! d) pos u] \<and>
         visited_sites inst (routes sol') = insert u (visited_sites inst (routes sol)) \<and>
         TotalScore sol' = fadd64 (TotalScore sol) (pScore (pt inst u))
     else sol' = sol \<and> ss' = ss \<and>
       (\<forall>u d pos. site inst u \<longrightarrow> u \<notin> visited_sites inst (routes sol) \<longrightarrow>
          insertion sol u d pos \<longrightarrow> \<not> fgt64 (pScore (pt inst u)) 0))"
proof -
  have s: "SolInstance sol = inst" "wf_inst inst" "tour inst (routes sol)" "tracks inst ss (visited_sites inst (routes sol))"
    using assms by (simp_all add: searching_def)
  note spec = bestInsertion_spec [of sol ss, unfolded s(1), OF s(2-4)]
  have "searching inst sol' ss'"
    if "replanned sol sol'" "tour inst (routes sol')" "tracks inst ss' (visited_sites inst (routes sol'))" for sol' ss'
    using that s by (simp add: searching_def replanned_def)
  then show ?thesis using spec 
    by (elim exE conjE) (rule exI, rule exI, rule exI, rule conjI, assumption, intro conjI; (assumption | blast))
qed

lemma insert_step:
  assumes "searching inst sol ss" "bestInsertion sol ss = Some (True, sol', ss')"
  shows "visited_sites inst (routes sol) \<subset> visited_sites inst (routes sol')"
proof -
  have "SolInstance sol = inst" using assms(1) by (simp add: searching_def)
  moreover obtain u d pos where "best_insertion sol u d pos"
    "visited_sites inst (routes sol') = insert u (visited_sites inst (routes sol))"
    using bestInsertion_searching [OF assms(1)] assms(2) by auto
  ultimately show ?thesis by (auto simp: best_insertion_def Let_def)
qed

lemma insertLoop_returns:
  assumes "searching inst sol ss"
  shows "\<exists>sol' ss' n'. insertLoop clk deadline sol ss n = Some (sol', ss', n') \<and> replanned sol sol' \<and>
    searching inst sol' ss' \<and> n \<le> n'"
  using assms
proof (induction "card ({p. site inst p} - visited_sites inst (routes sol))" arbitrary: sol ss n rule: less_induct)
  case less
  obtain b sol1 ss1 where s: "bestInsertion sol ss = Some (b, sol1, ss1)" "replanned sol sol1" "searching inst sol1 ss1"
    using bestInsertion_searching [OF less.prems] by blast
  show ?case
  proof (cases "b \<and> \<not> deadline < clk n")
    case False
    then show ?thesis using s by (subst insertLoop.simps) auto
  next
    case True
    have "finite {p. site inst p}" using less.prems by (auto simp: searching_def finite_sites)
    then have "card ({p. site inst p} - visited_sites inst (routes sol1)) < card ({p. site inst p} - visited_sites inst (routes sol))"
      using insert_step [OF less.prems, of sol1 ss1] s(1) True searching_sites [OF s(3)] by (intro psubset_card_mono) auto
    from less.hyps [OF this s(3), of "n + 1"] obtain sol2 ss2 n' where
      "insertLoop clk deadline sol1 ss1 (n + 1) = Some (sol2, ss2, n')" "replanned sol1 sol2" "searching inst sol2 ss2"
      "n + 1 \<le> n'" by blast
    then show ?thesis using s(1,2) True replanned_trans by (subst insertLoop.simps) auto
  qed
qed

text \<open>
  A swap raises the sum of the keys of the scores of the visited sites: its gain is positive, so the
  score of the new site is greater.
\<close>

definition worth :: "Instance \<Rightarrow> int set \<Rightarrow> nat" where
  "worth inst V = (\<Sum>p \<in> V. nat (f64_key (pScore (pt inst p)) + 2 ^ 63))"

lemma worth_bound:
  assumes "finite {p. site inst p}" "V \<subseteq> {p. site inst p}"
  shows "worth inst V \<le> card {p. site inst p} * 2 ^ 64"
proof -
  have "nat (f64_key x + 2 ^ 63) \<le> 2 ^ 64" for x using f64_key_bounds [of x] by simp
  then have "worth inst V \<le> of_nat (card V) * 2 ^ 64" unfolding worth_def by (rule sum_bounded_above)
  then have "worth inst V \<le> card V * 2 ^ 64" by simp
  also have "\<dots> \<le> card {p. site inst p} * 2 ^ 64" using card_mono [OF assms] by simp
  finally show ?thesis .
qed

lemma worth_swap:
  assumes "finite V" "u \<notin> V" "fgt64 (pScore (pt inst u)) (pScore (pt inst q))"
  shows "worth inst V < worth inst (insert u V - {q})"
proof -
  let ?k = "\<lambda>p. nat (f64_key (pScore (pt inst p)) + 2 ^ 63)"
  have k: "?k q < ?k u" using assms(3) f64_key_bounds(1) [of "pScore (pt inst q)"] by (simp add: fgt64_iff)
  then have ne: "u \<noteq> q" by auto
  have a: "worth inst V \<le> worth inst (V - {q}) + ?k q"
    using assms(1) by (cases "q \<in> V") (simp_all add: worth_def sum.remove)
  have b: "insert u V - {q} = insert u (V - {q})" using ne by auto
  have c: "worth inst (insert u (V - {q})) = ?k u + worth inst (V - {q})"
    using assms(1,2) by (simp add: worth_def)
  show ?thesis using a c k unfolding b by linarith
qed

lemma bestSwap_searching:
  assumes "searching inst sol ss"
  shows "\<exists>b sol' ss'. bestSwap sol ss = Some (b, sol', ss') \<and> replanned sol sol' \<and> searching inst sol' ss' \<and>
    (if b then \<exists>u d pos. best_swap sol u d pos \<and> routes sol' = (routes sol)[d := (routes sol ! d)[pos := u]] \<and>
         visited_sites inst (routes sol') = insert u (visited_sites inst (routes sol)) - {routes sol ! d ! pos} \<and>
         TotalScore sol' = fadd64 (TotalScore sol) (swap_gain sol u d pos)
     else sol' = sol \<and> ss' = ss \<and>
       (\<forall>u d pos. site inst u \<longrightarrow> u \<notin> visited_sites inst (routes sol) \<longrightarrow>
          swap sol u d pos \<longrightarrow> \<not> fgt64 (swap_gain sol u d pos) 0))"
proof -
  have s: "SolInstance sol = inst" "wf_inst inst" "tour inst (routes sol)" "tracks inst ss (visited_sites inst (routes sol))"
    using assms by (simp_all add: searching_def)
  note spec = bestSwap_spec [of sol ss, unfolded s(1), OF s(2-4)]
  have "searching inst sol' ss'"
    if "replanned sol sol'" "tour inst (routes sol')" "tracks inst ss' (visited_sites inst (routes sol'))" for sol' ss'
    using that s by (simp add: searching_def replanned_def)
  then show ?thesis using spec 
    by (elim exE conjE) (rule exI, rule exI, rule exI, rule conjI, assumption, intro conjI; (assumption | blast))
qed

lemma swap_step:
  assumes "searching inst sol ss" "bestSwap sol ss = Some (True, sol', ss')"
  shows "worth inst (visited_sites inst (routes sol)) < worth inst (visited_sites inst (routes sol'))"
proof -
  have s: "SolInstance sol = inst" using assms(1) by (simp add: searching_def)
  obtain u d pos where u: "best_swap sol u d pos"
    "visited_sites inst (routes sol') = insert u (visited_sites inst (routes sol)) - {routes sol ! d ! pos}"
    using bestSwap_searching [OF assms(1)] assms(2) by auto
  have "fgt64 (pScore (pt inst u)) (pScore (pt inst (routes sol ! d ! pos)))"
    
    by (rule fsub64_positive) (use u(1) s in \<open>simp add: best_swap_def swap_gain_def Let_def\<close>)
  moreover have "u \<notin> visited_sites inst (routes sol)" using u(1) s by (simp add: best_swap_def Let_def)
  moreover have "finite (visited_sites inst (routes sol))" by (simp add: visited_sites_def)
  ultimately show ?thesis unfolding u(2) by (intro worth_swap)
qed

lemma swapLoop_returns:
  assumes "searching inst sol ss"
  shows "\<exists>sol' ss' n'. swapLoop clk deadline sol ss n = Some (sol', ss', n') \<and> replanned sol sol' \<and>
    searching inst sol' ss' \<and> n \<le> n'"
  using assms
proof (induction "card {p. site inst p} * 2 ^ 64 - worth inst (visited_sites inst (routes sol))" arbitrary: sol ss n
    rule: less_induct)
  case less
  obtain b sol1 ss1 where s: "bestSwap sol ss = Some (b, sol1, ss1)" "replanned sol sol1" "searching inst sol1 ss1"
    using bestSwap_searching [OF less.prems] by blast
  show ?case
  proof (cases "b \<and> \<not> deadline < clk n")
    case False
    then show ?thesis using s by (subst swapLoop.simps) auto
  next
    case True
    have "finite {p. site inst p}" using less.prems by (auto simp: searching_def finite_sites)
    then have "worth inst (visited_sites inst (routes sol1)) \<le> card {p. site inst p} * 2 ^ 64"
      by (rule worth_bound [OF _ searching_sites [OF s(3)]])
    then have "card {p. site inst p} * 2 ^ 64 - worth inst (visited_sites inst (routes sol1)) <
        card {p. site inst p} * 2 ^ 64 - worth inst (visited_sites inst (routes sol))"
      using swap_step [OF less.prems, of sol1 ss1] s(1) True by simp
    from less.hyps [OF this s(3), of "n + 1"] obtain sol2 ss2 n' where
      "swapLoop clk deadline sol1 ss1 (n + 1) = Some (sol2, ss2, n')" "replanned sol1 sol2" "searching inst sol2 ss2"
      "n + 1 \<le> n'" by blast
    then show ?thesis using s(1,2) True replanned_trans by (subst swapLoop.simps) auto
  qed
qed

section \<open>Scores\<close>

text \<open>The score and the length are those that \<open>EvaluateScore\<close> computes.\<close>

definition evaluated :: "Solution \<Rightarrow> bool" where
  "evaluated sol \<longleftrightarrow> EvaluateScore sol = Some sol"

lemma EvaluateScore_descends:
  assumes "SolInstance sol = inst" "tour inst (routes sol)"
  shows "\<exists>sol'. EvaluateScore sol = Some sol' \<and> evaluated sol' \<and> descends inst sol sol' \<and>
    visited_sites inst (routes sol') = visited_sites inst (routes sol)"
proof -
  have known: "known_points sol" using assms tour_known_points [of sol] by simp
  define f where "f = (\<lambda>sol. sol\<lparr>TotalScore := score_from (SolInstance sol) 0 (concat (routes sol)),
    TotalDist := fold (\<lambda>day d. fadd64 d (steps_dist 0 (Steps day))) (Days sol) 0\<rparr>)"
  have r: "routes (f sol) = routes sol" "SolInstance (f sol) = SolInstance sol" by (simp_all add: f_def routes_def)
  have "EvaluateScore sol = Some (f sol)" using EvaluateScore_spec [OF known] by (simp add: f_def)
  moreover have "known_points (f sol)" using known r by (simp add: known_points_def)
  then have "EvaluateScore (f sol) = Some (f (f sol))" using EvaluateScore_spec by (simp add: f_def)
  moreover have "f (f sol) = f sol" by (simp add: f_def routes_def)
  moreover have "replanned sol (f sol)" by (simp add: f_def replanned_def)
  ultimately show ?thesis using assms r by (simp add: evaluated_def descends_def)
qed

lemma evaluated_tryHotelSwap:
  assumes "wf_inst inst" "tour inst (routes sol)" "SolInstance sol = inst" "evaluated sol"
    and "tryHotelSwap sol = Some (b, sol')"
  shows "evaluated sol'"
proof (cases "NbDays inst \<le> 1")
  case True
  then show ?thesis using assms by (simp add: tryHotelSwap_def)
next
  case False
  then obtain sol1 where sol1: "go_range swapHotelAt [0..int (length (Days sol)) - 2] (False, sol) = Some (b, sol1)"
    "EvaluateScore sol1 = Some sol'"
    using assms(3,5) by (auto simp: tryHotelSwap_def bind_eq_Some_conv)
  obtain b2 sol2 where "tryHotelSwap sol = Some (b2, sol2)" "replanned sol sol2" "tour inst (routes sol2)"
    using tryHotelSwap_ok [OF assms(1-3)] by blast
  then have t: "tour inst (routes sol')" "SolInstance sol' = inst" using assms(3,5) by (simp_all add: replanned_def)
  have u: "\<exists>t s. sol' = sol1\<lparr>TotalScore := t, TotalDist := s\<rparr>"
    using sol1(2) by (auto simp: EvaluateScore_def bind_eq_Some_conv)
  then have r: "routes sol1 = routes sol'" "SolInstance sol1 = inst" using t(2) by (auto simp: routes_def)
  then show ?thesis using EvaluateScore_descends [of sol1 inst] t(1) sol1(2) by auto
qed

section \<open>The descent\<close>

text \<open>The clock goes forward and passes every deadline.\<close>

definition ticking :: "clock \<Rightarrow> bool" where
  "ticking clk \<longleftrightarrow> mono clk \<and> (\<forall>t. \<exists>n. t < clk n)"

definition vnd_inv :: "Instance \<Rightarrow> Solution \<Rightarrow> rngSource \<Rightarrow> bool" where
  "vnd_inv inst sol r \<longleftrightarrow> wf_inst inst \<and> small inst \<and> SolInstance sol = inst \<and> tour inst (routes sol) \<and> rng_ok r"

lemma vndMove_ok:
  assumes "vnd_inv inst sol r"
  shows "\<exists>sol' r' n'. vndMove clk deadline k sol r n = Some (sol', r', n') \<and> vnd_inv inst sol' r' \<and>
    replanned sol sol' \<and> n \<le> n' \<and> (evaluated sol \<longrightarrow> evaluated sol')"
proof -
  have a: "wf_inst inst" "small inst" "SolInstance sol = inst" "tour inst (routes sol)" "rng_ok r"
    using assms by (simp_all add: vnd_inv_def)
  have "known_points sol" using a tour_known_points [of sol] by simp
  then obtain ss where ss: "newSearchState sol = Some ss" "searching inst sol ss"
    using newSearchState_tracks [of sol] a by (auto simp: searching_def)
  have step: "\<exists>sol2. EvaluateScore sol1 = Some sol2 \<and> vnd_inv inst sol2 r1 \<and> replanned sol sol2 \<and> evaluated sol2"
    if "replanned sol sol1" "tour inst (routes sol1)" "rng_ok r1" for sol1 r1
  proof -
    have "SolInstance sol1 = inst" using that(1) a(3) by (simp add: replanned_def)
    from EvaluateScore_descends [OF this that(2)] that a show ?thesis
      by (auto simp: vnd_inv_def descends_def intro: replanned_trans)
  qed
  have stour: "tour inst (routes s)" if "searching inst s t" for s t using that by (simp add: searching_def)
  consider "k = 0" | "k = 1" | "k = 2" | "k = 3" | "k = 4" | "k \<notin> {0, 1, 2, 3, 4}" by blast
  then show ?thesis
  proof cases
    case 1
    obtain sol1 ss1 n1 where l: "insertLoop clk deadline sol ss n = Some (sol1, ss1, n1)" "replanned sol sol1"
      "searching inst sol1 ss1" "n \<le> n1" using insertLoop_returns [OF ss(2)] by blast
    from step [OF l(2) stour [OF l(3)] a(5)] 1 l(1,4) ss(1) show ?thesis by (auto simp: vndMove_def)
  next
    case 2
    obtain c sol1 where l: "apply2OptAllDays sol = Some (c, sol1)" "replanned sol sol1" "tour inst (routes sol1)"
      using apply2OptAllDays_spec [of sol] a by auto
    from step [OF l(2,3) a(5)] 2 l(1) show ?thesis by (auto simp: vndMove_def)
  next
    case 3
    obtain sol1 ss1 n1 where l: "swapLoop clk deadline sol ss n = Some (sol1, ss1, n1)" "replanned sol sol1"
      "searching inst sol1 ss1" "n \<le> n1" using swapLoop_returns [OF ss(2)] by blast
    from step [OF l(2) stour [OF l(3)] a(5)] 3 l(1,4) ss(1) show ?thesis by (auto simp: vndMove_def)
  next
    case 4
    obtain b sol1 ss1 r1 where l: "applyRelocate sol ss r 2000 = Some (b, sol1, ss1, r1)" "rng_ok r1" "replanned sol sol1"
      "searching inst sol1 ss1" using applyRelocate_ok [OF ss(2) a(2,5)] by blast
    from step [OF l(3) stour [OF l(4)] l(2)] 4 l(1) ss(1) show ?thesis by (auto simp: vndMove_def)
  next
    case 5
    obtain b sol1 where l: "tryHotelSwap sol = Some (b, sol1)" "replanned sol sol1" "tour inst (routes sol1)"
      using tryHotelSwap_ok [OF a(1,4,3)] by blast
    then have "vnd_inv inst sol1 r" using a by (simp add: vnd_inv_def replanned_def)
    with 5 l evaluated_tryHotelSwap [OF a(1,4,3) _ l(1)] show ?thesis by (simp add: vndMove_def)
  next
    case 6
    then show ?thesis using assms by (simp add: vndMove_def)
  qed
qed

lemma vndLoop_ok:
  assumes "vnd_inv inst sol r" "mono clk" "deadline < clk late"
  shows "\<exists>sol' r' n'. vndLoop clk deadline k sol r n = Some (sol', r', n') \<and> vnd_inv inst sol' r' \<and>
    replanned sol sol' \<and> n \<le> n' \<and> (evaluated sol \<longrightarrow> evaluated sol')"
  using assms(1)
proof (induction "late - n" arbitrary: k sol r n rule: less_induct)
  case less
  show ?case
  proof (cases "k < 5 \<and> \<not> deadline < clk n")
    case False
    then show ?thesis using less.prems by (subst vndLoop.simps) auto
  next
    case True
    have n: "n < late"
    proof (rule ccontr)
      assume "\<not> n < late"
      then have "clk late \<le> clk n" using assms(2) by (simp add: mono_def)
      with assms(3) True show False by simp
    qed
    obtain sol1 r1 n1 where m: "vndMove clk deadline k sol r (n + 1) = Some (sol1, r1, n1)" "vnd_inv inst sol1 r1"
      "replanned sol sol1" "n + 1 \<le> n1" "evaluated sol \<longrightarrow> evaluated sol1"
      using vndMove_ok [OF less.prems] by blast
    have "late - n1 < late - n" using m(4) n by simp
    from less.hyps [OF this m(2), of "if fgt64 (TotalScore sol1) (TotalScore sol) then 0 else k + 1"]
    obtain sol2 r2 n2 where
      "vndLoop clk deadline (if fgt64 (TotalScore sol1) (TotalScore sol) then 0 else k + 1) sol1 r1 n1 = Some (sol2, r2, n2)"
      "vnd_inv inst sol2 r2" "replanned sol1 sol2" "n1 \<le> n2" "evaluated sol1 \<longrightarrow> evaluated sol2" by blast
    then show ?thesis using m True replanned_trans [OF m(3)] by (subst vndLoop.simps) (simp add: Let_def)
  qed
qed

theorem applyVND_ok:
  assumes "vnd_inv inst sol r" "ticking clk"
  shows "\<exists>sol' r' n'. applyVND clk deadline sol r n = Some (sol', r', n') \<and> vnd_inv inst sol' r' \<and>
    replanned sol sol' \<and> n \<le> n' \<and> (evaluated sol \<longrightarrow> evaluated sol')"
proof -
  obtain late where "deadline < clk late" "mono clk" using assms(2) by (auto simp: ticking_def)
  then show ?thesis unfolding applyVND_def using vndLoop_ok [OF assms(1)] by blast
qed

end
