(* ===== verification/Shake.thy ===== *)
theory Shake
  imports Descent
begin

text \<open>
  The shaking of a tour (\<open>applyShake\<close>, \<open>removeSitesRandom\<close> and \<open>clearDay\<close> of \<open>src/optimizer.go\<close>): sites
  are taken out at random, days are emptied, a hotel between two days is replaced.

  Go leaves the order of an iteration over a map open. It is a parameter: \<open>keys m\<close> lists the keys of
  the map \<open>m\<close> in the order in which the loop meets them.
\<close>

section \<open>Translation\<close>

record sitePos =
  dayIdx :: int
  stepIdx :: int

type_synonym map_order = "(int \<Rightarrow> int list option) \<Rightarrow> int list"

definition collectPositions :: "Instance \<Rightarrow> Solution \<Rightarrow> sitePos list option" where
  "collectPositions inst sol =
     go_range (\<lambda>(dIdx, day) positions.
       go_range (\<lambda>(sIdx, s) positions. do {
           p \<leftarrow> go_nth (Points inst) (PointID s);
           Some (if pType p = TypeSite then positions @ [\<lparr>dayIdx = dIdx, stepIdx = sIdx\<rparr>] else positions) })
         (go_enum (Steps day)) positions)
     (go_enum (Days sol)) []"

text \<open>\<open>removals[p.dayIdx] = append(removals[p.dayIdx], p.stepIdx)\<close> for the first \<open>count\<close> positions.\<close>

definition collectRemovals :: "sitePos list \<Rightarrow> int \<Rightarrow> (int \<Rightarrow> int list option) option" where
  "collectRemovals positions cnt =
     go_range (\<lambda>i removals. do {
         p \<leftarrow> go_nth positions i;
         let old = (case removals (dayIdx p) of None \<Rightarrow> [] | Some l \<Rightarrow> l);
         Some (removals(dayIdx p \<mapsto> old @ [stepIdx p])) })
       [0..cnt - 1] Map.empty"

text \<open>The exchange sort of the indices, in decreasing order.\<close>

definition sortDecreasing :: "int list \<Rightarrow> int list option" where
  "sortDecreasing indices =
     go_range (\<lambda>i indices.
       go_range (\<lambda>j indices. do {
           a \<leftarrow> go_nth indices j;
           b \<leftarrow> go_nth indices i;
           if a > b then go_swap i j indices else Some indices })
         [i + 1..int (length indices) - 1] indices)
     [0..int (length indices) - 1] indices"

text \<open>\<open>append(day.Steps[:sIdx], day.Steps[sIdx+1:]...)\<close>\<close>

definition go_delete :: "'a list \<Rightarrow> int \<Rightarrow> 'a list option" where
  "go_delete xs i = do {
     l \<leftarrow> go_slice xs 0 i;
     r \<leftarrow> go_slice xs (i + 1) (int (length xs));
     Some (l @ r) }"

definition stepsDist :: "Instance \<Rightarrow> Step list \<Rightarrow> f64 option" where
  "stepsDist inst steps =
     go_range (\<lambda>i dist. do {
         p \<leftarrow> go_nth steps (i - 1);
         q \<leftarrow> go_nth steps i;
         d \<leftarrow> dist_at inst (PointID p) (PointID q);
         Some (fadd64 dist d) })
       [1..int (length steps) - 1] 0"

text \<open>The body of \<open>for dIdx, indices := range removals\<close>.\<close>

definition removeFromDay :: "Instance \<Rightarrow> (int \<Rightarrow> int list option) \<Rightarrow> int \<Rightarrow> Solution \<Rightarrow> Solution option" where
  "removeFromDay inst removals dIdx sol = do {
     indices \<leftarrow> removals dIdx;
     indices \<leftarrow> sortDecreasing indices;
     day \<leftarrow> go_nth (Days sol) dIdx;
     steps \<leftarrow> go_range (\<lambda>sIdx steps. go_delete steps sIdx) indices (Steps day);
     dist \<leftarrow> stepsDist inst steps;
     set_day dIdx steps dist sol }"

definition removeSitesRandom ::
  "map_order \<Rightarrow> Solution \<Rightarrow> Instance \<Rightarrow> int \<Rightarrow> rngSource \<Rightarrow> (Solution \<times> rngSource) option" where
  "removeSitesRandom keys sol inst cnt rng = do {
     positions \<leftarrow> collectPositions inst sol;
     if length positions = 0 then Some (sol, rng)
     else do {
       (positions, rng) \<leftarrow> Shuffle (int (length positions)) go_swap positions rng;
       let cnt = (if cnt > int (length positions) then int (length positions) else cnt);
       removals \<leftarrow> collectRemovals positions cnt;
       sol \<leftarrow> go_range (removeFromDay inst removals) (keys removals) sol;
       Some (sol, rng) } }"

definition clearDay :: "Solution \<Rightarrow> Instance \<Rightarrow> int \<Rightarrow> Solution option" where
  "clearDay sol inst dIdx = do {
     day \<leftarrow> go_nth (Days sol) dIdx;
     newSteps \<leftarrow> go_range (\<lambda>s newSteps. do {
         p \<leftarrow> go_nth (Points inst) (PointID s);
         Some (if pType p = TypeHotel then newSteps @ [s] else newSteps) }) (Steps day) [];
     dist \<leftarrow> (if length newSteps \<ge> 2 then do {
         a \<leftarrow> go_nth newSteps 0;
         b \<leftarrow> go_nth newSteps (int (length newSteps) - 1);
         dist_at inst (PointID a) (PointID b) } else Some 0);
     set_day dIdx newSteps dist sol }"

text \<open>\<open>totalSites\<close>, and the new hotel at a junction.\<close>

definition countSites :: "Instance \<Rightarrow> Solution \<Rightarrow> int option" where
  "countSites inst sol =
     go_range (\<lambda>day n. go_range (\<lambda>s n. do {
         p \<leftarrow> go_nth (Points inst) (PointID s);
         Some (if pType p = TypeSite then n + 1 else n) }) (Steps day) n) (Days sol) 0"

definition set_point :: "int \<Rightarrow> int \<Rightarrow> int \<Rightarrow> Solution \<Rightarrow> Solution option" where
  "set_point dIdx i h sol = do {
     day \<leftarrow> go_nth (Days sol) dIdx;
     s \<leftarrow> go_nth (Steps day) i;
     steps \<leftarrow> go_set (Steps day) i (s\<lparr>PointID := h\<rparr>);
     days \<leftarrow> go_set (Days sol) dIdx (day\<lparr>Steps := steps\<rparr>);
     Some (sol\<lparr>Days := days\<rparr>) }"

definition shakeHotel :: "Solution \<Rightarrow> Instance \<Rightarrow> rngSource \<Rightarrow> (Solution \<times> rngSource) option" where
  "shakeHotel sol inst rng =
     (if NbDays inst > 1 \<and> length (HotelIDs inst) > 1 then do {
        (junctionIdx, rng) \<leftarrow> Intn (NbDays inst - 1) rng;
        day \<leftarrow> go_nth (Days sol) junctionIdx;
        nextDay \<leftarrow> go_nth (Days sol) (junctionIdx + 1);
        if length (Steps day) \<ge> 2 \<and> length (Steps nextDay) \<ge> 2 then do {
          (i, rng) \<leftarrow> Intn (int (length (HotelIDs inst))) rng;
          newHotel \<leftarrow> go_nth (HotelIDs inst) i;
          sol \<leftarrow> set_point junctionIdx (int (length (Steps day)) - 1) newHotel sol;
          sol \<leftarrow> set_point (junctionIdx + 1) 0 newHotel sol;
          sol \<leftarrow> clearDay sol inst junctionIdx;
          sol \<leftarrow> clearDay sol inst (junctionIdx + 1);
          Some (sol, rng) }
        else Some (sol, rng) }
      else Some (sol, rng))"

text \<open>The third case of the \<open>switch\<close> writes out the body of \<open>clearDay\<close>.\<close>

definition applyShake :: "map_order \<Rightarrow> Solution \<Rightarrow> int \<Rightarrow> rngSource \<Rightarrow> (Solution \<times> rngSource) option" where
  "applyShake keys sol force rng = do {
     let inst = SolInstance sol;
     (sol, rng) \<leftarrow>
       (if force \<le> 1 then do {
          (k, rng) \<leftarrow> Intn 2 rng;
          removeSitesRandom keys sol inst (2 + k) rng }
        else if force = 2 then do {
          totalSites \<leftarrow> countSites inst sol;
          let nbRemove = totalSites div 8;
          let nbRemove = (if nbRemove < 3 then 3 else nbRemove);
          (sol, rng) \<leftarrow> removeSitesRandom keys sol inst nbRemove rng;
          shakeHotel sol inst rng }
        else if force = 3 then
          if length (Days sol) > 1 then do {
            (dIdx, rng) \<leftarrow> Intn (int (length (Days sol))) rng;
            sol \<leftarrow> clearDay sol inst dIdx;
            Some (sol, rng) }
          else Some (sol, rng)
        else do {
          sol \<leftarrow> go_range (\<lambda>dIdx sol. clearDay sol inst dIdx) [0..int (length (Days sol)) - 1] sol;
          Some (sol, rng) });
     sol \<leftarrow> EvaluateScore sol;
     Some (sol, rng) }"

section \<open>Removing several elements\<close>

text \<open>The elements whose index is not in \<open>I\<close>.\<close>

definition without :: "'a list \<Rightarrow> int set \<Rightarrow> 'a list" where
  "without xs I = nths xs {i. int i \<notin> I}"

lemma without_empty [simp]: "without xs {} = xs"
  by (simp add: without_def nths_all)

lemma map_without: "map f (without xs I) = without (map f xs) I"
  by (simp add: without_def nths_map)

lemma nths_eq_cong: "(\<And>i. i < length xs \<Longrightarrow> i \<in> A \<longleftrightarrow> i \<in> B) \<Longrightarrow> nths xs A = nths xs B"
  unfolding nths_def by (intro arg_cong [where f = "map fst"] filter_cong) (auto simp: set_zip)

lemma without_beyond:
  assumes "\<And>i. i \<in> I \<Longrightarrow> i < int n"
  shows "without xs I = without (take n xs) I @ drop n xs"
proof (cases "n \<le> length xs")
  case True
  have "nths xs {i. int i \<notin> I} = nths (take n xs) {i. int i \<notin> I} @ nths (drop n xs) {j. j + n \<in> {i. int i \<notin> I}}"
    using nths_append [of "take n xs" "drop n xs"] True by (simp add: min_absorb2)
  moreover have "{j. j + n \<in> {i. int i \<notin> I}} = UNIV" using assms by force
  moreover have "nths (drop n xs) UNIV = drop n xs" by (rule nths_all) simp
  ultimately show ?thesis by (simp add: without_def)
qed simp

lemma go_delete_in:
  assumes "i < length xs"
  shows "go_delete xs (int i) = Some (take i xs @ drop (Suc i) xs)"
proof -
  have "go_slice xs (int i + 1) (int (length xs)) = Some (drop (Suc i) xs)"
    using assms go_slice_from [of "int i + 1" xs] by (simp add: nat_add_distrib)
  then show ?thesis using assms by (simp add: go_delete_def go_slice_to)
qed

text \<open>Deleting the indices one after the other in decreasing order deletes them all at their place.\<close>

lemma delete_decreasing:
  assumes "sorted_wrt (>) ix" "\<forall>i \<in> set ix. 0 \<le> i \<and> i < int (length xs)"
  shows "go_range (\<lambda>i xs. go_delete xs i) ix xs = Some (without xs (set ix))"
  using assms
proof (induction ix arbitrary: xs)
  case Nil
  then show ?case by simp
next
  case (Cons i ix)
  then obtain n where n: "i = int n" "n < length xs" by (metis int_nat_eq list.set_intros(1) nat_int_comparison(2) zless_nat_conj)
  have lt: "\<And>j. j \<in> set ix \<Longrightarrow> j < int n" using Cons.prems(1) n by auto
  let ?ys = "take n xs @ drop (Suc n) xs"
  have "go_range (\<lambda>i xs. go_delete xs i) ix ?ys = Some (without ?ys (set ix))"
    using Cons.prems lt n by (intro Cons.IH) force+
  moreover have "without ?ys (set ix) = without (take n xs) (set ix) @ drop (Suc n) xs"
    using without_beyond [of "set ix" n ?ys] lt n by (simp add: min_absorb2)
  moreover have "without xs (set (i # ix)) = without (take n xs) (set ix) @ drop (Suc n) xs"
  proof -
    have "\<And>j. j \<in> set (i # ix) \<Longrightarrow> j < int (Suc n)" using lt n by force
    then have "without xs (set (i # ix)) = without (take (Suc n) xs) (set (i # ix)) @ drop (Suc n) xs"
      by (rule without_beyond)
    moreover have "without (take (Suc n) xs) (set (i # ix)) = without (take n xs) (set ix)"
    proof -
      have "nths (take n xs) {j. int j \<notin> set (i # ix)} = nths (take n xs) {j. int j \<notin> set ix}"
        by (rule nths_eq_cong) (use n in auto)
      then show ?thesis
        using n by (simp add: without_def take_Suc_conv_app_nth nths_append min_absorb2)
    qed
    ultimately show ?thesis by simp
  qed
  ultimately show ?case using n by (simp add: go_delete_in)
qed

section \<open>The exchange sort\<close>

lemma go_swap_in:
  assumes "i < length xs" "j < length xs"
  shows "go_swap (int i) (int j) xs = Some (xs[i := xs ! j, j := xs ! i])"
  using assms by (simp add: go_swap_def go_set_def)

lemma sortDecreasing_inner:
  fixes xs :: "int list"
  assumes "i < length xs" "\<forall>a b. a < i \<longrightarrow> a < b \<longrightarrow> b < length xs \<longrightarrow> xs ! b \<le> xs ! a"
  shows "\<exists>ys. go_range (\<lambda>j ys. do {
           a \<leftarrow> go_nth ys j;
           b \<leftarrow> go_nth ys (int i);
           if a > b then go_swap (int i) j ys else Some ys }) [int (Suc i)..int (length xs) - 1] xs = Some ys \<and>
     mset ys = mset xs \<and> (\<forall>a b. a < Suc i \<longrightarrow> a < b \<longrightarrow> b < length xs \<longrightarrow> ys ! b \<le> ys ! a)"
proof -
  let ?n = "length xs"
  let ?J = "\<lambda>j ys. mset ys = mset xs \<and> length ys = ?n \<and> (\<forall>a b. a < i \<longrightarrow> a < b \<longrightarrow> b < ?n \<longrightarrow> ys ! b \<le> ys ! a) \<and>
    (\<forall>b. i < b \<longrightarrow> b < j \<longrightarrow> ys ! b \<le> ys ! i)"
  let ?body = "\<lambda>j ys. do {
           a \<leftarrow> go_nth ys j;
           b \<leftarrow> go_nth ys (int i);
           if a > b then go_swap (int i) j ys else Some ys }"
  have "\<exists>ys. go_range ?body [int (Suc i)..int ?n - 1] xs = Some ys \<and> ?J ?n ys"
  proof (rule go_range_upto [where I = ?J])
    show "?J (Suc i) xs" using assms by auto
    fix j ys assume j: "Suc i \<le> j" "j < ?n" and J: "?J j ys"
    have l: "length ys = ?n" using J by simp
    show "\<exists>zs. ?body (int j) ys = Some zs \<and> ?J (Suc j) zs"
    proof (cases "ys ! i < ys ! j")
      case True
      let ?zs = "ys[i := ys ! j, j := ys ! i]"
      have run: "?body (int j) ys = Some ?zs" using True j l assms(1) by (simp add: go_swap_in)
      then have m: "mset ?zs = mset xs" using J go_swap_in [of i ys j] go_swap_mset j l assms(1) by (metis (no_types, lifting))
      have z: "?zs ! b = (if b = j then ys ! i else if b = i then ys ! j else ys ! b)" if "b < ?n" for b
        using that j l assms(1) by (auto simp: nth_list_update)
      have "?zs ! b \<le> ?zs ! a" if "a < i" "a < b" "b < ?n" for a b
        using J z [of a] z [of b] that j assms(1) by auto
      moreover have "?zs ! b \<le> ?zs ! i" if "i < b" "b < Suc j" for b
      proof (cases "b = j")
        case False
        then have "ys ! b \<le> ys ! i" using J that by simp
        then have "ys ! b \<le> ys ! j" using True by linarith
        then show ?thesis using z [of i] z [of b] that j True assms(1) False by simp
      qed (use z [of i] z [of j] j True assms(1) in simp)
      ultimately show ?thesis using run m l by auto
    next
      case False
      then have "?body (int j) ys = Some ys" using j l assms(1) by simp
      moreover have "ys ! b \<le> ys ! i" if "i < b" "b < Suc j" for b using J False that by (cases "b = j") auto
      ultimately show ?thesis using J by auto
    qed
  qed (use assms(1) in simp)
  then obtain ys where ys: "go_range ?body [int (Suc i)..int ?n - 1] xs = Some ys" "?J ?n ys" by blast
  have "ys ! b \<le> ys ! a" if "a < Suc i" "a < b" "b < ?n" for a b
    using ys(2) that by (cases "a = i") auto
  with ys show ?thesis by blast
qed

lemma sortDecreasing_sorts:
  "\<exists>ys. sortDecreasing xs = Some ys \<and> mset ys = mset xs \<and> sorted_wrt (\<ge>) ys"
proof -
  let ?n = "length xs"
  let ?I = "\<lambda>i ys. mset ys = mset xs \<and> (\<forall>a b. a < i \<longrightarrow> a < b \<longrightarrow> b < ?n \<longrightarrow> ys ! b \<le> ys ! a)"
  let ?body = "\<lambda>i ys. go_range (\<lambda>j ys. do {
           a \<leftarrow> go_nth ys j;
           b \<leftarrow> go_nth ys i;
           if a > b then go_swap i j ys else Some ys }) [i + 1..int (length ys) - 1] ys"
  have "\<exists>ys. go_range ?body [int 0..int ?n - 1] xs = Some ys \<and> ?I ?n ys"
  proof (rule go_range_upto [where I = ?I])
    fix i ys assume i: "i < ?n" and I: "?I i ys"
    then have l: "length ys = ?n" by (metis size_mset)
    from sortDecreasing_inner [of i ys] i I l obtain zs where
      "?body (int i) ys = Some zs" "mset zs = mset ys" "\<forall>a b. a < Suc i \<longrightarrow> a < b \<longrightarrow> b < ?n \<longrightarrow> zs ! b \<le> zs ! a"
      by (auto simp: add.commute)
    then show "\<exists>zs. ?body (int i) ys = Some zs \<and> ?I (Suc i) zs" using I by auto
  qed simp_all
  then obtain ys where ys: "go_range ?body [int 0..int ?n - 1] xs = Some ys" "?I ?n ys" by blast
  then have l: "length ys = ?n" by (metis size_mset)
  have "sortDecreasing xs = Some ys" unfolding sortDecreasing_def using ys(1) by simp
  moreover have "sorted_wrt (\<ge>) ys" using ys(2) l by (simp add: sorted_wrt_iff_nth_less)
  ultimately show ?thesis using ys(2) by blast
qed

end
