(* ===== verification/Shake_Spec.thy ===== *)
theory Shake_Spec
  imports Shake
begin

text \<open>
  What a shake promises: it returns for every order of the map iteration, the order does not matter,
  and the result is again a tour of the same days, with fewer sites, ready for the descent.
\<close>

section \<open>Days with fewer sites\<close>

definition cut :: "Instance \<Rightarrow> int list \<Rightarrow> int list \<Rightarrow> bool" where
  "cut inst ps qs \<longleftrightarrow>
     wf_route inst qs \<and> hd qs = hd ps \<and> last qs = last ps \<and> mset (sites inst qs) \<subseteq># mset (sites inst ps)"

lemma cut_refl [simp]: "wf_route inst ps \<Longrightarrow> cut inst ps ps"
  by (simp add: cut_def)

lemma mset_sites_cut:
  assumes "list_all2 (cut inst) rs rs'"
  shows "mset (sites inst (concat rs')) \<subseteq># mset (sites inst (concat rs))"
  using assms by (induction rule: list_all2_induct) (auto simp: cut_def subset_mset.add_mono)

lemma mset_nths: "mset (nths xs A) \<subseteq># mset xs"
proof -
  let ?z = "zip xs [0..<length xs]"
  have "mset (nths xs A) = image_mset fst (filter_mset (\<lambda>p. snd p \<in> A) (mset ?z))" by (simp add: nths_def mset_filter)
  also have "\<dots> \<subseteq># image_mset fst (mset ?z)" by (intro image_mset_subseteq_mono multiset_filter_subset)
  also have "\<dots> = mset (map fst ?z)" by (simp only: mset_map)
  also have "map fst ?z = xs" by (rule map_fst_zip) simp
  finally show ?thesis .
qed

lemma distinct_submset:
  assumes "mset xs \<subseteq># mset ys" "distinct ys"
  shows "distinct xs"
  unfolding distinct_count_atmost_1
proof
  fix a
  have "count (mset xs) a \<le> count (mset ys) a" by (rule mset_subset_eq_count [OF assms(1)])
  also have "count (mset ys) a \<le> 1" using assms(2) by (simp add: distinct_count_atmost_1)
  finally have c: "count (mset xs) a \<le> 1" .
  show "count (mset xs) a = (if a \<in> set xs then 1 else 0)"
  proof (cases "a \<in> set xs")
    case True
    then have "1 \<le> count (mset xs) a" using count_greater_eq_one_iff [of "mset xs" a] by (simp only: set_mset_mset)
    then have "count (mset xs) a = 1" using c by (rule antisym [rotated])
    with True show ?thesis by simp
  next
    case False
    then have "count (mset xs) a = 0" by (simp add: not_in_iff [symmetric])
    with False show ?thesis by simp
  qed
qed

lemma tour_cut:
  assumes "tour inst rs" "list_all2 (cut inst) rs rs'"
  shows "tour inst rs'" "visited_sites inst rs' \<subseteq> visited_sites inst rs"
proof -
  note m = mset_sites_cut [OF assms(2)]
  from assms(2) have e: "map hd rs = map hd rs'" "map last rs = map last rs'"
    by (induction rule: list_all2_induct) (auto simp: cut_def)
  have "distinct (sites inst (concat rs))" using assms(1) by (simp add: tour_def)
  then have d: "distinct (sites inst (concat rs'))"
    by (rule distinct_submset [OF m])
  have w: "\<forall>ps \<in> set rs'. wf_route inst ps"
    using assms(2) by (induction rule: list_all2_induct) (auto simp: cut_def)
  have "last (last rs') = last (last rs)" if "rs' \<noteq> []"
  proof -
    have "rs \<noteq> []" using that e by auto
    then show ?thesis using that e(2) by (metis last_map)
  qed
  moreover have "rs' \<noteq> [] \<longleftrightarrow> rs \<noteq> []" "length rs' = length rs" using assms(2) by (auto dest: list_all2_lengthD)
  ultimately show "tour inst rs'" using assms(1) d w linked_cong [OF e] by (simp add: tour_def)
  show "visited_sites inst rs' \<subseteq> visited_sites inst rs"
    using set_mset_mono [OF m] by (simp add: visited_sites_def)
qed

text \<open>Taking out sites cuts a route.\<close>

lemma cut_without:
  assumes "wf_route inst ps" "\<And>i. i \<in> I \<Longrightarrow> 0 \<le> i \<and> i < int (length ps) \<and> site inst (ps ! nat i)"
  shows "cut inst ps (without ps I)"
proof -
  obtain p qs e where ps: "ps = p # qs @ [e]" "hotel inst p" "hotel inst e" "\<forall>q \<in> set qs. site inst q"
    using assms(1) by (elim wf_routeE)
  have "0 \<notin> I" using assms(2) [of 0] ps(1,2) site_not_hotel by auto
  moreover have "int (Suc (length qs)) \<notin> I"
  proof
    assume "int (Suc (length qs)) \<in> I"
    then have "site inst (ps ! Suc (length qs))" using assms(2) [of "int (Suc (length qs))"] by (metis nat_int)
    then show False using ps(1,3) site_not_hotel by simp
  qed
  ultimately have w: "without ps I = p # nths qs {j. int (Suc j) \<notin> I} @ [e]"
    by (simp add: without_def ps(1) nths_Cons nths_append)
  have s: "\<forall>q \<in> set (nths qs {j. int (Suc j) \<notin> I}). site inst q"
    using ps(4) set_nths_subset by fast
  have "sites inst ps = qs" "sites inst (without ps I) = nths qs {j. int (Suc j) \<notin> I}"
    unfolding w using sites_wf_route [OF ps(2-4)] sites_wf_route [OF ps(2,3) s] by (simp_all add: ps(1))
  moreover have "wf_route inst (without ps I)" unfolding wf_route_iff w using ps(2,3) s by blast
  ultimately show ?thesis using mset_nths by (simp add: cut_def w) (simp add: ps(1))
qed

section \<open>The collected positions\<close>

definition site_pos :: "Instance \<Rightarrow> int list list \<Rightarrow> sitePos \<Rightarrow> bool" where
  "site_pos inst rs p \<longleftrightarrow>
     0 \<le> dayIdx p \<and> dayIdx p < int (length rs) \<and> 0 \<le> stepIdx p \<and>
     stepIdx p < int (length (rs ! nat (dayIdx p))) \<and> site inst (rs ! nat (dayIdx p) ! nat (stepIdx p))"

lemma go_range_enum:
  "go_range body (go_enum xs) s = go_range (\<lambda>i. body (i, xs ! nat i)) [int 0..int (length xs) - 1] s"
proof -
  have "go_enum xs = map (\<lambda>i. (i, xs ! nat i)) [int 0..int (length xs) - 1]"
    by (rule nth_equalityI) (simp_all add: go_enum_def)
  then show ?thesis by (simp add: go_range_map)
qed

lemma collect_day:
  assumes "\<forall>q \<in> set (route day). in_range inst q" "distinct ps" "\<forall>p \<in> set ps. dayIdx p < d"
  shows "\<exists>qs. go_range (\<lambda>(sIdx, s) positions. do {
           p \<leftarrow> go_nth (Points inst) (PointID s);
           Some (if pType p = TypeSite then positions @ [\<lparr>dayIdx = d, stepIdx = sIdx\<rparr>] else positions) })
         (go_enum (Steps day)) ps = Some qs \<and> distinct qs \<and> length qs = length ps + length (sites inst (route day)) \<and>
     set qs = set ps \<union> {\<lparr>dayIdx = d, stepIdx = int i\<rparr> | i. i < length (route day) \<and> site inst (route day ! i)}"
proof -
  let ?n = "length (Steps day)"
  let ?I = "\<lambda>j qs. distinct qs \<and> length qs = length ps + length (sites inst (take j (route day))) \<and>
     set qs = set ps \<union> {\<lparr>dayIdx = d, stepIdx = int i\<rparr> | i. i < j \<and> site inst (route day ! i)}"
  have n: "length (route day) = ?n" by (simp add: route_def)
  have "\<exists>qs. go_range (\<lambda>i. (\<lambda>(sIdx, s) positions. do {
           p \<leftarrow> go_nth (Points inst) (PointID s);
           Some (if pType p = TypeSite then positions @ [\<lparr>dayIdx = d, stepIdx = sIdx\<rparr>] else positions) })
         (i, Steps day ! nat i)) [int 0..int ?n - 1] ps = Some qs \<and> ?I ?n qs"
  proof (rule go_range_upto [where I = ?I])
    show "?I 0 ps" using assms(2) by simp
    fix j qs assume j: "j < ?n" and I: "?I j qs"
    have r: "in_range inst (PointID (Steps day ! j))" "route day ! j = PointID (Steps day ! j)"
      using assms(1) j by (simp_all add: route_def)
    then have t: "pType (pt inst (PointID (Steps day ! j))) = TypeSite \<longleftrightarrow> site inst (route day ! j)"
      by (simp add: site_def)
    have a: "take (Suc j) (route day) = take j (route day) @ [route day ! j]"
      using j n by (simp add: take_Suc_conv_app_nth)
    have new: "\<lparr>dayIdx = d, stepIdx = int j\<rparr> \<notin> set qs" using I assms(3) by auto
    have "i < Suc j \<longleftrightarrow> i < j \<or> i = j" for i by auto
    then have "{\<lparr>dayIdx = d, stepIdx = int i\<rparr> | i. i < Suc j \<and> site inst (route day ! i)} =
        {\<lparr>dayIdx = d, stepIdx = int i\<rparr> | i. i < j \<and> site inst (route day ! i)} \<union>
        (if site inst (route day ! j) then {\<lparr>dayIdx = d, stepIdx = int j\<rparr>} else {})" by auto
    then show "\<exists>qs'. (\<lambda>(sIdx, s) positions. do {
           p \<leftarrow> go_nth (Points inst) (PointID s);
           Some (if pType p = TypeSite then positions @ [\<lparr>dayIdx = d, stepIdx = sIdx\<rparr>] else positions) })
         (int j, Steps day ! nat (int j)) qs = Some qs' \<and> ?I (Suc j) qs'"
      using I r(1) t a new by (auto simp: sites_append)
  qed simp
  then show ?thesis unfolding go_range_enum n [symmetric] by simp
qed

lemma collectPositions_spec:
  assumes "tour inst (routes sol)"
  shows "\<exists>ps. collectPositions inst sol = Some ps \<and> distinct ps \<and> set ps = {p. site_pos inst (routes sol) p} \<and>
    length ps = length (sites inst (concat (routes sol)))"
proof -
  let ?rs = "routes sol"
  let ?n = "length (Days sol)"
  let ?I = "\<lambda>d ps. distinct ps \<and> set ps = {p. site_pos inst ?rs p \<and> dayIdx p < int d} \<and>
    length ps = length (sites inst (concat (take d ?rs)))"
  let ?body = "\<lambda>(dIdx, day) positions.
       go_range (\<lambda>(sIdx, s) positions. do {
           p \<leftarrow> go_nth (Points inst) (PointID s);
           Some (if pType p = TypeSite then positions @ [\<lparr>dayIdx = dIdx, stepIdx = sIdx\<rparr>] else positions) })
         (go_enum (Steps day)) positions"
  have "\<exists>ps. go_range (\<lambda>i. ?body (i, Days sol ! nat i)) [int 0..int ?n - 1] [] = Some ps \<and> ?I ?n ps"
  proof (rule go_range_upto [where I = ?I])
    show "?I 0 []" by (auto simp: site_pos_def)
    fix d ps assume d: "d < ?n" and I: "?I d ps"
    have r: "route (Days sol ! d) = ?rs ! d" using d by (simp add: routes_nth)
    have k: "\<forall>q \<in> set (route (Days sol ! d)). in_range inst q"
      using tour_known [OF assms, of "?rs ! d"] d r by simp
    have b: "\<forall>p \<in> set ps. dayIdx p < int d" using I by simp
    from collect_day [OF k _ b] I obtain qs where qs: "?body (int d, Days sol ! d) ps = Some qs" "distinct qs"
      "length qs = length ps + length (sites inst (?rs ! d))"
      "set qs = set ps \<union> {\<lparr>dayIdx = int d, stepIdx = int i\<rparr> | i. i < length (?rs ! d) \<and> site inst (?rs ! d ! i)}"
      unfolding r by auto
    have "{\<lparr>dayIdx = int d, stepIdx = int i\<rparr> | i. i < length (?rs ! d) \<and> site inst (?rs ! d ! i)} =
        {p. site_pos inst ?rs p \<and> dayIdx p = int d}" (is "?L = ?R")
    proof
      show "?L \<subseteq> ?R" using d by (auto simp: site_pos_def)
      show "?R \<subseteq> ?L"
      proof
        fix p assume p: "p \<in> ?R"
        then have "p = \<lparr>dayIdx = int d, stepIdx = int (nat (stepIdx p))\<rparr>"
          "nat (stepIdx p) < length (?rs ! d)" "site inst (?rs ! d ! nat (stepIdx p))"
          by (auto simp: site_pos_def)
        then show "p \<in> ?L" by blast
      qed
    qed
    then have "set qs = {p. site_pos inst ?rs p \<and> dayIdx p < int (Suc d)}" using qs(4) I by auto
    moreover have "length qs = length (sites inst (concat (take (Suc d) ?rs)))"
      using qs(3) I d by (simp add: take_Suc_conv_app_nth)
    ultimately show "\<exists>t. ?body (int d, Days sol ! nat (int d)) ps = Some t \<and> ?I (Suc d) t" using qs(1,2) by auto
  qed simp
  then obtain ps where ps: "collectPositions inst sol = Some ps" "?I ?n ps"
    unfolding collectPositions_def go_range_enum by blast
  have "dayIdx p < int ?n" if "site_pos inst ?rs p" for p using that by (simp add: site_pos_def)
  then have "{p. site_pos inst ?rs p \<and> dayIdx p < int ?n} = {p. site_pos inst ?rs p}" by blast
  with ps show ?thesis by auto
qed

section \<open>Lengths\<close>

lemma length_of_snoc:
  "ps \<noteq> [] \<Longrightarrow> length_of inst (ps @ [q]) = fadd64 (length_of inst ps) (D inst (last ps) q)"
  by (cases ps) (auto simp: length_of_def)

lemma stepsDist_spec:
  assumes "wf_inst inst" "\<forall>s \<in> set steps. in_range inst (PointID s)"
  shows "stepsDist inst steps = Some (length_of inst (map PointID steps))"
proof (cases "steps = []")
  case True
  then show ?thesis by (simp add: stepsDist_def length_of_def)
next
  case False
  let ?n = "length steps"
  let ?ps = "map PointID steps"
  let ?body = "\<lambda>i dist. do {
         p \<leftarrow> go_nth steps (i - 1);
         q \<leftarrow> go_nth steps i;
         d \<leftarrow> dist_at inst (PointID p) (PointID q);
         Some (fadd64 dist d) }"
  have "\<exists>t. go_range ?body [int 1..int ?n - 1] 0 = Some t \<and> t = length_of inst (take ?n ?ps)"
  proof (rule go_range_upto [where I = "\<lambda>i t. t = length_of inst (take i ?ps)"])
    show "0 = length_of inst (take 1 ?ps)" using False by (cases steps) (simp_all add: length_of_def)
    show "1 \<le> ?n" using False by (cases steps) simp_all
    fix i t assume i: "1 \<le> i" "i < ?n" and t: "t = length_of inst (take i ?ps)"
    then obtain j where j: "i = Suc j" by (cases i) simp_all
    have nth: "go_nth steps (int i - 1) = Some (steps ! j)" "go_nth steps (int i) = Some (steps ! i)"
      using i j by (auto simp: nat_add_distrib)
    have "last (take i ?ps) = PointID (steps ! j)" "take i ?ps \<noteq> []"
      using i j by (simp_all add: take_Suc_conv_app_nth)
    then have "length_of inst (take (Suc i) ?ps) = fadd64 t (D inst (PointID (steps ! j)) (PointID (steps ! i)))"
      using i t by (simp add: take_Suc_conv_app_nth length_of_snoc)
    then show "\<exists>s. ?body (int i) t = Some s \<and> s = length_of inst (take (Suc i) ?ps)"
      using nth assms i j by (simp del: go_nth_in)
  qed
  then show ?thesis by (simp add: stepsDist_def)
qed

section \<open>Removing the sites of a day\<close>

definition thin :: "Instance \<Rightarrow> int set \<Rightarrow> DayTour \<Rightarrow> DayTour" where
  "thin inst I day = day\<lparr>Steps := without (Steps day) I, DistTotal := length_of inst (without (route day) I)\<rparr>"

lemma route_thin: "route (thin inst I day) = without (route day) I"
  by (simp add: thin_def route_def map_without)

lemma set_without: "set (without xs I) \<subseteq> set xs"
  by (simp add: without_def set_nths_subset)

lemma strictly_decreasing: "sorted_wrt (\<ge>) ys \<Longrightarrow> distinct ys \<Longrightarrow> sorted_wrt (>) (ys :: int list)"
  by (induction ys) (auto simp: less_le)

text \<open>The removals of a solution: for some days, distinct indices of sites.\<close>

definition good_removals :: "Instance \<Rightarrow> int list list \<Rightarrow> (int \<Rightarrow> int list option) \<Rightarrow> bool" where
  "good_removals inst rs R \<longleftrightarrow>
     (\<forall>d ix. R d = Some ix \<longrightarrow> 0 \<le> d \<and> d < int (length rs) \<and> distinct ix \<and>
        (\<forall>i \<in> set ix. site_pos inst rs \<lparr>dayIdx = d, stepIdx = i\<rparr>))"

lemma removeFromDay_spec:
  assumes "wf_inst inst" "d < length (Days sol)" "\<forall>q \<in> set (route (Days sol ! d)). in_range inst q"
    and "R (int d) = Some ix" "distinct ix" "\<forall>i \<in> set ix. 0 \<le> i \<and> i < int (length (route (Days sol ! d)))"
  shows "removeFromDay inst R (int d) sol = Some (sol\<lparr>Days := (Days sol)[d := thin inst (set ix) (Days sol ! d)]\<rparr>)"
proof -
  let ?day = "Days sol ! d"
  let ?steps = "without (Steps ?day) (set ix)"
  obtain ys where ys: "sortDecreasing ix = Some ys" "mset ys = mset ix" "sorted_wrt (\<ge>) ys"
    using sortDecreasing_sorts by blast
  then have set: "set ys = set ix" and dist: "distinct ys"
    using assms(5) by (auto dest: mset_eq_setD mset_eq_imp_distinct_iff)
  have len: "length (route ?day) = length (Steps ?day)" by (simp add: route_def)
  have "go_range (\<lambda>sIdx steps. go_delete steps sIdx) ys (Steps ?day) = Some ?steps"
    using delete_decreasing [OF strictly_decreasing [OF ys(3) dist], of "Steps ?day"] assms(6) len set by simp
  moreover have "\<forall>s \<in> set ?steps. in_range inst (PointID s)"
    using assms(3) set_without [of "Steps ?day" "set ix"] by (auto simp: route_def)
  then have "stepsDist inst ?steps = Some (length_of inst (without (route ?day) (set ix)))"
    using stepsDist_spec [OF assms(1)] by (simp add: route_def map_without)
  ultimately show ?thesis
    using assms(2,4) ys(1) by (simp add: removeFromDay_def set_day_def thin_def)
qed

text \<open>The solution in which the days of \<open>K\<close> have lost their sites.\<close>

definition thinned :: "Instance \<Rightarrow> (int \<Rightarrow> int list option) \<Rightarrow> int set \<Rightarrow> Solution \<Rightarrow> Solution" where
  "thinned inst R K sol = sol\<lparr>Days := map (\<lambda>d. if int d \<in> K then thin inst (set (the (R (int d)))) (Days sol ! d)
     else Days sol ! d) [0..<length (Days sol)]\<rparr>"

lemma thinned_empty [simp]: "thinned inst R {} sol = sol"
  by (simp add: thinned_def map_nth)

lemma thinned_insert:
  assumes "d < length (Days sol)"
  shows "(thinned inst R K sol)\<lparr>Days := (Days (thinned inst R K sol))[d := thin inst (set (the (R (int d)))) (Days sol ! d)]\<rparr> =
    thinned inst R (insert (int d) K) sol"
proof -
  have "(map f [0..<n])[d := x] = map (\<lambda>i. if i = d then x else f i) [0..<n]" if "d < n" for f n and x :: DayTour
    by (rule nth_equalityI) (use that in \<open>auto simp: nth_list_update\<close>)
  from this [OF assms] show ?thesis by (auto simp: thinned_def intro!: map_cong)
qed

lemma removals_loop:
  assumes "wf_inst inst" "tour inst (routes sol)" "good_removals inst (routes sol) R"
    and "distinct ks" "set ks \<subseteq> dom R" "set ks \<inter> K = {}"
  shows "go_range (removeFromDay inst R) ks (thinned inst R K sol) = Some (thinned inst R (K \<union> set ks) sol)"
  using assms(4-6)
proof (induction ks arbitrary: K)
  case Nil
  then show ?case by simp
next
  case (Cons k ks)
  then obtain ix where ix: "R k = Some ix" by auto
  then have good: "0 \<le> k" "k < int (length (routes sol))" "distinct ix"
    "\<forall>i \<in> set ix. site_pos inst (routes sol) \<lparr>dayIdx = k, stepIdx = i\<rparr>"
    using assms(3) by (auto simp: good_removals_def)
  then obtain d where d: "k = int d" "d < length (Days sol)" by (metis int_nat_eq length_routes nat_less_iff)
  have day: "Days (thinned inst R K sol) ! d = Days sol ! d" "length (Days (thinned inst R K sol)) = length (Days sol)"
    using d Cons.prems(3) by (auto simp: thinned_def)
  have "route (Days sol ! d) \<in> set (routes sol)" using d(2) by (simp add: routes_def)
  note known = tour_known [OF assms(2) this]
  have ok: "\<forall>i \<in> set ix. 0 \<le> i \<and> i < int (length (route (Days sol ! d)))"
    using good(4) d by (auto simp: site_pos_def routes_nth)
  have "removeFromDay inst R k (thinned inst R K sol) = Some (thinned inst R (insert k K) sol)"
    using removeFromDay_spec [OF assms(1), of d "thinned inst R K sol" R ix] thinned_insert [OF d(2), of inst R K]
      d day known ok ix good(3) by simp
  moreover have "go_range (removeFromDay inst R) ks (thinned inst R (insert k K) sol) =
      Some (thinned inst R (insert k K \<union> set ks) sol)"
    using Cons.prems by (intro Cons.IH) auto
  ultimately show ?case by simp
qed

lemma thinned_cut:
  assumes "tour inst (routes sol)" "good_removals inst (routes sol) R" "K \<subseteq> dom R"
  shows "list_all2 (cut inst) (routes sol) (routes (thinned inst R K sol))"
proof (rule list_all2_all_nthI)
  fix d assume "d < length (routes sol)"
  then have d: "d < length (Days sol)" and w: "wf_route inst (routes sol ! d)"
    using assms(1) by (auto simp: tour_def)
  show "cut inst (routes sol ! d) (routes (thinned inst R K sol) ! d)"
  proof (cases "int d \<in> K")
    case True
    then obtain ix where ix: "R (int d) = Some ix" using assms(3) by auto
    then have "\<forall>i \<in> set ix. site_pos inst (routes sol) \<lparr>dayIdx = int d, stepIdx = i\<rparr>"
      using assms(2) by (simp add: good_removals_def)
    then have "cut inst (routes sol ! d) (without (routes sol ! d) (set ix))"
      by (intro cut_without [OF w]) (auto simp: site_pos_def)
    then show ?thesis using True ix d by (simp add: thinned_def routes_def route_thin)
  next
    case False
    then have "routes (thinned inst R K sol) ! d = routes sol ! d" using d by (simp add: thinned_def routes_def)
    with w show ?thesis by simp
  qed
qed (simp add: thinned_def routes_def)

section \<open>Removing sites at random\<close>

definition map_keys :: "map_order \<Rightarrow> bool" where
  "map_keys keys \<longleftrightarrow> (\<forall>m. finite (dom m) \<longrightarrow> distinct (keys m) \<and> set (keys m) = dom m)"

definition removals_of :: "sitePos list \<Rightarrow> int \<Rightarrow> int list option" where
  "removals_of ps d =
     (let l = map stepIdx (filter (\<lambda>p. dayIdx p = d) ps) in if l = [] then None else Some l)"

lemma removals_of_snoc:
  "removals_of (ps @ [p]) = (removals_of ps)(dayIdx p \<mapsto> (case removals_of ps (dayIdx p) of None \<Rightarrow> [] | Some l \<Rightarrow> l) @ [stepIdx p])"
  by (rule ext) (auto simp: removals_of_def Let_def)

lemma collectRemovals_spec:
  assumes "n \<le> length ps"
  shows "collectRemovals ps (int n) = Some (removals_of (take n ps))"
proof -
  let ?body = "\<lambda>i removals. do {
         p \<leftarrow> go_nth ps i;
         let old = (case removals (dayIdx p) of None \<Rightarrow> [] | Some l \<Rightarrow> l);
         Some (removals(dayIdx p \<mapsto> old @ [stepIdx p])) }"
  have "\<exists>R. go_range ?body [int 0..int n - 1] Map.empty = Some R \<and> R = removals_of (take n ps)"
  proof (rule go_range_upto [where I = "\<lambda>i R. R = removals_of (take i ps)"])
    show "Map.empty = removals_of (take 0 ps)" by (rule ext) (simp add: removals_of_def)
    fix i R assume i: "i < n" and R: "R = removals_of (take i ps)"
    then have "take (Suc i) ps = take i ps @ [ps ! i]" using assms by (simp add: take_Suc_conv_app_nth)
    then show "\<exists>R'. ?body (int i) R = Some R' \<and> R' = removals_of (take (Suc i) ps)"
      using i R assms by (simp add: removals_of_snoc)
  qed simp
  then show ?thesis by (simp add: collectRemovals_def)
qed

lemma removals_of_good:
  assumes "distinct ps" "\<forall>p \<in> set ps. site_pos inst rs p"
  shows "good_removals inst rs (removals_of ps)" "finite (dom (removals_of ps))"
proof -
  have "dom (removals_of ps) \<subseteq> dayIdx ` set ps"
    by (auto simp: removals_of_def Let_def filter_empty_conv split: if_splits)
  then show "finite (dom (removals_of ps))" by (rule finite_subset) simp
  show "good_removals inst rs (removals_of ps)"
    unfolding good_removals_def
  proof (intro allI impI)
    fix d ix assume "removals_of ps d = Some ix"
    then have ix: "ix = map stepIdx (filter (\<lambda>p. dayIdx p = d) ps)" "filter (\<lambda>p. dayIdx p = d) ps \<noteq> []"
      by (auto simp: removals_of_def Let_def split: if_splits)
    have "inj_on stepIdx {p :: sitePos. dayIdx p = d}" by (intro inj_onI) (auto intro: sitePos.equality)
    then have "distinct ix" using assms(1) unfolding ix(1) by (auto simp: distinct_map intro: inj_on_subset)
    moreover have "site_pos inst rs \<lparr>dayIdx = d, stepIdx = i\<rparr>" if i: "i \<in> set ix" for i
    proof -
      obtain p where "p \<in> set ps" "dayIdx p = d" "stepIdx p = i" using i unfolding ix(1) by auto
      moreover from this have "p = \<lparr>dayIdx = d, stepIdx = i\<rparr>" by simp
      ultimately show ?thesis using assms(2) by metis
    qed
    moreover have "ix \<noteq> []" using ix by simp
    then obtain i where "i \<in> set ix" by (cases ix) auto
    ultimately show "0 \<le> d \<and> d < int (length rs) \<and> distinct ix \<and> (\<forall>i \<in> set ix. site_pos inst rs \<lparr>dayIdx = d, stepIdx = i\<rparr>)"
      by (auto simp: site_pos_def)
  qed
qed

text \<open>How many sites are lost.\<close>

definition nb_sites :: "Instance \<Rightarrow> int list list \<Rightarrow> nat" where
  "nb_sites inst rs = length (sites inst (concat rs))"

lemma nb_sites_sum: "nb_sites inst rs = (\<Sum>d < length rs. length (sites inst (rs ! d)))"
proof (induction rs rule: rev_induct)
  case (snoc ps rs)
  then show ?case by (simp add: nb_sites_def nth_append)
qed (simp add: nb_sites_def)

lemma length_without:
  assumes "\<forall>i \<in> set ix. 0 \<le> i \<and> i < int (length xs)" "distinct ix"
  shows "length (without xs (set ix)) + length ix = length xs"
proof -
  have "nat ` set ix \<subseteq> {..<length xs}" using assms(1) by auto
  moreover have "{i. i < length xs \<and> int i \<notin> set ix} = {..<length xs} - nat ` set ix" using assms(1) by force
  ultimately have "length (without xs (set ix)) = length xs - card (nat ` set ix)"
    by (simp add: without_def length_nths card_Diff_subset finite_subset)
  moreover have "inj_on nat (set ix)" using assms(1) by (auto intro!: inj_onI simp: nat_eq_iff)
  then have "card (nat ` set ix) = length ix" using assms(2) by (simp add: card_image distinct_card)
  moreover have "card (nat ` set ix) \<le> length xs"
    using card_mono [OF _ \<open>nat ` set ix \<subseteq> {..<length xs}\<close>] by simp
  ultimately show ?thesis by simp
qed

lemma sum_by_day:
  assumes "\<forall>p \<in> set ps. 0 \<le> dayIdx p \<and> dayIdx p < int n"
  shows "(\<Sum>d < n. length (filter (\<lambda>p. dayIdx p = int d) ps)) = length ps"
  using assms
proof (induction ps)
  case (Cons p ps)
  then obtain e where e: "dayIdx p = int e" "e < n" by (auto dest: nonneg_int_cases)
  have "(\<Sum>d < n. length (filter (\<lambda>p. dayIdx p = int d) (p # ps))) =
      (\<Sum>d < n. (if d = e then 1 else 0) + length (filter (\<lambda>p. dayIdx p = int d) ps))"
    using e by (intro sum.cong) auto
  then show ?case using Cons e by (simp add: sum.distrib)
qed simp

lemma nb_sites_thinned:
  assumes "tour inst (routes sol)" "distinct ps" "\<forall>p \<in> set ps. site_pos inst (routes sol) p"
  shows "nb_sites inst (routes (thinned inst (removals_of ps) (dom (removals_of ps)) sol)) + length ps =
    nb_sites inst (routes sol)"
proof -
  let ?R = "removals_of ps"
  let ?t = "thinned inst ?R (dom ?R) sol"
  let ?n = "length (routes sol)"
  note good = removals_of_good [OF assms(2,3)]
  have cut: "list_all2 (cut inst) (routes sol) (routes ?t)" by (rule thinned_cut [OF assms(1) good(1)]) simp
  then have n: "length (routes ?t) = ?n" using list_all2_lengthD [OF cut] by simp
  have two: "length (sites inst qs) + 2 = length qs" if w: "wf_route inst qs" for qs
  proof -
    obtain p ms e where "qs = p # ms @ [e]" "hotel inst p" "hotel inst e" "\<forall>q \<in> set ms. site inst q"
      using w by (elim wf_routeE)
    then show ?thesis using sites_wf_route [of inst p e ms] by (simp only: length_Cons length_append list.size)
  qed
  have day: "length (sites inst (routes ?t ! d)) + length (filter (\<lambda>p. dayIdx p = int d) ps) = length (sites inst (routes sol ! d))"
    if d: "d < ?n" for d
  proof (cases "?R (int d)")
    case None
    then have f: "filter (\<lambda>p. dayIdx p = int d) ps = []" by (simp add: removals_of_def Let_def split: if_splits)
    have "routes ?t ! d = routes sol ! d" using None d by (simp add: thinned_def routes_def domIff)
    with f show ?thesis by (simp only: list.size add_0_right)
  next
    case (Some ix)
    then have "ix = map stepIdx (filter (\<lambda>p. dayIdx p = int d) ps)" by (auto simp: removals_of_def Let_def split: if_splits)
    then have l: "length ix = length (filter (\<lambda>p. dayIdx p = int d) ps)" by simp
    have ix: "distinct ix" "\<forall>i \<in> set ix. 0 \<le> i \<and> i < int (length (routes sol ! d))"
      using good(1) Some by (fastforce simp: good_removals_def site_pos_def)+
    have t: "routes ?t ! d = without (routes sol ! d) (set ix)"
      using Some d by (simp add: thinned_def routes_def route_thin domIff)
    have "wf_route inst (routes sol ! d)" "wf_route inst (routes ?t ! d)"
      using cut d assms(1) by (auto simp: list_all2_conv_all_nth cut_def tour_def)
    then show ?thesis using two length_without [OF ix(2,1)] l t by (metis add.commute add.left_commute add_left_cancel)
  qed
  have "(\<Sum>d < ?n. length (filter (\<lambda>p. dayIdx p = int d) ps)) = length ps"
    by (rule sum_by_day) (use assms(3) in \<open>auto simp: site_pos_def\<close>)
  moreover have "(\<Sum>d < ?n. length (sites inst (routes ?t ! d))) + (\<Sum>d < ?n. length (filter (\<lambda>p. dayIdx p = int d) ps)) =
      (\<Sum>d < ?n. length (sites inst (routes sol ! d)))"
    unfolding sum.distrib [symmetric] by (rule sum.cong) (use day in auto)
  ultimately show ?thesis unfolding nb_sites_sum n by simp
qed

text \<open>
  \<open>removeSitesRandom\<close> returns, the order of the map does not matter, and exactly \<open>count\<close> sites are
  lost, or all of them when there are fewer.
\<close>

lemma removeSitesRandom_ok:
  assumes "wf_inst inst" "tour inst (routes sol)" "SolInstance sol = inst" "rng_ok r" "length (Points inst) \<le> 2 ^ 30"
    and "0 \<le> cnt"
  shows "\<exists>sol' r'. (\<forall>keys. map_keys keys \<longrightarrow> removeSitesRandom keys sol inst cnt r = Some (sol', r')) \<and> rng_ok r' \<and>
    SolInstance sol' = inst \<and> list_all2 (cut inst) (routes sol) (routes sol') \<and>
    nb_sites inst (routes sol') = nb_sites inst (routes sol) - nat cnt"
proof -
  obtain ps where ps: "collectPositions inst sol = Some ps" "distinct ps" "set ps = {p. site_pos inst (routes sol) p}"
    "length ps = nb_sites inst (routes sol)"
    using collectPositions_spec [OF assms(2)] by (auto simp: nb_sites_def)
  have refl: "list_all2 (cut inst) (routes sol) (routes sol)"
    using assms(2) by (auto simp: tour_def intro: list_all2_all_nthI)
  show ?thesis
  proof (cases "ps = []")
    case True
    then show ?thesis using ps assms(3,4) refl by (auto simp: removeSitesRandom_def)
  next
    case False
    have "length ps \<le> length (Points inst)"
      unfolding ps(4) nb_sites_def
      by (rule length_le_points) (use assms(2) in \<open>auto simp: tour_def set_sites\<close>)
    then obtain qs r' where qs: "Shuffle (int (length ps)) go_swap ps r = Some (qs, r')" "mset qs = mset ps" "rng_ok r'"
      using Shuffle_permutation [OF assms(4), of ps] assms(5) by fastforce
    have q: "distinct qs" "set qs = {p. site_pos inst (routes sol) p}" "length qs = length ps"
      using qs(2) ps(2,3) mset_eq_imp_distinct_iff mset_eq_setD mset_eq_length by metis+
    define n where "n = min (nat cnt) (length ps)"
    have n: "(if int (length qs) < cnt then int (length qs) else cnt) = int n" "n \<le> length qs"
      using assms(6) q(3) by (auto simp: n_def min_def)
    let ?R = "removals_of (take n qs)"
    let ?sol = "thinned inst ?R (dom ?R) sol"
    have t: "distinct (take n qs)" "\<forall>p \<in> set (take n qs). site_pos inst (routes sol) p"
      using q(1,2) by (auto dest: in_set_takeD)
    note good = removals_of_good [OF t]
    have "removeSitesRandom keys sol inst cnt r = Some (?sol, r')" if "map_keys keys" for keys
    proof -
      have k: "distinct (keys ?R)" "set (keys ?R) = dom ?R" using that good(2) by (auto simp: map_keys_def)
      have "go_range (removeFromDay inst ?R) (keys ?R) sol = Some ?sol"
        using removals_loop [OF assms(1,2) good(1) k(1), of "{}"] k(2) by simp
      then show ?thesis
        using ps(1) qs(1) False n by (simp add: removeSitesRandom_def Let_def collectRemovals_spec)
    qed
    moreover have "list_all2 (cut inst) (routes sol) (routes ?sol)" by (rule thinned_cut [OF assms(2) good(1)]) simp
    moreover have "nb_sites inst (routes ?sol) = nb_sites inst (routes sol) - nat cnt"
    proof -
      have "length (take n qs) = min (nat cnt) (nb_sites inst (routes sol))"
        using q(3) ps(4) by (simp add: n_def)
      then show ?thesis using nb_sites_thinned [OF assms(2) t] by simp
    qed
    ultimately show ?thesis using qs(3) assms(3) by (intro exI [of _ ?sol] exI [of _ r']) (simp add: thinned_def)
  qed
qed

section \<open>Emptying a day\<close>

definition emptied :: "int list \<Rightarrow> int list" where
  "emptied ps = [hd ps, last ps]"

lemma cut_emptied: "wf_route inst ps \<Longrightarrow> cut inst ps (emptied ps)"
  by (auto simp: cut_def emptied_def wf_route_def)

lemma sites_emptied: "wf_route inst ps \<Longrightarrow> sites inst (emptied ps) = []"
  by (auto simp: emptied_def wf_route_def)

lemma keep_hotels:
  assumes "\<forall>s \<in> set steps. in_range inst (PointID s)"
  shows "go_range (\<lambda>s newSteps. do {
         p \<leftarrow> go_nth (Points inst) (PointID s);
         Some (if pType p = TypeHotel then newSteps @ [s] else newSteps) }) steps ns =
    Some (ns @ filter (\<lambda>s. hotel inst (PointID s)) steps)"
  using assms by (induction steps arbitrary: ns) (simp_all add: hotel_def)

lemma clearDay_ok:
  assumes "wf_inst inst" "d < length (Days sol)" "wf_route inst (routes sol ! d)"
  shows "\<exists>sol'. clearDay sol inst (int d) = Some sol' \<and> SolInstance sol' = SolInstance sol \<and>
    routes sol' = (routes sol)[d := emptied (routes sol ! d)] \<and>
    DistTotal (Days sol' ! d) = D inst (hd (routes sol ! d)) (last (routes sol ! d))"
proof -
  let ?steps = "Steps (Days sol ! d)"
  obtain p qs e where r: "routes sol ! d = p # qs @ [e]" and h: "hotel inst p" "hotel inst e" "\<forall>q \<in> set qs. site inst q"
    using assms(3) by (elim wf_routeE)
  have ids: "map PointID ?steps = p # qs @ [e]" using r assms(2) by (simp add: routes_nth route_def)
  then have "\<forall>s \<in> set ?steps. in_range inst (PointID s)" using h by (metis assms(3) image_eqI r set_map wf_route_in_range)
  note loop = keep_hotels [OF this, of "[]"]
  have "map PointID (filter (\<lambda>s. hotel inst (PointID s)) ?steps) = filter (hotel inst) (p # qs @ [e])"
    unfolding ids [symmetric] by (simp add: filter_map comp_def)
  also have "\<dots> = [p, e]" using h by (auto simp: filter_empty_conv)
  finally obtain a b where ab: "filter (\<lambda>s. hotel inst (PointID s)) ?steps = [a, b]" "PointID a = p" "PointID b = e"
    by (auto simp: map_eq_Cons_conv)
  let ?day = "(Days sol ! d)\<lparr>Steps := [a, b], DistTotal := D inst p e\<rparr>"
  note dist_at_D [OF assms(1) hotel_in_range [OF h(1)] hotel_in_range [OF h(2)]]
  then have "clearDay sol inst (int d) = Some (sol\<lparr>Days := (Days sol)[d := ?day]\<rparr>)"
    using assms(2) loop ab by (simp add: clearDay_def set_day_def)
  moreover have "routes (sol\<lparr>Days := (Days sol)[d := ?day]\<rparr>) = (routes sol)[d := emptied (routes sol ! d)]"
    using ab by (simp add: routes_def map_update route_def emptied_def r [unfolded routes_def])
  ultimately show ?thesis using r assms(2) by simp
qed

lemma emptied_cut:
  assumes "tour inst rs" "d < length rs"
  shows "list_all2 (cut inst) rs (rs[d := emptied (rs ! d)])"
  by (rule list_all2_all_nthI) (use assms in \<open>auto simp: nth_list_update tour_def intro: cut_emptied\<close>)

text \<open>What a shake keeps.\<close>

definition shaken :: "Instance \<Rightarrow> Solution \<Rightarrow> Solution \<Rightarrow> bool" where
  "shaken inst sol sol' \<longleftrightarrow> SolInstance sol' = inst \<and> tour inst (routes sol') \<and>
     visited_sites inst (routes sol') \<subseteq> visited_sites inst (routes sol)"

lemma shaken_trans: "shaken inst a b \<Longrightarrow> shaken inst b c \<Longrightarrow> shaken inst a c"
  by (auto simp: shaken_def)

lemma shaken_cut:
  assumes "tour inst (routes sol)" "list_all2 (cut inst) (routes sol) (routes sol')" "SolInstance sol' = inst"
  shows "shaken inst sol sol'"
  using tour_cut [OF assms(1,2)] assms(3) by (simp add: shaken_def)

lemma clearDay_shaken:
  assumes "wf_inst inst" "tour inst (routes sol)" "SolInstance sol = inst" "d < length (Days sol)"
  shows "\<exists>sol'. clearDay sol inst (int d) = Some sol' \<and> shaken inst sol sol' \<and>
    routes sol' = (routes sol)[d := emptied (routes sol ! d)]"
proof -
  have d: "d < length (routes sol)" using assms(4) by simp
  from clearDay_ok [OF assms(1,4) tour_nth(1) [OF assms(2) d]] obtain sol' where
    c: "clearDay sol inst (int d) = Some sol'" "SolInstance sol' = inst" "routes sol' = (routes sol)[d := emptied (routes sol ! d)]"
    using assms(3) by auto
  with shaken_cut [OF assms(2)] emptied_cut [OF assms(2) d] show ?thesis by auto
qed

text \<open>All the days.\<close>

lemma clear_all:
  assumes "wf_inst inst" "tour inst (routes sol)" "SolInstance sol = inst"
  shows "\<exists>sol'. go_range (\<lambda>d sol. clearDay sol inst d) [0..int (length (Days sol)) - 1] sol = Some sol' \<and>
    shaken inst sol sol' \<and> routes sol' = map emptied (routes sol)"
proof -
  let ?n = "length (Days sol)"
  let ?rs = "routes sol"
  let ?I = "\<lambda>d s. SolInstance s = inst \<and> shaken inst sol s \<and> routes s = map emptied (take d ?rs) @ drop d ?rs"
  have "\<exists>s. go_range (\<lambda>d sol. clearDay sol inst d) [int 0..int ?n - 1] sol = Some s \<and> ?I ?n s"
  proof (rule go_range_upto [where I = ?I])
    show "?I 0 sol" using assms by (simp add: shaken_def)
    fix d s assume d: "d < ?n" and I: "?I d s"
    have len: "length (Days s) = ?n" using I d by (metis append_take_drop_id length_append length_map length_routes)
    have nth: "routes s ! d = ?rs ! d" using I d by (simp add: nth_append)
    have t: "tour inst (routes s)" using I shaken_def by metis
    from clearDay_shaken [OF assms(1) t, of d] I d len obtain s' where
      s': "clearDay s inst (int d) = Some s'" "shaken inst s s'" "routes s' = (routes s)[d := emptied (?rs ! d)]"
      using nth by auto
    have "(routes s)[d := emptied (?rs ! d)] = map emptied (take (Suc d) ?rs) @ drop (Suc d) ?rs"
      using I d by (simp add: list_update_append take_Suc_conv_app_nth Cons_nth_drop_Suc [symmetric])
    then have "routes s' = map emptied (take (Suc d) ?rs) @ drop (Suc d) ?rs" using s'(3) by (rule trans [rotated])
    moreover have "shaken inst sol s'" using I s'(2) shaken_trans by blast
    moreover have "SolInstance s' = inst" using s'(2) shaken_def by metis
    ultimately show "\<exists>s'. clearDay s inst (int d) = Some s' \<and> ?I (Suc d) s'" using s'(1) by blast
  qed simp
  then show ?thesis by auto
qed

lemma no_sites_left:
  assumes "tour inst rs"
  shows "visited_sites inst (map emptied rs) = {}"
proof -
  have "\<forall>ps \<in> set rs. sites inst (emptied ps) = []" using assms sites_emptied by (auto simp: tour_def)
  then have "sites inst (concat (map emptied rs)) = []" by (induction rs) simp_all
  then show ?thesis by (simp add: visited_sites_def)
qed

section \<open>A new hotel\<close>

lemma set_point_in:
  assumes "d < length (Days sol)" "i < length (routes sol ! d)"
  shows "\<exists>sol'. set_point (int d) (int i) h sol = Some sol' \<and> SolInstance sol' = SolInstance sol \<and>
    routes sol' = (routes sol)[d := (routes sol ! d)[i := h]]"
proof -
  let ?day = "Days sol ! d"
  have i: "i < length (Steps ?day)" using assms by (simp add: routes_nth route_def)
  let ?day' = "?day\<lparr>Steps := (Steps ?day)[i := (Steps ?day ! i)\<lparr>PointID := h\<rparr>]\<rparr>"
  have "set_point (int d) (int i) h sol = Some (sol\<lparr>Days := (Days sol)[d := ?day']\<rparr>)"
    using assms(1) i by (simp add: set_point_def)
  moreover have "routes (sol\<lparr>Days := (Days sol)[d := ?day']\<rparr>) = (routes sol)[d := (routes sol ! d)[i := h]]"
    using assms(1) by (simp add: routes_def map_update route_def)
  ultimately show ?thesis by simp
qed

lemma shakeHotel_ok:
  assumes "wf_inst inst" "small inst" "tour inst (routes sol)" "SolInstance sol = inst" "rng_ok r"
  shows "\<exists>sol' r'. shakeHotel sol inst r = Some (sol', r') \<and> rng_ok r' \<and> shaken inst sol sol'"
proof (cases "NbDays inst > 1 \<and> length (HotelIDs inst) > 1")
  case False
  then show ?thesis using assms(3-5) by (auto simp: shakeHotel_def shaken_def)
next
  case True
  have n: "length (Days sol) = nat (NbDays inst)" using assms(3) by (simp add: tour_def)
  have bounds: "0 < NbDays inst - 1" "NbDays inst - 1 \<le> 2 ^ 30" "0 < int (length (HotelIDs inst))"
    "int (length (HotelIDs inst)) \<le> 2 ^ 30"
    using True assms(2) by (auto simp: small_def)
  obtain d r1 where d: "Intn (NbDays inst - 1) r = Some (int d, r1)" "int d < NbDays inst - 1" "rng_ok r1"
    using nat_draw [OF assms(5) bounds(1,2)] .
  then have dn: "d < length (Days sol)" "Suc d < length (Days sol)" "d < length (routes sol)" "Suc d < length (routes sol)"
    using n by simp_all
  note w = tour_nth(1) [OF assms(3) dn(3)] tour_nth(1) [OF assms(3) dn(4)]
  have len: "2 \<le> length (routes sol ! d)" "2 \<le> length (routes sol ! Suc d)" using w by (simp_all add: wf_route_def)
  have steps: "length (Steps (Days sol ! d)) = length (routes sol ! d)" "length (Steps (Days sol ! Suc d)) = length (routes sol ! Suc d)"
    using dn by (simp_all add: routes_nth route_def)
  obtain i r2 where i: "Intn (int (length (HotelIDs inst))) r1 = Some (int i, r2)" "int i < int (length (HotelIDs inst))" "rng_ok r2"
    using nat_draw [OF d(3) bounds(3,4)] .
  define h where "h = HotelIDs inst ! i"
  have h: "hotel inst h" "go_nth (HotelIDs inst) (int i) = Some h"
    using assms(1) i(2) unfolding h_def wf_inst_def by auto
  have last: "length (routes sol ! d) - 1 < length (routes sol ! d)" "int (length (routes sol ! d)) - 1 = int (length (routes sol ! d) - 1)"
    using len by auto
  obtain sol1 where s1: "set_point (int d) (int (length (routes sol ! d)) - 1) h sol = Some sol1" "SolInstance sol1 = inst"
    "routes sol1 = (routes sol)[d := with_end (routes sol ! d) h]"
    using set_point_in [OF dn(1) last(1), of h, folded last(2) with_end_def] assms(4) by auto
  have n1: "length (Days sol1) = length (Days sol)" using s1(3) by (metis length_list_update length_routes)
  have nx: "routes sol1 ! Suc d = routes sol ! Suc d" using s1(3) by simp
  have "0 < length (routes sol1 ! Suc d)" using len(2) nx by (cases "routes sol ! Suc d") simp_all
  from set_point_in [OF _ this, of h] dn(2) n1 obtain sol2 where
    s2: "set_point (int d + 1) 0 h sol1 = Some sol2" "SolInstance sol2 = inst"
    "routes sol2 = (routes sol)[d := with_end (routes sol ! d) h, Suc d := with_start (routes sol ! Suc d) h]"
    using s1(2,3) nx by (auto simp: with_start_def add.commute)
  note t2 = tour_with_hotel [OF assms(3) dn(4) h(1), folded s2(3)]
  have n2: "length (Days sol2) = length (Days sol)" using s2(3) by (metis length_list_update length_routes)
  obtain sol3 where s3: "clearDay sol2 inst (int d) = Some sol3" "shaken inst sol2 sol3"
    "routes sol3 = (routes sol2)[d := emptied (routes sol2 ! d)]"
    using clearDay_shaken [OF assms(1) t2(1) s2(2)] dn(1) n2 by auto
  have n3: "length (Days sol3) = length (Days sol)" using s3(3) n2 by (metis length_list_update length_routes)
  have t3: "tour inst (routes sol3)" "SolInstance sol3 = inst" using s3(2) by (simp_all add: shaken_def)
  have suc: "int d + 1 = int (Suc d)" by simp
  obtain sol4 where s4: "clearDay sol3 inst (int d + 1) = Some sol4" "shaken inst sol3 sol4"
    using clearDay_shaken [OF assms(1) t3, of "Suc d"] dn(2) n3 unfolding suc by auto
  have "shaken inst sol sol4" using t2 s3(2) s4(2) by (auto simp: shaken_def)
  moreover have "shakeHotel sol inst r = Some (sol4, r2)"
  proof -
    have "go_nth (Days sol) (int d) = Some (Days sol ! d)" "go_nth (Days sol) (int d + 1) = Some (Days sol ! Suc d)"
      using dn by (simp_all add: go_nth_def nat_add_distrib)
    then show ?thesis using True d(1) i(1) h(2) s1(1) s2(1) s3(1) s4(1) steps len
      by (simp add: shakeHotel_def del: go_nth_in)
  qed
  ultimately show ?thesis using i(3) by blast
qed

lemma countSites_ok:
  assumes "tour inst (routes sol)"
  shows "\<exists>n. countSites inst sol = Some n \<and> 0 \<le> n"
  unfolding countSites_def
proof (rule go_range_total [where I = "\<lambda>n. 0 \<le> n"])
  fix day n assume day: "day \<in> set (Days sol)" and n: "0 \<le> (n :: int)"
  show "\<exists>n'. go_range (\<lambda>s n. do {
         p \<leftarrow> go_nth (Points inst) (PointID s);
         Some (if pType p = TypeSite then n + 1 else n) }) (Steps day) n = Some n' \<and> 0 \<le> n'"
  proof (rule go_range_total [where I = "\<lambda>n. 0 \<le> n", OF n])
    fix s n assume "s \<in> set (Steps day)" "0 \<le> (n :: int)"
    moreover have "route day \<in> set (routes sol)" using day by (simp add: routes_def)
    then have "\<forall>q \<in> set (route day). in_range inst q" by (rule tour_known [OF assms])
    ultimately show "\<exists>n'. do {
         p \<leftarrow> go_nth (Points inst) (PointID s);
         Some (if pType p = TypeSite then n + 1 else n) } = Some n' \<and> 0 \<le> n'" by (simp add: route_def)
  qed
qed simp

section \<open>The shake\<close>

theorem applyShake_ok:
  assumes "vnd_inv inst sol r"
  shows "\<exists>sol' r'. (\<forall>keys. map_keys keys \<longrightarrow> applyShake keys sol force r = Some (sol', r')) \<and> vnd_inv inst sol' r' \<and>
    evaluated sol' \<and> visited_sites inst (routes sol') \<subseteq> visited_sites inst (routes sol) \<and>
    (force > 3 \<longrightarrow> visited_sites inst (routes sol') = {})"
proof -
  have a: "wf_inst inst" "small inst" "SolInstance sol = inst" "tour inst (routes sol)" "rng_ok r"
    using assms by (simp_all add: vnd_inv_def)
  have pts: "length (Points inst) \<le> 2 ^ 30" using a(2) by (simp add: small_def)
  have days: "int (length (Days sol)) \<le> 2 ^ 30" using a(2,4) by (simp add: tour_def small_def)
  note remove = removeSitesRandom_ok [OF a(1,4,3) _ pts]
  have fin: "\<exists>sol2. EvaluateScore sol1 = Some sol2 \<and> vnd_inv inst sol2 r1 \<and> evaluated sol2 \<and>
      visited_sites inst (routes sol2) = visited_sites inst (routes sol1)"
    if "shaken inst sol sol1" "rng_ok r1" for sol1 r1
    using EvaluateScore_descends [of sol1 inst] that a by (auto simp: vnd_inv_def shaken_def descends_def)
  have shown: ?thesis
    if "\<And>keys. map_keys keys \<Longrightarrow> applyShake keys sol force r = Some (sol2, r2)" "vnd_inv inst sol2 r2" "evaluated sol2"
      "visited_sites inst (routes sol2) = visited_sites inst (routes sol1)" "shaken inst sol sol1"
      "force > 3 \<Longrightarrow> visited_sites inst (routes sol1) = {}" for sol1 sol2 r2
    using that by (intro exI [of _ sol2] exI [of _ r2]) (auto simp: shaken_def)
  consider "force \<le> 1" | "force = 2" | "force = 3" | "force > 3" by linarith
  then show ?thesis
  proof cases
    case 1
    obtain k r1 where k: "Intn 2 r = Some (int k, r1)" "rng_ok r1" by (rule nat_draw [OF a(5), of 2]) simp_all
    obtain sol1 r2 where s: "\<And>keys. map_keys keys \<Longrightarrow> removeSitesRandom keys sol inst (2 + int k) r1 = Some (sol1, r2)"
      "rng_ok r2" "SolInstance sol1 = inst" "list_all2 (cut inst) (routes sol) (routes sol1)"
      using remove [OF k(2), of "2 + int k"] by auto
    have sh: "shaken inst sol sol1" by (rule shaken_cut [OF a(4) s(4,3)])
    from fin [OF sh s(2)] obtain sol2 where f: "EvaluateScore sol1 = Some sol2" "vnd_inv inst sol2 r2" "evaluated sol2"
      "visited_sites inst (routes sol2) = visited_sites inst (routes sol1)" by blast
    have "applyShake keys sol force r = Some (sol2, r2)" if "map_keys keys" for keys
      using 1 k(1) s(1) [OF that] f(1) a(3) by (simp add: applyShake_def)
    moreover have "\<not> force > 3" using 1 by linarith
    ultimately show ?thesis by (intro shown [OF _ f(2-4) sh]) blast+
  next
    case 2
    obtain t where t: "countSites inst sol = Some t" "0 \<le> t" using countSites_ok [OF a(4)] by blast
    define n where "n = (if t div 8 < 3 then 3 else t div 8)"
    then have "0 \<le> n" by simp
    obtain sol1 r1 where s: "\<And>keys. map_keys keys \<Longrightarrow> removeSitesRandom keys sol inst n r = Some (sol1, r1)"
      "rng_ok r1" "SolInstance sol1 = inst" "list_all2 (cut inst) (routes sol) (routes sol1)"
      using remove [OF a(5) \<open>0 \<le> n\<close>] by auto
    have sh1: "shaken inst sol sol1" by (rule shaken_cut [OF a(4) s(4,3)])
    then have "tour inst (routes sol1)" by (simp add: shaken_def)
    from shakeHotel_ok [OF a(1,2) this s(3,2)] obtain sol2 r2 where
      h: "shakeHotel sol1 inst r1 = Some (sol2, r2)" "rng_ok r2" "shaken inst sol1 sol2" by blast
    have sh: "shaken inst sol sol2" by (rule shaken_trans [OF sh1 h(3)])
    from fin [OF sh h(2)] obtain sol3 where f: "EvaluateScore sol2 = Some sol3" "vnd_inv inst sol3 r2" "evaluated sol3"
      "visited_sites inst (routes sol3) = visited_sites inst (routes sol2)" by blast
    have "applyShake keys sol force r = Some (sol3, r2)" if "map_keys keys" for keys
      using 2 t(1) s(1) [OF that] h(1) f(1) a(3) by (simp add: applyShake_def Let_def flip: n_def)
    moreover have "\<not> force > 3" using 2 by linarith
    ultimately show ?thesis by (intro shown [OF _ f(2-4) sh]) blast+
  next
    case 3
    have "\<exists>sol1 r1. (\<forall>keys. applyShake keys sol force r = do { sol \<leftarrow> EvaluateScore sol1; Some (sol, r1) }) \<and>
        rng_ok r1 \<and> shaken inst sol sol1"
    proof (cases "length (Days sol) > 1")
      case True
      then have "0 < int (length (Days sol))" by (cases "Days sol") simp_all
      from nat_draw [OF a(5) this days] obtain d r1 where
        d: "Intn (int (length (Days sol))) r = Some (int d, r1)" "int d < int (length (Days sol))" "rng_ok r1" .
      then obtain sol1 where "clearDay sol inst (int d) = Some sol1" "shaken inst sol sol1"
        using clearDay_shaken [OF a(1,4,3), of d] by auto
      then show ?thesis using True 3 d a(3) by (auto simp: applyShake_def)
    next
      case False
      have "shaken inst sol sol" using a by (simp add: shaken_def)
      then show ?thesis using False 3 a(3,5) by (auto simp: applyShake_def)
    qed
    then obtain sol1 r1 where s: "\<And>keys. applyShake keys sol force r = do { sol \<leftarrow> EvaluateScore sol1; Some (sol, r1) }"
      "rng_ok r1" "shaken inst sol sol1" by blast
    from fin [OF s(3,2)] obtain sol2 where f: "EvaluateScore sol1 = Some sol2" "vnd_inv inst sol2 r1" "evaluated sol2"
      "visited_sites inst (routes sol2) = visited_sites inst (routes sol1)" by blast
    have "applyShake keys sol force r = Some (sol2, r1)" for keys using s(1) f(1) by simp
    moreover have "\<not> force > 3" using 3 by linarith
    ultimately show ?thesis by (intro shown [OF _ f(2-4) s(3)]) blast+
  next
    case 4
    obtain sol1 where s: "go_range (\<lambda>d sol. clearDay sol inst d) [0..int (length (Days sol)) - 1] sol = Some sol1"
      "shaken inst sol sol1" "routes sol1 = map emptied (routes sol)"
      using clear_all [OF a(1,4,3)] by blast
    from fin [OF s(2) a(5)] obtain sol2 where f: "EvaluateScore sol1 = Some sol2" "vnd_inv inst sol2 r" "evaluated sol2"
      "visited_sites inst (routes sol2) = visited_sites inst (routes sol1)" by blast
    have "applyShake keys sol force r = Some (sol2, r)" for keys
      using 4 s(1) f(1) a(3) by (simp add: applyShake_def)
    then show ?thesis by (rule shown [OF _ f(2-4) s(2)]) (use s(3) no_sites_left [OF a(4)] in simp)
  qed
qed

end
