(* ===== verification/Solver_Spec.thy ===== *)
theory Solver_Spec
  imports Solver Go_Rand_Returns
begin

text \<open>
  What the constructive heuristic promises: it returns, its days are chained from the start hotel to
  the end hotel with every site visited at most once, its times are those of the timetable, and on
  an instance whose days can be closed in time the validator accepts its solution as it is.
\<close>

section \<open>Comparisons\<close>

lemma fadd64_zero_right: "fgt64 (fadd64 a 0) b \<longleftrightarrow> fgt64 a b"
proof -
  obtain s m e i n where u: "funpack64 a = (s, m, e, i, n)" by (metis prod_cases5)
  note c = funpack64_class [OF u]
  have nan: "f64_nan nan64" by (simp add: nan64_def f64_nan_def f64_mag_def)
  have zero: "funpack64 0 = (0, 0, 0, False, False)" by (simp add: funpack64_def)
  have cases: "fadd64 a 0 = (if n then nan64 else if i then a else if m = 0 then 0 else a)"
    using u zero by (simp add: fadd64_def Let_def)
  show ?thesis
  proof (cases "n \<or> i \<or> m \<noteq> 0")
    case True
    then show ?thesis using cases c(2) nan by (auto simp: fgt64_iff)
  next
    case False
    then have "f64_mag a = 0" using c by simp
    then have "f64_key a = f64_key 0" "\<not> f64_nan a" "\<not> f64_nan 0"
      by (simp_all add: f64_key_def f64_nan_def f64_mag_def)
    with False cases show ?thesis by (simp add: fgt64_iff)
  qed
qed

lemma fle64_not_fgt64: "fle64 x y \<Longrightarrow> \<not> fgt64 x y"
  by (simp add: fgt64_iff fge64_iff)

lemma fgt64_trans: "fgt64 x y \<Longrightarrow> fgt64 y z \<Longrightarrow> fgt64 x z"
  by (simp add: fgt64_iff)

lemma fgt64_fge64_trans: "fgt64 x y \<Longrightarrow> fge64 y z \<Longrightarrow> fge64 x z"
  by (simp add: fgt64_iff fge64_iff)

section \<open>Candidates\<close>

definition ends :: "Instance \<Rightarrow> int \<Rightarrow> int set" where
  "ends inst d = (if d = NbDays inst - 1 then {EndHotelID inst} else set (HotelIDs inst))"

text \<open>From \<open>p\<close>, left at time \<open>t\<close>, some end of the day is in time.\<close>

definition can_return :: "Instance \<Rightarrow> int \<Rightarrow> int \<Rightarrow> f64 \<Rightarrow> bool" where
  "can_return inst d p t \<longleftrightarrow> (\<exists>h \<in> ends inst d. fle64 (fadd64 t (D inst p h)) (budget inst d))"

lemma someHotelInTime_spec:
  assumes "wf_inst inst" "in_range inst i" "0 \<le> d" "\<forall>h \<in> set hs. in_range inst h"
  shows "someHotelInTime inst d i t hs = Some (\<exists>h \<in> set hs. fle64 (fadd64 t (D inst i h)) (budget inst d))"
  using assms(4) by (induction hs) (use assms in auto)

lemma hotels_in_range: "wf_inst inst \<Longrightarrow> h \<in> set (HotelIDs inst) \<Longrightarrow> in_range inst h"
  by (auto simp: wf_inst_def)

lemma canReturn_spec:
  assumes "wf_inst inst" "in_range inst i" "0 \<le> d"
  shows "canReturn inst d i t = Some (can_return inst d i t)"
proof -
  have "in_range inst (EndHotelID inst)" using assms(1) by (simp add: wf_inst_def)
  then show ?thesis
    using assms someHotelInTime_spec [OF assms, of "HotelIDs inst" t] hotels_in_range [OF assms(1)]
    by (auto simp: canReturn_def can_return_def ends_def)
qed

text \<open>
  From \<open>loc\<close>, left at time \<open>t\<close>: the sites that can be visited next, with the visited ones marked in
  \<open>visited\<close>, and the candidate each of them is.
\<close>

definition eligible :: "Instance \<Rightarrow> int \<Rightarrow> bool list \<Rightarrow> int \<Rightarrow> f64 \<Rightarrow> int \<Rightarrow> bool" where
  "eligible inst d visited loc t i \<longleftrightarrow>
     \<not> visited ! nat i \<and> site inst i \<and>
     \<not> fgt64 (fadd64 t (D inst loc i)) (pCloseTime (pt inst i)) \<and>
     can_return inst d i (leave_at inst i (fadd64 t (D inst loc i)))"

definition cand_for :: "Instance \<Rightarrow> int \<Rightarrow> int \<Rightarrow> f64 \<Rightarrow> int \<Rightarrow> candidate" where
  "cand_for inst ratioMode loc t i =
     (let dist = D inst loc i; a = fadd64 t dist; w = wait_at inst i a; cost = fadd64 dist w
      in \<lparr>cand_id = i,
          cand_ratio = ratioOf ratioMode (pt inst i) dist a (if flt64 cost f64_milli then f64_milli else cost),
          cand_arrival = a, cand_wait = w, cand_departure = leave_at inst i a, cand_dist = dist\<rparr>)"

definition cands :: "Instance \<Rightarrow> int \<Rightarrow> int \<Rightarrow> bool list \<Rightarrow> int \<Rightarrow> f64 \<Rightarrow> candidate list" where
  "cands inst ratioMode d visited loc t =
     map (cand_for inst ratioMode loc t)
       (filter (eligible inst d visited loc t) (map int [0..<length (Points inst)]))"

lemma cand_for_sel [simp]:
  "cand_id (cand_for inst m loc t i) = i"
  "cand_dist (cand_for inst m loc t i) = D inst loc i"
  "cand_arrival (cand_for inst m loc t i) = fadd64 t (D inst loc i)"
  "cand_wait (cand_for inst m loc t i) = wait_at inst i (fadd64 t (D inst loc i))"
  "cand_departure (cand_for inst m loc t i) = leave_at inst i (fadd64 t (D inst loc i))"
  by (simp_all add: cand_for_def Let_def)

lemma in_cands: "c \<in> set (cands inst m d visited loc t) \<longleftrightarrow>
    c = cand_for inst m loc t (cand_id c) \<and> eligible inst d visited loc t (cand_id c)"
proof -
  have "eligible inst d visited loc t i \<Longrightarrow> i \<in> int ` {0..<length (Points inst)}" for i
    by (auto simp: eligible_def site_def in_range_def image_iff intro!: bexI [of _ "nat i"])
  moreover have "c \<in> set (cands inst m d visited loc t) \<longleftrightarrow>
      (\<exists>i \<in> int ` {0..<length (Points inst)}. eligible inst d visited loc t i \<and> c = cand_for inst m loc t i)"
    by (auto simp: cands_def)
  ultimately show ?thesis by (metis cand_for_sel(1))
qed

lemma candidateFor_spec:
  assumes "wf_inst inst" "in_range inst loc" "in_range inst i" "0 \<le> d" "length visited = length (Points inst)"
  shows "candidateFor inst m d visited loc t i (pt inst i) =
    Some (if eligible inst d visited loc t i then Some (cand_for inst m loc t i) else None)"
proof -
  have v: "go_nth visited i = Some (visited ! nat i)" using assms by (simp add: in_range_def)
  have ty: "pType (pt inst i) \<noteq> TypeHotel \<longleftrightarrow> site inst i"
    using assms by (cases "pType (pt inst i)") (simp_all add: site_def)
  show ?thesis
  proof (cases "\<not> visited ! nat i \<and> site inst i")
    case True
    let ?a = "fadd64 t (D inst loc i)"
    have l: "fadd64 (fadd64 ?a (wait_at inst i ?a)) (pServiceTime (pt inst i)) = leave_at inst i ?a"
      using True by (simp add: leave_at_def start_at_def site_def)
    have w: "(if flt64 ?a (pOpenTime (pt inst i)) then fsub64 (pOpenTime (pt inst i)) ?a else 0) = wait_at inst i ?a"
      using True by (simp add: wait_at_def site_def)
    from True have "pType (pt inst i) \<noteq> TypeHotel" using ty by blast
    with True v assms l w show ?thesis
      unfolding candidateFor_def eligible_def cand_for_def
      by (simp add: canReturn_spec Let_def)
  next
    case False
    then show ?thesis using v ty assms by (auto simp: candidateFor_def eligible_def)
  qed
qed

section \<open>The scan and the selection\<close>

definition keep_best :: "candidate \<Rightarrow> f64 \<times> candidate \<Rightarrow> f64 \<times> candidate" where
  "keep_best c = (\<lambda>(r, b). if fgt64 (cand_ratio c) r then (cand_ratio c, c) else (r, b))"

definition best_of :: "candidate list \<Rightarrow> f64 \<times> candidate" where
  "best_of cs = fold keep_best cs (f64_minus_one, zeroCandidate)"

lemma scan_range:
  assumes "wf_inst inst" "in_range inst loc" "0 \<le> d" "length visited = length (Points inst)"
    and "set is \<subseteq> set (go_enum (Points inst))"
  shows "go_range (scanBody inst rcl m d visited loc t) is (r, b, cs) =
    (let new = map (cand_for inst m loc t) (filter (eligible inst d visited loc t) (map fst is))
     in Some (if rcl \<le> 1 then (case fold keep_best new (r, b) of (r, b) \<Rightarrow> (r, b, cs)) else (r, b, cs @ new)))"
  using assms(5)
proof (induction "is" arbitrary: r b cs)
  case Nil
  then show ?case by simp
next
  case (Cons ip "is")
  obtain i where ip: "ip = (int i, Points inst ! i)" "i < length (Points inst)"
    using Cons.prems by (auto simp: set_go_enum)
  then have "candidateFor inst m d visited loc t (int i) (Points inst ! i) =
    Some (if eligible inst d visited loc t (int i) then Some (cand_for inst m loc t (int i)) else None)"
    using candidateFor_spec [OF assms(1,2) _ assms(3,4), of "int i"] by (simp add: in_range_def)
  then have "scanBody inst rcl m d visited loc t ip (r, b, cs) =
    Some (if \<not> eligible inst d visited loc t (int i) then (r, b, cs)
          else let c = cand_for inst m loc t (int i) in
            if rcl \<le> 1 then (case keep_best c (r, b) of (r, b) \<Rightarrow> (r, b, cs)) else (r, b, cs @ [c]))"
    using ip by (simp add: scanBody_def keep_best_def Let_def)
  moreover obtain r' b' where "keep_best (cand_for inst m loc t (int i)) (r, b) = (r', b')" by fastforce
  ultimately show ?case using Cons ip by (simp add: Let_def)
qed

lemma map_fst_go_enum: "map fst (go_enum xs) = map int [0..<length xs]"
  by (simp add: go_enum_def)

lemma scanPoints_spec:
  assumes "wf_inst inst" "in_range inst loc" "0 \<le> d" "length visited = length (Points inst)"
  shows "scanPoints inst rcl m d visited loc t =
    Some (if rcl \<le> 1 then (case best_of (cands inst m d visited loc t) of (r, b) \<Rightarrow> (r, b, []))
          else (f64_minus_one, zeroCandidate, cands inst m d visited loc t))"
  unfolding scanPoints_def
  by (subst scan_range [OF assms subset_refl]) (simp add: best_of_def cands_def map_fst_go_enum)

text \<open>The best candidate is one of them, and no other has a greater ratio, NaN ratios included.\<close>

lemma keep_best_fold:
  assumes "fold keep_best cs (r0, b0) = (r, b)"
  shows "((r, b) = (r0, b0) \<or> b \<in> set cs \<and> r = cand_ratio b) \<and> (r = r0 \<or> fgt64 r r0) \<and>
    (\<forall>c \<in> set cs. \<not> fgt64 (cand_ratio c) r)"
  using assms
proof (induction cs arbitrary: r0 b0)
  case Nil
  then show ?case by simp
next
  case (Cons c cs)
  show ?case
  proof (cases "fgt64 (cand_ratio c) r0")
    case True
    with Cons.prems have "fold keep_best cs (cand_ratio c, c) = (r, b)" by (simp add: keep_best_def [of c])
    from Cons.IH [OF this] True show ?thesis by (auto simp: fgt64_iff)
  next
    case False
    with Cons.prems have "fold keep_best cs (r0, b0) = (r, b)" by (simp add: keep_best_def [of c])
    from Cons.IH [OF this] False show ?thesis by (auto simp: fgt64_iff)
  qed
qed

lemma minus_one_neg: "\<not> fge64 f64_minus_one 0" "fgt64 0 f64_minus_one" "\<not> f64_nan f64_minus_one"
proof -
  have key: "f64_key f64_minus_one < 0" by (simp add: f64_key_def f64_minus_one_def f64_mag_def bit_63_iff)
  show nan: "\<not> f64_nan f64_minus_one" by (simp add: f64_nan_def f64_minus_one_def f64_mag_def)
  have "f64_key 0 = 0" "\<not> f64_nan 0" by (simp_all add: f64_key_def f64_nan_def f64_mag_def)
  with key nan show "\<not> fge64 f64_minus_one 0" "fgt64 0 f64_minus_one"
    by (simp_all add: fge64_iff fgt64_iff)
qed

lemma best_of_choice:
  assumes "best_of cs = (r, b)"
  shows "fge64 r 0 \<Longrightarrow> b \<in> set cs \<and> r = cand_ratio b"
    and "c \<in> set cs \<Longrightarrow> \<not> fgt64 (cand_ratio c) r"
    and "\<not> fge64 r 0 \<Longrightarrow> c \<in> set cs \<Longrightarrow> \<not> fge64 (cand_ratio c) 0"
proof -
  note k = keep_best_fold [OF assms [unfolded best_of_def]]
  show "b \<in> set cs \<and> r = cand_ratio b" if "fge64 r 0" using k that minus_one_neg(1) by auto
  show "\<not> fgt64 (cand_ratio c) r" if "c \<in> set cs" using k that by blast
  show "\<not> fge64 (cand_ratio c) 0" if "\<not> fge64 r 0" "c \<in> set cs"
  proof
    assume ge: "fge64 (cand_ratio c) 0"
    have "\<not> f64_nan r" using k minus_one_neg(3) by (auto simp: fgt64_iff)
    with ge that(1) have "fgt64 (cand_ratio c) r" by (auto simp: fge64_iff fgt64_iff)
    with k that(2) show False by blast
  qed
qed

text \<open>
  The random source of the call: absent in the deterministic mode, and a good source for the random
  mode, whose draws are bounded by \<open>rclSize\<close>.
\<close>

definition source_ok :: "int \<Rightarrow> rngSource option \<Rightarrow> bool" where
  "source_ok rcl rng \<longleftrightarrow> rcl \<le> 1 \<or> (rcl \<le> 2 ^ 30 \<and> (\<exists>r. rng = Some r \<and> rng_ok r))"

text \<open>One round chooses a candidate, or there is none (none of a non-negative ratio in the
  deterministic mode).\<close>

definition chosen_from :: "int \<Rightarrow> candidate list \<Rightarrow> candidate option \<Rightarrow> bool" where
  "chosen_from rcl cs ch \<longleftrightarrow>
     (case ch of
        Some c \<Rightarrow> c \<in> set cs \<and> (rcl \<le> 1 \<longrightarrow> (\<forall>c' \<in> set cs. \<not> fgt64 (cand_ratio c') (cand_ratio c)))
      | None \<Rightarrow> if rcl \<le> 1 then \<forall>c \<in> set cs. \<not> fge64 (cand_ratio c) 0 else cs = [])"

lemma select_spec:
  assumes "wf_inst inst" "in_range inst loc" "0 \<le> d" "length visited = length (Points inst)"
    and "source_ok rcl rng" "length (Points inst) < 2 ^ 62"
  shows "\<exists>r b cs ch rng'. scanPoints inst rcl m d visited loc t = Some (r, b, cs) \<and>
    selectCandidate rcl r b cs rng = Some (ch, rng') \<and> source_ok rcl rng' \<and>
    chosen_from rcl (cands inst m d visited loc t) ch"
proof (cases "rcl \<le> 1")
  case True
  obtain r b where rb: "best_of (cands inst m d visited loc t) = (r, b)" by fastforce
  note ch = best_of_choice [OF rb]
  have sc: "scanPoints inst rcl m d visited loc t = Some (r, b, [])"
    using True rb by (simp add: scanPoints_spec [OF assms(1-4)])
  have sel: "selectCandidate rcl r b [] rng = Some (if fge64 r 0 then Some b else None, rng)"
    using True by (simp add: selectCandidate_def)
  show ?thesis
    unfolding sc using sel True ch assms(5) by (auto simp: chosen_from_def)
next
  case False
  let ?cs = "cands inst m d visited loc t"
  have sc: "scanPoints inst rcl m d visited loc t = Some (f64_minus_one, zeroCandidate, ?cs)"
    using False by (simp add: scanPoints_spec [OF assms(1-4)])
  show ?thesis
  proof (cases "?cs = []")
    case True
    then show ?thesis using sc False assms(5) by (simp add: selectCandidate_def chosen_from_def)
  next
    case ne: False
    have "length ?cs \<le> length (Points inst)"
      unfolding cands_def by (metis diff_zero length_filter_le length_map length_upt)
    then have "length ?cs < 2 ^ 62" using assms(6) by linarith
    then obtain ds where ds: "Slice (\<lambda>a b. fgt64 (cand_ratio a) (cand_ratio b)) ?cs = Some ds" "mset ds = mset ?cs"
      using Slice_returns_permuted by blast
    obtain r where r: "rng = Some r" "rng_ok r" "rcl \<le> 2 ^ 30" using assms(5) False by (auto simp: source_ok_def)
    have len: "length ds = length ?cs" using ds(2) by (rule mset_eq_length)
    let ?k = "if rcl > int (length ds) then int (length ds) else rcl"
    have k: "0 < ?k" "?k \<le> rcl" "?k \<le> int (length ds)" using False ne len by auto
    obtain n r' where n: "Intn ?k r = Some (n, r')" "0 \<le> n" "n < ?k" "rng_ok r'"
      using Intn_returns [OF r(2) k(1)] k(2) r(3) by auto
    then have b: "0 \<le> n" "n < int (length ds)" "rng_ok r'" using k by auto
    then have "ds ! nat n \<in> set ?cs" using ds(2) by (metis mset_eq_setD nat_less_iff nth_mem)
    moreover have "selectCandidate rcl f64_minus_one zeroCandidate ?cs rng = Some (Some (ds ! nat n), Some r')"
      using False ne ds r n b by (simp add: selectCandidate_def Let_def)
    ultimately show ?thesis
      using sc False r b by (simp add: source_ok_def chosen_from_def)
  qed
qed

section \<open>The visits of a day\<close>

text \<open>
  What the visits \<open>qs\<close> of a day satisfy, from \<open>p\<close> left at time \<open>t\<close>: each is a site, reached before it
  closes, from which the day can be closed in time.
\<close>

fun greedy_path :: "Instance \<Rightarrow> int \<Rightarrow> f64 \<Rightarrow> int \<Rightarrow> int list \<Rightarrow> bool" where
  "greedy_path inst d t p [] = True"
| "greedy_path inst d t p (q # qs) =
     (let a = fadd64 t (D inst p q); l = leave_at inst q a
      in site inst q \<and> \<not> fgt64 a (pCloseTime (pt inst q)) \<and> can_return inst d q l \<and>
         greedy_path inst d l q qs)"

text \<open>No site is left to add after the visits (none of a non-negative ratio in the deterministic mode).\<close>

definition exhausted :: "Instance \<Rightarrow> int \<Rightarrow> int \<Rightarrow> int \<Rightarrow> int set \<Rightarrow> int \<Rightarrow> f64 \<Rightarrow> bool" where
  "exhausted inst rcl m d V p t \<longleftrightarrow>
     (\<exists>visited. marks inst visited V \<and> chosen_from rcl (cands inst m d visited p t) None)"

lemma greedyVisits_returns:
  assumes "wf_inst inst" "length (Points inst) < 2 ^ 62" "0 \<le> d"
    and "in_range inst p" "\<forall>q \<in> set qs. in_range inst q" "marks inst visited V" "source_ok rcl rng"
  shows "\<exists>rs visited' rng'. greedyVisits inst rcl m d (first_step p # route_steps inst 0 p qs) visited (last (p # qs)) rng =
      Some (first_step p # route_steps inst 0 p (qs @ rs), visited', last (p # qs @ rs), rng') \<and>
    greedy_path inst d (route_time inst 0 p qs) (last (p # qs)) rs \<and> distinct rs \<and> set rs \<inter> V = {} \<and>
    marks inst visited' (V \<union> set rs) \<and> source_ok rcl rng' \<and>
    exhausted inst rcl m d (V \<union> set rs) (last (p # qs @ rs)) (route_time inst 0 p (qs @ rs))"
  using assms(5-7)
proof (induction "length (filter Not visited)" arbitrary: qs visited V rng rule: less_induct)
  case less
  let ?steps = "first_step p # route_steps inst 0 p qs" and ?p = "last (p # qs)" and ?t = "route_time inst 0 p qs"
  have lastn: "go_nth ?steps (int (length ?steps) - 1) = Some (last ?steps)"
    by (simp add: go_nth_def last_conv_nth nat_diff_distrib del: last.simps)
  have dep: "Departure (last ?steps) = ?t" by (rule last_plan)
  have loc: "in_range inst ?p" using assms(4) less.prems(1) by simp
  have vl: "length visited = length (Points inst)" using less.prems(2) by (simp add: marks_def)
  obtain r b cs ch rng1 where sc: "scanPoints inst rcl m d visited ?p ?t = Some (r, b, cs)"
    and sel: "selectCandidate rcl r b cs rng = Some (ch, rng1)" and src: "source_ok rcl rng1"
    and ch: "chosen_from rcl (cands inst m d visited ?p ?t) ch"
    using select_spec [OF assms(1) loc assms(3) vl less.prems(3) assms(2)] by blast
  show ?case
  proof (cases ch)
    case None
    then have "greedyVisits inst rcl m d ?steps visited ?p rng = Some (?steps, visited, ?p, rng1)"
      using lastn dep sc sel by (subst greedyVisits.simps) (simp del: last.simps)
    moreover have "exhausted inst rcl m d V ?p ?t"
      using None ch less.prems(2) by (auto simp: exhausted_def)
    ultimately show ?thesis using src less.prems(2) by (intro exI [of _ "[]"] exI [of _ visited] exI [of _ rng1]) simp
  next
    case (Some c)
    define q where "q = cand_id c"
    have c: "c = cand_for inst m ?p ?t q" and el: "eligible inst d visited ?p ?t q"
      using ch Some by (auto simp: chosen_from_def in_cands q_def simp del: last.simps)
    have q: "site inst q" "in_range inst q" using el by (auto simp: eligible_def)
    then have qV: "q \<notin> V" "\<not> visited ! nat q"
      using el marks_nth [OF less.prems(2) q(2)] by (auto simp: eligible_def)
    note set = marks_set [OF less.prems(2) q(2)]
    have fewer: "length (filter Not (visited[nat q := True])) < length (filter Not visited)"
    proof -
      have n: "nat q < length visited" using q vl by (auto simp: in_range_def)
      have "filter Not visited = filter Not (take (nat q) visited) @ False # filter Not (drop (Suc (nat q)) visited)"
        using qV(2) id_take_nth_drop [OF n] by (metis (full_types) filter.simps(2) filter_append)
      then show ?thesis using n by (simp add: upd_conv_take_nth_drop)
    qed
    have lq: "last (p # qs @ [q]) = q" by simp
    have steps: "?steps @ [stepOf c] = first_step p # route_steps inst 0 p (qs @ [q])"
      by (simp add: stepOf_def c Let_def del: last.simps)
    have "greedyVisits inst rcl m d ?steps visited ?p rng =
      greedyVisits inst rcl m d (first_step p # route_steps inst 0 p (qs @ [q])) (visited[nat q := True]) (last (p # qs @ [q])) rng1"
      unfolding lq using lastn dep sc sel Some set steps q_def
      by (subst greedyVisits.simps) (simp del: last.simps route_steps_append route_steps.simps)
    moreover have "\<exists>rs visited' rng'. greedyVisits inst rcl m d (first_step p # route_steps inst 0 p (qs @ [q])) (visited[nat q := True]) (last (p # qs @ [q])) rng1 =
        Some (first_step p # route_steps inst 0 p ((qs @ [q]) @ rs), visited', last (p # (qs @ [q]) @ rs), rng') \<and>
      greedy_path inst d (route_time inst 0 p (qs @ [q])) (last (p # qs @ [q])) rs \<and> distinct rs \<and> set rs \<inter> insert q V = {} \<and>
      marks inst visited' (insert q V \<union> set rs) \<and> source_ok rcl rng' \<and>
      exhausted inst rcl m d (insert q V \<union> set rs) (last (p # (qs @ [q]) @ rs)) (route_time inst 0 p ((qs @ [q]) @ rs))"
      by (rule less.hyps [OF fewer]) (use less.prems q set src in auto)
    ultimately obtain rs visited' rng' where IH: "greedyVisits inst rcl m d ?steps visited ?p rng =
        Some (first_step p # route_steps inst 0 p (qs @ q # rs), visited', last (p # qs @ q # rs), rng')"
      "greedy_path inst d (leave_at inst q (fadd64 ?t (D inst ?p q))) q rs" "distinct rs" "set rs \<inter> insert q V = {}"
      "marks inst visited' (insert q V \<union> set rs)" "source_ok rcl rng'"
      "exhausted inst rcl m d (insert q V \<union> set rs) (last (p # qs @ q # rs)) (route_time inst 0 p (qs @ q # rs))"
      by auto
    have "greedy_path inst d ?t ?p (q # rs)"
      using IH(2) el q by (simp add: eligible_def Let_def)
    with IH qV show ?thesis by (intro exI [of _ "q # rs"] exI [of _ visited'] exI [of _ rng']) auto
  qed
qed

section \<open>The end of a day\<close>

definition in_budget :: "Instance \<Rightarrow> int \<Rightarrow> int \<Rightarrow> f64 \<Rightarrow> int \<Rightarrow> bool" where
  "in_budget inst d p t h \<longleftrightarrow> fle64 (fadd64 t (D inst p h)) (budget inst d)"

lemma nearest_loop:
  assumes "wf_inst inst" "in_range inst (PointID st)" "0 \<le> d" "set hs \<subseteq> {h. hotel inst h}"
    and "b0 \<noteq> -1 \<longrightarrow> hotel inst b0 \<and> in_budget inst d (PointID st) (Departure st) b0"
    and "b0 = -1 \<longrightarrow> m0 = MaxFloat64"
  shows "\<exists>m b. go_range (\<lambda>hID (minDistH, bestH). do {
         dist \<leftarrow> dist_at inst (PointID st) hID;
         maxd \<leftarrow> DayMaxDist inst d;
         if fle64 (fadd64 (Departure st) dist) maxd then
           if flt64 dist minDistH then Some (dist, hID) else Some (minDistH, bestH)
         else Some (minDistH, bestH) }) hs (m0, b0) = Some (m, b) \<and>
      (b \<noteq> -1 \<longrightarrow> hotel inst b \<and> in_budget inst d (PointID st) (Departure st) b) \<and>
      (b = -1 \<longrightarrow> b0 = -1 \<and> (\<forall>h \<in> set hs. in_budget inst d (PointID st) (Departure st) h \<longrightarrow>
         \<not> flt64 (D inst (PointID st) h) MaxFloat64))"
  using assms(4-6)
proof (induction hs arbitrary: m0 b0)
  case Nil
  then show ?case by simp
next
  case (Cons h hs)
  let ?p = "PointID st"
  have h: "hotel inst h" "in_range inst h" "h \<noteq> -1"
    using Cons.prems(1) by (auto simp: hotel_def in_range_def)
  define s where "s = (if in_budget inst d ?p (Departure st) h \<and> flt64 (D inst ?p h) m0 then (D inst ?p h, h) else (m0, b0))"
  obtain m1 b1 where s: "s = (m1, b1)" by fastforce
  have "b1 \<noteq> -1 \<longrightarrow> hotel inst b1 \<and> in_budget inst d ?p (Departure st) b1" "b1 = -1 \<longrightarrow> m1 = MaxFloat64"
    using Cons.prems(2,3) h s by (auto simp: s_def split: if_splits)
  note IH = Cons.IH [OF _ this]
  have "b1 = -1 \<Longrightarrow> b0 = -1 \<and> (in_budget inst d ?p (Departure st) h \<longrightarrow> \<not> flt64 (D inst ?p h) MaxFloat64)"
    using Cons.prems(3) h s by (auto simp: s_def split: if_splits)
  then show ?case
    using IH Cons.prems(1) assms(1-3) h s by (auto simp: s_def in_budget_def split: if_splits)
qed

text \<open>The hotel that ends a day, for a day left from \<open>p\<close> at time \<open>t\<close>.\<close>

definition day_end :: "Instance \<Rightarrow> int \<Rightarrow> int \<Rightarrow> f64 \<Rightarrow> int \<Rightarrow> bool" where
  "day_end inst d p t e \<longleftrightarrow>
     (if d = NbDays inst - 1 then e = EndHotelID inst
      else hotel inst e \<and>
        ((\<exists>h. hotel inst h \<and> in_budget inst d p t h \<and> flt64 (D inst p h) MaxFloat64) \<longrightarrow> in_budget inst d p t e))"

lemma nearestHotel_spec:
  assumes "wf_inst inst" "hotel inst (EndHotelID inst)" "in_range inst (PointID st)" "0 \<le> d" "d \<noteq> NbDays inst - 1"
  shows "\<exists>e. nearestHotel inst d st = Some e \<and> day_end inst d (PointID st) (Departure st) e"
proof -
  have hs: "set (HotelIDs inst) = {h. hotel inst h}" using assms(1) by (simp add: wf_inst_def)
  then have "set (HotelIDs inst) \<subseteq> {h. hotel inst h}" by simp
  from nearest_loop [OF assms(1,3,4) this, of "-1" MaxFloat64] show ?thesis
    using assms(2,5) hs by (auto simp: nearestHotel_def day_end_def)
qed

text \<open>
  A day of the heuristic: from \<open>p\<close> over the visits \<open>qs\<close> to the hotel \<open>e\<close>, with its timetable.
\<close>

definition tour_day :: "Instance \<Rightarrow> int list \<Rightarrow> DayTour" where
  "tour_day inst ps = \<lparr>Steps = plan inst ps, DistTotal = length_of inst ps, TimeTotal = time_of inst ps\<rparr>"

definition greedy_day :: "Instance \<Rightarrow> int \<Rightarrow> int \<Rightarrow> int list \<Rightarrow> int \<Rightarrow> bool" where
  "greedy_day inst d p qs e \<longleftrightarrow>
     greedy_path inst d 0 p qs \<and> hotel inst e \<and> day_end inst d (last (p # qs)) (route_time inst 0 p qs) e"

lemma plan_end:
  assumes "hotel inst e"
  shows "plan inst (p # qs @ [e]) = (first_step p # route_steps inst 0 p qs) @
      [\<lparr>PointID = e, Arrival = fadd64 (route_time inst 0 p qs) (D inst (last (p # qs)) e), Wait = 0,
        Departure = fadd64 (route_time inst 0 p qs) (D inst (last (p # qs)) e),
        DistFromPrev = D inst (last (p # qs)) e\<rparr>]"
    and "time_of inst (p # qs @ [e]) = fadd64 (route_time inst 0 p qs) (D inst (last (p # qs)) e)"
  using assms by (simp_all add: plan_def time_of_def Let_def del: last.simps)

lemma greedy_path_range: "greedy_path inst d t p qs \<Longrightarrow> \<forall>q \<in> set qs. site inst q"
  by (induction qs arbitrary: t p) (auto simp: Let_def)

lemma greedyDay_returns:
  assumes "wf_inst inst" "length (Points inst) < 2 ^ 62" "0 \<le> d" "hotel inst p" "hotel inst (EndHotelID inst)"
    and "marks inst visited V" "source_ok rcl rng"
  shows "\<exists>qs e visited' rng'. greedyDay inst rcl m d visited p rng = Some (tour_day inst (p # qs @ [e]), visited', e, rng') \<and>
    greedy_day inst d p qs e \<and> distinct qs \<and> set qs \<inter> V = {} \<and>
    marks inst visited' (V \<union> set qs) \<and> source_ok rcl rng' \<and>
    exhausted inst rcl m d (V \<union> set qs) (last (p # qs)) (route_time inst 0 p qs)"
proof -
  have p: "in_range inst p" using assms(4) by auto
  obtain qs visited' rng' where v: "greedyVisits inst rcl m d [first_step p] visited p rng =
      Some (first_step p # route_steps inst 0 p qs, visited', last (p # qs), rng')"
    and qs: "greedy_path inst d 0 p qs" "distinct qs" "set qs \<inter> V = {}"
      "marks inst visited' (V \<union> set qs)" "source_ok rcl rng'"
      "exhausted inst rcl m d (V \<union> set qs) (last (p # qs)) (route_time inst 0 p qs)"
    using greedyVisits_returns [OF assms(1-3) p, of "[]" visited V rcl rng m] assms(6,7) by auto
  let ?steps = "first_step p # route_steps inst 0 p qs"
  have lastn: "go_nth ?steps (int (length ?steps) - 1) = Some (last ?steps)"
    by (simp add: go_nth_def last_conv_nth nat_diff_distrib del: last.simps)
  note lp = last_plan [of p inst qs]
  have loc: "in_range inst (PointID (last ?steps))"
    using p greedy_path_range [OF qs(1)] unfolding lp by auto
  obtain e where e: "(if d = NbDays inst - 1 then Some (EndHotelID inst) else nearestHotel inst d (last ?steps)) = Some e"
    and de: "day_end inst d (last (p # qs)) (route_time inst 0 p qs) e"
    using nearestHotel_spec [OF assms(1,5) loc assms(3)] unfolding lp
    by (cases "d = NbDays inst - 1") (auto simp: day_end_def)
  have he: "hotel inst e" using de assms(5) by (auto simp: day_end_def split: if_splits)
  then have re: "in_range inst e" by auto
  note pe = plan_end [OF he, of p qs]
  let ?a = "fadd64 (route_time inst 0 p qs) (D inst (last (p # qs)) e)"
  let ?l = "\<lparr>PointID = e, Arrival = ?a, Wait = 0, Departure = ?a, DistFromPrev = D inst (last (p # qs)) e\<rparr>"
  have tot: "fold (\<lambda>s d. fadd64 d (DistFromPrev s)) (?steps @ [?l]) 0 = length_of inst (p # qs @ [e])"
    unfolding pe(1) [symmetric] by (rule steps_dist_plan [unfolded steps_dist_def])
  have lastn2: "go_nth (?steps @ [?l]) (int (length (?steps @ [?l])) - 1) = Some ?l"
    by (simp add: go_nth_def nth_append nat_diff_distrib del: last.simps)
  have d1: "dist_at inst (last (p # qs)) e = Some (D inst (last (p # qs)) e)"
    using assms(1) loc re unfolding lp by simp
  have "greedyDay inst rcl m d visited p rng = Some (tour_day inst (p # qs @ [e]), visited', e, rng')"
    unfolding greedyDay_def Let_def first_step_def [symmetric] v Option.bind.simps prod.case lastn e lp d1 tot lastn2
    by (simp add: tour_day_def pe del: last.simps)
  then show ?thesis using qs de he unfolding greedy_day_def by blast
qed

section \<open>The whole solution\<close>

text \<open>
  The routes of the days from day \<open>d\<close> on, which starts at \<open>p\<close> with the sites \<open>V\<close> visited: each day
  starts where the last one ended, visits new sites, and ends when no more can be visited.
\<close>

fun greedy_tour :: "Instance \<Rightarrow> int \<Rightarrow> int \<Rightarrow> int \<Rightarrow> int set \<Rightarrow> int \<Rightarrow> int list list \<Rightarrow> bool" where
  "greedy_tour inst rcl m d V p [] = True"
| "greedy_tour inst rcl m d V p (ps # rs) =
     (\<exists>qs e. ps = p # qs @ [e] \<and> greedy_day inst d p qs e \<and> distinct qs \<and> set qs \<inter> V = {} \<and>
        exhausted inst rcl m d (V \<union> set qs) (last (p # qs)) (route_time inst 0 p qs) \<and>
        greedy_tour inst rcl m (d + 1) (V \<union> set qs) e rs)"

definition tour_solution :: "Instance \<Rightarrow> int list list \<Rightarrow> Solution" where
  "tour_solution inst rs = \<lparr>SolInstance = inst, Days = map (tour_day inst) rs,
     TotalScore = score_from inst 0 (concat rs), TotalDist = sum_lengths inst 0 rs\<rparr>"

lemma greedy_days_return:
  assumes "wf_inst inst" "length (Points inst) < 2 ^ 62" "hotel inst (EndHotelID inst)"
    and "0 \<le> d" "hotel inst p" "marks inst visited V" "source_ok rcl rng"
  shows "\<exists>rs visited' e rng'. go_range (\<lambda>d (days, visited, loc, rng). do {
         (day, visited, loc, rng) \<leftarrow> greedyDay inst rcl m d visited loc rng;
         Some (days @ [day], visited, loc, rng) }) [d..n - 1] (days, visited, p, rng) =
      Some (days @ map (tour_day inst) rs, visited', e, rng') \<and>
    length rs = nat (n - d) \<and> greedy_tour inst rcl m d V p rs \<and> source_ok rcl rng'"
  using assms(4-7)
proof (induction "nat (n - d)" arbitrary: d p visited V rng days)
  case 0
  then have "[d..n - 1] = []" by simp
  with 0 show ?case by (intro exI [of _ "[]"] exI [of _ visited] exI [of _ p] exI [of _ rng]) simp
next
  case (Suc k)
  then have up: "[d..n - 1] = d # [d + 1..n - 1]" by (intro upto_rec1) simp
  obtain qs e visited' rng' where day: "greedyDay inst rcl m d visited p rng = Some (tour_day inst (p # qs @ [e]), visited', e, rng')"
    and qs: "greedy_day inst d p qs e" "distinct qs" "set qs \<inter> V = {}"
      "marks inst visited' (V \<union> set qs)" "source_ok rcl rng'"
      "exhausted inst rcl m d (V \<union> set qs) (last (p # qs)) (route_time inst 0 p qs)"
    using greedyDay_returns [OF assms(1,2) Suc.prems(1,2) assms(3) Suc.prems(3,4)] by blast
  have he: "hotel inst e" using qs(1) by (simp add: greedy_day_def)
  have k: "k = nat (n - (d + 1))" "0 \<le> d + 1" using Suc by auto
  obtain rs visited'' e' rng'' where "go_range (\<lambda>d (days, visited, loc, rng). do {
         (day, visited, loc, rng) \<leftarrow> greedyDay inst rcl m d visited loc rng;
         Some (days @ [day], visited, loc, rng) }) [d + 1..n - 1] (days @ [tour_day inst (p # qs @ [e])], visited', e, rng') =
      Some ((days @ [tour_day inst (p # qs @ [e])]) @ map (tour_day inst) rs, visited'', e', rng'')"
    "length rs = nat (n - (d + 1))" "greedy_tour inst rcl m (d + 1) (V \<union> set qs) e rs" "source_ok rcl rng''"
    using Suc.hyps(1) [OF k(1,2) he qs(4,5)] by blast
  then show ?case
    using day qs Suc.hyps(2) k(1) unfolding up
    by (intro exI [of _ "(p # qs @ [e]) # rs"] exI [of _ visited''] exI [of _ e'] exI [of _ rng'']) auto
qed

lemma greedy_tour_range:
  assumes "wf_inst inst"
  shows "greedy_tour inst rcl m d V p rs \<Longrightarrow> hotel inst p \<Longrightarrow> ps \<in> set rs \<Longrightarrow> q \<in> set ps \<Longrightarrow> in_range inst q"
proof (induction rs arbitrary: d V p)
  case (Cons r rs)
  then obtain qs e where r: "r = p # qs @ [e]" "greedy_day inst d p qs e" "greedy_tour inst rcl m (d + 1) (V \<union> set qs) e rs"
    by auto
  then have e: "hotel inst e" and qs: "\<forall>q \<in> set qs. site inst q"
    by (auto simp: greedy_day_def dest: greedy_path_range)
  show ?case
  proof (cases "ps \<in> set rs")
    case True
    then show ?thesis using Cons.IH [OF r(3) e] Cons.prems by blast
  next
    case False
    then have "q = p \<or> q = e \<or> q \<in> set qs" using Cons.prems r by auto
    then show ?thesis using hotel_in_range [OF e] hotel_in_range [OF Cons.prems(2)] qs site_in_range by blast
  qed
qed simp

lemma known_points_tour:
  assumes "wf_inst inst" "greedy_tour inst rcl m d V p rs" "hotel inst p"
  shows "known_points (tour_solution inst rs)"
  using greedy_tour_range [OF assms]
  by (auto simp: known_points_def routes_def route_def tour_solution_def tour_day_def)

lemma EvaluateScore_tour:
  assumes "known_points (tour_solution inst rs)" "\<forall>ps \<in> set rs. ps \<noteq> []"
  shows "EvaluateScore \<lparr>SolInstance = inst, Days = map (tour_day inst) rs, TotalScore = s, TotalDist = t\<rparr> =
    Some (tour_solution inst rs)"
proof -
  have "routes \<lparr>SolInstance = inst, Days = map (tour_day inst) rs, TotalScore = s, TotalDist = t\<rparr> = rs"
    by (simp add: routes_def route_def tour_day_def comp_def)
  moreover have "fold (\<lambda>day d. fadd64 d (steps_dist 0 (Steps day))) (map (tour_day inst) rs) d = sum_lengths inst d rs" for d
    using assms(2) by (induction rs arbitrary: d) (auto simp: sum_lengths_def tour_day_def)
  ultimately show ?thesis
    using assms(1) by (simp add: EvaluateScore_spec known_points_def tour_solution_def routes_def route_def tour_day_def comp_def)
qed

lemma greedy_tour_nonempty: "greedy_tour inst rcl m d V p rs \<Longrightarrow> \<forall>ps \<in> set rs. ps \<noteq> []"
  by (induction rs arbitrary: d V p) auto

theorem greedy_returns:
  assumes "wf_inst inst" "length (Points inst) < 2 ^ 62"
    and "hotel inst (StartHotelID inst)" "hotel inst (EndHotelID inst)" "source_ok rcl rng"
  shows "\<exists>rs rng'. solveGreedyInternal inst rcl rng m = Some (tour_solution inst rs, rng') \<and>
    length rs = nat (NbDays inst) \<and> greedy_tour inst rcl m 0 {} (StartHotelID inst) rs \<and> source_ok rcl rng'"
proof -
  have "marks inst (replicate (length (Points inst)) False) {}" by (simp add: marks_def)
  from greedy_days_return [OF assms(1,2,4) _ assms(3) this assms(5), of 0 m "NbDays inst" "[]"]
  obtain rs visited' e rng' where g: "go_range (\<lambda>d (days, visited, loc, rng). do {
         (day, visited, loc, rng) \<leftarrow> greedyDay inst rcl m d visited loc rng;
         Some (days @ [day], visited, loc, rng) }) [0..NbDays inst - 1]
        ([], replicate (length (Points inst)) False, StartHotelID inst, rng) =
      Some (map (tour_day inst) rs, visited', e, rng')"
    and rs: "length rs = nat (NbDays inst)" "greedy_tour inst rcl m 0 {} (StartHotelID inst) rs" "source_ok rcl rng'"
    by auto
  have "EvaluateScore \<lparr>SolInstance = inst, Days = map (tour_day inst) rs, TotalScore = 0, TotalDist = 0\<rparr> =
      Some (tour_solution inst rs)"
    using known_points_tour [OF assms(1) rs(2) assms(3)] greedy_tour_nonempty [OF rs(2)] by (rule EvaluateScore_tour)
  with g have "solveGreedyInternal inst rcl rng m = Some (tour_solution inst rs, rng')"
    by (simp add: solveGreedyInternal_def)
  with rs show ?thesis by blast
qed

section \<open>The validator accepts the solution\<close>

text \<open>
  What the heuristic does not check itself: a wait never ends after the closing time, distances are
  finite, a hotel is at distance 0 of itself, budgets are not negative, and the last day can be
  driven without a visit.
\<close>

definition closable :: "Instance \<Rightarrow> bool" where
  "closable inst \<longleftrightarrow>
     (\<forall>p a. site inst p \<longrightarrow> flt64 a (pOpenTime (pt inst p)) \<longrightarrow>
        \<not> fgt64 (fadd64 a (fsub64 (pOpenTime (pt inst p)) a)) (pCloseTime (pt inst p))) \<and>
     (\<forall>p h. in_range inst p \<longrightarrow> hotel inst h \<longrightarrow> flt64 (D inst p h) MaxFloat64) \<and>
     (\<forall>h. hotel inst h \<longrightarrow> D inst h h = 0) \<and>
     (\<forall>d. 0 \<le> d \<longrightarrow> d < NbDays inst \<longrightarrow> fle64 0 (budget inst d)) \<and>
     (\<forall>h. hotel inst h \<longrightarrow> fle64 (fadd64 0 (D inst h (EndHotelID inst))) (budget inst (NbDays inst - 1)))"

lemma greedy_path_on_time:
  assumes "closable inst"
  shows "greedy_path inst d t p qs \<Longrightarrow> on_time inst t p qs"
proof (induction qs arbitrary: t p)
  case (Cons q qs)
  let ?a = "fadd64 t (D inst p q)"
  have q: "site inst q" "\<not> fgt64 ?a (pCloseTime (pt inst q))" using Cons.prems by (simp_all add: Let_def)
  have "\<not> fgt64 (start_at inst q ?a) (pCloseTime (pt inst q))"
    using assms q fadd64_zero_right by (auto simp: closable_def start_at_def wait_at_def)
  then show ?case using Cons by (simp add: open_at_site q Let_def)
qed simp

lemma greedy_path_last:
  "greedy_path inst d t p qs \<Longrightarrow> qs \<noteq> [] \<Longrightarrow> can_return inst d (last qs) (route_time inst t p qs)"
proof (induction qs arbitrary: t p)
  case (Cons q qs)
  then show ?case by (cases qs) (auto simp: Let_def)
qed simp

lemma greedy_day_in_budget:
  assumes "wf_inst inst" "closable inst" "greedy_day inst d p qs e" "hotel inst p" "0 \<le> d" "d < NbDays inst"
    and "hotel inst (EndHotelID inst)"
  shows "in_budget inst d (last (p # qs)) (route_time inst 0 p qs) e"
proof -
  note g = assms(3) [unfolded greedy_day_def]
  have hs: "set (HotelIDs inst) = {h. hotel inst h}" using assms(1) by (simp add: wf_inst_def)
  have loc: "in_range inst (last (p # qs))" using assms(4) greedy_path_range [of inst d 0 p qs] g by auto
  show ?thesis
  proof (cases "d = NbDays inst - 1")
    case True
    then have e: "e = EndHotelID inst" using g by (simp add: day_end_def)
    show ?thesis
    proof (cases "qs = []")
      case True
      then show ?thesis using assms(2,4) e \<open>d = NbDays inst - 1\<close> by (simp add: closable_def in_budget_def)
    next
      case False
      with g have "can_return inst d (last qs) (route_time inst 0 p qs)" by (simp add: greedy_path_last)
      with True e False show ?thesis by (simp add: can_return_def ends_def in_budget_def)
    qed
  next
    case notlast: False
    have "\<exists>h. hotel inst h \<and> in_budget inst d (last (p # qs)) (route_time inst 0 p qs) h"
    proof (cases "qs = []")
      case True
      then show ?thesis using assms(2,4-6) by (intro exI [of _ p]) (simp add: closable_def in_budget_def)
    next
      case False
      with g have "can_return inst d (last qs) (route_time inst 0 p qs)" by (simp add: greedy_path_last)
      with notlast False hs show ?thesis by (auto simp: can_return_def ends_def in_budget_def)
    qed
    then show ?thesis using g notlast assms(2) loc by (auto simp: day_end_def closable_def)
  qed
qed

lemma sites_of_day:
  assumes "hotel inst p" "hotel inst e" "\<forall>q \<in> set qs. site inst q"
  shows "sites inst (p # qs @ [e]) = qs"
  using assms by (auto simp: sites_def filter_id_conv)

lemma greedy_tour_rules:
  assumes "wf_inst inst" "closable inst" "hotel inst (EndHotelID inst)"
  shows "greedy_tour inst rcl m d V p rs \<Longrightarrow> hotel inst p \<Longrightarrow> 0 \<le> d \<Longrightarrow> d + int (length rs) \<le> NbDays inst \<Longrightarrow>
    (d = 0 \<longrightarrow> p = StartHotelID inst) \<Longrightarrow> rules_from inst d V rs"
proof (induction rs arbitrary: d V p)
  case Nil
  then show ?case by (simp add: rules_from_def)
next
  case (Cons r rs)
  then obtain qs e where r: "r = p # qs @ [e]" and day: "greedy_day inst d p qs e"
    and qs: "distinct qs" "set qs \<inter> V = {}" and rs: "greedy_tour inst rcl m (d + 1) (V \<union> set qs) e rs"
    by auto
  have e: "hotel inst e" and gp: "greedy_path inst d 0 p qs" and de: "d = NbDays inst - 1 \<longrightarrow> e = EndHotelID inst"
    using day by (auto simp: greedy_day_def day_end_def)
  have d: "d < NbDays inst" using Cons.prems(4) by simp
  have "rules_from inst (d + 1) (V \<union> set qs) rs"
    using Cons.IH [OF rs e] Cons.prems(3,4) by simp
  moreover have "sites inst r = qs"
    using sites_of_day [OF Cons.prems(2) e] greedy_path_range [OF gp] r by simp
  moreover have "day_rules inst d r"
  proof -
    have "in_budget inst d (last (p # qs)) (route_time inst 0 p qs) e"
      by (rule greedy_day_in_budget [OF assms(1,2) day Cons.prems(2,3) d assms(3)])
    then have "\<not> fgt64 (time_of inst r) (budget inst d)"
      unfolding r plan_end(2) [OF e] by (simp add: in_budget_def fle64_not_fgt64 del: last.simps)
    moreover have "on_time inst 0 p (qs @ [e])"
      using greedy_path_on_time [OF assms(2) gp] e by simp
    ultimately show ?thesis using Cons.prems(2,5) e de r by (simp add: day_rules_def)
  qed
  ultimately show ?case using qs by (auto simp: rules_from_def)
qed

lemma routes_tour_solution [simp]: "routes (tour_solution inst rs) = rs"
  by (simp add: routes_def route_def tour_solution_def tour_day_def comp_def)

lemma revalued_tour_solution:
  assumes "\<forall>ps \<in> set rs. ps \<noteq> []"
  shows "revalued (tour_solution inst rs) = tour_solution inst rs"
proof -
  have "replan inst (tour_day inst ps) = tour_day inst ps" for ps
    by (simp add: replan_def tour_day_def route_def)
  then show ?thesis by (simp add: revalued_def) (simp add: tour_solution_def comp_def)
qed

theorem greedy_tour_accepted:
  assumes "wf_inst inst" "closable inst" "hotel inst (StartHotelID inst)" "hotel inst (EndHotelID inst)"
    and "greedy_tour inst rcl m 0 {} (StartHotelID inst) rs" "length rs = nat (NbDays inst)"
  shows "EvaluateSolution (tour_solution inst rs) = Some (tour_solution inst rs, None)"
proof -
  have "rules_from inst 0 {} rs"
  proof (cases "NbDays inst < 0")
    case True
    then show ?thesis using assms(6) by (simp add: rules_from_def)
  next
    case False
    then show ?thesis using greedy_tour_rules [OF assms(1,2,4,5,3)] assms(6) by simp
  qed
  then have "valid_routes inst rs" by (simp add: rules_from_def valid_routes_def)
  moreover have "SolInstance (tour_solution inst rs) = inst" by (simp add: tour_solution_def)
  ultimately show ?thesis
    using EvaluateSolution_ok [of "tour_solution inst rs"] assms(1) known_points_tour [OF assms(1,5,3)]
      revalued_tour_solution [OF greedy_tour_nonempty [OF assms(5)]]
    by simp
qed

end
