(* ===== verification/Local_Search.thy ===== *)
theory Local_Search
  imports Shake_Spec Solver_Spec
begin

text \<open>
  The parallel search (\<open>LocalSearch\<close> of \<open>src/optimizer.go\<close>). The part before the goroutines are
  started and the part after \<open>wg.Wait()\<close> are functions. A goroutine is a record with a program counter,
  and one transition of the system lets any one of them run up to its next access to what they share:
  the channel \<open>done\<close>, of which only "open or closed" matters, and its slot of \<open>results\<close>. Every
  goroutine has its own readings of the clock, so the readings of different ones interleave freely.
\<close>

section \<open>Before the goroutines\<close>

text \<open>The variables of \<open>LocalSearch\<close> that the goroutines read.\<close>

record search =
  sInst :: Instance
  sTarget :: f64
  sStart :: int
  sBest :: Solution
  sFoundAt :: int
  sRemaining :: int
  sNbGRASP :: int

definition targetReached :: "f64 \<Rightarrow> Solution \<Rightarrow> bool" where
  "targetReached targetScore sol \<longleftrightarrow> fgt64 targetScore 0 \<and> fge64 (TotalScore sol) targetScore"

definition nbWorkersOf :: "int \<Rightarrow> int" where
  "nbWorkersOf numCPU = (if numCPU < 4 then 4 else numCPU)"

text \<open>An early return is \<^const>\<open>Inl\<close>. \<open>500*time.Millisecond\<close> is \<open>5 * 10^8\<close> nanoseconds.\<close>

definition startSearch ::
  "clock \<Rightarrow> int \<Rightarrow> Solution \<Rightarrow> int \<Rightarrow> f64 \<Rightarrow> nat \<Rightarrow> ((Solution \<times> int) + search) option" where
  "startSearch clk numCPU sol maxDuration targetScore n = do {
     let start = clk n;
     let globalDeadline = start + maxDuration;
     bestSol \<leftarrow> Clone sol;
     bestSol \<leftarrow> EvaluateScore bestSol;
     rng0 \<leftarrow> Seed 42;
     (bestSol, rng0, n) \<leftarrow> applyVND clk globalDeadline bestSol rng0 (n + 1);
     let bestFoundAt = clk n - start;
     if targetReached targetScore bestSol then Some (Inl (bestSol, bestFoundAt))
     else do {
       let remaining = maxDuration - (clk (n + 1) - start);
       if remaining < 500000000 then Some (Inl (bestSol, bestFoundAt))
       else Some (Inr \<lparr>sInst = SolInstance sol, sTarget = targetScore, sStart = start, sBest = bestSol,
         sFoundAt = bestFoundAt, sRemaining = remaining, sNbGRASP = nbWorkersOf numCPU div 2\<rparr>) } }"

section \<open>One goroutine\<close>

datatype pc = AtLoop | AtSelect | AtWork | AtTarget | AtCheck | AtClose | AtEnd | Exited

record worker =
  wPc :: pc
  wRng :: rngSource
  wBest :: Solution
  wFoundAt :: int
  wDeadline :: int
  wForce :: int
  wNoImprove :: int
  wClock :: nat

text \<open>The statements before the loop: the seed and the deadline are two readings of the clock.\<close>

definition startWorker :: "search \<Rightarrow> clock \<Rightarrow> int \<Rightarrow> worker option" where
  "startWorker s clk workerID = do {
     let seed = clk 0 + workerID * 1337;
     rng \<leftarrow> Seed seed;
     localBest \<leftarrow> Clone (sBest s);
     let deadline = clk 1 + sRemaining s;
     Some \<lparr>wPc = AtLoop, wRng = rng, wBest = localBest, wFoundAt = sFoundAt s, wDeadline = deadline,
           wForce = 1, wNoImprove = 0, wClock = 2\<rparr> }"

text \<open>\<open>candidate\<close> replaces \<open>localBest\<close> when it has a greater score, or the same score and is shorter.\<close>

definition improvesOn :: "Solution \<Rightarrow> Solution \<Rightarrow> bool" where
  "improvesOn candidate best \<longleftrightarrow>
     fgt64 (TotalScore candidate) (TotalScore best) \<or>
     (feq64 (TotalScore candidate) (TotalScore best) \<and> flt64 (TotalDist candidate) (TotalDist best))"

text \<open>\<open>noImproveCount++\<close> and the cycle of the strength of the shake.\<close>

definition noImprove :: "worker \<Rightarrow> worker" where
  "noImprove wk =
     (let c = wNoImprove wk + 1
      in if c > 5 then wk\<lparr>wForce := (if wForce wk + 1 > 4 then 1 else wForce wk + 1), wNoImprove := 0\<rparr>
         else wk\<lparr>wNoImprove := c\<rparr>)"

text \<open>
  The body of the GRASP loop after its \<open>select\<close>, up to the comparison with the target; \<open>False\<close> is the
  \<open>continue\<close> for an invalid candidate.
\<close>

definition graspIter :: "search \<Rightarrow> clock \<Rightarrow> int \<Rightarrow> worker \<Rightarrow> (worker \<times> bool) option" where
  "graspIter s clk workerID wk = do {
     let rclSize = 2 + workerID mod 5 + 1;
     let ratioMode = workerID mod 4;
     (candidate, rng) \<leftarrow> SolveGreedyRandomized (sInst s) rclSize (Some (wRng wk)) ratioMode;
     rng \<leftarrow> rng;
     candidate \<leftarrow> EvaluateScore candidate;
     (candidate, rng, n) \<leftarrow> applyVND clk (wDeadline wk) candidate rng (wClock wk);
     (candidate, err) \<leftarrow> EvaluateSolution candidate;
     let wk = wk\<lparr>wRng := rng, wClock := n\<rparr>;
     if err \<noteq> None then Some (wk, False)
     else if improvesOn candidate (wBest wk)
     then Some (wk\<lparr>wBest := candidate, wFoundAt := clk n - sStart s, wClock := n + 1\<rparr>, True)
     else Some (wk, True) }"

text \<open>The same for the VNS loop.\<close>

definition vnsIter :: "search \<Rightarrow> map_order \<Rightarrow> clock \<Rightarrow> worker \<Rightarrow> (worker \<times> bool) option" where
  "vnsIter s keys clk wk = do {
     candidate \<leftarrow> Clone (wBest wk);
     (candidate, rng) \<leftarrow> applyShake keys candidate (wForce wk) (wRng wk);
     (candidate, rng, n) \<leftarrow> applyVND clk (wDeadline wk) candidate rng (wClock wk);
     (candidate, err) \<leftarrow> EvaluateSolution candidate;
     let wk = wk\<lparr>wRng := rng, wClock := n\<rparr>;
     if err \<noteq> None then Some (noImprove wk, False)
     else if improvesOn candidate (wBest wk)
     then Some (wk\<lparr>wBest := candidate, wFoundAt := clk n - sStart s, wClock := n + 1, wForce := 1, wNoImprove := 0\<rparr>, True)
     else Some (noImprove wk, True) }"

section \<open>The system of the goroutines\<close>

record workerResult =
  rSol :: Solution
  rFoundAt :: int

record system =
  workers :: "worker list"
  doneClosed :: bool
  results :: "workerResult option list"
  panicked :: bool

definition put_worker :: "int \<Rightarrow> worker \<Rightarrow> system \<Rightarrow> system option" where
  "put_worker w wk st = do { ws \<leftarrow> go_set (workers st) w wk; Some (st\<lparr>workers := ws\<rparr>) }"

text \<open>\<open>results[workerID] = workerResult{sol: localBest, foundAt: localBestFoundAt}\<close>\<close>

definition put_result :: "int \<Rightarrow> worker \<Rightarrow> system \<Rightarrow> system option" where
  "put_result w wk st = do {
     rs \<leftarrow> go_set (results st) w (Some \<lparr>rSol = wBest wk, rFoundAt = wFoundAt wk\<rparr>);
     Some (st\<lparr>results := rs\<rparr>) }"

text \<open>
  The next atomic step of goroutine \<open>w\<close>: the condition of the loop, the first \<open>select\<close>, the work on a
  candidate, the comparison with the target (which writes the result), the second \<open>select\<close>, \<open>close(done)\<close>,
  and the write of the result after the loop. Closing a closed channel panics.
\<close>

definition workerStep :: "search \<Rightarrow> map_order \<Rightarrow> clock \<Rightarrow> int \<Rightarrow> system \<Rightarrow> system option" where
  "workerStep s keys clk w st = do {
     wk \<leftarrow> go_nth (workers st) w;
     case wPc wk of
       AtLoop \<Rightarrow>
         put_worker w (wk\<lparr>wPc := (if clk (wClock wk) < wDeadline wk then AtSelect else AtEnd), wClock := wClock wk + 1\<rparr>) st
     | AtSelect \<Rightarrow>
         if doneClosed st then do {
           st \<leftarrow> put_result w wk st;
           put_worker w (wk\<lparr>wPc := Exited\<rparr>) st }
         else put_worker w (wk\<lparr>wPc := AtWork\<rparr>) st
     | AtWork \<Rightarrow> do {
         (wk, valid) \<leftarrow> (if w < sNbGRASP s then graspIter s clk w wk else vnsIter s keys clk wk);
         put_worker w (wk\<lparr>wPc := (if valid then AtTarget else AtLoop)\<rparr>) st }
     | AtTarget \<Rightarrow>
         if targetReached (sTarget s) (wBest wk) then do {
           st \<leftarrow> put_result w wk st;
           put_worker w (wk\<lparr>wPc := AtCheck\<rparr>) st }
         else put_worker w (wk\<lparr>wPc := AtLoop\<rparr>) st
     | AtCheck \<Rightarrow> put_worker w (wk\<lparr>wPc := (if doneClosed st then Exited else AtClose)\<rparr>) st
     | AtClose \<Rightarrow>
         if doneClosed st then Some (st\<lparr>panicked := True\<rparr>)
         else put_worker w (wk\<lparr>wPc := Exited\<rparr>) (st\<lparr>doneClosed := True\<rparr>)
     | AtEnd \<Rightarrow> do {
         st \<leftarrow> put_result w wk st;
         put_worker w (wk\<lparr>wPc := Exited\<rparr>) st }
     | Exited \<Rightarrow> None }"

text \<open>A panic of one goroutine ends the program, so no goroutine runs after it.\<close>

inductive sysStep :: "search \<Rightarrow> map_order \<Rightarrow> (int \<Rightarrow> clock) \<Rightarrow> system \<Rightarrow> system \<Rightarrow> bool"
  for s keys clks where
  step: "\<not> panicked st \<Longrightarrow> workerStep s keys (clks w) w st = Some st' \<Longrightarrow> sysStep s keys clks st st'"

inductive_cases sysStepE: "sysStep s keys clks st st'"

text \<open>The goroutines of \<open>for w := 0; w < nbWorkers; w++\<close>, all started.\<close>

definition startWorkers :: "search \<Rightarrow> (int \<Rightarrow> clock) \<Rightarrow> int \<Rightarrow> system option" where
  "startWorkers s clks nbWorkers = do {
     ws \<leftarrow> go_range (\<lambda>w ws. do { wk \<leftarrow> startWorker s (clks w) w; Some (ws @ [wk]) }) [0..nbWorkers - 1] [];
     Some \<lparr>workers = ws, doneClosed = False, results = replicate (nat nbWorkers) None, panicked = False\<rparr> }"

section \<open>After the goroutines\<close>

definition mergeResult :: "workerResult option \<Rightarrow> Solution \<times> int \<Rightarrow> (Solution \<times> int) option" where
  "mergeResult r = (\<lambda>(bestSol, bestFoundAt).
     case r of None \<Rightarrow> Some (bestSol, bestFoundAt)
     | Some r \<Rightarrow> do {
         (sol, err) \<leftarrow> EvaluateSolution (rSol r);
         if err \<noteq> None then Some (bestSol, bestFoundAt)
         else Some (if improvesOn sol bestSol then (sol, rFoundAt r) else (bestSol, bestFoundAt)) })"

definition endSearch :: "search \<Rightarrow> system \<Rightarrow> (Solution \<times> int) option" where
  "endSearch s st = do {
     (bestSol, bestFoundAt) \<leftarrow> go_range mergeResult (results st) (sBest s, sFoundAt s);
     bestSol \<leftarrow> EvaluateScore bestSol;
     Some (bestSol, bestFoundAt) }"

text \<open>\<open>wg.Wait()\<close> returns when every goroutine has exited.\<close>

definition all_exited :: "system \<Rightarrow> bool" where
  "all_exited st \<longleftrightarrow> (\<forall>wk \<in> set (workers st). wPc wk = Exited)"

text \<open>
  The results that \<open>LocalSearch\<close> can return: the readings of the clocks are given, the interleaving of
  the goroutines is not.
\<close>

inductive LocalSearch ::
  "clock \<Rightarrow> map_order \<Rightarrow> (int \<Rightarrow> clock) \<Rightarrow> int \<Rightarrow> Solution \<Rightarrow> int \<Rightarrow> f64 \<Rightarrow> Solution \<times> int \<Rightarrow> bool"
  for clk keys clks numCPU sol maxDuration targetScore where
  early: "startSearch clk numCPU sol maxDuration targetScore 0 = Some (Inl r) \<Longrightarrow>
    LocalSearch clk keys clks numCPU sol maxDuration targetScore r"
| searched: "startSearch clk numCPU sol maxDuration targetScore 0 = Some (Inr s) \<Longrightarrow>
    startWorkers s clks (nbWorkersOf numCPU) = Some st \<Longrightarrow> (sysStep s keys clks)\<^sup>*\<^sup>* st st' \<Longrightarrow>
    all_exited st' \<Longrightarrow> \<not> panicked st' \<Longrightarrow> endSearch s st' = Some r \<Longrightarrow>
    LocalSearch clk keys clks numCPU sol maxDuration targetScore r"

inductive_cases LocalSearchE: "LocalSearch clk keys clks numCPU sol maxDuration targetScore r"

end
