(* ===== verification/Driver.thy ===== *)
theory Driver
  imports Parser Writer Solver Validator Local_Search
begin

text \<open>
  \<open>main.go\<close>: what is done for every instance file. The console is left out but for the day lines, whose
  indexing may panic; the files are those of the operating system \<^typ>\<open>('fs, 'r) os\<close>, and the readings
  of the clocks are any.
\<close>

section \<open>Paths\<close>

text \<open>\<open>Base\<close> of \<open>internal/filepathlite/path.go\<close> on Unix: no volume names, separator \<open>/\<close>.\<close>

definition Base :: "string \<Rightarrow> string" where
  "Base path =
     (if path = [] then ''.''
      else
        let path = rev (dropWhile (\<lambda>c. c = CHR ''/'') (rev path));
            path = rev (takeWhile (\<lambda>c. c \<noteq> CHR ''/'') (rev path))
        in if path = [] then ''/'' else path)"

definition numStr :: "string \<Rightarrow> string" where
  "numStr instPath = TrimSuffix (TrimPrefix (Base instPath) ''Inst'') ''.txt''"

text \<open>
  \<open>filepath.Join("solutions", fmt.Sprintf("Instance%s.sol", numStr))\<close>: \<open>numStr\<close> comes from a base name, so
  the path is clean as it is.
\<close>

definition outputPath :: "string \<Rightarrow> string" where
  "outputPath instPath = ''solutions/Instance'' @ numStr instPath @ ''.sol''"

definition timePath :: "string \<Rightarrow> string" where
  "timePath instPath = TrimSuffix (outputPath instPath) ''.sol'' @ ''.time''"

section \<open>Known scores\<close>

text \<open>The constants are small integers, whose conversion to a float is exact.\<close>

definition optimalScores :: "(string \<times> nat) list" where
  "optimalScores = [
     (''1'', 816), (''2'', 900), (''3'', 1062), (''4'', 1062), (''5'', 1116), (''6'', 1236),
     (''7'', 1236), (''8'', 1236), (''9'', 1284), (''10'', 1284), (''11'', 1284), (''12'', 1670),
     (''13'', 173), (''14'', 241), (''15'', 367), (''16'', 412), (''17'', 412), (''18'', 504),
     (''19'', 504), (''20'', 504), (''21'', 590), (''22'', 1114), (''23'', 1164), (''24'', 1234),
     (''25'', 1234), (''26'', 1261), (''27'', 1306), (''28'', 984), (''29'', 1188), (''30'', 1284),
     (''31'', 1670), (''32'', 299), (''33'', 504), (''34'', 1164), (''35'', 1201), (''36'', 1284)]"

definition targetOf :: "string \<Rightarrow> f64" where
  "targetOf num = (case map_of optimalScores num of None \<Rightarrow> 0 | Some n \<Rightarrow> fuint64to64 (word_of_nat n))"

section \<open>The results of an earlier run\<close>

definition f64_minus_1 :: f64 where "f64_minus_1 = 0xBFF0000000000000"
definition f64_999999999 :: f64 where "f64_999999999 = 0x41CDCD64FF800000"

definition oldResult :: "('fs, 'r) os \<Rightarrow> 'fs \<Rightarrow> string \<Rightarrow> string \<Rightarrow> (f64 \<times> f64) option" where
  "oldResult os fs outPath tPath = do {
     oldScore \<leftarrow>
       (case osOpen os fs outPath of None \<Rightarrow> Some f64_minus_1
        | Some f \<Rightarrow> do {
            (ok, scanner) \<leftarrow> Scan (FD_Read (osRead os)) (NewScanner f);
            if ok then parsedFloat (TrimSpace (Scanner_Text scanner)) else Some f64_minus_1 });
     oldTime \<leftarrow>
       (case osReadFile os fs tPath of None \<Rightarrow> Some f64_999999999 | Some data \<Rightarrow> parsedFloat (TrimSpace data));
     Some (oldScore, oldTime) }"

text \<open>\<open>elapsed.Microseconds()\<close>, and its conversion.\<close>

definition Microseconds :: "int \<Rightarrow> int" where
  "Microseconds d = sgn d * (\<bar>d\<bar> div 1000)"

definition shouldWrite :: "f64 \<Rightarrow> int \<Rightarrow> f64 \<times> f64 \<Rightarrow> bool" where
  "shouldWrite score elapsed old \<longleftrightarrow>
     (let (oldScore, oldTime) = old; elapsedUs = fintto64 (word_of_int (Microseconds elapsed))
      in fgt64 score oldScore \<or> (feq64 score oldScore \<and> flt64 elapsedUs oldTime))"

section \<open>One instance\<close>

text \<open>The lines that are printed for the days.\<close>

definition dayReport :: "Instance \<Rightarrow> int \<times> DayTour \<Rightarrow> string option" where
  "dayReport inst dd = do {
     let (d, day) = dd;
     nbSites \<leftarrow> go_range (\<lambda>s n. do {
         p \<leftarrow> go_nth (Points inst) (PointID s);
         Some (if pType p = TypeSite then n + 1 else n) }) (Steps day) (0 :: int);
     dist \<leftarrow> fmtFloat (DistTotal day) 2;
     budget \<leftarrow> DayMaxDist inst d;
     most \<leftarrow> fmtFloat budget 2;
     Some (''  Jour '' @ fmtInteger (word_of_int (d + 1)) True @ '' : '' @ fmtInteger (word_of_int nbSites) True @
       '' sites, dist='' @ dist @ '' / '' @ most) }"

definition reportDays :: "Instance \<Rightarrow> Solution \<Rightarrow> string list option" where
  "reportDays inst sol =
     go_range (\<lambda>dd ls. do { l \<leftarrow> dayReport inst dd; Some (ls @ [l]) }) (go_enum (Days sol)) []"

text \<open>The greedy solution, its score, and whether the search is skipped.\<close>

definition firstSolution :: "Instance \<Rightarrow> f64 \<Rightarrow> (Solution \<times> bool) option" where
  "firstSolution inst target = do {
     solution \<leftarrow> SolveGreedy inst;
     solution \<leftarrow> EvaluateScore solution;
     Some (solution, fgt64 target 0 \<and> fge64 (TotalScore solution) target) }"

text \<open>
  The validation with its fall-back to the greedy solution. When the search was skipped both
  variables point to the same solution, so the second validation sees what the first one wrote;
  \<^const>\<open>None\<close> inside means that both are invalid.
\<close>

definition chosenSolution :: "Solution \<Rightarrow> Solution \<Rightarrow> bool \<Rightarrow> Solution option option" where
  "chosenSolution solution optSolution skipped = do {
     (optSolution, errValid) \<leftarrow> EvaluateSolution optSolution;
     if errValid = None then Some (Some optSolution)
     else do {
       (optSolution, errValid) \<leftarrow> EvaluateSolution (if skipped then optSolution else solution);
       Some (if errValid = None then Some optSolution else None) } }"

text \<open>The end of the loop body: the report, the comparison with the earlier result, the files.\<close>

definition recordSolution :: "('fs, 'r) os \<Rightarrow> string \<Rightarrow> Instance \<Rightarrow> Solution \<Rightarrow> int \<Rightarrow> 'fs \<Rightarrow> 'fs option" where
  "recordSolution os instPath inst optSolution elapsed fs = do {
     _ \<leftarrow> reportDays inst optSolution;
     old \<leftarrow> oldResult os fs (outputPath instPath) (timePath instPath);
     if shouldWrite (TotalScore optSolution) elapsed old then do {
       (err, fs) \<leftarrow> WriteSolution os optSolution (outputPath instPath) fs;
       Some (if err \<noteq> None then fs
             else osWriteFile os fs (timePath instPath) (fmtInteger (word_of_int (Microseconds elapsed)) True)) }
     else Some fs }"

definition searchDuration :: int where "searchDuration = 120 * 1000000000"

text \<open>
  The runs of the loop body that end without a panic: the instance is not loaded, the search is
  skipped, or \<^const>\<open>LocalSearch\<close> returns one of its results. \<open>clk\<close> and \<open>clks\<close> are the readings of the clock
  and \<open>keys\<close> the order of the map iterations.
\<close>

inductive runInstance ::
  "('fs, 'r) os \<Rightarrow> clock \<Rightarrow> map_order \<Rightarrow> (int \<Rightarrow> clock) \<Rightarrow> int \<Rightarrow> string \<Rightarrow> 'fs \<Rightarrow> 'fs \<Rightarrow> bool"
  for os clk keys clks numCPU instPath fs where
  not_loaded: "LoadInstance (osRead os) (osOpen os fs) instPath = Some (Inl err) \<Longrightarrow>
    runInstance os clk keys clks numCPU instPath fs fs"
| solved: "LoadInstance (osRead os) (osOpen os fs) instPath = Some (Inr inst) \<Longrightarrow>
    firstSolution inst (targetOf (numStr instPath)) = Some (solution, skipped) \<Longrightarrow>
    (if skipped then optSolution = solution
     else LocalSearch clk keys clks numCPU solution searchDuration (targetOf (numStr instPath)) (optSolution, elapsed)) \<Longrightarrow>
    chosenSolution solution optSolution skipped = Some chosen \<Longrightarrow>
    (case chosen of None \<Rightarrow> Some fs | Some sol \<Rightarrow> recordSolution os instPath inst sol elapsed fs) = Some fs' \<Longrightarrow>
    runInstance os clk keys clks numCPU instPath fs fs'"

inductive_cases runInstanceE: "runInstance os clk keys clks numCPU instPath fs fs'"

text \<open>The loop over the files, each with readings of the clock and map orders of its own.\<close>

fun runAll ::
  "('fs, 'r) os \<Rightarrow> (string \<Rightarrow> clock \<times> map_order \<times> (int \<Rightarrow> clock)) \<Rightarrow> int \<Rightarrow> string list \<Rightarrow> 'fs \<Rightarrow> 'fs \<Rightarrow> bool" where
  "runAll os env numCPU [] fs fs' \<longleftrightarrow> fs' = fs"
| "runAll os env numCPU (p # ps) fs fs' \<longleftrightarrow>
     (let (clk, keys, clks) = env p
      in \<exists>fs1. runInstance os clk keys clks numCPU p fs fs1 \<and> runAll os env numCPU ps fs1 fs')"

section \<open>The program\<close>

text \<open>The warm-up: its results are dropped, but it may panic.\<close>

definition warmUp :: "('fs, 'r) os \<Rightarrow> 'fs \<Rightarrow> string \<Rightarrow> unit option" where
  "warmUp os fs instPath = do {
     res \<leftarrow> LoadInstance (osRead os) (osOpen os fs) instPath;
     case res of Inl _ \<Rightarrow> Some ()
     | Inr warmInst \<Rightarrow> do {
         w \<leftarrow> SolveGreedy warmInst;
         _ \<leftarrow> EvaluateScore w;
         Some () } }"

text \<open>
  \<open>filepath.Join("instances", "Inst*.txt")\<close> is the pattern. \<open>log.Fatal\<close> ends the program at once when the
  pattern is bad or no file matches.
\<close>

definition runMain ::
  "('fs, 'r) os \<Rightarrow> (string \<Rightarrow> clock \<times> map_order \<times> (int \<Rightarrow> clock)) \<Rightarrow> int \<Rightarrow> 'fs \<Rightarrow> 'fs \<Rightarrow> bool" where
  "runMain os env numCPU fs fs' \<longleftrightarrow>
     (let fs = osMkdirAll os fs ''solutions''
      in case osGlob os fs ''instances/Inst*.txt'' of
           None \<Rightarrow> fs' = fs
         | Some [] \<Rightarrow> fs' = fs
         | Some (p # ps) \<Rightarrow> warmUp os fs p \<noteq> None \<and> runAll os env numCPU (p # ps) fs fs')"

end
