(* ===== verification/Go_Scanner_Spec.thy ===== *)
theory Go_Scanner_Spec
  imports Go_Scanner
begin

text \<open>
  What the scanner promises: the successive calls of \<open>Scan\<close> give the lines of what the reader holds,
  whatever portions the reader hands out, up to the first line that does not fit into the buffer.
  The reader is an interface; the reads of a regular file through \<^const>\<open>FD_Read\<close> implement it.
\<close>

section \<open>The first line\<close>

definition line_of :: "string \<Rightarrow> string" where
  "line_of u = takeWhile (\<lambda>c. c \<noteq> newline) u"

definition after_line :: "string \<Rightarrow> string" where
  "after_line u = drop (length (line_of u) + 1) u"

lemma line_of_append:
  "line_of (xs @ ys) = (if length (line_of xs) < length xs then line_of xs else xs @ line_of ys)"
  by (induction xs) (auto simp: line_of_def)

lemma length_line_of: "length (line_of xs) \<le> length xs"
  by (simp add: line_of_def length_takeWhile_le)

lemma take_line_of [simp]: "take (length (line_of xs)) xs = line_of xs"
  by (simp add: line_of_def flip: takeWhile_eq_take)

lemma after_line_less: "u \<noteq> [] \<Longrightarrow> length (after_line u) < length u"
  by (cases u) (simp_all add: after_line_def)

text \<open>The lines of a text up to the first one that is too long, and whether there is one.\<close>

function text_lines :: "string \<Rightarrow> string list" where
  "text_lines u =
     (if u = [] \<or> length (line_of u) \<ge> MaxScanTokenSize then []
      else dropCR (line_of u) # text_lines (after_line u))"
  by auto
termination by (relation "measure length") (auto simp: after_line_less)

function long_line :: "string \<Rightarrow> bool" where
  "long_line u \<longleftrightarrow>
     (if u = [] then False else if length (line_of u) \<ge> MaxScanTokenSize then True else long_line (after_line u))"
  by auto
termination by (relation "measure length") (auto simp: after_line_less)

declare text_lines.simps [simp del] long_line.simps [simp del]

lemma long_line_iff: "long_line u \<longleftrightarrow> u \<noteq> [] \<and> (length (line_of u) \<ge> MaxScanTokenSize \<or> long_line (after_line u))"
  by (subst long_line.simps) simp

definition scan_error :: "string \<Rightarrow> io_error option" where
  "scan_error u = (if long_line u then Some ErrTooLong else None)"

section \<open>The interface of a reader\<close>

text \<open>
  The contract of \<open>io.Reader\<close> for a file without read errors: a read fits into the buffer, the bytes
  come in order, a read with room brings bytes or the end, and the end comes without bytes.
\<close>

locale file_reader =
  fixes rd :: "'r reader" and left :: "'r \<Rightarrow> string"
  assumes fits: "rd r n = (bs, err, r') \<Longrightarrow> length bs \<le> n"
    and in_order: "rd r n = (bs, err, r') \<Longrightarrow> left r = bs @ left r'"
    and progress: "rd r n = (bs, None, r') \<Longrightarrow> 0 < n \<Longrightarrow> bs \<noteq> []"
    and at_end: "rd r n = (bs, Some e, r') \<Longrightarrow> e = EOF \<and> left r = []"
begin

definition ready :: "'r Scanner \<Rightarrow> bool" where
  "ready s \<longleftrightarrow> sSplit s = ScanLines \<and> sMax s = MaxScanTokenSize \<and> sEnd s \<le> sLen s \<and>
     sLen s \<le> MaxScanTokenSize \<and> \<not> sDone s \<and> (sErr s = None \<or> sErr s = Some EOF \<and> left (sR s) = [] \<and> length (sData s) < MaxScanTokenSize)"

definition unread :: "'r Scanner \<Rightarrow> string" where
  "unread s = sData s @ left (sR s)"

text \<open>What a call of \<open>Scan\<close> has to do.\<close>

definition scanned :: "string \<Rightarrow> bool \<times> 'r Scanner \<Rightarrow> bool" where
  "scanned u res \<longleftrightarrow>
     (let (ok, s) = res
      in if u = [] then \<not> ok \<and> Scanner_Err s = None
         else if length (line_of u) < MaxScanTokenSize then
           ok \<and> sToken s = Some (dropCR (line_of u)) \<and> ready s \<and> unread s = after_line u
         else \<not> ok \<and> Scanner_Err s = Some ErrTooLong)"

text \<open>Making room keeps the data; it fails only when the data fill the largest buffer.\<close>

lemma shiftData_room:
  assumes "ready s"
  shows "ready (shiftData s)" "sData (shiftData s) = sData s" "sR (shiftData s) = sR s"
    "sErr (shiftData s) = sErr s" "sEnd (shiftData s) = sLen (shiftData s) \<Longrightarrow> sStart (shiftData s) = 0"
  using assms by (auto simp: shiftData_def ready_def sEnd_def)

lemma growBuffer_room:
  assumes "ready s" "sErr s = None" "sEnd s = sLen s \<Longrightarrow> sStart s = 0" "growBuffer s = (ok, s')"
  shows "\<not> ok \<Longrightarrow> s' = s\<lparr>sErr := Some ErrTooLong\<rparr> \<and> length (sData s) = MaxScanTokenSize"
    and "ok \<Longrightarrow> ready s' \<and> sData s' = sData s \<and> sR s' = sR s \<and> sErr s' = None \<and> sEnd s' < sLen s'"
  using assms
  by (auto simp: growBuffer_def ready_def sEnd_def setErr_def MaxScanTokenSize_def startBufSize_def Let_def split: if_splits)

text \<open>A read into a buffer with room.\<close>

lemma readMore_room:
  assumes "ready s" "sErr s = None" "sEnd s < sLen s"
  shows "ready (readMore rd loop s) \<and> unread (readMore rd loop s) = unread s \<and>
    length (left (sR (readMore rd loop s))) + (if sErr (readMore rd loop s) = None then 1 else 0) < length (left (sR s)) + 1"
proof -
  obtain bs err r where r: "rd (sR s) (sLen s - sEnd s) = (bs, err, r)" by (metis prod_cases3)
  note laws = fits [OF r] in_order [OF r]
  show ?thesis
  proof (cases err)
    case None
    then have "bs \<noteq> []" using progress [of "sR s" "sLen s - sEnd s" bs r] r assms(3) by simp
    then show ?thesis using laws None assms r
      by (subst (1 2 3 4) readMore.simps) (auto simp: Let_def ready_def unread_def sEnd_def)
  next
    case (Some e)
    then have "e = EOF" "left (sR s) = []" using at_end [of "sR s" "sLen s - sEnd s" bs e r] r by auto
    then show ?thesis using laws Some assms r
      by (subst (1 2 3 4) readMore.simps) (auto simp: Let_def ready_def unread_def sEnd_def setErr_def)
  qed
qed

text \<open>The tokens of the data in the buffer.\<close>

lemma takeToken_cases:
  assumes "ready s"
  obtains (line) "length (line_of (sData s)) < length (sData s)"
      "takeToken s = Some (Inl (True, s\<lparr>sData := after_line (sData s), sStart := sStart s + (length (line_of (sData s)) + 1),
         sToken := Some (dropCR (line_of (sData s))), sEmpties := 0\<rparr>))"
  | (final) "line_of (sData s) = sData s" "sData s \<noteq> []" "sErr s = Some EOF"
      "takeToken s = Some (Inl (True, s\<lparr>sData := [], sStart := sStart s + length (sData s),
         sToken := Some (dropCR (sData s)), sEmpties := 0\<rparr>))"
  | (finished) "sData s = []" "sErr s = Some EOF" "takeToken s = Some (Inr (s\<lparr>sToken := None\<rparr>))"
  | (more) "line_of (sData s) = sData s" "sErr s = None" "\<exists>t. takeToken s = Some (Inr (s\<lparr>sToken := t\<rparr>))"
proof -
  have split: "sSplit s = ScanLines" using assms by (simp add: ready_def)
  have whole: "line_of (sData s) = sData s" if "\<not> length (line_of (sData s)) < length (sData s)"
    using that length_line_of [of "sData s"] take_line_of [of "sData s"] by (metis le_antisym not_less take_all)
  consider "length (line_of (sData s)) < length (sData s)" | "\<not> length (line_of (sData s)) < length (sData s)" "sErr s = None"
    | "\<not> length (line_of (sData s)) < length (sData s)" "sErr s = Some EOF" "sData s = []"
    | "\<not> length (line_of (sData s)) < length (sData s)" "sErr s = Some EOF" "sData s \<noteq> []"
    using assms by (auto simp: ready_def)
  then show thesis
  proof cases
    case 1
    then have ne: "sData s \<noteq> []" by auto
    then have "ScanLines (sData s) (sErr s \<noteq> None) = (int (length (line_of (sData s))) + 1, Some (dropCR (line_of (sData s))), None)"
      using 1 take_line_of [of "sData s"] by (simp add: ScanLines_def flip: line_of_def)
    then show thesis using 1 ne split
      by (intro line) (simp_all add: takeToken_def advance_def after_line_def nat_add_distrib)
  next
    case 2
    have "ScanLines (sData s) False = (0, None, None)"
      using 2 by (simp add: ScanLines_def flip: line_of_def)
    then show thesis using 2 split whole
      by (intro more) (auto simp: takeToken_def advance_def intro: exI [of _ "sToken s"])
  next
    case 3
    then show thesis using split
      by (intro finished) (simp_all add: takeToken_def advance_def ScanLines_def)
  next
    case 4
    have "ScanLines (sData s) True = (int (length (sData s)), Some (dropCR (sData s)), None)"
      using 4 by (simp add: ScanLines_def flip: line_of_def)
    then show thesis using 4 split whole by (intro final) (simp_all add: takeToken_def advance_def)
  qed
qed

theorem scanLoop_scans:
  assumes "ready s"
  shows "\<exists>res. scanLoop rd s = Some res \<and> scanned (unread s) res"
  using assms
proof (induction "length (left (sR s)) + (if sErr s = None then 1 else 0)" arbitrary: s rule: less_induct)
  case less
  from less.prems show ?case
  proof (cases rule: takeToken_cases)
    case line
    then have "line_of (unread s) = line_of (sData s)" "length (line_of (sData s)) < MaxScanTokenSize" "unread s \<noteq> []"
      using less.prems by (auto simp: unread_def line_of_append ready_def sEnd_def)
    moreover have "after_line (unread s) = after_line (sData s) @ left (sR s)"
      using line(1) by (simp add: unread_def after_line_def line_of_append)
    moreover have "sStart s + (length (line_of (sData s)) + 1) + length (after_line (sData s)) = sEnd s"
      using line(1) by (simp add: after_line_def sEnd_def)
    ultimately show ?thesis using line(2) less.prems
      by (subst scanLoop.simps) (auto simp: scanned_def ready_def sEnd_def unread_def)
  next
    case final
    then have "left (sR s) = []" "length (sData s) < MaxScanTokenSize" using less.prems by (auto simp: ready_def)
    then show ?thesis using final(1-3) less.prems
      by (subst scanLoop.simps) (simp add: final(4) scanned_def unread_def ready_def sEnd_def after_line_def)
  next
    case finished
    then have "unread s = []" using less.prems by (simp add: ready_def unread_def)
    then show ?thesis using finished
      by (subst scanLoop.simps) (simp add: scanned_def Scanner_Err_def)
  next
    case more
    then obtain t where t: "takeToken s = Some (Inr (s\<lparr>sToken := t\<rparr>))" by blast
    define s0 where "s0 = s\<lparr>sToken := t\<rparr>"
    have s0: "ready s0" "sErr s0 = None" "sData s0 = sData s" "sR s0 = sR s"
      using less.prems more(2) by (simp_all add: s0_def ready_def sEnd_def)
    note room = shiftData_room [OF s0(1)]
    obtain ok s1 where g: "growBuffer (shiftData s0) = (ok, s1)" by fastforce
    have fresh: "sErr (shiftData s0) = None" using room(4) s0(2) by simp
    note grown = growBuffer_room [OF room(1) fresh room(5) g]
    show ?thesis
    proof (cases ok)
      case False
      then have full: "s1 = (shiftData s0)\<lparr>sErr := Some ErrTooLong\<rparr>" "length (sData s) = MaxScanTokenSize"
        using grown(1) room(2) s0(3) by auto
      then have "MaxScanTokenSize \<le> length (line_of (unread s))" "unread s \<noteq> []"
        using more(1) by (auto simp: unread_def line_of_append MaxScanTokenSize_def)
      then show ?thesis using full t g False s0(2)
        by (subst scanLoop.simps) (simp add: s0_def [symmetric] scanned_def Scanner_Err_def)
    next
      case True
      then have s1: "ready s1" "sErr s1 = None" "sEnd s1 < sLen s1" "unread s1 = unread s" "sR s1 = sR s"
        using grown(2) room(2,3) s0(3,4) by (auto simp: unread_def)
      let ?s2 = "readMore rd 0 s1"
      have s2: "ready ?s2" "unread ?s2 = unread s"
        "length (left (sR ?s2)) + (if sErr ?s2 = None then 1 else 0) < length (left (sR s)) + (if sErr s = None then 1 else 0)"
        using readMore_room [OF s1(1-3), of 0] s1(4,5) more(2) by simp_all
      from less.hyps [OF s2(3) s2(1)] obtain res where "scanLoop rd ?s2 = Some res" "scanned (unread s) res"
        unfolding s2(2) by blast
      then show ?thesis using t g True s0(2)
        by (subst scanLoop.simps) (simp add: s0_def [symmetric])
    qed
  qed
qed

lemma ready_NewScanner: "ready (NewScanner r)" "unread (NewScanner r) = left r"
  by (simp_all add: NewScanner_def ready_def unread_def sEnd_def)

text \<open>A scanner that still has the lines \<open>ls\<close> to give and then ends with the error \<open>err\<close>.\<close>

definition gives :: "string list \<Rightarrow> io_error option \<Rightarrow> 'r Scanner \<Rightarrow> bool" where
  "gives ls err s \<longleftrightarrow> ready s \<and> text_lines (unread s) = ls \<and> scan_error (unread s) = err"

lemma NewScanner_gives: "gives (text_lines (left r)) (scan_error (left r)) (NewScanner r)"
  by (simp add: gives_def ready_NewScanner)

theorem Scan_end:
  assumes "gives [] err s"
  obtains s' where "Scan rd s = Some (False, s')" "Scanner_Err s' = err"
proof -
  have s: "ready s" "\<not> sDone s" using assms by (simp_all add: gives_def ready_def)
  from scanLoop_scans [OF s(1)] obtain ok s' where r: "scanLoop rd s = Some (ok, s')" "scanned (unread s) (ok, s')" by auto
  have e: "unread s = [] \<or> length (line_of (unread s)) \<ge> MaxScanTokenSize"
    using assms text_lines.simps [of "unread s"] by (auto simp: gives_def split: if_splits)
  have "err = (if unread s = [] then None else Some ErrTooLong)"
    using e assms long_line_iff [of "unread s"] by (auto simp: gives_def scan_error_def)
  then have "\<not> ok \<and> Scanner_Err s' = err" using r(2) e by (auto simp: scanned_def)
  then show thesis using that s(2) r(1) by (simp add: Scan_def)
qed

theorem Scan_line:
  assumes "gives (l # ls) err s"
  obtains s' where "Scan rd s = Some (True, s')" "Scanner_Text s' = l" "gives ls err s'"
proof -
  have s: "ready s" "\<not> sDone s" using assms by (simp_all add: gives_def ready_def)
  from scanLoop_scans [OF s(1)] obtain ok s' where r: "scanLoop rd s = Some (ok, s')" "scanned (unread s) (ok, s')" by auto
  have u: "unread s \<noteq> []" "length (line_of (unread s)) < MaxScanTokenSize"
      "l = dropCR (line_of (unread s))" "ls = text_lines (after_line (unread s))"
    using assms text_lines.simps [of "unread s"] by (auto simp: gives_def split: if_splits)
  have "err = scan_error (after_line (unread s))"
    using assms u(1,2) long_line_iff [of "unread s"] by (auto simp: gives_def scan_error_def)
  then have "ok \<and> Scanner_Text s' = l \<and> gives ls err s'"
    using r(2) u by (simp add: scanned_def gives_def Scanner_Text_def)
  then show thesis using that s(2) r(1) by (simp add: Scan_def)
qed

end

section \<open>Regular files\<close>

text \<open>
  The documented behaviour of \<open>read(2)\<close> on a regular file whose reads succeed: at most the bytes asked
  for, in order, and none only at the end.
\<close>

locale regular_file =
  fixes sys :: "'r reader" and left :: "'r \<Rightarrow> string"
  assumes reads: "sys r n = (bs, err, r') \<Longrightarrow>
    err = None \<and> length bs \<le> n \<and> left r = bs @ left r' \<and> (0 < n \<longrightarrow> left r \<noteq> [] \<longrightarrow> bs \<noteq> [])"

sublocale regular_file \<subseteq> file_reader "FD_Read sys" left
proof -
  have max: "0 < maxRW" by (simp add: maxRW_def)
  have law: "length bs \<le> n \<and> left r = bs @ left r' \<and> (err = None \<longrightarrow> 0 < n \<longrightarrow> bs \<noteq> []) \<and>
      (\<forall>e. err = Some e \<longrightarrow> e = EOF \<and> left r = [])"
    if read: "FD_Read sys r n = (bs, err, r')" for r n bs err r'
  proof -
    obtain cs err' r'' where c: "sys r (if n > maxRW then maxRW else n) = (cs, err', r'')" by (metis prod_cases3)
    show ?thesis using read c reads [OF c] max by (auto simp: FD_Read_def split: if_splits)
  qed
  show "file_reader (FD_Read sys) left"
    by unfold_locales (use law in blast)+
qed

text \<open>
  A file as its unread bytes with the sizes of the portions that the coming reads will bring; when
  the sizes are used up, a read brings all it can.
\<close>

fun portion_read :: "(string \<times> nat list) reader" where
  "portion_read (u, []) n = (take n u, None, (drop n u, []))"
| "portion_read (u, k # ks) n = (let m = min n (Suc k) in (take m u, None, (drop m u, ks)))"

interpretation portions: regular_file portion_read fst
proof
  fix r n bs err r'
  show "portion_read r n = (bs, err, r') \<Longrightarrow>
    err = None \<and> length bs \<le> n \<and> fst r = bs @ fst r' \<and> (0 < n \<longrightarrow> fst r \<noteq> [] \<longrightarrow> bs \<noteq> [])"
    by (cases "(r, n)" rule: portion_read.cases) (auto simp: Let_def)
qed

end
