(* ===== verification/Writer_Spec.thy ===== *)
theory Writer_Spec
  imports Writer Go_Ftoa_Spec Go_Scanner_Spec
begin

text \<open>
  What is written: the text of a solution, that it is what a file holds after \<open>WriteSolution\<close>, and that
  its score and its days can be read back from it. The files of the operating system are an interface.
\<close>

section \<open>The files\<close>

text \<open>
  The contract of files whose reads and writes do not fail: opening gives what a file holds, creating
  may fail and otherwise empties it, writing appends, and no operation touches another file. Whether
  \<open>os.WriteFile\<close> succeeds is left open.
\<close>

locale file_system = regular_file "osRead os" left
  for os :: "('fs, 'r) os" and left :: "'r \<Rightarrow> string" +
  fixes content :: "'fs \<Rightarrow> string \<Rightarrow> string option"
  assumes opens: "content fs p = map_option left (osOpen os fs p)"
    and reads_file: "osReadFile os fs p = content fs p"
    and creates: "osCreate os fs p = Some fs' \<Longrightarrow> content fs' = (content fs)(p \<mapsto> [])"
    and writes: "content fs p = Some u \<Longrightarrow> osWrite os fs p bs = (err, fs') \<Longrightarrow>
      err = None \<and> content fs' = (content fs)(p \<mapsto> u @ bs)"
    and writes_file: "q \<noteq> p \<Longrightarrow> content (osWriteFile os fs p bs) q = content fs q"
    and makes_directory: "content (osMkdirAll os fs p) = content fs"

section \<open>The text of a solution\<close>

definition day_lines :: "DayTour list \<Rightarrow> string" where
  "day_lines days = concat (map (\<lambda>day. dayLine day @ [newline]) days)"

definition solution_text :: "Solution \<Rightarrow> string option" where
  "solution_text sol = map_option (\<lambda>score. score @ newline # day_lines (Days sol)) (fmtFloat (TotalScore sol) 0)"

context file_system
begin

lemma writeDays_appends:
  assumes "content fs p = Some u" "writeDays os p days fs = (err, fs')"
  shows "err = None \<and> content fs' = (content fs)(p \<mapsto> u @ day_lines days)"
  using assms
proof (induction days arbitrary: fs u)
  case Nil
  then show ?case by (auto simp: day_lines_def)
next
  case (Cons day days)
  obtain e fs1 where w: "osWrite os fs p (dayLine day @ [newline]) = (e, fs1)" by fastforce
  from writes [OF Cons.prems(1) w] have e: "e = None" and c: "content fs1 = (content fs)(p \<mapsto> u @ dayLine day @ [newline])"
    by blast+
  have "content fs1 p = Some (u @ dayLine day @ [newline])" by (simp add: c)
  moreover have "writeDays os p days fs1 = (err, fs')" using Cons.prems(2) w e by simp
  ultimately have "err = None" "content fs' = (content fs1)(p \<mapsto> (u @ dayLine day @ [newline]) @ day_lines days)"
    using Cons.IH by blast+
  then show ?case unfolding c by (simp only: fun_upd_upd) (simp add: day_lines_def)
qed

theorem WriteSolution_text:
  assumes "WriteSolution os sol p fs = Some (err, fs')"
  shows "err = Some CannotCreate \<and> fs' = fs \<or>
    err = None \<and> (\<exists>t. solution_text sol = Some t \<and> content fs' = (content fs)(p \<mapsto> t))"
proof (cases "osCreate os fs p")
  case (Some fs0)
  then obtain score where s: "fmtFloat (TotalScore sol) 0 = Some score"
    using assms by (auto simp: WriteSolution_def bind_eq_Some_conv)
  obtain e fs1 where w: "osWrite os fs0 p (score @ [newline]) = (e, fs1)" by fastforce
  have c0: "content fs0 = (content fs)(p \<mapsto> [])" by (rule creates [OF Some])
  with writes [OF _ w] have c1: "content fs1 = (content fs)(p \<mapsto> score @ [newline])" by simp
  have "writeDays os p (Days sol) fs1 = (err, fs')" using assms Some s w by (simp add: WriteSolution_def)
  with writeDays_appends [of fs1 p "score @ [newline]"] c1 show ?thesis
    using s by (auto simp: solution_text_def)
qed (use assms in \<open>simp add: WriteSolution_def\<close>)

end

section \<open>Reading it back\<close>

lemma text_lines_line:
  assumes "newline \<notin> set l" "length l < MaxScanTokenSize"
  shows "text_lines (l @ newline # u) = dropCR l # text_lines u"
proof -
  have "line_of (l @ newline # u) = l" using assms(1) by (induction l) (auto simp: line_of_def)
  then show ?thesis using assms(2) by (subst text_lines.simps) (simp add: after_line_def)
qed

lemma long_line_line:
  assumes "newline \<notin> set l" "length l < MaxScanTokenSize"
  shows "long_line (l @ newline # u) = long_line u"
proof -
  have "line_of (l @ newline # u) = l" using assms(1) by (induction l) (auto simp: line_of_def)
  then show ?thesis using assms(2) by (subst long_line.simps) (simp add: after_line_def)
qed

lemma dropCR_id: "CHR 0x0D \<notin> set l \<Longrightarrow> dropCR l = l"
  unfolding dropCR_def using last_in_set [of l] by (cases l) auto

text \<open>The identifiers that \<open>%d\<close> and \<open>Atoi\<close> are exact for; those of points are far smaller.\<close>

definition printable :: "DayTour \<Rightarrow> bool" where
  "printable day \<longleftrightarrow> (\<forall>step \<in> set (Steps day). 0 \<le> PointID step \<and> PointID step < 10 ^ 18) \<and>
     length (dayLine day) < MaxScanTokenSize"

lemma digits_word_like: "word_like (digits_of n)"
  using digits_of_digits [of n] digits_of_ne [of n]
  by (fastforce simp: word_like_def is_digit_def asciiSpace_def RuneSelf_def)

lemma step_words:
  assumes "printable day"
  shows "dayLine day = Join (map (\<lambda>step. digits_of (nat (PointID step))) (Steps day)) '' ''"
    "\<forall>step \<in> set (Steps day). Atoi (digits_of (nat (PointID step))) = (PointID step, None)"
proof -
  have step: "fmtInteger (word_of_int (PointID step)) True = digits_of (nat (PointID step)) \<and>
      Atoi (digits_of (nat (PointID step))) = (PointID step, None)" if "step \<in> set (Steps day)" for step
  proof -
    have n: "0 \<le> PointID step" "nat (PointID step) < 10 ^ 18"
      using assms that by (auto simp: printable_def nat_less_iff)
    then have w: "(word_of_int (PointID step) :: 64 word) = word_of_nat (nat (PointID step))"
      by (simp only: of_nat_nat)
    have f: "fmtInteger (word_of_nat (nat (PointID step))) True = digits_of (nat (PointID step))"
      using n(2) by (intro fmtInteger_nat) simp
    moreover have "int (nat (PointID step)) = PointID step" using n(1) by simp
    ultimately show ?thesis using Atoi_fmtInteger [OF n(2)] by (simp only: w)
  qed
  then have "map (\<lambda>step. fmtInteger (word_of_int (PointID step)) True) (Steps day) =
      map (\<lambda>step. digits_of (nat (PointID step))) (Steps day)" by simp
  then show "dayLine day = Join (map (\<lambda>step. digits_of (nat (PointID step))) (Steps day)) '' ''" by (simp only: dayLine_def)
  show "\<forall>step \<in> set (Steps day). Atoi (digits_of (nat (PointID step))) = (PointID step, None)" using step by blast
qed

lemma dayLine_Fields:
  assumes "printable day"
  obtains ws where "Fields (dayLine day) = Some ws" "map Atoi ws = map (\<lambda>step. (PointID step, None)) (Steps day)"
proof (rule that)
  let ?ws = "map (\<lambda>step. digits_of (nat (PointID step))) (Steps day)"
  show "Fields (dayLine day) = Some ?ws"
    unfolding step_words(1) [OF assms] by (rule Fields_Join) (simp add: digits_word_like)
  show "map Atoi ?ws = map (\<lambda>step. (PointID step, None)) (Steps day)" using step_words(2) [OF assms] by simp
qed

text \<open>A line of digits and spaces.\<close>

definition plain :: "string \<Rightarrow> bool" where
  "plain l \<longleftrightarrow> (\<forall>c \<in> set l. is_digit c \<or> c = CHR '' '')"

lemma plain_line: "plain l \<Longrightarrow> newline \<notin> set l \<and> dropCR l = l"
  by (auto simp: plain_def is_digit_def intro!: dropCR_id)

lemma plain_dayLine: "printable day \<Longrightarrow> plain (dayLine day)"
proof -
  have "plain (Join ws '' '')" if "\<forall>w \<in> set ws. \<forall>c \<in> set w. is_digit c" for ws
    using that by (cases ws) (auto simp: plain_def Join_Cons)
  then show "plain (dayLine day)" if "printable day"
    unfolding step_words(1) [OF that] using digits_of_digits by auto
qed

lemma text_lines_concat:
  assumes "\<forall>l \<in> set ls. newline \<notin> set l \<and> length l < MaxScanTokenSize \<and> dropCR l = l"
  shows "text_lines (concat (map (\<lambda>l. l @ [newline]) ls)) = ls \<and> \<not> long_line (concat (map (\<lambda>l. l @ [newline]) ls))"
  using assms
proof (induction ls)
  case Nil
  show ?case by (simp add: text_lines.simps long_line.simps)
next
  case (Cons l ls)
  then have l: "newline \<notin> set l" "length l < MaxScanTokenSize" "dropCR l = l" by simp_all
  show ?case using Cons text_lines_line [OF l(1,2)] long_line_line [OF l(1,2)] l(3) by simp
qed

lemma text_lines_days:
  assumes "\<forall>day \<in> set days. printable day"
  shows "text_lines (day_lines days) = map dayLine days \<and> \<not> long_line (day_lines days)"
proof -
  have d: "day_lines days = concat (map (\<lambda>l. l @ [newline]) (map dayLine days))" by (simp add: day_lines_def comp_def)
  have "\<forall>l \<in> set (map dayLine days). newline \<notin> set l \<and> length l < MaxScanTokenSize \<and> dropCR l = l"
    using assms plain_line [OF plain_dayLine] by (auto simp: printable_def)
  then show ?thesis unfolding d by (rule text_lines_concat)
qed

lemma TrimSpace_digits: "TrimSpace (digits_of n) = digits_of n"
proof -
  have w: "word_like (digits_of n)" by (rule digits_word_like)
  then have "ascii (digits_of n)" by (auto simp: word_like_def ascii_def)
  moreover have "dropWhile asciiSpace (digits_of n) = digits_of n"
    using w by (cases "digits_of n") (auto simp: word_like_def)
  moreover have "dropWhile asciiSpace (rev (digits_of n)) = rev (digits_of n)"
  proof -
    have "\<forall>c \<in> set (rev (digits_of n)). \<not> asciiSpace c" using w by (auto simp: word_like_def)
    then show ?thesis by (cases "rev (digits_of n)") auto
  qed
  ultimately show ?thesis by (simp add: TrimSpace_ascii)
qed

theorem solution_text_lines:
  assumes "TotalScore sol = fnat n" "n < 2 ^ 52" "\<forall>day \<in> set (Days sol). printable day"
  shows "\<exists>t. solution_text sol = Some t \<and> text_lines t = digits_of n # map dayLine (Days sol) \<and> scan_error t = None"
proof -
  let ?t = "digits_of n @ newline # day_lines (Days sol)"
  have "plain (digits_of n)" using digits_of_digits [of n] by (simp add: plain_def)
  then have l: "newline \<notin> set (digits_of n)" "dropCR (digits_of n) = digits_of n" using plain_line by simp_all
  have "n < 10 ^ 16" using assms(2) by simp
  then have "length (digits_of n) \<le> 16" by (rule digits_of_length) simp
  then have len: "length (digits_of n) < MaxScanTokenSize" by (simp add: MaxScanTokenSize_def)
  have "solution_text sol = Some ?t" using fmtFloat_integer [of n] assms(1,2) by (simp add: solution_text_def)
  moreover have "text_lines ?t = digits_of n # map dayLine (Days sol)" "scan_error ?t = None"
    using text_lines_line [OF l(1) len] long_line_line [OF l(1) len] text_lines_days [OF assms(3)] l(2)
    by (simp_all add: scan_error_def)
  ultimately show ?thesis by blast
qed

section \<open>Files in memory\<close>

text \<open>
  Operating systems as the contract demands exist: here the files are a map, a read brings all it can,
  and the files among \<open>names\<close> that exist match every pattern.
\<close>

definition mem_os :: "string list \<Rightarrow> (string \<Rightarrow> string option, string \<times> nat list) os" where
  "mem_os names = \<lparr>osOpen = (\<lambda>fs p. map_option (\<lambda>u. (u, [])) (fs p)), osRead = portion_read, osReadFile = (\<lambda>fs p. fs p),
     osCreate = (\<lambda>fs p. Some (fs(p \<mapsto> []))),
     osWrite = (\<lambda>fs p bs. (None, fs(p \<mapsto> (case fs p of None \<Rightarrow> bs | Some u \<Rightarrow> u @ bs)))),
     osWriteFile = (\<lambda>fs p bs. fs(p \<mapsto> bs)), osMkdirAll = (\<lambda>fs p. fs),
     osGlob = (\<lambda>fs pattern. Some (filter (\<lambda>p. fs p \<noteq> None) names))\<rparr>"

interpretation mem: file_system "mem_os names" fst "\<lambda>fs. fs"
proof
  have r: "osRead (mem_os names) = portion_read" by (simp add: mem_os_def)
  show "err = None \<and> length bs \<le> n \<and> fst r = bs @ fst r' \<and> (0 < n \<longrightarrow> fst r \<noteq> [] \<longrightarrow> bs \<noteq> [])"
    if "osRead (mem_os names) r n = (bs, err, r')" for r n bs err r'
    using that unfolding r by (rule portions.reads)
qed (auto simp: mem_os_def option.map_comp comp_def option.map_ident)

end
