(* ===== verification/Go_Decimal_Spec.thy ===== *)
theory Go_Decimal_Spec
  imports Go_Decimal
begin

text \<open>
  The value of a multiprecision decimal, and what the shifts do to it: \<open>Shift\<close> multiplies by a power
  of two, exactly as long as no digit is dropped, and never writes outside the digits. The second
  part rests on the table \<^const>\<open>leftcheats\<close> being right.
\<close>

section \<open>Digit lists\<close>

definition num :: "nat list \<Rightarrow> nat" where
  "num ds = foldl (\<lambda>n c. 10 * n + c) 0 ds"

lemma num_Nil [simp]: "num [] = 0"
  by (simp add: num_def)

lemma num_snoc [simp]: "num (ds @ [c]) = 10 * num ds + c"
  by (simp add: num_def)

lemma num_append: "num (ds @ es) = num ds * 10 ^ length es + num es"
proof (induction es rule: rev_induct)
  case (snoc c es)
  have "num (ds @ es @ [c]) = 10 * num (ds @ es) + c" using num_snoc [of "ds @ es" c] by simp
  then show ?case using snoc by (simp add: algebra_simps)
qed simp

lemma num_Cons: "num (c # ds) = c * 10 ^ length ds + num ds"
  using num_append [of "[c]" ds] num_snoc [of "[]" c] by simp

lemma num_zeros: "num (ds @ replicate j 0) = num ds * 10 ^ j"
  by (induction j) (simp_all add: replicate_append_same [symmetric] num_snoc [of "ds @ _", simplified])

definition digits :: "nat list \<Rightarrow> bool" where
  "digits ds \<longleftrightarrow> (\<forall>c \<in> set ds. c \<le> 9)"

lemma digits_simps [simp]:
  "digits []" "digits (c # ds) \<longleftrightarrow> c \<le> 9 \<and> digits ds" "digits (ds @ es) \<longleftrightarrow> digits ds \<and> digits es"
  "digits (rev ds) \<longleftrightarrow> digits ds"
  by (auto simp: digits_def)

lemma digits_take: "digits ds \<Longrightarrow> digits (take n ds)"
  by (auto simp: digits_def dest: in_set_takeD)

lemma num_less: "digits ds \<Longrightarrow> num ds < 10 ^ length ds"
proof (induction ds)
  case (Cons c ds)
  then have "c * 10 ^ length ds \<le> 9 * 10 ^ length ds" "num ds < 10 ^ length ds" by (simp_all only: mult_le_mono1 digits_simps)
  then have "c * 10 ^ length ds + num ds < 10 * 10 ^ length ds" by linarith
  then show ?case by (simp add: num_Cons)
qed simp

lemma num_ge: "ds \<noteq> [] \<Longrightarrow> hd ds \<noteq> 0 \<Longrightarrow> 10 ^ (length ds - 1) \<le> num ds"
  by (cases ds) (simp_all add: num_Cons trans_le_add1)

text \<open>The low \<open>w\<close> digits of a number.\<close>

fun low_digits :: "nat \<Rightarrow> nat \<Rightarrow> nat list" where
  "low_digits 0 n = []"
| "low_digits (Suc w) n = low_digits w (n div 10) @ [n mod 10]"

lemma length_low_digits [simp]: "length (low_digits w n) = w"
  by (induction w arbitrary: n) auto

lemma digits_low_digits [simp]: "digits (low_digits w n)"
  by (induction w arbitrary: n) auto

lemma num_low_digits: "n < 10 ^ w \<Longrightarrow> num (low_digits w n) = n"
proof (induction w arbitrary: n)
  case (Suc w)
  then have "n div 10 < 10 ^ w" by (simp add: less_mult_imp_div_less mult.commute)
  then show ?case using Suc.IH by simp
qed simp

text \<open>Cutting a digit list.\<close>

lemma num_take:
  assumes "digits ds"
  shows "num (take n ds) * 10 ^ (length ds - n) \<le> num ds" "num ds < (num (take n ds) + 1) * 10 ^ (length ds - n)"
    "(\<forall>c \<in> set (drop n ds). c = 0) \<Longrightarrow> num (take n ds) * 10 ^ (length ds - n) = num ds"
proof -
  have s: "num ds = num (take n ds) * 10 ^ (length ds - n) + num (drop n ds)"
    using num_append [of "take n ds" "drop n ds"] by simp
  have "digits (drop n ds)" using assms by (auto simp: digits_def dest: in_set_dropD)
  then have "num (drop n ds) < 10 ^ (length ds - n)" using num_less [of "drop n ds"] by simp
  then show "num (take n ds) * 10 ^ (length ds - n) \<le> num ds" "num ds < (num (take n ds) + 1) * 10 ^ (length ds - n)"
    using s by simp_all
  show "num (take n ds) * 10 ^ (length ds - n) = num ds" if "\<forall>c \<in> set (drop n ds). c = 0"
  proof -
    have "drop n ds = replicate (length ds - n) 0" using that by (simp add: replicate_eqI)
    then have "num (drop n ds) = 0" using num_zeros [of "[]"] by simp
    then show ?thesis using s by simp
  qed
qed

section \<open>The table of the left shifts\<close>

text \<open>The cutoffs are the digits of the powers of five, and the numbers of new digits fit to them.\<close>

definition cheat_ok :: "nat \<Rightarrow> nat \<times> nat list \<Rightarrow> bool" where
  "cheat_ok k ch \<longleftrightarrow>
     (let (delta, cutoff) = ch
      in num cutoff = 5 ^ k \<and> delta + length cutoff = k + 1 \<and> digits cutoff \<and> cutoff \<noteq> [] \<and> hd cutoff \<noteq> 0 \<and> last cutoff \<noteq> 0)"

lemma leftcheats_ok: "list_all (\<lambda>(k, ch). cheat_ok k ch) (zip [1..<61] (tl leftcheats))"
  by (simp add: leftcheats_def cheat_ok_def num_def upt_rec)

text \<open>Comparing the leading digits compares the numbers as fractions.\<close>

lemma prefixIsLessThan_iff:
  assumes "digits ds" "digits cs" "cs = [] \<or> last cs \<noteq> 0"
  shows "prefixIsLessThan ds cs \<longleftrightarrow> num ds * 10 ^ length cs < num cs * 10 ^ length ds"
  using assms
proof (induction ds cs rule: prefixIsLessThan.induct)
  case (2 s ss)
  have "0 < num (s # ss)"
  proof (cases ss rule: rev_cases)
    case (snoc ts t)
    then have "t \<noteq> 0" using 2 by simp
    then show ?thesis using num_snoc [of "s # ts" t] snoc by simp
  qed (use 2 in \<open>simp add: num_def\<close>)
  then show ?case by simp
next
  case (3 b bs s ss)
  have less: "num bs < 10 ^ length bs" "num ss < 10 ^ length ss" using 3 by (simp_all add: num_less)
  let ?B = "num bs * 10 ^ length ss" and ?S = "num ss * 10 ^ length bs" and ?T = "10 ^ length bs * 10 ^ length ss :: nat"
  have small: "?B < ?T" "?S < ?T" using less by (simp_all add: mult.commute)
  have e: "num (b # bs) * 10 ^ length (s # ss) = 10 * (b * ?T + ?B)" "num (s # ss) * 10 ^ length (b # bs) = 10 * (s * ?T + ?S)"
    by (simp_all add: num_Cons algebra_simps)
  show ?case
  proof (cases "b = s")
    case True
    then show ?thesis using 3 e by (auto split: if_splits)
  next
    case False
    have "b < s \<longleftrightarrow> b * ?T + ?B < s * ?T + ?S"
    proof
      assume "b < s"
      then have "(b + 1) * ?T \<le> s * ?T" by (intro mult_le_mono1) simp
      then show "b * ?T + ?B < s * ?T + ?S" using small unfolding add_mult_distrib by linarith
    next
      assume l: "b * ?T + ?B < s * ?T + ?S"
      show "b < s"
      proof (rule ccontr)
        assume "\<not> b < s"
        then have "(s + 1) * ?T \<le> b * ?T" using False by (intro mult_le_mono1) simp
        then show False using l small unfolding add_mult_distrib by linarith
      qed
    qed
    moreover have ten: "10 * x < 10 * y \<longleftrightarrow> x < y" for x y :: nat by simp
    ultimately show ?thesis using False unfolding e ten by simp
  qed
qed simp

section \<open>Shifting left\<close>

text \<open>What the loops write: the digits below the capacity, and a flag for the others.\<close>

definition kept :: "nat list \<Rightarrow> nat list" where
  "kept ds = take digitCap ds"

definition dropped :: "nat list \<Rightarrow> bool" where
  "dropped ds \<longleftrightarrow> (\<exists>c \<in> set (drop digitCap ds). c \<noteq> 0)"

lemma putLeft_snoc:
  assumes "putLeft (int (length ds)) c (out, trunc) = Some (out', trunc')"
  shows "kept (ds @ [c]) @ out = kept ds @ out' \<and> (dropped (ds @ [c]) \<or> trunc \<longleftrightarrow> dropped ds \<or> trunc')"
  using assms by (cases "length ds < digitCap") (auto simp: putLeft_def kept_def dropped_def)

lemma putLeft_returns: "\<exists>out' trunc'. putLeft (int (length ds)) c (out, trunc) = Some (out', trunc')"
  by (simp add: putLeft_def)

lemma putCarry_digits:
  assumes "n < 10 ^ w" "w = 0 \<or> 10 ^ (w - 1) \<le> n"
  shows "putCarry n (int w) (out, trunc) =
    Some (0, kept (low_digits w n) @ out, dropped (low_digits w n) \<or> trunc)"
  using assms
proof (induction w arbitrary: n out trunc)
  case 0
  then show ?case by (subst putCarry.simps) (simp add: kept_def dropped_def)
next
  case (Suc w)
  obtain out' trunc' where p: "putLeft (int (length (low_digits w (n div 10)))) (n mod 10) (out, trunc) = Some (out', trunc')"
    using putLeft_returns by blast
  note q = putLeft_snoc [OF p]
  have n: "0 < n" "n div 10 < 10 ^ w" "w = 0 \<or> 10 ^ (w - 1) \<le> n div 10"
    using Suc.prems by (cases w; simp add: less_mult_imp_div_less mult.commute less_eq_div_iff_mult_less_eq)+
  show ?case using p q n Suc.IH [OF n(2,3), of out' trunc'] by (subst putCarry.simps) auto
qed

lemma shiftDigits_digits:
  assumes "n' = num (rev cs) * 2 ^ k + n" "n' < 10 ^ w" "length cs \<le> w" "w = length cs \<or> 10 ^ (w - 1) \<le> n'"
  shows "shiftDigits k cs n (int w) (out, trunc) =
    Some (0, kept (low_digits w n') @ out, dropped (low_digits w n') \<or> trunc)"
  using assms
proof (induction cs arbitrary: n n' w out trunc)
  case Nil
  then show ?case using putCarry_digits [of n' w out trunc] by auto
next
  case (Cons c cs)
  obtain v where w: "w = Suc v" using Cons.prems(3) by (cases w) auto
  let ?m = "n + c * 2 ^ k"
  have n': "n' = 10 * (num (rev cs) * 2 ^ k) + ?m" using Cons.prems(1) by (simp add: algebra_simps)
  have d: "n' div 10 = num (rev cs) * 2 ^ k + ?m div 10" "n' mod 10 = ?m mod 10" unfolding n' by simp_all
  obtain out' trunc' where p: "putLeft (int (length (low_digits v (n' div 10)))) (?m mod 10) (out, trunc) = Some (out', trunc')"
    using putLeft_returns by blast
  note q = putLeft_snoc [OF p]
  have "n' div 10 < 10 ^ v" "length cs \<le> v" "v = length cs \<or> 10 ^ (v - 1) \<le> n' div 10"
    using Cons.prems w by (cases v; simp add: less_mult_imp_div_less mult.commute less_eq_div_iff_mult_less_eq)+
  from Cons.IH [OF d(1) this, of out' trunc'] show ?case using p q d w by (auto simp: Let_def)
qed

section \<open>The value of a decimal\<close>

definition dval :: "decimal \<Rightarrow> real" where
  "dval a = real (num (dD a)) * 10 powi (dDp a - int (length (dD a)))"

definition wf_dec :: "decimal \<Rightarrow> bool" where
  "wf_dec a \<longleftrightarrow> digits (dD a) \<and> length (dD a) \<le> digitCap \<and> (dD a \<noteq> [] \<longrightarrow> hd (dD a) \<noteq> 0)"

text \<open>
  The result of a shift whose exact value is \<open>x\<close>: well-formed, not above \<open>x\<close>, less than a unit of
  the last possible digit below it, and equal to it when no digit has ever been dropped.
\<close>

definition stands_for :: "real \<Rightarrow> decimal \<Rightarrow> decimal \<Rightarrow> bool" where
  "stands_for x a a' \<longleftrightarrow>
     wf_dec a' \<and> dD a' \<noteq> [] \<and> dNeg a' = dNeg a \<and> (dTrunc a \<longrightarrow> dTrunc a') \<and>
     dval a' \<le> x \<and> x < dval a' + 10 powi (dDp a' - int digitCap) \<and> (\<not> dTrunc a' \<longrightarrow> dval a' = x)"

lemma powi_diff: "(10 :: real) powi (p - int n) = 10 powi p / 10 ^ n"
  by (simp add: power_int_diff)

lemma dval_bounds:
  assumes "wf_dec a" "dD a \<noteq> []"
  shows "10 powi (dDp a - 1) \<le> dval a" "dval a < 10 powi (dDp a)"
proof -
  let ?n = "length (dD a)"
  have n: "0 < ?n" using assms(2) by simp
  have "10 ^ (?n - 1) \<le> num (dD a)" "num (dD a) < 10 ^ ?n"
    using assms num_ge num_less by (auto simp: wf_dec_def)
  then have r: "10 ^ (?n - 1) \<le> real (num (dD a))" "real (num (dD a)) < 10 ^ ?n"
    by (metis of_nat_le_iff of_nat_power of_nat_numeral, metis of_nat_less_iff of_nat_power of_nat_numeral)
  have e: "dval a = real (num (dD a)) / 10 ^ ?n * 10 powi dDp a" by (simp add: dval_def powi_diff)
  have "(10 :: real) ^ ?n = 10 * 10 ^ (?n - 1)" using n by (cases ?n) simp_all
  then have "1 / 10 \<le> real (num (dD a)) / 10 ^ ?n" "real (num (dD a)) / 10 ^ ?n < 1"
    using r by (simp_all add: field_simps)
  then have "1 / 10 * 10 powi dDp a \<le> dval a" "dval a < 1 * 10 powi dDp a"
    unfolding e by (intro mult_right_mono mult_strict_right_mono; simp)+
  then show "10 powi (dDp a - 1) \<le> dval a" "dval a < 10 powi (dDp a)" by (simp_all add: power_int_diff)
qed

lemma trim_split:
  obtains j where "dD a = dD (trim a) @ replicate j 0" "dD (trim a) = [] \<or> last (dD (trim a)) \<noteq> 0"
proof
  let ?z = "takeWhile (\<lambda>c. c = 0) (rev (dD a))"
  have "rev (dD a) = ?z @ dropWhile (\<lambda>c. c = 0) (rev (dD a))" by simp
  moreover have "?z = replicate (length ?z) 0" by (rule replicate_eqI) (auto dest: set_takeWhileD)
  ultimately have "rev (dD a) = replicate (length ?z) 0 @ rev (dD (trim a))"
    by (simp add: trim_def Let_def)
  then show "dD a = dD (trim a) @ replicate (length ?z) 0" by (metis rev_append rev_rev_ident rev_replicate)
  have "dD (trim a) = rev (dropWhile (\<lambda>c. c = 0) (rev (dD a)))" by (simp add: trim_def Let_def)
  then show "dD (trim a) = [] \<or> last (dD (trim a)) \<noteq> 0"
    using hd_dropWhile [of "\<lambda>c. c = 0" "rev (dD a)"] by (metis last_rev rev.simps(1))
qed

lemma trim_fields [simp]: "dNeg (trim a) = dNeg a" "dTrunc (trim a) = dTrunc a"
  "dD (trim a) \<noteq> [] \<Longrightarrow> dDp (trim a) = dDp a"
  by (auto simp: trim_def Let_def)

text \<open>Writing the digits \<open>ds\<close>, whole, and trimming.\<close>

lemma trim_kept:
  assumes ds: "digits ds" "ds \<noteq> []" "hd ds \<noteq> 0"
    and b: "dD b = kept ds" "dDp b = q" "dTrunc b = (dropped ds \<or> dTrunc a)" "dNeg b = dNeg a"
  shows "stands_for (real (num ds) * 10 powi (q - int (length ds))) a (trim b)"
proof -
  obtain j where j: "dD b = dD (trim b) @ replicate j 0" by (rule trim_split)
  have cap: "0 < digitCap" by (simp add: digitCap_def)
  then have ne: "kept ds \<noteq> []" "hd (kept ds) \<noteq> 0" using ds by (simp_all add: kept_def hd_take)
  have tne: "dD (trim b) \<noteq> []" "hd (dD (trim b)) \<noteq> 0"
  proof -
    show "dD (trim b) \<noteq> []"
    proof
      assume "dD (trim b) = []"
      then have "hd (kept ds) = 0" using j b(1) ne(1) by (cases j) auto
      then show False using ne(2) by simp
    qed
    then show "hd (dD (trim b)) \<noteq> 0" using ne(2) j b(1) by (metis hd_append2)
  qed
  have wf: "wf_dec (trim b)"
    using tne(2) j b(1) digits_take [OF ds(1), of digitCap] by (auto simp: wf_dec_def kept_def) (metis length_append length_take add_leD1 min.cobounded2)
  have v: "dval (trim b) = real (num (kept ds)) * 10 powi (q - int (length (kept ds)))"
  proof -
    have "num (kept ds) = num (dD (trim b)) * 10 ^ j" "length (kept ds) = length (dD (trim b)) + j"
      using j b(1) num_zeros [of "dD (trim b)" j] by (metis, metis length_append length_replicate)
    then show ?thesis using tne(1) b(2) by (simp add: dval_def power_int_diff power_int_add)
  qed
  show ?thesis
  proof (cases "length ds \<le> digitCap")
    case True
    then have "kept ds = ds" "\<not> dropped ds" by (simp_all add: kept_def dropped_def)
    then show ?thesis using wf tne v b by (simp add: stands_for_def)
  next
    case False
    let ?m = "length ds - digitCap"
    have l: "length (kept ds) = digitCap" using False by (simp add: kept_def)
    have x: "real (num ds) * 10 powi (q - int (length ds)) = real (num ds) / 10 ^ ?m * 10 powi (q - int digitCap)"
      using False by (simp add: power_int_diff flip: power_add)
    note cut = num_take [OF ds(1), of digitCap]
    have "real (num (kept ds) * 10 ^ ?m) \<le> real (num ds)" "real (num ds) < real ((num (kept ds) + 1) * 10 ^ ?m)"
      using cut(1,2) unfolding kept_def by (simp_all only: of_nat_le_iff of_nat_less_iff)
    then have "real (num (kept ds)) \<le> real (num ds) / 10 ^ ?m" "real (num ds) / 10 ^ ?m < real (num (kept ds)) + 1"
      by (simp_all add: field_simps)
    then have "real (num (kept ds)) * 10 powi (q - int digitCap) \<le> real (num ds) / 10 ^ ?m * 10 powi (q - int digitCap)"
        "real (num ds) / 10 ^ ?m * 10 powi (q - int digitCap) < (real (num (kept ds)) + 1) * 10 powi (q - int digitCap)"
      by (intro mult_right_mono mult_strict_right_mono; simp)+
    moreover have "real (num (kept ds)) = real (num ds) / 10 ^ ?m" if "\<not> dropped ds"
    proof -
      have "num (kept ds) * 10 ^ ?m = num ds" using cut(3) that by (simp add: kept_def dropped_def)
      then have "real (num (kept ds)) * 10 ^ ?m = real (num ds)" by (metis of_nat_mult of_nat_power of_nat_numeral)
      then show ?thesis by (simp add: field_simps)
    qed
    ultimately show ?thesis unfolding stands_for_def x v
      using wf tne b l by (auto simp: algebra_simps)
  qed
qed

section \<open>The shifts\<close>

lemma leftcheats_nth:
  assumes "0 < k" "k \<le> maxShift"
  obtains delta cutoff where "go_nth leftcheats (int k) = Some (delta, cutoff)" "cheat_ok k (delta, cutoff)"
proof -
  have l: "length leftcheats = 61" by (simp add: leftcheats_def)
  let ?z = "zip [1..<61] (tl leftcheats)"
  have k: "k - 1 < length ?z" "k < length leftcheats" using assms l by (simp_all add: maxShift_def)
  have "?z ! (k - 1) = (k, leftcheats ! k)" using assms k l by (cases k) (simp_all add: nth_tl)
  moreover have "?z ! (k - 1) \<in> set ?z" using k(1) by (rule nth_mem)
  ultimately have "cheat_ok k (leftcheats ! k)" using leftcheats_ok by (auto simp: list_all_iff)
  moreover obtain delta cutoff where e: "leftcheats ! k = (delta, cutoff)" by (cases "leftcheats ! k")
  ultimately show thesis using that k(2) by (metis go_nth_int)
qed

text \<open>The table gives the number of digits of the product.\<close>

lemma cheat_length:
  assumes ds: "digits ds" "ds \<noteq> []" "hd ds \<noteq> 0" and ch: "cheat_ok k (delta, cutoff)" and k: "0 < k"
    and w: "w = length ds + (delta - (if prefixIsLessThan ds cutoff then 1 else 0))"
  shows "1 \<le> delta" "num ds * 2 ^ k < 10 ^ w" "10 ^ (w - 1) \<le> num ds * 2 ^ k"
proof -
  let ?n = "length ds" and ?L = "length cutoff" and ?N = "num ds * 2 ^ k"
  have c: "num cutoff = 5 ^ k" "delta + ?L = k + 1" "digits cutoff" "cutoff \<noteq> []" "hd cutoff \<noteq> 0" "last cutoff \<noteq> 0"
    using ch by (simp_all add: cheat_ok_def)
  have five: "10 ^ (?L - 1) \<le> (5 :: nat) ^ k" "(5 :: nat) ^ k < 10 ^ ?L"
    using num_ge [OF c(4,5)] num_less [OF c(3)] c(1) by simp_all
  have ten: "(10 :: nat) ^ k = 5 ^ k * 2 ^ k" by (simp flip: power_mult_distrib)
  have L: "0 < ?L" using c(4) by simp
  show d: "1 \<le> delta"
  proof (rule ccontr)
    assume "\<not> 1 \<le> delta"
    then have "?L - 1 = k" using c(2) by simp
    then have "(10 :: nat) ^ k \<le> 5 ^ k" using five(1) by simp
    moreover have "(5 :: nat) ^ k < 10 ^ k" using k by (intro power_strict_mono) simp_all
    ultimately show False by simp
  qed
  have two: "(2 :: nat) ^ k \<le> 10 ^ delta" "(10 :: nat) ^ (delta - 1) < 2 ^ k"
  proof -
    have "10 ^ (?L - 1) * (2 :: nat) ^ k \<le> 10 ^ k" unfolding ten by (rule mult_le_mono1 [OF five(1)])
    also have "(10 :: nat) ^ k = 10 ^ (?L - 1) * 10 ^ delta"
    proof -
      have "k = ?L - 1 + delta" using c(2) L by linarith
      then show ?thesis by (metis power_add)
    qed
    finally show "(2 :: nat) ^ k \<le> 10 ^ delta" by simp
    have "10 ^ ?L * (10 :: nat) ^ (delta - 1) = 10 ^ k" using c(2) d by (simp flip: power_add)
    also have "\<dots> < 10 ^ ?L * 2 ^ k" unfolding ten by (rule mult_less_mono1 [OF five(2)]) simp
    finally show "(10 :: nat) ^ (delta - 1) < 2 ^ k" by simp
  qed
  have N: "num ds < 10 ^ ?n" "10 ^ (?n - 1) \<le> num ds" using num_less num_ge ds by simp_all
  have n: "0 < ?n" using ds(2) by simp
  have "prefixIsLessThan ds cutoff \<longleftrightarrow> num ds * 10 ^ ?L < 5 ^ k * 10 ^ ?n"
    using prefixIsLessThan_iff [OF ds(1) c(3)] c(1,6) by simp
  also have "\<dots> \<longleftrightarrow> (num ds * 10 ^ ?L) * 2 ^ k < (5 ^ k * 10 ^ ?n) * 2 ^ k" by simp
  also have "(5 ^ k * 10 ^ ?n) * 2 ^ k = 10 ^ (?n + (delta - 1)) * (10 :: nat) ^ ?L"
  proof -
    have "(5 ^ k * 10 ^ ?n) * 2 ^ k = 10 ^ ?n * (10 :: nat) ^ k" unfolding ten by (simp add: ac_simps)
    also have "\<dots> = 10 ^ (?n + (delta - 1)) * 10 ^ ?L" using c(2) d by (simp flip: power_add)
    finally show ?thesis .
  qed
  also have "(num ds * 10 ^ ?L) * 2 ^ k < 10 ^ (?n + (delta - 1)) * 10 ^ ?L \<longleftrightarrow> ?N < 10 ^ (?n + (delta - 1))"
  proof -
    have "(num ds * 10 ^ ?L) * 2 ^ k = ?N * 10 ^ ?L" by (simp add: ac_simps)
    then show ?thesis by simp
  qed
  finally have less: "prefixIsLessThan ds cutoff \<longleftrightarrow> ?N < 10 ^ (?n + (delta - 1))" .
  have up: "?N < 10 ^ (?n + delta)"
  proof -
    have "?N < 10 ^ ?n * 2 ^ k" using N(1) by simp
    also have "\<dots> \<le> 10 ^ ?n * 10 ^ delta" using two(1) by simp
    finally show ?thesis by (simp add: power_add)
  qed
  have low: "10 ^ (?n + (delta - 1) - 1) \<le> ?N"
  proof -
    have "10 ^ (?n - 1) * 10 ^ (delta - 1) \<le> ?N" using N(2) two(2) by (intro mult_le_mono) simp_all
    then show ?thesis using n by (simp flip: power_add)
  qed
  show "?N < 10 ^ w" "10 ^ (w - 1) \<le> ?N"
    using less up low d unfolding w by (auto split: if_splits)
qed

lemma hd_low_digits: "0 < w \<Longrightarrow> n < 10 ^ w \<Longrightarrow> 10 ^ (w - 1) \<le> n \<Longrightarrow> hd (low_digits w n) \<noteq> 0"
proof -
  assume n: "0 < w" "n < 10 ^ w" "10 ^ (w - 1) \<le> n"
  then obtain c cs where cs: "low_digits w n = c # cs" using length_low_digits [of w n] by (cases "low_digits w n") auto
  moreover have "length cs = w - 1" using length_low_digits [of w n] cs by simp
  moreover have "num cs < 10 ^ length cs" using digits_low_digits [of w n] cs by (intro num_less) simp
  moreover have "num (c # cs) = n" using num_low_digits [OF n(2)] cs by simp
  ultimately show ?thesis using n(3) by (cases "c = 0") (simp_all add: num_Cons)
qed

theorem leftShift_stands:
  assumes "wf_dec a" "dD a \<noteq> []" "0 < k" "k \<le> maxShift"
  shows "\<exists>a'. leftShift a k = Some a' \<and> stands_for (dval a * 2 ^ k) a a'"
proof -
  obtain delta cutoff where ch: "go_nth leftcheats (int k) = Some (delta, cutoff)" "cheat_ok k (delta, cutoff)"
    using leftcheats_nth [OF assms(3,4)] .
  define e where "e = delta - (if prefixIsLessThan (dD a) cutoff then 1 else 0)"
  let ?w = "length (dD a) + e" and ?n = "num (dD a) * 2 ^ k"
  let ?ds = "low_digits ?w ?n"
  have a: "digits (dD a)" "dD a \<noteq> []" "hd (dD a) \<noteq> 0" using assms by (simp_all add: wf_dec_def)
  note len = cheat_length [OF a ch(2) assms(3) refl, folded e_def]
  have w: "0 < ?w" using a(2) by simp
  have run: "shiftDigits k (rev (dD a)) 0 (int ?w) ([], dTrunc a) = Some (0, kept ?ds @ [], dropped ?ds \<or> dTrunc a)"
    by (rule shiftDigits_digits) (use len in simp_all)
  have e: "int delta - (if prefixIsLessThan (dD a) cutoff then 1 else 0) = int e"
    using len(1) by (simp add: e_def of_nat_diff)
  let ?b = "a\<lparr>dD := kept ?ds, dDp := dDp a + int e, dTrunc := dropped ?ds \<or> dTrunc a\<rparr>"
  have "leftShift a k = Some (trim ?b)"
  proof -
    have eq: "int (length (dD a)) + int e = int ?w" by simp
    show ?thesis
      by (simp only: leftShift_def ch(1) bind.bind_lunit prod.case Let_def e eq run append_Nil2 nat_0 take_0 append_Nil)
  qed
  moreover have "stands_for (real (num ?ds) * 10 powi (dDp a + int e - int (length ?ds))) a (trim ?b)"
  proof (rule trim_kept)
    show "?ds \<noteq> []" using w length_low_digits [of ?w ?n] by (metis list.size(3) less_irrefl)
  qed (use hd_low_digits [OF w len(2,3)] in simp_all)
  moreover have "real (num ?ds) * 10 powi (dDp a + int e - int (length ?ds)) = dval a * 2 ^ k"
    using num_low_digits [OF len(2)] by (simp add: dval_def)
  ultimately show ?thesis by simp
qed

text \<open>
  The right shift. \<open>scaled out n k\<close> is what the digits written and the accumulator stand for; every
  digit read or written keeps it, up to the factor of the decimal place.
\<close>

definition scaled :: "nat list \<Rightarrow> nat \<Rightarrow> nat \<Rightarrow> nat" where
  "scaled out n k = num out * 10 * 2 ^ k + n"

lemma ten_div_mod: "10 * (n mod 2 ^ k) + 10 * (2 ^ k * (n div 2 ^ k)) = n * (10 :: nat)"
  using mult_div_mod_eq [of "2 ^ k" n] by linarith

lemma pickPut_scaled:
  assumes "pickPut k cs n out = (n', out')" "digits cs" "n < 10 * 2 ^ k" "digits out"
  shows "scaled out' n' k = scaled out n k * 10 ^ length cs + num cs \<and> length out' = length out + length cs \<and>
    n' < 10 * 2 ^ k \<and> digits out' \<and> (\<exists>t. out' = out @ t \<and> (cs \<noteq> [] \<longrightarrow> hd t = n div 2 ^ k))"
  using assms
proof (induction cs arbitrary: n out)
  case (Cons c cs)
  let ?n = "n mod 2 ^ k * 10 + c" and ?o = "out @ [n div 2 ^ k]"
  have d: "n div 2 ^ k < 10" using Cons.prems(3) by (simp add: less_mult_imp_div_less mult.commute)
  have "n mod 2 ^ k * 10 + c < 10 * 2 ^ k"
  proof -
    have "n mod 2 ^ k + 1 \<le> 2 ^ k" by (simp add: Suc_leI)
    then show ?thesis using Cons.prems(2) by simp
  qed
  moreover have "digits ?o" using d Cons.prems(4) by simp
  moreover have "digits cs" using Cons.prems(2) by simp
  moreover have "pickPut k cs ?n ?o = (n', out')" using Cons.prems(1) by simp
  ultimately have IH: "scaled out' n' k = scaled ?o ?n k * 10 ^ length cs + num cs" "length out' = length ?o + length cs"
      "n' < 10 * 2 ^ k" "digits out'" "\<exists>t. out' = ?o @ t"
    using Cons.IH by blast+
  have "scaled ?o ?n k = 10 * scaled out n k + c"
    by (simp add: scaled_def algebra_simps ten_div_mod)
  then have "scaled out' n' k = scaled out n k * 10 ^ length (c # cs) + num (c # cs)"
    using IH(1) by (simp add: num_Cons algebra_simps)
  then show ?case using IH by auto
qed simp

text \<open>The extra digits, without a bound on their number.\<close>

function extra_digits :: "nat \<Rightarrow> nat \<Rightarrow> nat list" where
  "extra_digits k n = (if 0 < n then n div 2 ^ k # extra_digits k (n mod 2 ^ k * 10) else [])"
  by auto
termination by (relation "measure (\<lambda>(k, n). lacks k n)") (auto simp: lacks_step)

declare extra_digits.simps [simp del]

lemma extra_digits_scaled:
  assumes "n < 10 * 2 ^ k" "digits out"
  shows "num (out @ extra_digits k n) * 10 * 2 ^ k = scaled out n k * 10 ^ length (extra_digits k n) \<and>
    digits (out @ extra_digits k n)"
  using assms
proof (induction k n arbitrary: out rule: extra_digits.induct)
  case (1 k n)
  show ?case
  proof (cases "0 < n")
    case True
    let ?n = "n mod 2 ^ k * 10" and ?o = "out @ [n div 2 ^ k]"
    have e: "out @ extra_digits k n = ?o @ extra_digits k ?n" "length (extra_digits k n) = Suc (length (extra_digits k ?n))"
      using True by (subst extra_digits.simps, simp)+
    have d: "n div 2 ^ k < 10" using 1(2) by (simp add: less_mult_imp_div_less mult.commute)
    then have "?n < 10 * 2 ^ k" "digits ?o" using 1(3) by simp_all
    note IH = 1(1) [OF True this]
    have "scaled ?o ?n k = 10 * scaled out n k"
      by (simp add: scaled_def algebra_simps ten_div_mod)
    then show ?thesis using IH unfolding e by simp
  next
    case False
    then have "extra_digits k n = []" by (subst extra_digits.simps) simp
    then show ?thesis using 1 False by (simp add: scaled_def)
  qed
qed

lemma putExtra_kept:
  assumes "length out \<le> digitCap"
  shows "putExtra k n out trunc = (kept (out @ extra_digits k n), trunc \<or> dropped (out @ extra_digits k n))"
proof -
  have at_cap: "putExtra k n out trunc = (out, trunc \<or> (\<exists>c \<in> set (extra_digits k n). c \<noteq> 0))"
    if "length out = digitCap" for k n out trunc
    using that
  proof (induction k n out trunc rule: putExtra.induct)
    case (1 k n out trunc)
    then show ?case by (subst putExtra.simps, subst extra_digits.simps) (auto simp: Let_def)
  qed
  show ?thesis using assms
  proof (induction k n out trunc rule: putExtra.induct)
    case (1 k n out trunc)
    show ?case
    proof (cases "0 < n \<and> length out < digitCap")
      case True
      then have e: "extra_digits k n = n div 2 ^ k # extra_digits k (n mod 2 ^ k * 10)" by (subst extra_digits.simps) simp
      show ?thesis using True 1 by (subst putExtra.simps) (simp add: Let_def e)
    next
      case False
      then consider (zero) "n = 0" | (full) "length out = digitCap" using 1 by linarith
      then show ?thesis
      proof cases
        case zero
        then show ?thesis using 1
          by (subst putExtra.simps, subst (1 2) extra_digits.simps) (simp add: kept_def dropped_def)
      next
        case full
        then show ?thesis using at_cap [OF full] by (simp add: kept_def dropped_def)
      qed
    qed
  qed
qed

lemma pickZeros_scaled:
  assumes "0 < n" "n < 10 * 2 ^ k" "pickZeros k n r = (n', r')"
  shows "\<exists>z. n' = n * 10 ^ z \<and> r' = r + z \<and> 2 ^ k \<le> n' \<and> n' < 10 * 2 ^ k"
  using assms
proof (induction k n r rule: pickZeros.induct)
  case (1 k n r)
  show ?case
  proof (cases "n div 2 ^ k = 0")
    case True
    then have "n < 2 ^ k" by (simp add: div_eq_0_iff)
    then have "0 < n * 10" "n * 10 < 10 * 2 ^ k" "pickZeros k (n * 10) (r + 1) = (n', r')"
      using 1 True by (simp_all add: pickZeros.simps [of k n])
    from 1(1) [OF _ this] True \<open>0 < n\<close> obtain z where "n' = n * 10 * 10 ^ z" "r' = r + 1 + z" "2 ^ k \<le> n'" "n' < 10 * 2 ^ k"
      by auto
    then show ?thesis by (intro exI [of _ "Suc z"]) simp
  next
    case False
    then have "2 ^ k \<le> n" using div_less by (metis not_less)
    then show ?thesis using 1 False by (intro exI [of _ 0]) (simp add: pickZeros.simps [of k n])
  qed
qed

lemma pickLeading_scaled:
  assumes "n < 10 * 2 ^ k" "digits cs" "0 < n * 10 ^ length cs + num cs"
  shows "\<exists>n' r' rest z. pickLeading k n r cs = Some (n', r', rest) \<and> r' + length rest = r + length cs + z \<and>
    n' * 10 ^ length rest + num rest = (n * 10 ^ length cs + num cs) * 10 ^ z \<and>
    2 ^ k \<le> n' \<and> n' < 10 * 2 ^ k \<and> digits rest \<and> length rest \<le> length cs"
  using assms
proof (induction cs arbitrary: n r)
  case Nil
  show ?case
  proof (cases "n div 2 ^ k = 0")
    case True
    obtain n' r' where p: "pickZeros k n r = (n', r')" by fastforce
    then show ?thesis using pickZeros_scaled [OF _ _ p] Nil True by auto
  next
    case False
    then have "2 ^ k \<le> n" using div_less by (metis not_less)
    then show ?thesis using Nil False by simp
  qed
next
  case (Cons c cs)
  show ?case
  proof (cases "n div 2 ^ k = 0")
    case True
    then have "n < 2 ^ k" by (simp add: div_eq_0_iff)
    then have "n * 10 + c < 10 * 2 ^ k" using Cons.prems(2) by simp
    moreover have e: "(n * 10 + c) * 10 ^ length cs + num cs = n * 10 ^ length (c # cs) + num (c # cs)"
      by (simp add: num_Cons algebra_simps)
    ultimately show ?thesis using Cons.IH [of "n * 10 + c" "r + 1"] Cons.prems True by fastforce
  next
    case False
    then have "2 ^ k \<le> n" using div_less by (metis not_less)
    then show ?thesis using Cons.prems False by simp
  qed
qed

theorem rightShift_stands:
  assumes "wf_dec a" "dD a \<noteq> []"
  shows "stands_for (dval a / 2 ^ k) a (rightShift a k)"
proof -
  have a: "digits (dD a)" "length (dD a) \<le> digitCap" "hd (dD a) \<noteq> 0" using assms by (simp_all add: wf_dec_def)
  have "0 < num (dD a)" using num_ge [OF assms(2) a(3)] by (metis gr0I not_one_le_zero one_le_numeral one_le_power order_trans)
  then obtain n r rest z where p: "pickLeading k 0 0 (dD a) = Some (n, r, rest)" "r + length rest = length (dD a) + z"
      "n * 10 ^ length rest + num rest = num (dD a) * 10 ^ z" "2 ^ k \<le> n" "n < 10 * 2 ^ k" "digits rest"
      "length rest \<le> length (dD a)"
    using pickLeading_scaled [of 0 k "dD a" 0] a(1) by auto
  obtain m out where q: "pickPut k rest n [] = (m, out)" by fastforce
  from pickPut_scaled [OF q p(6,5)] have o: "scaled out m k = num (dD a) * 10 ^ z" "length out = length rest"
      "m < 10 * 2 ^ k" "digits out" "rest \<noteq> [] \<longrightarrow> hd out = n div 2 ^ k"
    using p(3) by (auto simp: scaled_def)
  define ex where "ex = extra_digits k m"
  let ?ds = "out @ ex"
  have x: "num ?ds * 10 * 2 ^ k = num (dD a) * 10 ^ (z + length ex)" "digits ?ds"
    using extra_digits_scaled [OF o(3,4)] o(1) by (simp_all add: ex_def power_add)
  have n1: "n div 2 ^ k \<noteq> 0" using p(4) by (simp add: div_eq_0_iff)
  have ne: "?ds \<noteq> [] \<and> hd ?ds \<noteq> 0"
  proof (cases "rest = []")
    case True
    then have "m = n" "out = []" using q by simp_all
    moreover have "extra_digits k n = n div 2 ^ k # extra_digits k (n mod 2 ^ k * 10)"
      using n1 by (subst extra_digits.simps) (auto intro: gr0I)
    ultimately show ?thesis using n1 by (simp add: ex_def)
  next
    case False
    then have "out \<noteq> []" using o(2) by auto
    then show ?thesis using o(5) n1 False by simp
  qed
  let ?b = "a\<lparr>dD := kept ?ds, dDp := dDp a - (int r - 1), dTrunc := dTrunc a \<or> dropped ?ds\<rparr>"
  have "rightShift a k = trim ?b"
    using p(1) q putExtra_kept [of out k m "dTrunc a"] o(2) p(7) a(2) by (simp add: rightShift_def Let_def ex_def)
  moreover have "stands_for (real (num ?ds) * 10 powi (dDp a - (int r - 1) - int (length ?ds))) a (trim ?b)"
    by (rule trim_kept) (use x(2) ne in auto)
  moreover have "real (num ?ds) * 10 powi (dDp a - (int r - 1) - int (length ?ds)) = dval a / 2 ^ k"
  proof -
    have "real (num ?ds * 10 * 2 ^ k) = real (num (dD a) * 10 ^ (z + length ex))" using x(1) by simp
    then have v: "real (num ?ds) = real (num (dD a)) * 10 powi (int z + int (length ex) - 1) / 2 ^ k"
      by (simp add: field_simps power_int_diff power_int_add power_add)
    have "int r + int (length ?ds) = int (length (dD a)) + int z + int (length ex)" using p(2) o(2) by simp
    then have e: "dDp a - (int r - 1) - int (length ?ds) = dDp a - int (length (dD a)) - (int z + int (length ex) - 1)"
      by linarith
    show ?thesis unfolding v e dval_def by (simp add: power_int_diff)
  qed
  ultimately show ?thesis by simp
qed

section \<open>Shifts of any length\<close>

text \<open>Several passes: the value may sink below the exact one, and does not when no digit was dropped.\<close>

definition rests_on :: "real \<Rightarrow> decimal \<Rightarrow> decimal \<Rightarrow> bool" where
  "rests_on x a a' \<longleftrightarrow>
     wf_dec a' \<and> dD a' \<noteq> [] \<and> dNeg a' = dNeg a \<and> (dTrunc a \<longrightarrow> dTrunc a') \<and> dval a' \<le> x \<and> (\<not> dTrunc a' \<longrightarrow> dval a' = x)"

lemma stands_rests: "stands_for x a a' \<Longrightarrow> rests_on x a a'"
  by (simp add: stands_for_def rests_on_def)

lemma rests_trans: "rests_on x a b \<Longrightarrow> rests_on (dval b * c) b d \<Longrightarrow> 0 \<le> c \<Longrightarrow> rests_on (x * c) a d"
  by (auto simp: rests_on_def intro: order_trans mult_right_mono)

lemma shiftLeftBy_rests:
  "wf_dec a \<Longrightarrow> dD a \<noteq> [] \<Longrightarrow> 0 < k \<Longrightarrow> \<exists>a'. shiftLeftBy a k = Some a' \<and> rests_on (dval a * 2 ^ k) a a'"
proof (induction k arbitrary: a rule: less_induct)
  case (less k)
  show ?case
  proof (cases "k > maxShift")
    case True
    obtain b where b: "leftShift a maxShift = Some b" "stands_for (dval a * 2 ^ maxShift) a b"
      using leftShift_stands [of a maxShift] less.prems by (auto simp: maxShift_def)
    then have "wf_dec b" "dD b \<noteq> []" by (simp_all add: stands_for_def)
    then obtain c where c: "shiftLeftBy b (k - maxShift) = Some c" "rests_on (dval b * 2 ^ (k - maxShift)) b c"
      using less.IH [of "k - maxShift" b] True by (auto simp: maxShift_def)
    have "rests_on (dval a * 2 ^ maxShift * 2 ^ (k - maxShift)) a c"
      by (rule rests_trans [OF stands_rests [OF b(2)] c(2)]) simp
    moreover have "(2 :: real) ^ maxShift * 2 ^ (k - maxShift) = 2 ^ k" using True by (simp flip: power_add)
    ultimately show ?thesis using True b(1) c(1) by (subst shiftLeftBy.simps) (simp add: mult.assoc)
  next
    case False
    then show ?thesis using leftShift_stands [of a k] less.prems stands_rests by (subst shiftLeftBy.simps) fastforce
  qed
qed

lemma shiftRightBy_rests:
  "wf_dec a \<Longrightarrow> dD a \<noteq> [] \<Longrightarrow> rests_on (dval a / 2 ^ k) a (shiftRightBy a k)"
proof (induction k arbitrary: a rule: less_induct)
  case (less k)
  show ?case
  proof (cases "k > maxShift")
    case True
    let ?b = "rightShift a maxShift"
    have b: "stands_for (dval a / 2 ^ maxShift) a ?b" using rightShift_stands less.prems by blast
    then have "wf_dec ?b" "dD ?b \<noteq> []" by (simp_all add: stands_for_def)
    then have c: "rests_on (dval ?b * (1 / 2 ^ (k - maxShift))) ?b (shiftRightBy ?b (k - maxShift))"
      using less.IH [of "k - maxShift" ?b] True by (simp add: maxShift_def)
    have "rests_on (dval a / 2 ^ maxShift * (1 / 2 ^ (k - maxShift))) a (shiftRightBy ?b (k - maxShift))"
      by (rule rests_trans [OF stands_rests [OF b] c]) simp
    moreover have "(2 :: real) ^ maxShift * 2 ^ (k - maxShift) = 2 ^ k" using True by (simp flip: power_add)
    ultimately show ?thesis using True by (subst shiftRightBy.simps) simp
  next
    case False
    then show ?thesis using stands_rests [OF rightShift_stands [OF less.prems, of k]] by (subst shiftRightBy.simps) simp
  qed
qed

theorem Shift_rests:
  assumes "wf_dec a" "dD a \<noteq> []"
  shows "\<exists>a'. Shift a k = Some a' \<and> rests_on (dval a * 2 powi k) a a'"
proof -
  consider "0 < k" | "k = 0" | "k < 0" by linarith
  then show ?thesis
  proof cases
    case 1
    then have "(2 :: real) powi k = 2 ^ nat k" by (simp add: power_int_def)
    then show ?thesis using shiftLeftBy_rests [of a "nat k"] assms 1 by (simp add: Shift_def)
  next
    case 2
    then show ?thesis using assms by (simp add: Shift_def rests_on_def)
  next
    case 3
    then have "(2 :: real) powi k = 1 / 2 ^ nat (- k)" by (simp add: power_int_def inverse_eq_divide power_divide)
    then show ?thesis using shiftRightBy_rests [OF assms, of "nat (- k)"] assms 3 by (simp add: Shift_def)
  qed
qed

end
