(* ===== verification/Go_Atof_Spec.thy ===== *)
theory Go_Atof_Spec
  imports Go_Atof Go_Decimal_Spec
begin

text \<open>
  \<open>ParseFloat\<close> returns for every string: the two scaling loops of its slow path end, because every
  round halves the value or brings it up by half, and no shift writes outside the digits.
\<close>

section \<open>The scaling loops\<close>

lemma powStep_bounds: "1 \<le> powStep p" "powStep p \<le> 27" if "0 \<le> p"
proof -
  have "p < 9 \<Longrightarrow> nat p \<in> {0, 1, 2, 3, 4, 5, 6, 7, 8}" using that by auto
  then show "1 \<le> powStep p" "powStep p \<le> 27" by (auto simp: powStep_def powtab_def)
qed

lemma dval_pos: "wf_dec d \<Longrightarrow> dD d \<noteq> [] \<Longrightarrow> 0 < dval d"
  using dval_bounds(1) [of d] by (meson less_le_trans zero_less_power_int zero_less_numeral)

text \<open>A step of the loops does not leap over the interval from 1/2 to 1.\<close>

lemma powStep_less: "0 < p \<Longrightarrow> 2 ^ nat (powStep p) \<le> (10 :: real) powi p"
proof -
  assume p: "0 < p"
  show ?thesis
  proof (cases "p < 9")
    case True
    then have "p \<in> {1, 2, 3, 4, 5, 6, 7, 8}" using p by auto
    then show ?thesis by (auto simp: powStep_def powtab_def power_int_def)
  next
    case False
    then have "(2 :: real) ^ nat (powStep p) \<le> 10 ^ 9" by (simp add: powStep_def powtab_def)
    also have "(10 :: real) ^ 9 \<le> 10 ^ nat p" using False by (intro power_increasing) simp_all
    finally show ?thesis using p by (simp add: power_int_def)
  qed
qed

text \<open>The loop condition of \<open>scaleUp\<close> is that the value is less than 1/2.\<close>

lemma below_half:
  assumes "wf_dec d" "dD d \<noteq> []" "dDp d \<le> 0"
  shows "(dDp d < 0 \<or> dDp d = 0 \<and> hd (dD d) < 5) \<longleftrightarrow> dval d < 1 / 2"
proof (cases "dDp d = 0")
  case False
  have "(10 :: real) powi dDp d \<le> 10 powi (- 1)"
    by (rule power_int_increasing) (use False assms(3) in simp_all)
  then have "dval d < 1 / 2" using dval_bounds [OF assms(1,2)] by simp
  then show ?thesis using False assms(3) by simp
next
  case True
  obtain c cs where cs: "dD d = c # cs" using assms(2) by (cases "dD d") auto
  have "num cs < 10 ^ length cs" using assms(1) cs by (intro num_less) (simp add: wf_dec_def)
  moreover have "dval d < 1 / 2 \<longleftrightarrow> num (dD d) * 2 < 10 * 10 ^ length cs"
  proof -
    have v: "dval d = real (num (dD d)) / 10 ^ length (dD d)" using True powi_diff [of 0 "length (dD d)"] by (simp add: dval_def)
    have "dval d < 1 / 2 \<longleftrightarrow> real (num (dD d) * 2) < real (10 * 10 ^ length cs)"
      unfolding v using cs by (simp add: field_simps)
    then show ?thesis by (simp only: of_nat_less_iff)
  qed
  moreover have "(c * 10 ^ length cs + num cs) * 2 < 10 * 10 ^ length cs \<longleftrightarrow> c < 5"
    if "num cs < 10 ^ length cs"
  proof
    show "c < 5" if "(c * 10 ^ length cs + num cs) * 2 < 10 * 10 ^ length cs"
    proof (rule ccontr)
      assume "\<not> c < 5"
      then have "5 * 10 ^ length cs \<le> c * 10 ^ length cs" by (intro mult_le_mono1) simp
      then show False using that unfolding add_mult_distrib by linarith
    qed
    assume "c < 5"
    then have "(c + 1) * 10 ^ length cs \<le> 5 * 10 ^ length cs" by (intro mult_le_mono1) simp
    then show "(c * 10 ^ length cs + num cs) * 2 < 10 * 10 ^ length cs" using that unfolding add_mult_distrib by linarith
  qed
  ultimately show ?thesis using True cs by (simp add: num_Cons algebra_simps)
qed

theorem scaleDown_returns:
  assumes "wf_dec d" "dD d \<noteq> []"
  shows "\<exists>d' e'. scaleDown d e = Some (d', e') \<and> rests_on (dval d * 2 powi (e - e')) d d' \<and> dDp d' \<le> 0"
proof -
  obtain m :: nat where "dval d < 2 ^ m" using real_arch_pow [of 2 "dval d"] by auto
  then show ?thesis using assms
  proof (induction m arbitrary: d e)
    case 0
    have "dDp d \<le> 0"
    proof (rule ccontr)
      assume "\<not> dDp d \<le> 0"
      then have "(10 :: real) powi 0 \<le> 10 powi (dDp d - 1)" by (intro power_int_increasing) simp_all
      then show False using 0 dval_bounds(1) [of d] by simp
    qed
    then show ?case using 0 by (subst scaleDown.simps) (simp add: rests_on_def)
  next
    case (Suc m)
    show ?case
    proof (cases "dDp d > 0")
      case True
      let ?n = "powStep (dDp d)"
      have n: "1 \<le> ?n" using powStep_bounds [of "dDp d"] True by simp
      obtain b where b: "Shift d (- ?n) = Some b" "rests_on (dval d * 2 powi (- ?n)) d b"
        using Shift_rests Suc.prems(2,3) by blast
      have "dval b \<le> dval d * 2 powi (- ?n)" using b(2) by (simp add: rests_on_def)
      also have "\<dots> \<le> dval d * 2 powi (- 1)"
        using n by (intro mult_left_mono power_int_increasing) (simp_all add: dval_def)
      also have "\<dots> < 2 ^ m" using Suc.prems(1) by simp
      finally have "dval b < 2 ^ m" .
      moreover have "wf_dec b" "dD b \<noteq> []" using b(2) by (simp_all add: rests_on_def)
      ultimately obtain d' e' where c: "scaleDown b (e + ?n) = Some (d', e')"
          "rests_on (dval b * 2 powi (e + ?n - e')) b d'" "dDp d' \<le> 0"
        using Suc.IH by blast
      have "rests_on (dval d * 2 powi (- ?n) * 2 powi (e + ?n - e')) d d'"
        by (rule rests_trans [OF b(2) c(2)]) simp
      moreover have "(2 :: real) powi (- ?n) * 2 powi (e + ?n - e') = 2 powi (e - e')"
        by (simp flip: power_int_add)
      ultimately show ?thesis using True b(1) c(1,3) by (subst scaleDown.simps) (simp add: Let_def mult.assoc)
    next
      case False
      then show ?thesis using Suc.prems by (subst scaleDown.simps) (simp add: rests_on_def)
    qed
  qed
qed

text \<open>A left shift of one pass loses less than a tenth.\<close>

lemma stands_tenth:
  assumes "stands_for x d d'"
  shows "x < 11 / 10 * dval d'"
proof -
  have s: "wf_dec d'" "dD d' \<noteq> []" "x < dval d' + 10 powi (dDp d' - int digitCap)"
    using assms by (simp_all add: stands_for_def)
  have "(10 :: real) powi (dDp d' - int digitCap) \<le> 10 powi (dDp d' - 2)"
    by (rule power_int_increasing) (simp_all add: digitCap_def)
  also have "\<dots> = 10 powi (dDp d' - 1) / 10" by (simp add: power_int_diff)
  also have "\<dots> \<le> dval d' / 10" using dval_bounds(1) [OF s(1,2)] by simp
  finally show ?thesis using s(3) by linarith
qed

theorem scaleUp_returns:
  assumes "wf_dec d" "dD d \<noteq> []" "dDp d \<le> 0"
  shows "\<exists>d' e'. scaleUp d e = Some (d', e') \<and> rests_on (dval d * 2 powi (e - e')) d d' \<and>
    dDp d' \<le> 0 \<and> 1 / 2 \<le> dval d'"
proof -
  have "0 < dval d" by (rule dval_pos [OF assms(1,2)])
  then obtain m :: nat where m: "1 / 2 \<le> dval d * (3 / 2) ^ m"
  proof -
    obtain m :: nat where "1 / 2 / dval d < (3 / 2) ^ m" using real_arch_pow [of "3 / 2" "1 / 2 / dval d"] by auto
    then have "1 / 2 \<le> dval d * (3 / 2) ^ m" using \<open>0 < dval d\<close> by (simp add: field_simps)
    then show thesis by (rule that)
  qed
  then show ?thesis using assms
  proof (induction m arbitrary: d e)
    case 0
    then show ?case using below_half [of d] by (subst scaleUp.simps) (auto simp: rests_on_def)
  next
    case (Suc m)
    show ?case
    proof (cases "dval d < 1 / 2")
      case True
      let ?n = "powStep (- dDp d)"
      have n: "1 \<le> ?n" "?n \<le> 27" using powStep_bounds [of "- dDp d"] Suc.prems(4) by simp_all
      obtain b where b: "leftShift d (nat ?n) = Some b" "stands_for (dval d * 2 ^ nat ?n) d b"
        using leftShift_stands [of d "nat ?n"] Suc.prems(2,3) n by (auto simp: maxShift_def nat_le_iff)
      have "\<not> maxShift < nat ?n" using n(2) by (simp add: maxShift_def not_less nat_le_iff)
      then have sh: "Shift d ?n = Some b"
        using b(1) n(1) Suc.prems(3) by (simp add: Shift_def shiftLeftBy.simps [of d "nat ?n"])
      have pw: "(2 :: real) powi ?n = 2 ^ nat ?n" using n(1) by (simp add: power_int_def)
      have wb: "wf_dec b" "dD b \<noteq> []" "dval b \<le> dval d * 2 ^ nat ?n" using b(2) by (simp_all add: stands_for_def)
      have "dval b < 1"
      proof (cases "dDp d = 0")
        case True
        then have "dval d * 2 ^ nat ?n < 1" using \<open>dval d < 1 / 2\<close> by (simp add: powStep_def powtab_def)
        then show ?thesis using wb(3) by simp
      next
        case False
        have "dval d * 2 ^ nat ?n \<le> dval d * 10 powi (- dDp d)"
          using powStep_less [of "- dDp d"] False Suc.prems(4) by (intro mult_left_mono) (simp_all add: dval_def)
        also have "\<dots> < 10 powi dDp d * 10 powi (- dDp d)"
          using dval_bounds(2) [OF Suc.prems(2,3)] by (intro mult_strict_right_mono) simp_all
        finally show ?thesis using wb(3) by (simp add: power_int_minus)
      qed
      then have "dDp b \<le> 0"
      proof -
        have "\<not> 1 \<le> dDp b"
        proof
          assume "1 \<le> dDp b"
          then have "(10 :: real) powi 0 \<le> 10 powi (dDp b - 1)" by (intro power_int_increasing) simp_all
          then show False using \<open>dval b < 1\<close> dval_bounds(1) [OF wb(1,2)] by simp
        qed
        then show ?thesis by simp
      qed
      moreover have "1 / 2 \<le> dval b * (3 / 2) ^ m"
      proof -
        have "(2 :: real) ^ 1 \<le> 2 ^ nat ?n" using n(1) by (intro power_increasing) simp_all
        then have "dval d * 2 \<le> dval d * 2 ^ nat ?n" by (intro mult_left_mono) (simp_all add: dval_def)
        then have "dval d * (3 / 2) \<le> dval b" using stands_tenth [OF b(2)] dval_pos [OF Suc.prems(2,3)] by linarith
        then have "dval d * (3 / 2) * (3 / 2) ^ m \<le> dval b * (3 / 2) ^ m" by (intro mult_right_mono) simp_all
        moreover have "dval d * (3 / 2) * (3 / 2) ^ m = dval d * (3 / 2) ^ Suc m" by simp
        ultimately show ?thesis using Suc.prems(1) by linarith
      qed
      ultimately obtain d' e' where c: "scaleUp b (e - ?n) = Some (d', e')"
          "rests_on (dval b * 2 powi (e - ?n - e')) b d'" "dDp d' \<le> 0" "1 / 2 \<le> dval d'"
        using Suc.IH wb by blast
      have "rests_on (dval d * 2 ^ nat ?n * 2 powi (e - ?n - e')) d d'"
        by (rule rests_trans [OF stands_rests [OF b(2)] c(2)]) simp
      moreover have "(2 :: real) ^ nat ?n * 2 powi (e - ?n - e') = 2 powi (e - e')"
        unfolding pw [symmetric] by (simp flip: power_int_add)
      ultimately show ?thesis using True sh c(1,3,4) below_half [OF Suc.prems(2-4)]
        by (subst scaleUp.simps) (simp add: Let_def mult.assoc)
    next
      case False
      then show ?thesis using Suc.prems below_half [OF Suc.prems(2-4)] by (subst scaleUp.simps) (simp add: rests_on_def)
    qed
  qed
qed

section \<open>Every string is answered\<close>

theorem floatBits_returns:
  assumes "wf_dec d"
  shows "\<exists>res. floatBits d = Some res"
proof (cases "dD d = [] \<or> dDp d > 310 \<or> dDp d < - 330")
  case True
  then show ?thesis by (auto simp: floatBits_def)
next
  case False
  then have ne: "dD d \<noteq> []" by simp
  obtain d1 e1 where 1: "scaleDown d 0 = Some (d1, e1)" "wf_dec d1" "dD d1 \<noteq> []" "dDp d1 \<le> 0"
    using scaleDown_returns [OF assms ne, of 0] by (auto simp: rests_on_def)
  obtain d2 e2 where 2: "scaleUp d1 e1 = Some (d2, e2)" "wf_dec d2" "dD d2 \<noteq> []"
    using scaleUp_returns [OF 1(2-4), of e1] by (auto simp: rests_on_def)
  have shift: "\<exists>d'. Shift a k = Some d' \<and> wf_dec d' \<and> dD d' \<noteq> []" if "wf_dec a" "dD a \<noteq> []" for a k
    using Shift_rests [OF that] by (auto simp: rests_on_def)
  obtain d3 e3 where 3: "(if e2 - 1 < bias64 + 1 then do { d \<leftarrow> Shift d2 (- (bias64 + 1 - (e2 - 1))); Some (d, bias64 + 1) }
      else Some (d2, e2 - 1)) = Some (d3, e3)" "wf_dec d3" "dD d3 \<noteq> []"
    using shift [OF 2(2,3)] 2 by (metis bind.bind_lunit)
  obtain d4 where "Shift d3 (1 + int mantbits64) = Some d4" using shift [OF 3(2,3)] by blast
  moreover have "Ex Not" by blast
  ultimately show ?thesis using False 1(1) 2(1) 3(1) unfolding floatBits_def Let_def
    by (simp only: if_False bind.bind_lunit prod.case) (simp split: prod.splits)
qed

lemma wf_dec_fields [simp]: "wf_dec (b\<lparr>dDp := x\<rparr>) \<longleftrightarrow> wf_dec b" "wf_dec (b\<lparr>dTrunc := t\<rparr>) \<longleftrightarrow> wf_dec b"
  by (simp_all add: wf_dec_def)

lemma wf_dec_digit:
  assumes "wf_dec b" "is_digit c" "c = CHR ''0'' \<Longrightarrow> dD b \<noteq> []" "length (dD b) < digitCap"
  shows "wf_dec (b\<lparr>dD := dD b @ [byte c - 48]\<rparr>)"
proof -
  have "byte c \<noteq> 48" if "c \<noteq> CHR ''0''" using that of_char_eq_iff [of c "CHR ''0''"] by auto
  then show ?thesis using assms by (cases "c = CHR ''0''"; cases "dD b") (auto simp: wf_dec_def is_digit_def)
qed

lemma setDigits_wf:
  "setDigits b sawdot sawdigits s = Some (b', sd, sg, r) \<Longrightarrow> wf_dec b \<Longrightarrow> wf_dec b'"
  by (induction b sawdot sawdigits s rule: setDigits.induct) (auto simp: wf_dec_digit split: if_splits)

lemma decimal_set_wf: "decimal_set s = Some d \<Longrightarrow> wf_dec d"
proof -
  have start: "wf_dec (zeroDecimal\<lparr>dNeg := n\<rparr>)" for n by (simp add: wf_dec_def zeroDecimal_def)
  show "decimal_set s = Some d \<Longrightarrow> wf_dec d"
    by (auto simp: decimal_set_def Let_def bind_eq_Some_conv split: if_splits dest!: setDigits_wf [OF _ start])
qed

theorem ParseFloat_returns: "\<exists>v err. ParseFloat s = Some (v, err)"
proof -
  have "\<exists>f n err. atof64 s = Some (f, n, err)"
    unfolding atof64_def Let_def
    by (auto split: option.splits prod.splits dest!: decimal_set_wf floatBits_returns)
  then show ?thesis by (auto simp: ParseFloat_def)
qed

section \<open>Errors\<close>

text \<open>The values that come with an error.\<close>

definition error_value :: "f64 \<Rightarrow> strconv_error option \<Rightarrow> bool" where
  "error_value v err \<longleftrightarrow>
     err = None \<or> err = Some ErrSyntax \<and> v = 0 \<or> err = Some ErrRange \<and> (v = inf64 \<or> v = inf64 OR neg64)"

lemma overflowBits_inf: "overflowBits neg = (if neg then inf64 OR neg64 else inf64, True)"
  by (simp add: overflowBits_def assemble_def inf64_def)

lemma floatBits_overflow:
  assumes "floatBits d = Some (b, True)"
  shows "b = inf64 \<or> b = inf64 OR neg64"
proof -
  have "(b, True) = overflowBits True \<or> (b, True) = overflowBits False"
    using assms by (auto simp: floatBits_def bind_eq_Some_conv Let_def split: if_splits prod.splits) (metis (full_types))+
  then show ?thesis by (auto simp: overflowBits_inf)
qed

lemma atofHex_error: "error_value (fst (atofHex m e neg trunc)) (snd (atofHex m e neg trunc))"
  by (auto simp: atofHex_def Let_def error_value_def assemble_def inf64_def split: prod.splits if_splits)

lemma atof64_error: "atof64 s = Some (f, n, err) \<Longrightarrow> error_value f err"
proof -
  assume a: "atof64 s = Some (f, n, err)"
  show "error_value f err"
  proof (cases "special s")
    case None
    obtain k p where r: "readFloat s = (k, p)" by fastforce
    show ?thesis
    proof (cases p)
      case p: (Some p)
      have ok: "error_value v None" "error_value 0 (Some ErrSyntax)" for v by (simp_all add: error_value_def)
      show ?thesis
      proof (cases "fpHex p")
        case True
        then show ?thesis using a None r p atofHex_error [of "fpMant p" "fpExp p" "fpNeg p" "fpTrunc p"]
          by (auto simp: atof64_def split: prod.splits)
      next
        case False
        have "error_value b (if ovf then Some ErrRange else None)" if "floatBits d = Some (b, ovf)" for d b ovf
          using floatBits_overflow [of d b] that by (cases ovf) (auto simp: error_value_def)
        then show ?thesis using a None r p False ok
          by (fastforce simp: atof64_def Let_def bind_eq_Some_conv split: option.splits)
      qed
    qed (use a None r in \<open>simp add: atof64_def error_value_def\<close>)
  qed (use a in \<open>auto simp: atof64_def error_value_def\<close>)
qed

theorem ParseFloat_error: "ParseFloat s = Some (v, err) \<Longrightarrow> error_value v err"
  by (auto simp: ParseFloat_def bind_eq_Some_conv error_value_def [of 0] split: if_splits dest: atof64_error)

end
