(* ===== verification/Parser_Spec.thy ===== *)
theory Parser_Spec
  imports Parser Go_Scanner_Spec Go_Atof_Spec Models_Spec
begin

text \<open>
  What the parser computes: a function of the text of the file alone, whose blank lines do not count;
  and every instance it returns with a point is well-formed.
\<close>

section \<open>The text of an instance\<close>

text \<open>The trimmed lines that are not blank.\<close>

definition content :: "string list \<Rightarrow> string list" where
  "content ls = filter (\<lambda>l. l \<noteq> []) (map TrimSpace ls)"

lemma content_simps [simp]:
  "content [] = []"
  "content (l # ls) = (if TrimSpace l = [] then content ls else TrimSpace l # content ls)"
  by (simp_all add: content_def)

definition parsePoints :: "string list \<Rightarrow> pointLists option" where
  "parsePoints ps = go_range (\<lambda>line st. do { flds \<leftarrow> Fields line; addPoint flds st }) ps noPoints"

definition load_text :: "string \<Rightarrow> string \<Rightarrow> (load_error + Instance) option" where
  "load_text filePath u =
     (case content (text_lines u) of
        [] \<Rightarrow> Some (Inl EmptyFile)
      | header # ls \<Rightarrow> do {
          parts \<leftarrow> Fields header;
          if length parts < 3 then Some (Inl (BadHeader header))
          else case ls of
              [] \<Rightarrow> Some (Inl NoTmax)
            | tmax # ls \<Rightarrow> do {
                (tMax, err) \<leftarrow> ParseFloat tmax;
                case err of Some e \<Rightarrow> Some (Inl (BadTmax e))
                | None \<Rightarrow>
                    (case ls of
                       [] \<Rightarrow> Some (Inl NoTd)
                     | td # points \<Rightarrow> do {
                         maxDistPerDay \<leftarrow> parseBudgets td;
                         st \<leftarrow> parsePoints points;
                         case scan_error u of Some e \<Rightarrow> Some (Inl (ScanFailed e))
                         | None \<Rightarrow> do {
                             inst \<leftarrow> makeInstance filePath (fst (Atoi (parts ! 2))) tMax maxDistPerDay st;
                             Some (Inr inst) } }) } })"

context file_reader
begin

lemma nextLine_end:
  assumes "gives ls err s" "content ls = []"
  obtains s' where "nextLine rd s = Some (None, s')"
proof -
  have "\<exists>s'. nextLine rd s = Some (None, s')" using assms
  proof (induction ls arbitrary: s)
    case Nil
    from Nil.prems(1) obtain s' where "Scan rd s = Some (False, s')" by (rule Scan_end)
    then show ?case by (subst nextLine.simps) simp
  next
    case (Cons l ls)
    from Cons.prems(1) obtain s' where s': "Scan rd s = Some (True, s')" "Scanner_Text s' = l" "gives ls err s'"
      by (rule Scan_line)
    have "TrimSpace l = []" "content ls = []" using Cons.prems(2) by (auto split: if_splits)
    then show ?case using s' Cons.IH [OF s'(3)] by (subst nextLine.simps) simp
  qed
  then show thesis using that by blast
qed

lemma nextLine_line:
  assumes "gives ls err s" "content ls = l # rest"
  obtains s' ls' where "nextLine rd s = Some (Some l, s')" "gives ls' err s'" "content ls' = rest"
proof -
  have "\<exists>s' ls'. nextLine rd s = Some (Some l, s') \<and> gives ls' err s' \<and> content ls' = rest" using assms
  proof (induction ls arbitrary: s)
    case (Cons k ls)
    from Cons.prems(1) obtain s' where s': "Scan rd s = Some (True, s')" "Scanner_Text s' = k" "gives ls err s'"
      by (rule Scan_line)
    show ?case
    proof (cases "TrimSpace k = []")
      case True
      then show ?thesis using s' Cons.IH [OF s'(3)] Cons.prems(2) by (subst nextLine.simps) simp
    next
      case False
      then show ?thesis using s' Cons.prems(2) by (subst nextLine.simps) auto
    qed
  qed simp
  then show thesis using that by blast
qed

lemma readPoints_lines:
  assumes "gives ls err s"
  obtains s' where "Scanner_Err s' = err"
    "readPoints rd s st =
       map_option (\<lambda>st. (st, s')) (go_range (\<lambda>line st. do { flds \<leftarrow> Fields line; addPoint flds st }) (content ls) st)"
proof -
  have "\<exists>s'. Scanner_Err s' = err \<and> readPoints rd s st =
      map_option (\<lambda>st. (st, s')) (go_range (\<lambda>line st. do { flds \<leftarrow> Fields line; addPoint flds st }) (content ls) st)"
    using assms
  proof (induction ls arbitrary: s st)
    case Nil
    from Nil.prems(1) obtain s' where "Scan rd s = Some (False, s')" "Scanner_Err s' = err" by (rule Scan_end)
    then show ?case by (subst readPoints.simps) auto
  next
    case (Cons l ls)
    from Cons.prems(1) obtain s' where s': "Scan rd s = Some (True, s')" "Scanner_Text s' = l" "gives ls err s'"
      by (rule Scan_line)
    have step: "readPoints rd s st =
        (if TrimSpace l = [] then readPoints rd s' st
         else do { flds \<leftarrow> Fields (TrimSpace l); st \<leftarrow> addPoint flds st; readPoints rd s' st })"
      using s' by (subst readPoints.simps) simp
    show ?case
    proof (cases "TrimSpace l = []")
      case True
      then show ?thesis using step Cons.IH [OF s'(3)] by simp
    next
      case False
      show ?thesis
      proof (cases "do { flds \<leftarrow> Fields (TrimSpace l); addPoint flds st }")
        case None
        then have "readPoints rd s st = None" using step False by (auto simp: bind_eq_None_conv)
        moreover obtain s'' :: "'r Scanner" where "Scanner_Err s'' = err" using Cons.IH [OF s'(3), of st] by blast
        ultimately show ?thesis using None False by auto
      next
        case (Some st')
        then have "readPoints rd s st = readPoints rd s' st'" using step False by (auto simp: bind_eq_Some_conv)
        then show ?thesis using Some False Cons.IH [OF s'(3), of st'] by auto
      qed
    qed
  qed
  then show thesis using that by blast
qed

end

context regular_file
begin

text \<open>The portions in which the file is read do not matter.\<close>

theorem LoadInstance_text:
  "LoadInstance sys files filePath =
     (case files filePath of None \<Rightarrow> Some (Inl CannotOpen) | Some file \<Rightarrow> load_text filePath (left file))"
proof (cases "files filePath")
  case (Some f)
  let ?rd = "FD_Read sys"
  let ?s = "NewScanner f"
  let ?err = "scan_error (left f)"
  note start = NewScanner_gives [of f]
  show ?thesis
  proof (cases "content (text_lines (left f))")
    case Nil
    from nextLine_end [OF start Nil] obtain s1 where "nextLine ?rd ?s = Some (None, s1)" .
    then show ?thesis using Some Nil by (simp add: LoadInstance_def load_text_def)
  next
    case (Cons h ls)
    from nextLine_line [OF start Cons] obtain s1 ls1
      where n1: "nextLine ?rd ?s = Some (Some h, s1)" and g1: "gives ls1 ?err s1" and c1: "content ls1 = ls" .
    show ?thesis
    proof (cases ls)
      case Nil
      from nextLine_end [OF g1] c1 Nil obtain s2 where "nextLine ?rd s1 = Some (None, s2)" by auto
      then show ?thesis using Some Cons Nil n1 by (simp add: LoadInstance_def load_text_def cong: if_cong)
    next
      case tmax: (Cons t ks)
      from nextLine_line [OF g1 c1 [unfolded tmax]] obtain s2 ls2
        where n2: "nextLine ?rd s1 = Some (Some t, s2)" and g2: "gives ls2 ?err s2" and c2: "content ls2 = ks" .
      show ?thesis
      proof (cases ks)
        case Nil
        from nextLine_end [OF g2] c2 Nil obtain s3 where "nextLine ?rd s2 = Some (None, s3)" by auto
        then show ?thesis using Some Cons tmax Nil n1 n2 by (simp add: LoadInstance_def load_text_def cong: option.case_cong if_cong)
      next
        case td: (Cons d ps)
        from nextLine_line [OF g2 c2 [unfolded td]] obtain s3 ls3
          where n3: "nextLine ?rd s2 = Some (Some d, s3)" and g3: "gives ls3 ?err s3" and c3: "content ls3 = ps" .
        from readPoints_lines [OF g3, of noPoints] obtain s4 where e4: "Scanner_Err s4 = ?err"
          and r4: "readPoints ?rd s3 noPoints = map_option (\<lambda>st. (st, s4)) (parsePoints ps)"
          unfolding parsePoints_def c3 [symmetric] by blast
        then show ?thesis using Some Cons tmax td n1 n2 n3
          by (simp add: LoadInstance_def load_text_def e4 bind_map_option comp_def cong: option.case_cong if_cong)
      qed
    qed
  qed
qed (simp add: LoadInstance_def)

end

section \<open>Well-formed instances\<close>

text \<open>What the loop over the points keeps.\<close>

definition lists_ok :: "pointLists \<Rightarrow> bool" where
  "lists_ok st \<longleftrightarrow>
     (let n = length (plPoints st)
      in plCounter st = int n \<and> (\<forall>i < n. pID (plPoints st ! i) = int i) \<and>
         plHotels st = filter (\<lambda>i. pType (plPoints st ! nat i) = TypeHotel) (map int [0..<n]) \<and>
         plSites st = filter (\<lambda>i. pType (plPoints st ! nat i) = TypeSite) (map int [0..<n]))"

lemma addPoint_ok:
  assumes "lists_ok st" "addPoint flds st = Some st'"
  shows "lists_ok st'"
proof (cases "st' = st")
  case False
  then obtain p where pts: "plPoints st' = plPoints st @ [p]" "pID p = plCounter st"
      "plHotels st' = plHotels st @ (if pType p = TypeHotel then [plCounter st] else [])"
      "plSites st' = plSites st @ (if pType p = TypeSite then [plCounter st] else [])"
      "plCounter st' = plCounter st + 1"
    using assms(2) by (auto simp: addPoint_def bind_eq_Some_conv Let_def split: if_splits)
  let ?n = "length (plPoints st)"
  have same: "filter (\<lambda>i. pType ((plPoints st @ [p]) ! nat i) = t) (map int [0..<?n]) =
      filter (\<lambda>i. pType (plPoints st ! nat i) = t) (map int [0..<?n])" for t
    by (rule filter_cong) (auto simp: nth_append)
  have "\<forall>i < length (plPoints st'). pID (plPoints st' ! i) = int i"
    using assms(1) pts(1,2) by (auto simp: lists_ok_def Let_def nth_append less_Suc_eq)
  then show ?thesis using assms(1) pts by (simp add: lists_ok_def Let_def same)
qed (use assms in simp)

lemma parsePoints_ok: "parsePoints ps = Some st \<Longrightarrow> lists_ok st"
  unfolding parsePoints_def
proof (erule go_range_inv)
  show "lists_ok noPoints" by (simp add: lists_ok_def noPoints_def)
qed (auto simp: bind_eq_Some_conv intro: addPoint_ok)

lemma makeInstance_spec:
  assumes "lists_ok st"
  shows "\<exists>inst. makeInstance filePath dCount tMax budgets st = Some inst \<and>
    Points inst = plPoints st \<and> NbDays inst = dCount \<and> MaxDist inst = tMax \<and> MaxDistPerDay inst = budgets \<and>
    (plPoints st \<noteq> [] \<longrightarrow> wf_inst inst) \<and>
    (\<forall>a < length (plPoints st). \<forall>b < length (plPoints st). DistMatrix inst ! a ! b = pair_dist inst a b)"
proof -
  let ?n = "length (plPoints st)"
  let ?i = "\<lparr>Name = filePath, NbDays = dCount, MaxDist = tMax, MaxDistPerDay = budgets, Points = plPoints st,
     HotelIDs = plHotels st, SiteIDs = plSites st, DistMatrix = replicate ?n (replicate ?n 0), StartHotelID = 0, EndHotelID = 0\<rparr>"
  have "square (length (Points ?i)) (DistMatrix ?i)" by (simp add: square_def)
  from ComputeDistMatrix_spec [OF this] obtain m where m: "ComputeDistMatrix ?i = Some (?i\<lparr>DistMatrix := m\<rparr>)"
      "square ?n m" "\<forall>a < ?n. \<forall>b < ?n. m ! a ! b = pair_dist ?i a b" by auto
  define inst where "inst = (if ?n \<ge> 2 then ?i\<lparr>DistMatrix := m, StartHotelID := 0, EndHotelID := 1\<rparr> else ?i\<lparr>DistMatrix := m\<rparr>)"
  have sel: "Points inst = plPoints st" "NbDays inst = dCount" "MaxDist inst = tMax" "MaxDistPerDay inst = budgets"
      "HotelIDs inst = plHotels st" "SiteIDs inst = plSites st" "DistMatrix inst = m"
      "StartHotelID inst = 0" "EndHotelID inst = (if ?n \<ge> 2 then 1 else 0)"
    by (simp_all add: inst_def)
  have "makeInstance filePath dCount tMax budgets st = Some inst"
    using m(1) by (simp add: makeInstance_def inst_def Let_def)
  moreover have "wf_inst inst" if "plPoints st \<noteq> []"
  proof -
    have range: "set (map int [0..<?n]) = {i. 0 \<le> i \<and> i < int ?n}" by (auto simp: image_int_atLeastLessThan)
    have "set (plHotels st) = {p. hotel inst p}" "set (plSites st) = {p. site inst p}" "distinct (plSites st)"
      using assms range by (auto simp: lists_ok_def Let_def hotel_def site_def in_range_def sel distinct_map)
    then show ?thesis
      using assms m(2) that by (auto simp: wf_inst_def sel lists_ok_def Let_def square_def in_range_def)
  qed
  moreover have "pair_dist inst a b = pair_dist ?i a b" for a b by (simp add: pair_dist_def sel)
  ultimately show ?thesis using m(3) sel by auto
qed

section \<open>The parser returns\<close>

lemma addPoint_returns: "\<exists>st'. addPoint flds st = Some st'"
proof -
  have "\<forall>f. \<exists>v. parsedFloat f = Some v" using ParseFloat_returns by (auto simp: parsedFloat_def)
  then obtain v where "\<And>f. parsedFloat f = Some (v f)" by metis
  then show ?thesis by (simp add: addPoint_def Let_def)
qed

lemma parsePoints_returns: "\<exists>st. parsePoints ps = Some st"
proof -
  let ?body = "\<lambda>line st. do { flds \<leftarrow> Fields line; addPoint flds st }"
  have "\<exists>t. go_range ?body ps noPoints = Some t \<and> True"
  proof (rule go_range_total)
    show "\<exists>s'. ?body x s = Some s' \<and> True" for x s
    proof -
      obtain ws where "Fields x = Some ws" using Fields_returns by blast
      then show ?thesis using addPoint_returns [of ws s] by simp
    qed
  qed simp
  then show ?thesis by (simp add: parsePoints_def)
qed

lemma parseBudgets_returns: "\<exists>bs. parseBudgets line = Some bs"
proof -
  obtain ws where ws: "Fields line = Some ws" using Fields_returns by blast
  let ?body = "\<lambda>f bs. do { (v, err) \<leftarrow> ParseFloat f; Some (if err = None then bs @ [v] else bs) }"
  have "\<exists>t. go_range ?body ws [] = Some t \<and> True"
  proof (rule go_range_total)
    show "\<exists>s'. ?body x s = Some s' \<and> True" for x s using ParseFloat_returns [of x] by auto
  qed simp
  then show ?thesis using ws by (simp add: parseBudgets_def)
qed

text \<open>Every text is answered; and an instance with points is well-formed, with the distances of its points.\<close>

definition loaded_ok :: "load_error + Instance \<Rightarrow> bool" where
  "loaded_ok res \<longleftrightarrow>
     (\<forall>inst. res = Inr inst \<longrightarrow>
        (Points inst \<noteq> [] \<longrightarrow> wf_inst inst) \<and>
        (\<forall>a < length (Points inst). \<forall>b < length (Points inst). DistMatrix inst ! a ! b = pair_dist inst a b))"

theorem load_text_returns: "\<exists>res. load_text filePath u = Some res \<and> loaded_ok res"
proof -
  have mk: "\<exists>inst. makeInstance filePath n t bs st = Some inst \<and> loaded_ok (Inr inst)" if "parsePoints ps = Some st" for n t bs st ps
    using makeInstance_spec [OF parsePoints_ok [OF that], of filePath n t bs] by (auto simp: loaded_ok_def)
  have err: "loaded_ok (Inl e)" for e by (simp add: loaded_ok_def)
  show ?thesis
  proof (cases "content (text_lines u)")
    case Nil
    then show ?thesis using err by (simp add: load_text_def)
  next
    case (Cons h ls)
    obtain parts where parts: "Fields h = Some parts" using Fields_returns by blast
    show ?thesis
    proof (cases "length parts < 3 \<or> ls = []")
      case True
      then show ?thesis using Cons parts err by (auto simp: load_text_def)
    next
      case False
      then obtain t ks where ls: "ls = t # ks" by (cases ls) auto
      obtain v e where v: "ParseFloat t = Some (v, e)" using ParseFloat_returns by blast
      show ?thesis
      proof (cases "e \<noteq> None \<or> ks = []")
        case True
        then show ?thesis using Cons parts ls v False err by (auto simp: load_text_def split: option.splits)
      next
        case tdl: False
        then obtain d ps where ks: "ks = d # ps" by (cases ks) auto
        obtain bs st where b: "parseBudgets d = Some bs" "parsePoints ps = Some st"
          using parseBudgets_returns parsePoints_returns by blast
        obtain inst where "makeInstance filePath (fst (Atoi (parts ! 2))) v bs st = Some inst" "loaded_ok (Inr inst)"
          using mk [OF b(2)] by blast
        then show ?thesis using Cons parts ls v False tdl ks b err
          by (cases "scan_error u") (auto simp: load_text_def)
      qed
    qed
  qed
qed

context regular_file
begin

corollary LoadInstance_returns: "\<exists>res. LoadInstance sys files filePath = Some res \<and> loaded_ok res"
proof (cases "files filePath")
  case (Some f)
  then show ?thesis using load_text_returns by (simp add: LoadInstance_text)
qed (simp add: LoadInstance_text loaded_ok_def)

end

end
