(* ===== verification/Local_Search_Spec.thy ===== *)
theory Local_Search_Spec
  imports Local_Search Models_Spec
begin

text \<open>
  The parallel search, for every interleaving of its goroutines: an invariant of the reachable states,
  progress, a bound on the number of steps, the quality of the result, and the panic that two
  goroutines can cause that reach the target together.
\<close>

section \<open>Solutions that are kept\<close>

text \<open>The order of the scores; a solution that never was replaced counts as not worse than itself.\<close>

definition no_worse :: "Solution \<Rightarrow> Solution \<Rightarrow> bool" where
  "no_worse a b \<longleftrightarrow> TotalScore a = TotalScore b \<or> fge64 (TotalScore a) (TotalScore b)"

lemma no_worse_refl [simp]: "no_worse a a"
  by (simp add: no_worse_def)

lemma no_worse_trans: "no_worse a b \<Longrightarrow> no_worse b c \<Longrightarrow> no_worse a c"
  by (auto simp: no_worse_def fge64_iff)

lemma improvesOn_no_worse: "improvesOn a b \<Longrightarrow> no_worse a b"
  by (auto simp: improvesOn_def no_worse_def fge64_iff fgt64_iff feq64_iff)

text \<open>What every \<open>localBest\<close> and every result is: the first solution or an accepted one, never worse.\<close>

definition kept :: "search \<Rightarrow> Solution \<Rightarrow> bool" where
  "kept s sol \<longleftrightarrow> SolInstance sol = sInst s \<and> tour (sInst s) (routes sol) \<and> evaluated sol \<and> no_worse sol (sBest s) \<and>
     (sol = sBest s \<or> valid_routes (sInst s) (routes sol))"

definition search_ok :: "search \<Rightarrow> bool" where
  "search_ok s \<longleftrightarrow> wf_inst (sInst s) \<and> small (sInst s) \<and> hotel (sInst s) (StartHotelID (sInst s)) \<and>
     hotel (sInst s) (EndHotelID (sInst s)) \<and> kept s (sBest s)"

lemma evaluated_revalued:
  assumes "SolInstance sol = inst" "tour inst (routes sol)"
  shows "evaluated (revalued sol)"
proof -
  have "known_points sol" using assms tour_known_points [of sol] by simp
  moreover have "\<forall>day \<in> set (Days sol). Steps day \<noteq> []"
    using assms(2) wf_route_ne by (fastforce simp: tour_def routes_def route_def)
  ultimately show ?thesis unfolding evaluated_def by (rule EvaluateScore_revalued)
qed

lemma EvaluateSolution_tour:
  assumes "wf_inst inst" "SolInstance sol = inst" "tour inst (routes sol)"
  shows "\<exists>sol' err. EvaluateSolution sol = Some (sol', err) \<and>
    (err = None \<longrightarrow> SolInstance sol' = inst \<and> tour inst (routes sol') \<and> evaluated sol' \<and> valid_routes inst (routes sol'))"
proof -
  have k: "known_points sol" using assms tour_known_points [of sol] by simp
  show ?thesis
  proof (cases "valid_routes inst (routes sol)")
    case True
    have "evaluated (revalued sol)" by (rule evaluated_revalued [OF assms(2,3)])
    then show ?thesis using EvaluateSolution_ok [of sol] k assms True by simp
  next
    case False
    then show ?thesis using EvaluateSolution_err [of sol] k assms by auto
  qed
qed

text \<open>A candidate after the descent and the check.\<close>

lemma candidate_ok:
  assumes "vnd_inv inst c r" "ticking clk"
  shows "\<exists>c1 r1 n1 c2 err. applyVND clk deadline c r n = Some (c1, r1, n1) \<and> rng_ok r1 \<and> n \<le> n1 \<and>
    EvaluateSolution c1 = Some (c2, err) \<and>
    (err = None \<longrightarrow> SolInstance c2 = inst \<and> tour inst (routes c2) \<and> evaluated c2 \<and> valid_routes inst (routes c2))"
proof -
  obtain c1 r1 n1 where v: "applyVND clk deadline c r n = Some (c1, r1, n1)" "vnd_inv inst c1 r1" "n \<le> n1"
    using applyVND_ok [OF assms] by blast
  then have "wf_inst inst" "SolInstance c1 = inst" "tour inst (routes c1)" "rng_ok r1" by (simp_all add: vnd_inv_def)
  with EvaluateSolution_tour [of inst c1] v show ?thesis by blast
qed

section \<open>The tours of the randomized greedy construction\<close>

lemma greedy_tour_shape:
  assumes "greedy_tour inst rcl m d V p rs" "hotel inst p"
  shows "(\<forall>ps \<in> set rs. wf_route inst ps) \<and> linked p rs \<and> distinct (sites inst (concat rs)) \<and>
    set (sites inst (concat rs)) \<inter> V = {} \<and> (rs \<noteq> [] \<longrightarrow> d + int (length rs) = NbDays inst \<longrightarrow> last (last rs) = EndHotelID inst)"
  using assms
proof (induction rs arbitrary: d V p)
  case Nil
  then show ?case by simp
next
  case (Cons ps rs)
  then obtain qs e where ps: "ps = p # qs @ [e]" and day: "greedy_day inst d p qs e"
    and qs: "distinct qs" "set qs \<inter> V = {}" and rest: "greedy_tour inst rcl m (d + 1) (V \<union> set qs) e rs" by auto
  have e: "hotel inst e" "\<forall>q \<in> set qs. site inst q" "d = NbDays inst - 1 \<longrightarrow> e = EndHotelID inst"
    using day greedy_path_range by (auto simp: greedy_day_def day_end_def)
  have s: "sites inst ps = qs" unfolding ps by (rule sites_wf_route [OF Cons.prems(2) e(1,2)])
  have "wf_route inst ps" unfolding wf_route_iff using ps Cons.prems(2) e by blast
  moreover have "last (last (ps # rs)) = EndHotelID inst" if "d + int (length (ps # rs)) = NbDays inst"
    using that Cons.IH [OF rest e(1)] e(3) ps by (cases "rs = []") (simp_all add: add.assoc)
  moreover have "linked p (ps # rs)" using Cons.IH [OF rest e(1)] ps by simp
  moreover have "sites inst (concat (ps # rs)) = qs @ sites inst (concat rs)" using s by simp
  ultimately show ?case using Cons.IH [OF rest e(1)] qs by (simp del: concat.simps sites_append sites_Cons linked.simps) blast
qed

lemma tour_of_greedy:
  assumes "greedy_tour inst rcl m 0 {} (StartHotelID inst) rs" "hotel inst (StartHotelID inst)" "length rs = nat (NbDays inst)"
  shows "tour inst rs"
proof -
  have "int (length rs) = NbDays inst" if "rs \<noteq> []" using assms(3) that by (cases "NbDays inst < 0") auto
  then show ?thesis using greedy_tour_shape [OF assms(1,2)] assms(3) by (simp add: tour_def)
qed

section \<open>One goroutine\<close>

definition worker_ok :: "search \<Rightarrow> worker \<Rightarrow> bool" where
  "worker_ok s wk \<longleftrightarrow> kept s (wBest wk) \<and> rng_ok (wRng wk) \<and> 1 \<le> wForce wk \<and> wForce wk \<le> 4 \<and>
     0 \<le> wNoImprove wk \<and> wNoImprove wk \<le> 5"

lemma noImprove_ok: "worker_ok s wk \<Longrightarrow> worker_ok s (noImprove wk)"
  by (auto simp: worker_ok_def noImprove_def Let_def)

lemma noImprove_sel [simp]:
  "wBest (noImprove wk) = wBest wk" "wDeadline (noImprove wk) = wDeadline wk" "wClock (noImprove wk) = wClock wk"
  "wPc (noImprove wk) = wPc wk"
  by (simp_all add: noImprove_def Let_def)

lemma worker_ok_fields:
  "worker_ok s (wk\<lparr>wRng := r, wClock := n\<rparr>) \<longleftrightarrow> worker_ok s (wk\<lparr>wRng := r\<rparr>)"
  "worker_ok s (wk\<lparr>wPc := p\<rparr>) = worker_ok s wk" "worker_ok s (wk\<lparr>wPc := p, wClock := n\<rparr>) = worker_ok s wk"
  by (simp_all add: worker_ok_def)

text \<open>The work on a candidate does what it should and leaves the deadline.\<close>

definition worked :: "search \<Rightarrow> worker \<Rightarrow> worker \<Rightarrow> bool" where
  "worked s wk wk' \<longleftrightarrow> worker_ok s wk' \<and> wDeadline wk' = wDeadline wk \<and> wClock wk \<le> wClock wk' \<and>
     no_worse (wBest wk') (wBest wk)"

lemma worked_better:
  assumes "worker_ok s wk" "rng_ok r" "wClock wk \<le> n" "improvesOn c (wBest wk)"
    and "SolInstance c = sInst s" "tour (sInst s) (routes c)" "evaluated c" "valid_routes (sInst s) (routes c)"
    and "1 \<le> f" "f \<le> 4" "0 \<le> i" "i \<le> 5"
  shows "worked s wk (wk\<lparr>wRng := r, wBest := c, wFoundAt := t, wClock := n, wForce := f, wNoImprove := i\<rparr>)"
  using assms improvesOn_no_worse [OF assms(4)] no_worse_trans
  by (auto simp: worked_def worker_ok_def kept_def)

lemma vnd_inv_kept: "search_ok s \<Longrightarrow> kept s sol \<Longrightarrow> rng_ok r \<Longrightarrow> vnd_inv (sInst s) sol r"
  by (simp add: search_ok_def kept_def vnd_inv_def)

lemma graspIter_ok:
  assumes "search_ok s" "worker_ok s wk" "ticking clk"
  shows "\<exists>wk' valid. graspIter s clk w wk = Some (wk', valid) \<and> worked s wk wk'"
proof -
  let ?inst = "sInst s"
  have inst: "wf_inst ?inst" "small ?inst" "hotel ?inst (StartHotelID ?inst)" "hotel ?inst (EndHotelID ?inst)"
    using assms(1) by (simp_all add: search_ok_def)
  have wk: "rng_ok (wRng wk)" "1 \<le> wForce wk" "wForce wk \<le> 4" "0 \<le> wNoImprove wk" "wNoImprove wk \<le> 5"
    using assms(2) by (simp_all add: worker_ok_def)
  have "w mod 5 < 5" "0 \<le> w mod 5" by simp_all
  then have rcl: "2 + w mod 5 + 1 \<le> 2 ^ 30" "\<not> 2 + w mod 5 + 1 \<le> 1" by simp_all
  then have src: "source_ok (2 + w mod 5 + 1) (Some (wRng wk))" using wk(1) by (auto simp: source_ok_def)
  have pts: "length (Points ?inst) < 2 ^ 62" using inst(2) by (simp add: small_def)
  from greedy_returns [OF inst(1) pts inst(3,4) src, of "w mod 4"] obtain rs rng' where
    g: "solveGreedyInternal ?inst (2 + w mod 5 + 1) (Some (wRng wk)) (w mod 4) = Some (tour_solution ?inst rs, rng')"
    "length rs = nat (NbDays ?inst)" "greedy_tour ?inst (2 + w mod 5 + 1) (w mod 4) 0 {} (StartHotelID ?inst) rs"
    "source_ok (2 + w mod 5 + 1) rng'" by blast
  obtain r where r: "rng' = Some r" "rng_ok r" using g(4) rcl(2) by (auto simp: source_ok_def)
  have t: "tour ?inst rs" by (rule tour_of_greedy [OF g(3) inst(3) g(2)])
  have ts: "SolInstance (tour_solution ?inst rs) = ?inst" "tour ?inst (routes (tour_solution ?inst rs))"
    using t by (simp_all add: tour_solution_def [of ?inst rs, THEN arg_cong [where f = SolInstance]])
  from EvaluateScore_descends [OF ts] obtain c where
    c: "EvaluateScore (tour_solution ?inst rs) = Some c" "SolInstance c = ?inst" "tour ?inst (routes c)"
    by (auto simp: descends_def)
  then have "vnd_inv ?inst c r" using inst r(2) by (simp add: vnd_inv_def)
  from candidate_ok [OF this assms(3), of "wDeadline wk" "wClock wk"] obtain c1 r1 n1 c2 err where
    v: "applyVND clk (wDeadline wk) c r (wClock wk) = Some (c1, r1, n1)" "rng_ok r1" "wClock wk \<le> n1"
      "EvaluateSolution c1 = Some (c2, err)"
    and ok: "err = None \<Longrightarrow> SolInstance c2 = ?inst \<and> tour ?inst (routes c2) \<and> evaluated c2 \<and> valid_routes ?inst (routes c2)"
    by blast
  have same: "worked s wk (wk\<lparr>wRng := r1, wClock := n1\<rparr>)"
    using assms(2) v(2,3) by (simp add: worked_def worker_ok_def)
  have better: "worked s wk (wk\<lparr>wRng := r1, wBest := c2, wFoundAt := clk n1 - sStart s, wClock := Suc n1\<rparr>)"
    if "err = None" "improvesOn c2 (wBest wk)"
    using worked_better [OF assms(2) v(2) _ that(2) _ _ _ _ wk(2-5), of "Suc n1" "clk n1 - sStart s"] ok [OF that(1)] v(3)
    by simp
  show ?thesis
    using g(1) r(1) c(1) v(1,4) same better
    by (cases "err = None"; cases "improvesOn c2 (wBest wk)")
      (auto simp: graspIter_def SolveGreedyRandomized_def Let_def)
qed

lemma vnsIter_ok:
  assumes "search_ok s" "worker_ok s wk" "ticking clk" "map_keys keys"
  shows "\<exists>wk' valid. vnsIter s keys clk wk = Some (wk', valid) \<and> worked s wk wk'"
proof -
  let ?inst = "sInst s"
  have wk: "rng_ok (wRng wk)" "kept s (wBest wk)" using assms(2) by (simp_all add: worker_ok_def)
  from applyShake_ok [OF vnd_inv_kept [OF assms(1) wk(2,1)], of "wForce wk"] assms(4) obtain c r where
    c: "applyShake keys (wBest wk) (wForce wk) (wRng wk) = Some (c, r)" "vnd_inv ?inst c r" by blast
  from candidate_ok [OF c(2) assms(3), of "wDeadline wk" "wClock wk"] obtain c1 r1 n1 c2 err where
    v: "applyVND clk (wDeadline wk) c r (wClock wk) = Some (c1, r1, n1)" "rng_ok r1" "wClock wk \<le> n1"
      "EvaluateSolution c1 = Some (c2, err)"
    and ok: "err = None \<Longrightarrow> SolInstance c2 = ?inst \<and> tour ?inst (routes c2) \<and> evaluated c2 \<and> valid_routes ?inst (routes c2)"
    by blast
  have "worker_ok s (wk\<lparr>wRng := r1, wClock := n1\<rparr>)" using assms(2) v(2) by (simp add: worker_ok_def)
  then have same: "worked s wk (noImprove (wk\<lparr>wRng := r1, wClock := n1\<rparr>))"
    using noImprove_ok v(3) by (simp add: worked_def)
  have better: "worked s wk (wk\<lparr>wRng := r1, wBest := c2, wFoundAt := clk n1 - sStart s, wClock := Suc n1, wForce := 1, wNoImprove := 0\<rparr>)"
    if "err = None" "improvesOn c2 (wBest wk)"
    using worked_better [OF assms(2) v(2) _ that(2), of "Suc n1" 1 0 "clk n1 - sStart s"] ok [OF that(1)] v(3) by simp
  show ?thesis
    using c(1) v(1,4) same better
    by (cases "err = None"; cases "improvesOn c2 (wBest wk)") (auto simp: vnsIter_def Clone_id Let_def)
qed

end
