(* ===== verification/Search_System.thy ===== *)
theory Search_System
  imports Local_Search_Spec
begin

text \<open>
  The system of the goroutines: the invariant of its reachable states, progress, the bound on its
  steps, the merge of the results, and when \<open>close(done)\<close> panics.
\<close>

section \<open>The invariant\<close>

definition has_result :: "pc \<Rightarrow> bool" where
  "has_result p \<longleftrightarrow> p \<in> {AtCheck, AtClose, Exited}"

definition deadline_of :: "search \<Rightarrow> (int \<Rightarrow> clock) \<Rightarrow> nat \<Rightarrow> int" where
  "deadline_of s clks i = clks (int i) 1 + sRemaining s"

definition at_ok :: "search \<Rightarrow> (int \<Rightarrow> clock) \<Rightarrow> nat \<Rightarrow> worker \<Rightarrow> workerResult option \<Rightarrow> bool" where
  "at_ok s clks i wk r \<longleftrightarrow>
     worker_ok s wk \<and> wDeadline wk = deadline_of s clks i \<and> (has_result (wPc wk) \<longrightarrow> r \<noteq> None) \<and>
     (wPc wk \<in> {AtCheck, AtClose} \<longrightarrow> targetReached (sTarget s) (wBest wk)) \<and>
     (case r of None \<Rightarrow> True | Some r \<Rightarrow> kept s (rSol r))"

definition sys_ok :: "search \<Rightarrow> (int \<Rightarrow> clock) \<Rightarrow> system \<Rightarrow> bool" where
  "sys_ok s clks st \<longleftrightarrow>
     length (results st) = length (workers st) \<and>
     (\<forall>i < length (workers st). at_ok s clks i (workers st ! i) (results st ! i)) \<and>
     (panicked st \<longrightarrow> doneClosed st) \<and> (doneClosed st \<longrightarrow> fgt64 (sTarget s) 0)"

text \<open>A step changes one goroutine and its slot.\<close>

lemma sys_ok_set:
  assumes "sys_ok s clks st" "i < length (workers st)" "at_ok s clks i wk r"
    and "p \<longrightarrow> d" "d \<longrightarrow> fgt64 (sTarget s) 0"
  shows "sys_ok s clks (st\<lparr>workers := (workers st)[i := wk], results := (results st)[i := r], doneClosed := d, panicked := p\<rparr>)"
  using assms by (auto simp: sys_ok_def nth_list_update)

lemma put_worker_in: "i < length (workers st) \<Longrightarrow>
    put_worker (int i) wk st = Some (st\<lparr>workers := (workers st)[i := wk]\<rparr>)"
  by (simp add: put_worker_def)

lemma put_result_in: "i < length (results st) \<Longrightarrow>
    put_result (int i) wk st = Some (st\<lparr>results := (results st)[i := Some \<lparr>rSol = wBest wk, rFoundAt = wFoundAt wk\<rparr>]\<rparr>)"
  by (simp add: put_result_def)

text \<open>
  What a step of goroutine \<open>i\<close> does to it, to its slot, to \<open>done\<close> and to the flag of the panic.
\<close>

definition moved :: "search \<Rightarrow> clock \<Rightarrow> system \<Rightarrow> nat \<Rightarrow> worker \<Rightarrow> workerResult option \<Rightarrow> bool \<Rightarrow> bool \<Rightarrow> bool" where
  "moved s clk st i wk' r' d' p' \<longleftrightarrow>
     (let wk = workers st ! i; r = results st ! i; d = doneClosed st; p = panicked st;
          own = Some \<lparr>rSol = wBest wk, rFoundAt = wFoundAt wk\<rparr>
      in case wPc wk of
        AtLoop \<Rightarrow> wk' = wk\<lparr>wPc := (if clk (wClock wk) < wDeadline wk then AtSelect else AtEnd), wClock := wClock wk + 1\<rparr> \<and>
          r' = r \<and> d' = d \<and> p' = p
      | AtSelect \<Rightarrow> (if d then wk' = wk\<lparr>wPc := Exited\<rparr> \<and> r' = own else wk' = wk\<lparr>wPc := AtWork\<rparr> \<and> r' = r) \<and> d' = d \<and> p' = p
      | AtWork \<Rightarrow> (\<exists>wk1 v. worked s wk wk1 \<and> wk' = wk1\<lparr>wPc := (if v then AtTarget else AtLoop)\<rparr>) \<and> r' = r \<and> d' = d \<and> p' = p
      | AtTarget \<Rightarrow> (if targetReached (sTarget s) (wBest wk) then wk' = wk\<lparr>wPc := AtCheck\<rparr> \<and> r' = own
          else wk' = wk\<lparr>wPc := AtLoop\<rparr> \<and> r' = r) \<and> d' = d \<and> p' = p
      | AtCheck \<Rightarrow> wk' = wk\<lparr>wPc := (if d then Exited else AtClose)\<rparr> \<and> r' = r \<and> d' = d \<and> p' = p
      | AtClose \<Rightarrow> r' = r \<and> d' \<and> (if d then wk' = wk \<and> p' else wk' = wk\<lparr>wPc := Exited\<rparr> \<and> p' = p)
      | AtEnd \<Rightarrow> wk' = wk\<lparr>wPc := Exited\<rparr> \<and> r' = own \<and> d' = d \<and> p' = p
      | Exited \<Rightarrow> False)"

lemma workerStep_moves:
  assumes "search_ok s" "sys_ok s clks st" "i < length (workers st)" "ticking (clks (int i))" "map_keys keys"
    and "wPc (workers st ! i) \<noteq> Exited"
  shows "\<exists>wk' r' d' p'. workerStep s keys (clks (int i)) (int i) st =
      Some (st\<lparr>workers := (workers st)[i := wk'], results := (results st)[i := r'], doneClosed := d', panicked := p'\<rparr>) \<and>
    moved s (clks (int i)) st i wk' r' d' p'"
proof -
  let ?wk = "workers st ! i"
  have ri: "i < length (results st)" using assms(2,3) by (simp add: sys_ok_def)
  have wk: "worker_ok s ?wk" using assms(2,3) by (simp add: sys_ok_def at_ok_def)
  have nth: "go_nth (workers st) (int i) = Some ?wk" using assms(3) by simp
  have id: "st\<lparr>workers := ws, results := (results st)[i := results st ! i], doneClosed := doneClosed st, panicked := panicked st\<rparr> =
      st\<lparr>workers := ws\<rparr>" for ws by simp
  note run = workerStep_def nth put_worker_in [OF assms(3)] put_result_in [OF ri]
  show ?thesis
  proof (cases "wPc ?wk")
    case AtWork
    obtain wk1 v where w: "(if int i < sNbGRASP s then graspIter s (clks (int i)) (int i) ?wk else vnsIter s keys (clks (int i)) ?wk) =
        Some (wk1, v)" "worked s ?wk wk1"
      using graspIter_ok [OF assms(1) wk assms(4), of "int i"] vnsIter_ok [OF assms(1) wk assms(4,5)]
      by (cases "int i < sNbGRASP s") auto
    let ?wk' = "wk1\<lparr>wPc := (if v then AtTarget else AtLoop)\<rparr>"
    have "workerStep s keys (clks (int i)) (int i) st = Some (st\<lparr>workers := (workers st)[i := ?wk']\<rparr>)"
      using AtWork w(1) put_worker_in [OF assms(3)] nth by (simp add: workerStep_def)
    moreover have "moved s (clks (int i)) st i ?wk' (results st ! i) (doneClosed st) (panicked st)"
      using AtWork w(2) by (auto simp: moved_def Let_def)
    ultimately show ?thesis using id by metis
  next
    case AtClose
    show ?thesis
    proof (cases "doneClosed st")
      case True
      have "workerStep s keys (clks (int i)) (int i) st = Some (st\<lparr>panicked := True\<rparr>)"
        using AtClose True nth by (simp add: workerStep_def)
      also have "st\<lparr>panicked := True\<rparr> = st\<lparr>workers := (workers st)[i := ?wk], results := (results st)[i := results st ! i],
          doneClosed := True, panicked := True\<rparr>" using True by (cases st) simp
      finally show ?thesis using AtClose True by (intro exI conjI) (assumption, simp add: moved_def Let_def)
    next
      case False
      have "workerStep s keys (clks (int i)) (int i) st = Some (st\<lparr>doneClosed := True, workers := (workers st)[i := ?wk\<lparr>wPc := Exited\<rparr>]\<rparr>)"
        using AtClose False nth assms(3) by (simp add: workerStep_def put_worker_def)
      also have "st\<lparr>doneClosed := True, workers := (workers st)[i := ?wk\<lparr>wPc := Exited\<rparr>]\<rparr> =
          st\<lparr>workers := (workers st)[i := ?wk\<lparr>wPc := Exited\<rparr>], results := (results st)[i := results st ! i],
          doneClosed := True, panicked := panicked st\<rparr>" by (cases st) simp
      finally show ?thesis using AtClose False by (intro exI conjI) (assumption, simp add: moved_def Let_def)
    qed
  next
    case Exited
    with assms(6) show ?thesis by simp
  next
    case AtLoop
    then have "workerStep s keys (clks (int i)) (int i) st = Some (st\<lparr>workers := (workers st)[i := ?wk\<lparr>wPc :=
        (if clks (int i) (wClock ?wk) < wDeadline ?wk then AtSelect else AtEnd), wClock := wClock ?wk + 1\<rparr>],
        results := (results st)[i := results st ! i], doneClosed := doneClosed st, panicked := panicked st\<rparr>)"
      using nth assms(3) by (simp add: workerStep_def put_worker_def)
    then show ?thesis using AtLoop
      by (intro exI conjI) (assumption, simp add: moved_def Let_def)
  next
    case AtCheck
    then have "workerStep s keys (clks (int i)) (int i) st =
        Some (st\<lparr>workers := (workers st)[i := ?wk\<lparr>wPc := (if doneClosed st then Exited else AtClose)\<rparr>],
          results := (results st)[i := results st ! i], doneClosed := doneClosed st, panicked := panicked st\<rparr>)"
      using nth assms(3) by (simp add: workerStep_def put_worker_def)
    then show ?thesis using AtCheck
      by (intro exI conjI) (assumption, simp add: moved_def Let_def)
  next
    case AtEnd
    then have "workerStep s keys (clks (int i)) (int i) st = Some (st\<lparr>workers := (workers st)[i := ?wk\<lparr>wPc := Exited\<rparr>],
        results := (results st)[i := Some \<lparr>rSol = wBest ?wk, rFoundAt = wFoundAt ?wk\<rparr>], doneClosed := doneClosed st, panicked := panicked st\<rparr>)"
      using nth ri assms(3) by (simp add: workerStep_def put_result_def put_worker_def)
    then show ?thesis using AtEnd
      by (intro exI conjI) (assumption, simp add: moved_def Let_def)
  next
    case AtSelect
    have "workerStep s keys (clks (int i)) (int i) st = (if doneClosed st
        then Some (st\<lparr>workers := (workers st)[i := ?wk\<lparr>wPc := Exited\<rparr>],
          results := (results st)[i := Some \<lparr>rSol = wBest ?wk, rFoundAt = wFoundAt ?wk\<rparr>], doneClosed := doneClosed st, panicked := panicked st\<rparr>)
        else Some (st\<lparr>workers := (workers st)[i := ?wk\<lparr>wPc := AtWork\<rparr>], results := (results st)[i := results st ! i],
          doneClosed := doneClosed st, panicked := panicked st\<rparr>))"
      using AtSelect nth ri assms(3) by (simp add: workerStep_def put_result_def put_worker_def)
    then show ?thesis using AtSelect
      by (cases "doneClosed st"; simp only: if_True if_False; intro exI conjI) (assumption, simp add: moved_def Let_def)+
  next
    case AtTarget
    have "workerStep s keys (clks (int i)) (int i) st = (if targetReached (sTarget s) (wBest ?wk)
        then Some (st\<lparr>workers := (workers st)[i := ?wk\<lparr>wPc := AtCheck\<rparr>],
          results := (results st)[i := Some \<lparr>rSol = wBest ?wk, rFoundAt = wFoundAt ?wk\<rparr>], doneClosed := doneClosed st, panicked := panicked st\<rparr>)
        else Some (st\<lparr>workers := (workers st)[i := ?wk\<lparr>wPc := AtLoop\<rparr>], results := (results st)[i := results st ! i],
          doneClosed := doneClosed st, panicked := panicked st\<rparr>))"
      using AtTarget nth ri assms(3) by (simp add: workerStep_def put_result_def put_worker_def)
    then show ?thesis using AtTarget
      by (cases "targetReached (sTarget s) (wBest ?wk)"; simp only: if_True if_False; intro exI conjI) (assumption, simp add: moved_def Let_def)+
  qed
qed

lemma sysStep_moves:
  assumes "sysStep s keys clks st st'" "search_ok s" "sys_ok s clks st" "\<forall>w. ticking (clks w)" "map_keys keys"
  obtains i wk' r' d' p' where "i < length (workers st)" "\<not> panicked st"
    "st' = st\<lparr>workers := (workers st)[i := wk'], results := (results st)[i := r'], doneClosed := d', panicked := p'\<rparr>"
    "moved s (clks (int i)) st i wk' r' d' p'"
  using assms(1)
proof (cases rule: sysStep.cases)
  case (step w)
  then obtain wk where wk: "go_nth (workers st) w = Some wk" by (auto simp: workerStep_def bind_eq_Some_conv)
  moreover have "wPc wk \<noteq> Exited" using step wk by (auto simp: workerStep_def)
  moreover obtain i where "w = int i" using wk by (auto simp: go_nth_Some_iff dest: nonneg_int_cases)
  ultimately have i: "w = int i" "i < length (workers st)" "wPc (workers st ! i) \<noteq> Exited"
    by (simp_all add: go_nth_Some_iff)
  from workerStep_moves [OF assms(2,3) i(2) _ assms(5) i(3)] assms(4) step i(1) that [OF i(2)] show ?thesis by auto
qed

lemma moved_ok:
  assumes "sys_ok s clks st" "i < length (workers st)" "moved s (clks (int i)) st i wk' r' d' p'"
  shows "at_ok s clks i wk' r'" "p' \<longrightarrow> d'" "d' \<longrightarrow> fgt64 (sTarget s) 0"
proof -
  have a: "at_ok s clks i (workers st ! i) (results st ! i)" "panicked st \<longrightarrow> doneClosed st" "doneClosed st \<longrightarrow> fgt64 (sTarget s) 0"
    using assms(1,2) by (simp_all add: sys_ok_def)
  have t: "fgt64 (sTarget s) 0" if "wPc (workers st ! i) = AtClose"
    using a(1) that by (simp add: at_ok_def targetReached_def)
  have k: "kept s (wBest (workers st ! i))" using a(1) by (simp add: at_ok_def worker_ok_def)
  show "at_ok s clks i wk' r'"
    using a(1) assms(3) k by (cases "wPc (workers st ! i)")
      (auto simp: moved_def Let_def at_ok_def worker_ok_fields has_result_def worked_def split: if_splits)
  show "p' \<longrightarrow> d'" "d' \<longrightarrow> fgt64 (sTarget s) 0"
    using a(2,3) t assms(3) by (cases "wPc (workers st ! i)"; auto simp: moved_def Let_def split: if_splits)+
qed

lemma sysStep_ok:
  assumes "sysStep s keys clks st st'" "search_ok s" "sys_ok s clks st" "\<forall>w. ticking (clks w)" "map_keys keys"
  shows "sys_ok s clks st'" "length (workers st') = length (workers st)"
proof -
  obtain i wk' r' d' p' where i: "i < length (workers st)" "\<not> panicked st"
    "st' = st\<lparr>workers := (workers st)[i := wk'], results := (results st)[i := r'], doneClosed := d', panicked := p'\<rparr>"
    "moved s (clks (int i)) st i wk' r' d' p'" by (rule sysStep_moves [OF assms])
  show "sys_ok s clks st'" unfolding i(3) by (rule sys_ok_set [OF assms(3) i(1) moved_ok [OF assms(3) i(1,4)]])
  show "length (workers st') = length (workers st)" using i(3) by simp
qed

theorem sysSteps_ok:
  assumes "(sysStep s keys clks)\<^sup>*\<^sup>* st st'" "search_ok s" "sys_ok s clks st" "\<forall>w. ticking (clks w)" "map_keys keys"
  shows "sys_ok s clks st' \<and> length (workers st') = length (workers st)"
  using assms(1,3)
proof (induction rule: rtranclp_induct)
  case (step st1 st2)
  then show ?case using sysStep_ok [OF step.hyps(2) assms(2) _ assms(4,5)] by simp
qed simp

section \<open>Progress and termination\<close>

theorem sysStep_progress:
  assumes "search_ok s" "sys_ok s clks st" "\<forall>w. ticking (clks w)" "map_keys keys"
    and "\<not> panicked st" "\<not> all_exited st"
  shows "\<exists>st'. sysStep s keys clks st st'"
proof -
  obtain i where "i < length (workers st)" "wPc (workers st ! i) \<noteq> Exited"
    using assms(6) by (auto simp: all_exited_def in_set_conv_nth)
  with workerStep_moves [OF assms(1,2) _ _ assms(4)] assms(3) obtain st' where
    "workerStep s keys (clks (int i)) (int i) st = Some st'" by blast
  with assms(5) show ?thesis by (blast intro: sysStep.step)
qed

fun pc_rank :: "pc \<Rightarrow> nat" where
  "pc_rank AtSelect = 6" | "pc_rank AtWork = 5" | "pc_rank AtTarget = 4" | "pc_rank AtLoop = 3"
| "pc_rank AtCheck = 2" | "pc_rank AtClose = 1" | "pc_rank AtEnd = 1" | "pc_rank Exited = 0"

definition worker_rank :: "nat \<Rightarrow> worker \<Rightarrow> nat" where
  "worker_rank late wk = 8 * (late - wClock wk) + pc_rank (wPc wk)"

lemma moved_rank:
  assumes "moved s clk st i wk' r' d' p'" "mono clk" "wDeadline (workers st ! i) < clk late" "\<not> panicked st"
  shows "worker_rank late wk' + (if p' then 0 else 1) < worker_rank late (workers st ! i) + 1"
proof (cases "wPc (workers st ! i)")
  case AtLoop
  let ?wk = "workers st ! i"
  show ?thesis
  proof (cases "clk (wClock ?wk) < wDeadline ?wk")
    case True
    have "wClock ?wk < late"
    proof (rule ccontr)
      assume "\<not> wClock ?wk < late"
      then have "clk late \<le> clk (wClock ?wk)" using assms(2) by (simp add: mono_def)
      with True assms(3) show False by simp
    qed
    then show ?thesis using AtLoop assms(1,4) True by (auto simp: moved_def Let_def worker_rank_def)
  next
    case False
    then show ?thesis using AtLoop assms(1,4) by (auto simp: moved_def Let_def worker_rank_def)
  qed
qed (use assms(1,4) in \<open>auto simp: moved_def Let_def worker_rank_def worked_def split: if_splits\<close>)

definition sys_rank :: "(nat \<Rightarrow> nat) \<Rightarrow> system \<Rightarrow> nat" where
  "sys_rank late st = (\<Sum>i < length (workers st). worker_rank (late i) (workers st ! i)) + (if panicked st then 0 else 1)"

lemma sysStep_rank:
  assumes "sysStep s keys clks st st'" "search_ok s" "sys_ok s clks st" "\<forall>w. ticking (clks w)" "map_keys keys"
    and "\<forall>i. deadline_of s clks i < clks (int i) (late i)"
  shows "sys_rank late st' < sys_rank late st"
proof -
  obtain i wk' r' d' p' where i: "i < length (workers st)" "\<not> panicked st"
    "st' = st\<lparr>workers := (workers st)[i := wk'], results := (results st)[i := r'], doneClosed := d', panicked := p'\<rparr>"
    "moved s (clks (int i)) st i wk' r' d' p'" by (rule sysStep_moves [OF assms(1-5)])
  have "mono (clks (int i))" using assms(4) by (simp add: ticking_def)
  moreover have "wDeadline (workers st ! i) < clks (int i) (late i)"
    using assms(3,6) i(1) by (simp add: sys_ok_def at_ok_def)
  ultimately have r: "worker_rank (late i) wk' + (if p' then 0 else 1) < worker_rank (late i) (workers st ! i) + 1"
    using moved_rank [OF i(4)] i(2) by blast
  let ?n = "length (workers st)"
  have sum: "(\<Sum>j < ?n. f j) = f i + (\<Sum>j \<in> {..<?n} - {i}. f j)" for f :: "nat \<Rightarrow> nat"
    using i(1) by (intro sum.remove) simp_all
  have "(\<Sum>j \<in> {..<?n} - {i}. worker_rank (late j) ((workers st)[i := wk'] ! j)) =
      (\<Sum>j \<in> {..<?n} - {i}. worker_rank (late j) (workers st ! j))"
    by (intro sum.cong) auto
  then show ?thesis using r i(1,2) unfolding sys_rank_def i(3) by (simp add: sum)
qed

theorem sysSteps_bounded:
  assumes "search_ok s" "sys_ok s clks st" "\<forall>w. ticking (clks w)" "map_keys keys"
  shows "\<exists>N. \<forall>k st'. (sysStep s keys clks ^^ k) st st' \<longrightarrow> k \<le> N"
proof -
  have "\<forall>i. \<exists>n. deadline_of s clks i < clks (int i) n" using assms(3) by (simp add: ticking_def)
  then obtain late where late: "\<forall>i. deadline_of s clks i < clks (int i) (late i)" by metis
  have "k + sys_rank late st' \<le> sys_rank late st" if "(sysStep s keys clks ^^ k) st st'" for k st'
    using that
  proof (induction k arbitrary: st')
    case (Suc k)
    then obtain st1 where st1: "(sysStep s keys clks ^^ k) st st1" "sysStep s keys clks st1 st'" by auto
    then have "(sysStep s keys clks)\<^sup>*\<^sup>* st st1" by (auto dest: relpowp_imp_rtranclp)
    then have "sys_ok s clks st1" using sysSteps_ok [OF _ assms] by blast
    from sysStep_rank [OF st1(2) assms(1) this assms(3,4) late] Suc.IH [OF st1(1)] show ?case by simp
  qed simp
  then show ?thesis by (metis le_add1 le_trans)
qed

section \<open>The start\<close>

lemma startWorker_ok:
  assumes "search_ok s"
  shows "\<exists>wk. startWorker s (clks (int i)) (int i) = Some wk \<and> at_ok s clks i wk None"
proof -
  obtain r where "Seed (clks (int i) 0 + int i * 1337) = Some r" "rng_ok r" using Seed_ok by blast
  then show ?thesis using assms
    by (simp add: startWorker_def Clone_id Let_def at_ok_def worker_ok_def has_result_def deadline_of_def search_ok_def)
qed

lemma startWorkers_ok:
  assumes "search_ok s"
  shows "\<exists>st. startWorkers s clks (int n) = Some st \<and> sys_ok s clks st \<and> length (workers st) = n \<and> \<not> panicked st"
proof -
  let ?I = "\<lambda>k ws. length ws = k \<and> (\<forall>i < k. at_ok s clks i (ws ! i) None)"
  have "\<exists>ws. go_range (\<lambda>w ws. do { wk \<leftarrow> startWorker s (clks w) w; Some (ws @ [wk]) }) [int 0..int n - 1] [] = Some ws \<and> ?I n ws"
  proof (rule go_range_upto [where I = ?I])
    fix k ws assume I: "?I k ws"
    obtain wk where wk: "startWorker s (clks (int k)) (int k) = Some wk" "at_ok s clks k wk None"
      using startWorker_ok [OF assms] by blast
    then have "?I (Suc k) (ws @ [wk])" using I by (auto simp: nth_append less_Suc_eq)
    with wk(1) show "\<exists>ws'. do { wk \<leftarrow> startWorker s (clks (int k)) (int k); Some (ws @ [wk]) } = Some ws' \<and> ?I (Suc k) ws'" by simp
  qed simp_all
  then show ?thesis by (auto simp: startWorkers_def sys_ok_def)
qed

text \<open>The first descent, from the solution that \<open>LocalSearch\<close> is given.\<close>

definition descended :: "Instance \<Rightarrow> Solution \<Rightarrow> Solution \<Rightarrow> bool" where
  "descended inst sol best \<longleftrightarrow> SolInstance best = inst \<and> tour inst (routes best) \<and> evaluated best \<and> replanned sol best"

lemma startSearch_ok:
  assumes "wf_inst inst" "small inst" "SolInstance sol = inst" "tour inst (routes sol)" "ticking clk"
    and "hotel inst (StartHotelID inst)" "hotel inst (EndHotelID inst)"
  shows "\<exists>best. descended inst sol best \<and>
    ((\<exists>t. startSearch clk numCPU sol maxDuration target n = Some (Inl (best, t))) \<or>
     (\<exists>s. startSearch clk numCPU sol maxDuration target n = Some (Inr s) \<and> search_ok s \<and> sBest s = best \<and> sInst s = inst \<and> sTarget s = target))"
proof -
  obtain sol1 where s1: "EvaluateScore sol = Some sol1" "evaluated sol1" "descends inst sol sol1"
    using EvaluateScore_descends [OF assms(3,4)] by blast
  obtain r0 where r0: "Seed 42 = Some r0" "rng_ok r0" using Seed_ok by blast
  have "vnd_inv inst sol1 r0" using assms(1,2) s1(3) r0(2) by (simp add: vnd_inv_def descends_def)
  from applyVND_ok [OF this assms(5), of "clk n + maxDuration" "n + 1"] s1(2) obtain best r1 n1 where
    v: "applyVND clk (clk n + maxDuration) sol1 r0 (n + 1) = Some (best, r1, n1)" "vnd_inv inst best r1"
      "replanned sol1 best" "evaluated best" by blast
  have d: "descended inst sol best"
    using v s1(3) replanned_trans by (auto simp: descended_def vnd_inv_def descends_def)
  then have "search_ok \<lparr>sInst = inst, sTarget = target, sStart = st, sBest = best, sFoundAt = t, sRemaining = r, sNbGRASP = g\<rparr>"
    for st t r g using assms(1,2,6,7) by (simp add: search_ok_def kept_def descended_def)
  with d v(1) s1(1) r0(1) assms(3) show ?thesis
    by (intro exI [of _ best]) (simp add: startSearch_def Clone_id Let_def)
qed

section \<open>The merge of the results\<close>

lemma improvesOn_trans: "improvesOn a b \<Longrightarrow> improvesOn b c \<Longrightarrow> improvesOn a c"
  by (auto simp: improvesOn_def fgt64_iff feq64_iff)

lemma improvesOn_irrefl: "\<not> improvesOn a a"
  by (auto simp: improvesOn_def fgt64_iff)

text \<open>A result that the last check accepts, as the check leaves it.\<close>

definition offers :: "search \<Rightarrow> workerResult option \<Rightarrow> Solution \<Rightarrow> bool" where
  "offers s r sol \<longleftrightarrow> (\<exists>x. r = Some x \<and> EvaluateSolution (rSol x) = Some (sol, None))"

lemma mergeResult_ok:
  assumes "wf_inst (sInst s)" "case r of None \<Rightarrow> True | Some x \<Rightarrow> kept s (rSol x)" "kept s best"
  shows "\<exists>best' t'. mergeResult r (best, t) = Some (best', t') \<and> kept s best' \<and> (best' = best \<or> improvesOn best' best) \<and>
    (\<forall>sol. offers s r sol \<longrightarrow> \<not> improvesOn sol best')"
proof (cases r)
  case None
  then show ?thesis using assms(3) by (simp add: mergeResult_def offers_def)
next
  case (Some x)
  then have "SolInstance (rSol x) = sInst s" "tour (sInst s) (routes (rSol x))" using assms(2) by (simp_all add: kept_def)
  from EvaluateSolution_tour [OF assms(1) this] obtain sol err where
    e: "EvaluateSolution (rSol x) = Some (sol, err)" and
    ok: "err = None \<Longrightarrow> SolInstance sol = sInst s \<and> tour (sInst s) (routes sol) \<and> evaluated sol \<and> valid_routes (sInst s) (routes sol)"
    by blast
  show ?thesis
  proof (cases "err = None \<and> improvesOn sol best")
    case True
    have "no_worse sol (sBest s)"
      using True assms(3) no_worse_trans [OF improvesOn_no_worse, of sol best "sBest s"] by (simp add: kept_def)
    then have "kept s sol" using ok True by (simp add: kept_def)
    with True e Some improvesOn_irrefl show ?thesis by (auto simp: mergeResult_def offers_def)
  next
    case False
    then show ?thesis using e Some assms(3) by (auto simp: mergeResult_def offers_def)
  qed
qed

lemma mergeResults_ok:
  assumes "wf_inst (sInst s)" "\<forall>r \<in> set rs. case r of None \<Rightarrow> True | Some x \<Rightarrow> kept s (rSol x)" "kept s best"
  shows "\<exists>best' t'. go_range mergeResult rs (best, t) = Some (best', t') \<and> kept s best' \<and> (best' = best \<or> improvesOn best' best) \<and>
    (\<forall>r \<in> set rs. \<forall>sol. offers s r sol \<longrightarrow> \<not> improvesOn sol best')"
  using assms(2,3)
proof (induction rs arbitrary: best t)
  case Nil
  then show ?case by simp
next
  case (Cons r rs)
  from mergeResult_ok [OF assms(1) _ Cons.prems(2), of r t] Cons.prems(1) obtain b1 t1 where
    1: "mergeResult r (best, t) = Some (b1, t1)" "kept s b1" "b1 = best \<or> improvesOn b1 best"
      "\<forall>sol. offers s r sol \<longrightarrow> \<not> improvesOn sol b1" by auto
  from Cons.IH [OF _ 1(2), of t1] Cons.prems(1) obtain b2 t2 where
    2: "go_range mergeResult rs (b1, t1) = Some (b2, t2)" "kept s b2" "b2 = b1 \<or> improvesOn b2 b1"
      "\<forall>r \<in> set rs. \<forall>sol. offers s r sol \<longrightarrow> \<not> improvesOn sol b2" by auto
  have "b2 = best \<or> improvesOn b2 best" using 1(3) 2(3) improvesOn_trans by blast
  moreover have "\<not> improvesOn sol b2" if "offers s r sol" for sol using 1(4) 2(3) that improvesOn_trans by blast
  ultimately show ?case using 1(1) 2 by auto
qed

lemma endSearch_ok:
  assumes "search_ok s" "sys_ok s clks st"
  shows "\<exists>best t. endSearch s st = Some (best, t) \<and> kept s best \<and>
    (\<forall>r \<in> set (results st). \<forall>sol. offers s r sol \<longrightarrow> \<not> improvesOn sol best)"
proof -
  have "\<forall>r \<in> set (results st). case r of None \<Rightarrow> True | Some x \<Rightarrow> kept s (rSol x)"
    using assms(2) by (auto simp: in_set_conv_nth sys_ok_def at_ok_def)
  from mergeResults_ok [OF _ this, of "sBest s" "sFoundAt s"] assms(1) obtain best t where
    m: "go_range mergeResult (results st) (sBest s, sFoundAt s) = Some (best, t)" "kept s best"
      "\<forall>r \<in> set (results st). \<forall>sol. offers s r sol \<longrightarrow> \<not> improvesOn sol best"
    by (auto simp: search_ok_def)
  have "EvaluateScore best = Some best" using m(2) by (simp add: kept_def evaluated_def)
  with m show ?thesis by (simp add: endSearch_def)
qed

section \<open>The search\<close>

theorem LocalSearch_ok:
  assumes "LocalSearch clk keys clks numCPU sol maxDuration target (best, t)"
    and "wf_inst inst" "small inst" "SolInstance sol = inst" "tour inst (routes sol)"
    and "hotel inst (StartHotelID inst)" "hotel inst (EndHotelID inst)"
    and "ticking clk" "\<forall>w. ticking (clks w)" "map_keys keys"
  shows "SolInstance best = inst \<and> tour inst (routes best) \<and> evaluated best \<and>
    (\<exists>first. descended inst sol first \<and> no_worse best first) \<and>
    (valid_routes inst (routes sol) \<longrightarrow> valid_routes inst (routes best))"
proof -
  note start = startSearch_ok [OF assms(2-5,8,6,7), of numCPU maxDuration target 0]
  have valid: "valid_routes inst (routes first)" if "descended inst sol first" "valid_routes inst (routes sol)" for first
    using replanned_valid [of sol first] that assms(4) by (simp add: descended_def)
  from assms(1) show ?thesis
  proof (cases rule: LocalSearch.cases)
    case early
    with start have "descended inst sol best" by auto
    then show ?thesis using valid by (auto simp: descended_def)
  next
    case (searched s st st')
    with start have s: "search_ok s" "sInst s = inst" "descended inst sol (sBest s)" by auto
    have "0 \<le> nbWorkersOf numCPU" by (simp add: nbWorkersOf_def)
    then have "sys_ok s clks st" using startWorkers_ok [OF s(1), of clks "nat (nbWorkersOf numCPU)"] searched(2) by auto
    with sysSteps_ok [OF searched(3) s(1) _ assms(9,10)] have "sys_ok s clks st'" by blast
    with endSearch_ok [OF s(1)] searched(6) have "kept s best" by fastforce
    then show ?thesis using s valid by (auto simp: kept_def)
  qed
qed

text \<open>Every schedule ends, and with a result unless it ends in a panic.\<close>

theorem LocalSearch_returns:
  assumes "wf_inst inst" "small inst" "SolInstance sol = inst" "tour inst (routes sol)"
    and "hotel inst (StartHotelID inst)" "hotel inst (EndHotelID inst)"
    and "ticking clk" "\<forall>w. ticking (clks w)" "map_keys keys"
  shows "(\<exists>r. startSearch clk numCPU sol maxDuration target 0 = Some (Inl r)) \<or>
    (\<exists>s st. startSearch clk numCPU sol maxDuration target 0 = Some (Inr s) \<and>
      startWorkers s clks (nbWorkersOf numCPU) = Some st \<and>
      (\<exists>N. \<forall>k st'. (sysStep s keys clks ^^ k) st st' \<longrightarrow> k \<le> N) \<and>
      (\<forall>st'. (sysStep s keys clks)\<^sup>*\<^sup>* st st' \<longrightarrow>
        (if panicked st' then fgt64 target 0
         else if all_exited st' then \<exists>r. LocalSearch clk keys clks numCPU sol maxDuration target r
         else \<exists>st''. sysStep s keys clks st' st'')))"
proof (cases "\<exists>r. startSearch clk numCPU sol maxDuration target 0 = Some (Inl r)")
  case False
  with startSearch_ok [OF assms(1-4,7,5,6), of numCPU maxDuration target 0] obtain s where
    s0: "startSearch clk numCPU sol maxDuration target 0 = Some (Inr s)" and s: "search_ok s" "sTarget s = target" by auto
  have "0 \<le> nbWorkersOf numCPU" by (simp add: nbWorkersOf_def)
  with startWorkers_ok [OF s(1), of clks "nat (nbWorkersOf numCPU)"] obtain st where
    st: "startWorkers s clks (nbWorkersOf numCPU) = Some st" "sys_ok s clks st" by auto
  have "if panicked st' then fgt64 target 0
        else if all_exited st' then \<exists>r. LocalSearch clk keys clks numCPU sol maxDuration target r
        else \<exists>st''. sysStep s keys clks st' st''" if run: "(sysStep s keys clks)\<^sup>*\<^sup>* st st'" for st'
  proof -
    have ok: "sys_ok s clks st'" using sysSteps_ok [OF run s(1) st(2) assms(8,9)] by blast
    consider "panicked st'" | "\<not> panicked st'" "all_exited st'" | "\<not> panicked st'" "\<not> all_exited st'" by blast
    then show ?thesis
    proof cases
      case 1
      then show ?thesis using ok s(2) by (simp add: sys_ok_def)
    next
      case 2
      obtain r where "endSearch s st' = Some r" using endSearch_ok [OF s(1) ok] by blast
      then have "LocalSearch clk keys clks numCPU sol maxDuration target r"
        by (rule LocalSearch.searched [OF s0 st(1) run 2(2,1)])
      then have "\<exists>r. LocalSearch clk keys clks numCPU sol maxDuration target r" ..
      then show ?thesis using 2 by (simp only: if_True if_False)
    next
      case 3
      then show ?thesis using sysStep_progress [OF s(1) ok assms(8,9)] by simp
    qed
  qed
  with s0 st(1) sysSteps_bounded [OF s(1) st(2) assms(8,9)] show ?thesis by blast
qed simp

section \<open>The second close\<close>

text \<open>
  Two goroutines that have reached the target before either has closed \<open>done\<close>: both can find the channel
  open in their \<open>select\<close>, and the second \<open>close(done)\<close> panics.
\<close>

lemma step_at:
  assumes "i < length (workers st)" "\<not> panicked st" "workerStep s keys (clks (int i)) (int i) st = Some st'"
  shows "sysStep s keys clks st st'"
  using assms(2,3) by (rule sysStep.step)

theorem double_close:
  assumes "i < length (workers st)" "j < length (workers st)" "i \<noteq> j" "\<not> panicked st" "\<not> doneClosed st"
    and "wPc (workers st ! i) = AtCheck" "wPc (workers st ! j) = AtCheck"
  shows "\<exists>st'. (sysStep s keys clks)\<^sup>*\<^sup>* st st' \<and> panicked st'"
proof -
  define st1 where "st1 = st\<lparr>workers := (workers st)[i := (workers st ! i)\<lparr>wPc := AtClose\<rparr>]\<rparr>"
  define st2 where "st2 = st1\<lparr>workers := (workers st1)[j := (workers st1 ! j)\<lparr>wPc := AtClose\<rparr>]\<rparr>"
  define st3 where "st3 = st2\<lparr>doneClosed := True, workers := (workers st2)[i := (workers st2 ! i)\<lparr>wPc := Exited\<rparr>]\<rparr>"
  define st4 where "st4 = st3\<lparr>panicked := True\<rparr>"
  have "sysStep s keys clks st st1"
    by (rule step_at [where i = i]) (use assms in \<open>simp_all add: workerStep_def put_worker_def st1_def\<close>)
  moreover have "sysStep s keys clks st1 st2"
    by (rule step_at [where i = j]) (use assms in \<open>simp_all add: workerStep_def put_worker_def st1_def st2_def\<close>)
  moreover have "sysStep s keys clks st2 st3"
    by (rule step_at [where i = i]) (use assms in \<open>simp_all add: workerStep_def put_worker_def st1_def st2_def st3_def\<close>)
  moreover have "sysStep s keys clks st3 st4"
    by (rule step_at [where i = j]) (use assms in \<open>simp_all add: workerStep_def put_worker_def st1_def st2_def st3_def st4_def\<close>)
  ultimately have "(sysStep s keys clks)\<^sup>*\<^sup>* st st4" by (meson converse_rtranclp_into_rtranclp rtranclp.rtrancl_refl)
  then show ?thesis unfolding st4_def by (intro exI conjI) (assumption, simp)
qed

text \<open>They get there when both compare their best solution with the target before either looks at \<open>done\<close>.\<close>

theorem double_close_at_target:
  assumes "i < length (workers st)" "j < length (workers st)" "i \<noteq> j" "\<not> panicked st" "\<not> doneClosed st"
    and "wPc (workers st ! i) = AtTarget" "wPc (workers st ! j) = AtTarget" "length (results st) = length (workers st)"
    and "targetReached (sTarget s) (wBest (workers st ! i))" "targetReached (sTarget s) (wBest (workers st ! j))"
  shows "\<exists>st'. (sysStep s keys clks)\<^sup>*\<^sup>* st st' \<and> panicked st'"
proof -
  have go: "\<exists>st'. sysStep s keys clks st st' \<and> workers st' = (workers st)[i := (workers st ! i)\<lparr>wPc := AtCheck\<rparr>] \<and>
      length (results st') = length (results st) \<and> \<not> panicked st' \<and> \<not> doneClosed st'"
    if "i < length (workers st)" "\<not> panicked st" "\<not> doneClosed st" "wPc (workers st ! i) = AtTarget"
      "length (results st) = length (workers st)" "targetReached (sTarget s) (wBest (workers st ! i))" for i st
  proof -
    let ?wk = "workers st ! i"
    let ?st = "st\<lparr>results := (results st)[i := Some \<lparr>rSol = wBest ?wk, rFoundAt = wFoundAt ?wk\<rparr>],
      workers := (workers st)[i := ?wk\<lparr>wPc := AtCheck\<rparr>]\<rparr>"
    have "sysStep s keys clks st ?st"
      by (rule step_at [where i = i]) (use that in \<open>simp_all add: workerStep_def put_worker_def put_result_def\<close>)
    then show ?thesis using that by (intro exI [of _ ?st]) simp
  qed
  obtain st1 where 1: "sysStep s keys clks st st1" "workers st1 = (workers st)[i := (workers st ! i)\<lparr>wPc := AtCheck\<rparr>]"
    "length (results st1) = length (results st)" "\<not> panicked st1" "\<not> doneClosed st1"
    using go [OF assms(1,4,5,6,8,9)] by blast
  have j: "workers st1 ! j = workers st ! j" "length (workers st1) = length (workers st)" using 1(2) assms(3) by simp_all
  obtain st2 where 2: "sysStep s keys clks st1 st2" "workers st2 = (workers st1)[j := (workers st1 ! j)\<lparr>wPc := AtCheck\<rparr>]"
    "\<not> panicked st2" "\<not> doneClosed st2"
    using go [of j st1] 1(3-5) j assms(2,7,8,10) by auto
  have "wPc (workers st2 ! i) = AtCheck" "wPc (workers st2 ! j) = AtCheck" "length (workers st2) = length (workers st)"
    using 1(2) 2(2) j assms(1-3) by (simp_all add: nth_list_update)
  with double_close [of i st2 j s keys clks] 2(3,4) assms(1-3) obtain st' where
    "(sysStep s keys clks)\<^sup>*\<^sup>* st2 st'" "panicked st'" by auto
  with 1(1) 2(1) show ?thesis by (meson converse_rtranclp_into_rtranclp)
qed

end
