(* ===== verification/Driver_Spec.thy ===== *)
theory Driver_Spec
  imports Driver Writer_Spec Parser_Spec Search_System
begin

text \<open>
  What the driver does to the files: it records only solutions that the validator accepts and that beat
  the recorded result, and with integer scores the recorded score never goes down.
\<close>

section \<open>From the instance to the recorded solution\<close>

definition runnable :: "Instance \<Rightarrow> bool" where
  "runnable inst \<longleftrightarrow> wf_inst inst \<and> small inst \<and> hotel inst (StartHotelID inst) \<and> hotel inst (EndHotelID inst)"

lemma firstSolution_tour:
  assumes "runnable inst" "firstSolution inst target = Some (sol, skipped)"
  shows "SolInstance sol = inst" "tour inst (routes sol)" "closable inst \<Longrightarrow> valid_routes inst (routes sol)"
proof -
  have i: "wf_inst inst" "length (Points inst) < 2 ^ 62" "hotel inst (StartHotelID inst)" "hotel inst (EndHotelID inst)"
    using assms(1) by (auto simp: runnable_def small_def)
  have "source_ok 1 None" by (simp add: source_ok_def)
  from greedy_returns [OF i this, of 0] obtain rs rng' where g:
    "solveGreedyInternal inst 1 None 0 = Some (tour_solution inst rs, rng')" "length rs = nat (NbDays inst)"
    "greedy_tour inst 1 0 0 {} (StartHotelID inst) rs" by blast
  have ts: "SolInstance (tour_solution inst rs) = inst" "tour inst (routes (tour_solution inst rs))"
    using tour_of_greedy [OF g(3) i(3) g(2)] by (simp_all add: tour_solution_def [of inst rs, THEN arg_cong [where f = SolInstance]])
  have known: "known_points (tour_solution inst rs)" using ts tour_known_points [of "tour_solution inst rs"] by simp
  have e: "EvaluateScore (tour_solution inst rs) = Some sol"
    using assms(2) g(1) by (auto simp: firstSolution_def SolveGreedy_def bind_eq_Some_conv)
  have "routes sol = routes (tour_solution inst rs) \<and> SolInstance sol = SolInstance (tour_solution inst rs)"
    using e unfolding EvaluateScore_spec [OF known] by (auto simp: routes_def)
  then have r: "routes sol = rs" "SolInstance sol = inst" using ts(1) by simp_all
  then show "SolInstance sol = inst" "tour inst (routes sol)" using ts by simp_all
  show "valid_routes inst (routes sol)" if "closable inst"
  proof -
    have "EvaluateSolution (tour_solution inst rs) = Some (tour_solution inst rs, None)"
      using greedy_tour_accepted [OF i(1) that i(3,4) g(3,2)] .
    then show ?thesis
      using EvaluateSolution_err [of "tour_solution inst rs"] known ts(1) i(1) r(1) by fastforce
  qed
qed

text \<open>What may be recorded: an accepted tour of the instance with its timetable written out.\<close>

definition accepted :: "Instance \<Rightarrow> Solution \<Rightarrow> bool" where
  "accepted inst sol \<longleftrightarrow> SolInstance sol = inst \<and> valid_routes inst (routes sol) \<and> known_points sol \<and> revalued sol = sol"

lemma accepted_revalued:
  assumes "SolInstance sol = inst" "known_points sol" "valid_routes inst (routes sol)"
  shows "accepted inst (revalued sol)"
  using assms by (simp add: accepted_def known_points_def)

lemma chosenSolution_accepted:
  assumes "wf_inst inst" "SolInstance sol = inst" "tour inst (routes sol)" "SolInstance opt = inst" "tour inst (routes opt)"
    and "skipped \<longrightarrow> opt = sol" "chosenSolution sol opt skipped = Some chosen"
  shows "\<And>s. chosen = Some s \<Longrightarrow> accepted inst s"
    "chosen = None \<Longrightarrow> \<not> valid_routes inst (routes opt) \<and> \<not> valid_routes inst (routes sol)"
    "valid_routes inst (routes opt) \<Longrightarrow> chosen = Some (revalued opt)"
proof -
  have k: "known_points sol" "known_points opt" using assms(2-5) tour_known_points [of sol] tour_known_points [of opt] by simp_all
  have w: "wf_inst (SolInstance sol)" "wf_inst (SolInstance opt)" using assms(1,2,4) by simp_all
  have c: "(\<forall>s. chosen = Some s \<longrightarrow> accepted inst s) \<and>
      (chosen = None \<longrightarrow> \<not> valid_routes inst (routes opt) \<and> \<not> valid_routes inst (routes sol)) \<and>
      (valid_routes inst (routes opt) \<longrightarrow> chosen = Some (revalued opt))"
  proof (cases "valid_routes inst (routes opt)")
    case True
    then have "EvaluateSolution opt = Some (revalued opt, None)" using EvaluateSolution_ok [OF w(2) k(2)] assms(4) by simp
    then have "chosen = Some (revalued opt)" using assms(7) by (simp add: chosenSolution_def)
    then show ?thesis using accepted_revalued [OF assms(4) k(2) True] True by simp
  next
    case invalid: False
    then obtain opt' e where o: "EvaluateSolution opt = Some (opt', Some e)" "routes opt' = routes opt" "SolInstance opt' = inst"
      using EvaluateSolution_err [OF w(2) k(2)] assms(4) by auto
    show ?thesis
    proof (cases skipped)
      case True
      have "known_points opt'" "wf_inst (SolInstance opt')" "\<not> valid_routes (SolInstance opt') (routes opt')"
        using k(2) o(2,3) assms(1,4) invalid by (simp_all add: known_points_def)
      then obtain opt2 e2 where "EvaluateSolution opt' = Some (opt2, Some e2)" using EvaluateSolution_err by blast
      then have "chosen = None" using assms(7) o(1) True by (simp add: chosenSolution_def)
      then show ?thesis using invalid assms(6) True by simp
    next
      case False
      show ?thesis
      proof (cases "valid_routes inst (routes sol)")
        case True
        then have "EvaluateSolution sol = Some (revalued sol, None)" using EvaluateSolution_ok [OF w(1) k(1)] assms(2) by simp
        then have "chosen = Some (revalued sol)" using assms(7) o(1) False by (simp add: chosenSolution_def)
        then show ?thesis using accepted_revalued [OF assms(2) k(1) True] True invalid by simp
      next
        case inv: False
        then obtain s' e' where "EvaluateSolution sol = Some (s', Some e')"
          using EvaluateSolution_err [OF w(1) k(1)] assms(2) by auto
        then have "chosen = None" using assms(7) o(1) False by (simp add: chosenSolution_def)
        then show ?thesis using invalid inv by simp
      qed
    qed
  qed
  show "\<And>s. chosen = Some s \<Longrightarrow> accepted inst s" "valid_routes inst (routes opt) \<Longrightarrow> chosen = Some (revalued opt)"
    "chosen = None \<Longrightarrow> \<not> valid_routes inst (routes opt) \<and> \<not> valid_routes inst (routes sol)"
    using c by blast+
qed

text \<open>A run that changes the files records an accepted solution that beats the earlier result.\<close>

definition records :: "('fs, 'r) os \<Rightarrow> string \<Rightarrow> Solution \<Rightarrow> int \<Rightarrow> 'fs \<Rightarrow> 'fs \<Rightarrow> bool" where
  "records os path sol elapsed fs fs' \<longleftrightarrow>
     (\<exists>old err fs1. oldResult os fs (outputPath path) (timePath path) = Some old \<and>
        shouldWrite (TotalScore sol) elapsed old \<and> WriteSolution os sol (outputPath path) fs = Some (err, fs1) \<and>
        fs' = (if err = None then osWriteFile os fs1 (timePath path) (fmtInteger (word_of_int (Microseconds elapsed)) True)
               else fs1))"

lemma recordSolution_records:
  assumes "recordSolution os path inst sol elapsed fs = Some fs'"
  shows "fs' = fs \<or> records os path sol elapsed fs fs'"
proof -
  obtain old where old: "oldResult os fs (outputPath path) (timePath path) = Some old"
    using assms by (auto simp: recordSolution_def bind_eq_Some_conv)
  show ?thesis
  proof (cases "shouldWrite (TotalScore sol) elapsed old")
    case True
    then obtain err fs1 where w: "WriteSolution os sol (outputPath path) fs = Some (err, fs1)"
      using assms old by (auto simp: recordSolution_def bind_eq_Some_conv)
    then show ?thesis using assms old True unfolding records_def
      by (intro disjI2 exI [of _ old] exI [of _ err] exI [of _ fs1]) (auto simp: recordSolution_def bind_eq_Some_conv)
  next
    case False
    then show ?thesis using assms old by (auto simp: recordSolution_def bind_eq_Some_conv)
  qed
qed

theorem run_records:
  assumes run: "runInstance os clk keys clks numCPU path fs fs'"
    and clocks: "ticking clk" "\<forall>w. ticking (clks w)" "map_keys keys"
    and loaded: "LoadInstance (osRead os) (osOpen os fs) path = Some (Inr inst)" "runnable inst"
  shows "fs' = fs \<or> (\<exists>sol elapsed. accepted inst sol \<and> records os path sol elapsed fs fs')"
  using run
proof (cases rule: runInstance.cases)
  case (not_loaded err)
  then show ?thesis by simp
next
  case (solved inst' sol skipped opt elapsed chosen)
  then have [simp]: "inst' = inst" using loaded(1) by simp
  have i: "wf_inst inst" "small inst" "hotel inst (StartHotelID inst)" "hotel inst (EndHotelID inst)"
    using loaded(2) by (simp_all add: runnable_def)
  have sol: "SolInstance sol = inst" "tour inst (routes sol)" using firstSolution_tour [OF loaded(2)] solved(2) by simp_all
  have opt: "SolInstance opt = inst" "tour inst (routes opt)"
  proof -
    have "SolInstance opt = inst \<and> tour inst (routes opt)"
    proof (cases skipped)
      case True
      then show ?thesis using solved(3) sol by simp
    next
      case False
      then have "LocalSearch clk keys clks numCPU sol searchDuration (targetOf (numStr path)) (opt, elapsed)" using solved(3) by simp
      from LocalSearch_ok [OF this i(1,2) sol i(3,4) clocks] show ?thesis by simp
    qed
    then show "SolInstance opt = inst" "tour inst (routes opt)" by simp_all
  qed
  have sk: "skipped \<longrightarrow> opt = sol" using solved(3) by simp
  note chosen = chosenSolution_accepted [OF i(1) sol opt sk solved(4)]
  show ?thesis
  proof (cases chosen)
    case None
    then show ?thesis using solved(5) by simp
  next
    case (Some s)
    then show ?thesis using chosen(1) [OF Some] recordSolution_records [of os path inst s elapsed fs fs'] solved(5) by auto
  qed
qed

section \<open>Integer scores\<close>

text \<open>Every site has an integer score \<open>f\<close>, and their sum is exact.\<close>

definition whole_scores :: "Instance \<Rightarrow> (int \<Rightarrow> nat) \<Rightarrow> bool" where
  "whole_scores inst f \<longleftrightarrow> (\<forall>p. site inst p \<longrightarrow> pScore (pt inst p) = fnat (f p)) \<and> sum f {p. site inst p} < 2 ^ 52"

lemma score_from_whole:
  assumes "whole_scores inst f" "distinct (sites inst ps)" "m + sum f (set (sites inst ps)) < 2 ^ 53"
  shows "score_from inst (fnat m) ps = fnat (m + sum f (set (sites inst ps)))"
  using assms(2,3)
proof (induction ps arbitrary: m)
  case (Cons p ps)
  show ?case
  proof (cases "site inst p")
    case True
    then have s: "pScore (pt inst p) = fnat (f p)" using assms(1) by (simp add: whole_scores_def)
    have d: "p \<notin> set (sites inst ps)" "distinct (sites inst ps)" using Cons.prems(1) True by simp_all
    then have sum: "m + sum f (set (sites inst (p # ps))) = (m + f p) + sum f (set (sites inst ps))" using True by simp
    then have "m + f p < 2 ^ 53" using Cons.prems(2) by simp
    then have "add_score inst p (fnat m) = fnat (m + f p)" using True s fadd64_fnat by (simp add: add_score_def del: of_nat_add)
    then show ?thesis using Cons.IH [OF d(2), of "m + f p"] Cons.prems(2) sum by (simp add: add.assoc del: of_nat_add sites_Cons)
  next
    case False
    then show ?thesis using Cons by (simp add: add_score_def del: of_nat_add)
  qed
qed simp

lemma accepted_score:
  assumes "whole_scores inst f" "accepted inst sol"
  obtains n where "TotalScore sol = fnat n" "n < 2 ^ 52"
proof -
  let ?S = "set (sites inst (concat (routes sol)))"
  have "?S \<subseteq> {p. site inst p}" by (auto simp: set_sites)
  then have "sum f ?S \<le> sum f {p. site inst p}" using finite_sites by (intro sum_mono2) auto
  then have n: "sum f ?S < 2 ^ 52" using assms(1) by (simp add: whole_scores_def)
  have "distinct (sites inst (concat (routes sol)))" using assms(2) by (simp add: accepted_def valid_routes_def)
  then have "score_from inst 0 (concat (routes sol)) = fnat (sum f ?S)"
    using score_from_whole [OF assms(1), of "concat (routes sol)" 0] n by simp
  moreover have "TotalScore sol = TotalScore (revalued sol)" using assms(2) by (simp add: accepted_def)
  moreover have "TotalScore (revalued sol) = score_from inst 0 (concat (routes sol))"
    using assms(2) by (simp add: revalued_def accepted_def)
  ultimately have "TotalScore sol = fnat (sum f ?S)" by (simp only:)
  then show thesis using n by (rule that)
qed

section \<open>The recorded score\<close>

text \<open>What the next run takes for the earlier score, from what the file of the solution holds.\<close>

definition stored_score :: "string option \<Rightarrow> f64" where
  "stored_score c =
     (case c of None \<Rightarrow> f64_minus_1
      | Some t \<Rightarrow> (case text_lines t of [] \<Rightarrow> f64_minus_1 | l # _ \<Rightarrow> the (parsedFloat (TrimSpace l))))"

lemma parsedFloat_returns: "parsedFloat s = Some (the (parsedFloat s))"
  using ParseFloat_returns [of s] by (auto simp: parsedFloat_def)

lemma stored_score_solution:
  assumes "solution_text sol = Some t" "TotalScore sol = fnat n" "n < 2 ^ 52"
  shows "stored_score (Some t) = TotalScore sol"
proof -
  have t: "t = digits_of n @ newline # day_lines (Days sol)"
    using assms fmtFloat_integer [of n] by (simp add: solution_text_def)
  have "plain (digits_of n)" using digits_of_digits [of n] by (simp add: plain_def)
  then have l: "newline \<notin> set (digits_of n)" "dropCR (digits_of n) = digits_of n" using plain_line by simp_all
  have "n < 10 ^ 16" using assms(3) by simp
  then have "length (digits_of n) \<le> 16" by (rule digits_of_length) simp
  then have "length (digits_of n) < MaxScanTokenSize" by (simp add: MaxScanTokenSize_def)
  with text_lines_line [OF l(1)] l(2) have "text_lines t = digits_of n # text_lines (day_lines (Days sol))" by (simp add: t)
  then show ?thesis
    using ParseFloat_digits [OF assms(3)] assms(2) by (simp add: stored_score_def parsedFloat_def TrimSpace_digits)
qed

lemma TrimSuffix_append: "TrimSuffix (s @ t) t = s"
  by (simp add: TrimSuffix_def HasSuffix_def)

lemma timePath_other: "timePath path \<noteq> outputPath path"
proof
  have t: "timePath path = (''solutions/Instance'' @ numStr path) @ ''.time''"
    using TrimSuffix_append [of "''solutions/Instance'' @ numStr path" "''.sol''"] by (simp add: timePath_def outputPath_def)
  assume "timePath path = outputPath path"
  then have "length (timePath path) = length (outputPath path)" by simp
  then show False unfolding t by (simp add: outputPath_def)
qed

context file_system
begin

lemma oldResult_stored:
  assumes "oldResult os fs out tp = Some (score, time)"
  shows "score = stored_score (content fs out)"
proof (cases "osOpen os fs out")
  case None
  then have "content fs out = None" using opens by simp
  then show ?thesis using assms None by (auto simp: oldResult_def stored_score_def bind_eq_Some_conv)
next
  case (Some f)
  then have c: "content fs out = Some (left f)" using opens by simp
  have g: "gives (text_lines (left f)) (scan_error (left f)) (NewScanner f)" by (rule NewScanner_gives)
  show ?thesis
  proof (cases "text_lines (left f)")
    case Nil
    with g obtain s' where "Scan (FD_Read (osRead os)) (NewScanner f) = Some (False, s')" by (metis Scan_end)
    then show ?thesis using assms Some c Nil by (auto simp: oldResult_def stored_score_def bind_eq_Some_conv)
  next
    case (Cons l ls)
    with g obtain s' where "Scan (FD_Read (osRead os)) (NewScanner f) = Some (True, s')" "Scanner_Text s' = l" by (metis Scan_line)
    then show ?thesis using assms Some c Cons by (auto simp: oldResult_def stored_score_def bind_eq_Some_conv)
  qed
qed

lemma records_content:
  assumes "records os path sol elapsed fs fs'"
  shows "q \<noteq> outputPath path \<Longrightarrow> q \<noteq> timePath path \<Longrightarrow> content fs' q = content fs q"
    and "content fs' (outputPath path) = content fs (outputPath path) \<or>
      (\<exists>t. solution_text sol = Some t \<and> content fs' (outputPath path) = Some t \<and>
        fge64 (TotalScore sol) (stored_score (content fs (outputPath path))))"
proof -
  let ?out = "outputPath path" and ?tp = "timePath path"
  obtain score time err fs1 where r: "oldResult os fs ?out ?tp = Some (score, time)" "shouldWrite (TotalScore sol) elapsed (score, time)"
      "WriteSolution os sol ?out fs = Some (err, fs1)"
      "fs' = (if err = None then osWriteFile os fs1 ?tp (fmtInteger (word_of_int (Microseconds elapsed)) True) else fs1)"
    using assms by (auto simp: records_def)
  have ge: "fge64 (TotalScore sol) (stored_score (content fs ?out))"
    using r(2) oldResult_stored [OF r(1)] by (auto simp: shouldWrite_def Let_def fge64_iff fgt64_iff feq64_iff)
  have "err = Some CannotCreate \<and> fs1 = fs \<or>
      err = None \<and> (\<exists>t. solution_text sol = Some t \<and> content fs1 = (content fs)(?out \<mapsto> t))"
    by (rule WriteSolution_text [OF r(3)])
  then have c: "(q \<noteq> ?out \<longrightarrow> q \<noteq> ?tp \<longrightarrow> content fs' q = content fs q) \<and>
      (content fs' ?out = content fs ?out \<or> (\<exists>t. solution_text sol = Some t \<and> content fs' ?out = Some t))" for q
    using r(4) writes_file timePath_other [of path] by auto
  then show "q \<noteq> ?out \<Longrightarrow> q \<noteq> ?tp \<Longrightarrow> content fs' q = content fs q" by blast
  show "content fs' ?out = content fs ?out \<or>
      (\<exists>t. solution_text sol = Some t \<and> content fs' ?out = Some t \<and> fge64 (TotalScore sol) (stored_score (content fs ?out)))"
    using c ge by blast
qed

theorem run_keeps_best:
  assumes "runInstance os clk keys clks numCPU path fs fs'" "ticking clk" "\<forall>w. ticking (clks w)" "map_keys keys"
    and "LoadInstance (osRead os) (osOpen os fs) path = Some (Inr inst)" "runnable inst" "whole_scores inst f"
  shows "(\<forall>q. q \<noteq> outputPath path \<longrightarrow> q \<noteq> timePath path \<longrightarrow> content fs' q = content fs q) \<and>
    (content fs' (outputPath path) = content fs (outputPath path) \<or>
     (\<exists>sol. accepted inst sol \<and> content fs' (outputPath path) = solution_text sol \<and>
        stored_score (content fs' (outputPath path)) = TotalScore sol \<and>
        fge64 (TotalScore sol) (stored_score (content fs (outputPath path)))))"
proof (cases "fs' = fs")
  case False
  then obtain sol elapsed where r: "accepted inst sol" "records os path sol elapsed fs fs'"
    using run_records [OF assms(1-6)] by blast
  obtain n where n: "TotalScore sol = fnat n" "n < 2 ^ 52" using accepted_score [OF assms(7) r(1)] by blast
  note c = records_content [OF r(2)]
  have "stored_score (Some t) = TotalScore sol" if "solution_text sol = Some t" for t
    using stored_score_solution [OF that n] .
  then show ?thesis using c r(1) by metis
qed simp

end

section \<open>The whole program\<close>

lemma outputPath_other: "outputPath p \<noteq> timePath q"
proof
  have t: "timePath q = (''solutions/Instance'' @ numStr q) @ ''.time''"
    using TrimSuffix_append [of "''solutions/Instance'' @ numStr q" "''.sol''"] by (simp add: timePath_def outputPath_def)
  assume "outputPath p = timePath q"
  then have "last (outputPath p) = last (timePath q)" by simp
  then show False unfolding t by (simp add: outputPath_def)
qed

text \<open>The readings of the clocks pass every deadline, and a map is ranged over in some order of its keys.\<close>

definition clocked :: "(string \<Rightarrow> clock \<times> map_order \<times> (int \<Rightarrow> clock)) \<Rightarrow> bool" where
  "clocked env \<longleftrightarrow> (\<forall>p clk keys clks. env p = (clk, keys, clks) \<longrightarrow> ticking clk \<and> (\<forall>w. ticking (clks w)) \<and> map_keys keys)"

text \<open>
  From what a file held to what it holds now: nothing changed, or it holds an accepted tour of one of
  the instances, which the next run reads back with its score, and which is not worse.
\<close>

definition kept_best :: "Instance set \<Rightarrow> string option \<Rightarrow> string option \<Rightarrow> bool" where
  "kept_best I before now \<longleftrightarrow> now = before \<or>
     (\<exists>inst \<in> I. \<exists>sol. accepted inst sol \<and> now = solution_text sol \<and> stored_score now = TotalScore sol \<and>
        fge64 (stored_score now) (stored_score before))"

lemma kept_best_refl [simp]: "kept_best I c c"
  by (simp add: kept_best_def)

lemma kept_best_trans:
  assumes "kept_best I a b" "kept_best I b c"
  shows "kept_best I a c"
proof (cases "b = a \<or> c = b")
  case False
  then have "fge64 (stored_score b) (stored_score a)" using assms(1) by (auto simp: kept_best_def)
  moreover have "fge64 (stored_score c) (stored_score b)" using assms(2) False by (auto simp: kept_best_def)
  ultimately have "fge64 (stored_score c) (stored_score a)" by (simp add: fge64_iff)
  then show ?thesis using assms(2) False unfolding kept_best_def by blast
qed (use assms in auto)

text \<open>The instances in the files \<open>ps\<close>, where \<open>held fs p\<close> is what the file \<open>p\<close> holds.\<close>

definition instances :: "('fs \<Rightarrow> string \<Rightarrow> string option) \<Rightarrow> string set \<Rightarrow> 'fs \<Rightarrow> Instance set" where
  "instances held ps fs = {inst. \<exists>p \<in> ps. \<exists>u. held fs p = Some u \<and> load_text p u = Some (Inr inst)}"

context file_system
begin

lemma LoadInstance_instances:
  "LoadInstance (osRead os) (osOpen os fs) p = Some (Inr inst) \<Longrightarrow> p \<in> ps \<Longrightarrow> inst \<in> instances content ps fs"
  by (auto simp: LoadInstance_text instances_def opens split: option.splits)

lemma run_kept:
  assumes "runInstance os clk keys clks numCPU p fs fs'" "ticking clk" "\<forall>w. ticking (clks w)" "map_keys keys"
    and good: "\<forall>inst \<in> instances content ps fs. runnable inst \<and> (\<exists>f. whole_scores inst f)" "p \<in> ps"
  shows "\<forall>q. q \<noteq> outputPath p \<longrightarrow> q \<noteq> timePath p \<longrightarrow> content fs' q = content fs q"
    and "\<forall>q. kept_best (instances content ps fs) (content fs (outputPath q)) (content fs' (outputPath q))"
proof -
  have both: "(\<forall>q. q \<noteq> outputPath p \<longrightarrow> q \<noteq> timePath p \<longrightarrow> content fs' q = content fs q) \<and>
      (\<forall>q. kept_best (instances content ps fs) (content fs (outputPath q)) (content fs' (outputPath q)))"
  proof (cases "fs' = fs")
    case False
    then obtain inst where l: "LoadInstance (osRead os) (osOpen os fs) p = Some (Inr inst)"
      using assms(1) by (auto elim: runInstanceE)
    then have i: "inst \<in> instances content ps fs" using good(2) by (rule LoadInstance_instances)
    then obtain f where "runnable inst" "whole_scores inst f" using good(1) by blast
    note keeps = run_keeps_best [OF assms(1-4) l this]
    then have frame: "\<forall>q. q \<noteq> outputPath p \<longrightarrow> q \<noteq> timePath p \<longrightarrow> content fs' q = content fs q" by blast
    have "kept_best (instances content ps fs) (content fs (outputPath p)) (content fs' (outputPath p))"
      using keeps i unfolding kept_best_def by metis
    then have "kept_best (instances content ps fs) (content fs (outputPath q)) (content fs' (outputPath q))" for q
      using frame outputPath_other by (cases "outputPath q = outputPath p") auto
    then show ?thesis using frame by blast
  qed simp
  then show "\<forall>q. q \<noteq> outputPath p \<longrightarrow> q \<noteq> timePath p \<longrightarrow> content fs' q = content fs q"
    "\<forall>q. kept_best (instances content ps fs) (content fs (outputPath q)) (content fs' (outputPath q))" by blast+
qed

lemma runAll_kept:
  assumes "runAll os env numCPU qs fs fs'" "clocked env" "set qs \<subseteq> ps"
    and "\<forall>inst \<in> instances content ps fs. runnable inst \<and> (\<exists>f. whole_scores inst f)"
    and apart: "\<forall>p \<in> ps. \<forall>q. p \<noteq> outputPath q \<and> p \<noteq> timePath q"
  shows "(\<forall>q. (\<forall>p \<in> ps. q \<noteq> outputPath p \<and> q \<noteq> timePath p) \<longrightarrow> content fs' q = content fs q) \<and>
    (\<forall>q. kept_best (instances content ps fs) (content fs (outputPath q)) (content fs' (outputPath q)))"
  using assms(1,3,4)
proof (induction qs arbitrary: fs)
  case (Cons p qs)
  obtain clk keys clks where e: "env p = (clk, keys, clks)" by (metis prod_cases3)
  then obtain fs1 where r: "runInstance os clk keys clks numCPU p fs fs1" "runAll os env numCPU qs fs1 fs'"
    using Cons.prems(1) by auto
  have c: "ticking clk" "\<forall>w. ticking (clks w)" "map_keys keys" using assms(2) e by (auto simp: clocked_def)
  have p: "p \<in> ps" using Cons.prems(2) by simp
  note k = run_kept [OF r(1) c Cons.prems(3) p]
  have "content fs1 q = content fs q" if "q \<in> ps" for q using k(1) apart that by blast
  then have same: "instances content ps fs1 = instances content ps fs" by (simp add: instances_def)
  have "(\<forall>q. (\<forall>p \<in> ps. q \<noteq> outputPath p \<and> q \<noteq> timePath p) \<longrightarrow> content fs' q = content fs1 q) \<and>
    (\<forall>q. kept_best (instances content ps fs) (content fs1 (outputPath q)) (content fs' (outputPath q)))"
    using Cons.IH [OF r(2)] Cons.prems(2,3) unfolding same by simp
  then show ?case using k p kept_best_trans by metis
qed simp

theorem main_keeps_best:
  assumes "runMain os env numCPU fs fs'" "clocked env" "osGlob os (osMkdirAll os fs ''solutions'') ''instances/Inst*.txt'' = Some ps"
    and "\<forall>inst \<in> instances content (set ps) fs. runnable inst \<and> (\<exists>f. whole_scores inst f)"
    and "\<forall>p \<in> set ps. \<forall>q. p \<noteq> outputPath q \<and> p \<noteq> timePath q"
  shows "(\<forall>q. (\<forall>p \<in> set ps. q \<noteq> outputPath p \<and> q \<noteq> timePath p) \<longrightarrow> content fs' q = content fs q) \<and>
    (\<forall>q. kept_best (instances content (set ps) fs) (content fs (outputPath q)) (content fs' (outputPath q)))"
proof -
  let ?fs = "osMkdirAll os fs ''solutions''"
  have d: "content ?fs = content fs" by (rule makes_directory)
  then have i: "instances content (set ps) ?fs = instances content (set ps) fs" by (simp add: instances_def)
  show ?thesis
  proof (cases "ps = []")
    case True
    then have "fs' = ?fs" using assms(1,3) by (simp add: runMain_def Let_def)
    then show ?thesis using d by simp
  next
    case False
    then have "runAll os env numCPU ps ?fs fs'" using assms(1,3) by (cases ps) (simp_all add: runMain_def Let_def)
    from runAll_kept [OF this assms(2) subset_refl] assms(4,5) show ?thesis unfolding i d by blast
  qed
qed

end

end
