(* ===== verification/Examples.thy ===== *)
theory Examples
  imports Search_System
begin

text \<open>
  A small instance at which the hypotheses of the properties hold: two hotels and three sites at
  distance 1 of each other, two days with a budget of 10, sites that are always open.
\<close>

definition one :: f64 where "one = 0x3FF0000000000000"
definition ten :: f64 where "ten = 0x4024000000000000"

definition place :: "NodeType \<Rightarrow> int \<Rightarrow> Point" where
  "place ty i = \<lparr>pID = i, pType = ty, pX = 0, pY = 0, pScore = (if ty = TypeSite then one else 0),
     pOpenTime = 0, pCloseTime = inf64, pServiceTime = 0\<rparr>"

definition city :: Instance where
  "city = \<lparr>Name = ''city'', NbDays = 2, MaxDist = ten, MaxDistPerDay = [],
     Points = [place TypeHotel 0, place TypeHotel 1, place TypeSite 2, place TypeSite 3, place TypeSite 4],
     HotelIDs = [0, 1], SiteIDs = [2, 3, 4],
     DistMatrix = [[0, one, one, one, one], [one, 0, one, one, one], [one, one, 0, one, one],
       [one, one, one, 0, one], [one, one, one, one, 0]],
     StartHotelID = 0, EndHotelID = 1\<rparr>"

lemma city_sel [simp]:
  "length (Points city) = 5" "length (DistMatrix city) = 5" "NbDays city = 2" "StartHotelID city = 0"
  "EndHotelID city = 1" "HotelIDs city = [0, 1]" "SiteIDs city = [2, 3, 4]"
  by (simp_all add: city_def)

lemma city_range: "in_range city p \<longleftrightarrow> p \<in> {0, 1, 2, 3, 4}"
  by (auto simp: in_range_def)

lemma city_hotel: "hotel city p \<longleftrightarrow> p \<in> {0, 1}"
  unfolding hotel_def city_range by (auto simp: city_def place_def)

lemma city_site: "site city p \<longleftrightarrow> p \<in> {2, 3, 4}"
  unfolding site_def city_range by (auto simp: city_def place_def)

lemma city_id: "i < 5 \<Longrightarrow> pID (Points city ! i) = int i"
proof -
  assume "i < 5"
  then have "i \<in> {0, 1, 2, 3, 4}" by auto
  then show ?thesis by (auto simp: city_def place_def)
qed

lemma city_wf: "wf_inst city"
  unfolding wf_inst_def city_range city_hotel city_site using city_id by (auto simp: city_def)

lemma city_small: "small city"
  by (simp add: small_def)

text \<open>A tour that leaves out the site 4, and the state of the search for it.\<close>

definition city_sol :: Solution where "city_sol = tour_solution city [[0, 2, 1], [1, 3, 1]]"

definition city_state :: SearchState where
  "city_state = \<lparr>ssVisited = [False, False, True, True, False], ssUnvisited = [4]\<rparr>"

lemma city_sol_sel [simp]: "SolInstance city_sol = city" "routes city_sol = [[0, 2, 1], [1, 3, 1]]"
  "length (Days city_sol) = 2"
  by (simp_all add: city_sol_def tour_solution_def routes_def tour_day_def route_def)

lemma city_known: "known_points city_sol"
  by (simp add: known_points_def city_range)

lemma city_tour: "tour city [[0, 2, 1], [1, 3, 1]]"
  by (simp add: tour_def wf_route_def city_hotel city_site)

lemma city_visited: "visited_sites city [[0, 2, 1], [1, 3, 1]] = {2, 3}"
  by (simp add: visited_sites_def city_site)

lemma city_tracks: "tracks city city_state {2, 3}"
proof -
  have "city_state = city_state \<and> (\<forall>i < 5. [False, False, True, True, False] ! i \<longleftrightarrow> int i \<in> {2, 3})"
    by (simp add: All_less_Suc2 numeral_eq_Suc)
  then show ?thesis unfolding tracks_def marks_def city_site by (auto simp: city_state_def)
qed

lemma city_searching: "searching city city_sol city_state"
  using city_wf city_tour city_tracks by (simp add: searching_def city_visited)

lemma city_budget: "budget city d = (if d < 0 then [] ! nat d else ten)"
  by (simp add: budget_def city_def)

lemma one_cmp: "\<not> f64_nan one" "f64_key one = 0x3FF0000000000000" "\<not> f64_nan ten" "f64_key ten = 0x4024000000000000"
  "\<not> f64_nan 0" "f64_key 0 = 0" "\<not> f64_nan MaxFloat64" "f64_key MaxFloat64 = 0x7FEFFFFFFFFFFFFF"
  by (simp_all add: f64_nan_def f64_key_def f64_mag_def one_def ten_def MaxFloat64_def bit_63_iff)

lemma zero_plus_one: "fadd64 0 one = one"
  by (simp add: one_def fadd64_def funpack64_def fpack64_def norm_up.simps norm_down.simps Let_def)

lemma no_later_than_inf: "\<not> fgt64 x inf64"
proof -
  have "f64_key x \<le> 2047 * 2 ^ 52" if "\<not> f64_nan x"
    using that by (auto simp: f64_key_def f64_nan_def)
  moreover have "f64_key inf64 = 2047 * 2 ^ 52" by (simp add: f64_key_def f64_mag_def inf64_def bit_63_iff)
  ultimately show ?thesis by (auto simp: fgt64_iff)
qed

lemma city_D: "in_range city p \<Longrightarrow> in_range city q \<Longrightarrow> D city p q = (if p = q then 0 else one)"
  unfolding city_range by (auto simp: city_def)

lemma city_open: "site city p \<Longrightarrow> \<not> fgt64 x (pCloseTime (pt city p))"
proof -
  assume "site city p"
  then have "pCloseTime (pt city p) = inf64" unfolding city_site by (auto simp: city_def place_def)
  then show ?thesis using no_later_than_inf by simp
qed

lemma city_home: "hotel city h \<Longrightarrow> fle64 (fadd64 0 (D city h 1)) ten"
proof -
  assume "hotel city h"
  then have r: "in_range city h" "in_range city 1" by (auto simp: city_range city_hotel)
  show ?thesis unfolding city_D [OF r] by (simp add: zero_plus_one fadd64_0_0 fge64_iff one_cmp)
qed

lemma city_closable: "closable city"
  unfolding closable_def
proof (intro conjI allI impI)
  show "\<not> fgt64 (fadd64 a (fsub64 (pOpenTime (pt city p)) a)) (pCloseTime (pt city p))" if "site city p" for p a
    using that by (rule city_open)
  show "flt64 (D city p h) MaxFloat64" if "in_range city p" "hotel city h" for p h
    using city_D [OF that(1) hotel_in_range [OF that(2)]] by (simp add: fgt64_iff one_cmp)
  show "D city h h = 0" if "hotel city h" for h
    using city_D [of h h] that by auto
  show "fle64 0 (budget city d)" if "0 \<le> d" for d
    using that by (simp add: city_budget fge64_iff one_cmp)
  show "fle64 (fadd64 0 (D city h (EndHotelID city))) (budget city (NbDays city - 1))" if "hotel city h" for h
    using city_home [OF that] by (simp add: city_budget)
qed

section \<open>The tour is valid\<close>

definition two :: f64 where "two = 0x4000000000000000"

lemma one_plus_one: "fadd64 one one = two"
  by (simp add: one_def two_def fadd64_def funpack64_def fpack64_def norm_up.simps norm_down.simps Let_def)

lemma one_plus_zero: "fadd64 one 0 = one"
  by (simp add: one_def fadd64_def funpack64_def fpack64_def norm_up.simps norm_down.simps Let_def)

lemma two_cmp: "\<not> f64_nan two" "f64_key two = 0x4000000000000000"
  by (simp_all add: f64_nan_def f64_key_def f64_mag_def two_def bit_63_iff)

lemma city_stop:
  assumes "site city q"
  shows "leave_at city q one = one" "open_at city q one"
proof -
  have t: "pType (pt city q) = TypeSite" "pOpenTime (pt city q) = 0" "pServiceTime (pt city q) = 0"
    using assms unfolding city_site by (auto simp: city_def place_def)
  then have w: "wait_at city q one = 0" by (simp add: wait_at_def fgt64_iff one_cmp)
  then have "start_at city q one = one" by (simp add: start_at_def one_plus_zero)
  then show "leave_at city q one = one" using t by (simp add: leave_at_def one_plus_zero)
  show "open_at city q one" using city_open [OF assms] by (simp add: open_at_def)
qed

lemma city_day:
  assumes "hotel city p" "site city q" "hotel city e"
  shows "on_time city 0 p [q, e]" "time_of city [p, q, e] = two"
proof -
  have r: "in_range city p" "in_range city q" "in_range city e" using assms by auto
  have ne: "p \<noteq> q" "q \<noteq> e" using assms unfolding city_hotel city_site by auto
  have d: "fadd64 0 (D city p q) = one" "fadd64 one (D city q e) = two"
    using ne unfolding city_D [OF r(1,2)] city_D [OF r(2,3)] by (simp_all add: zero_plus_one one_plus_one)
  have e: "leave_at city e two = two" "open_at city e two" using assms(3) by (simp_all add: hotel_times)
  show "on_time city 0 p [q, e]" "time_of city [p, q, e] = two"
    using d e city_stop [OF assms(2)] by (simp_all add: time_of_def)
qed

lemma city_valid: "valid_routes city [[0, 2, 1], [1, 3, 1]]"
proof -
  have h: "hotel city 0" "hotel city 1" "site city 2" "site city 3" by (simp_all add: city_hotel city_site)
  have b: "\<not> fgt64 two (budget city d)" if "0 \<le> d" for d
    using that by (simp add: city_budget fgt64_iff one_cmp two_cmp)
  have "day_rules city 0 [0, 2, 1]" "day_rules city 1 [1, 3, 1]"
    unfolding day_rules_def
    using city_day [OF h(1,3,2)] city_day [OF h(2,4,2)] b [of 0] b [of 1] h by simp_all
  then show ?thesis by (simp add: valid_routes_def city_site)
qed

lemma shuffle_two: "\<exists>r ys r'. rng_ok r \<and> Shuffle 2 go_swap [1, 2 :: int] r = Some (ys, r')"
proof -
  obtain r where r: "rng_ok r" using Seed_ok by blast
  obtain v r' where v: "Uint32 r = Some (v, r')" "0 \<le> v" using Uint32_total [OF r] by blast
  have "0 \<le> v * 2 mod 2 ^ 32" by simp
  then have "\<not> v * 2 mod 2 ^ 32 < 0" by linarith
  then have "reject_low 2 0 (v * 2) r' = Some (v * 2, r')" by (subst reject_low.simps) (simp only: if_False)
  moreover have "(2 ^ 32 - 2) mod 2 = (0 :: int)" by simp
  ultimately have i: "int31n 2 r = Some (v * 2 div 2 ^ 32, r')"
    unfolding int31n_def v(1) Option.bind.simps prod.case Let_def by (cases "v * 2 mod 2 ^ 32 < 2") simp_all
  define j where "j = v * 2 div 2 ^ 32"
  have "0 \<le> j \<and> j < 2" using int31n_ok [OF r _ i] by (simp add: j_def)
  then have j: "int31n 2 r = Some (j, r')" "j = 0 \<or> j = 1" using i by (auto simp: j_def)
  have "\<exists>ys. go_swap 1 j [1, 2 :: int] = Some ys" using j(2) by (auto simp: go_swap_def)
  then obtain ys where "go_swap 1 j [1, 2 :: int] = Some ys" ..
  with j(1) have "Shuffle 2 go_swap [1, 2 :: int] r = Some (ys, r')"
    by (simp add: Shuffle_def Shuffle_big.simps Shuffle_small.simps)
  with r show ?thesis by blast
qed

section \<open>A clock, an order of the keys, a search\<close>

lemma ticking_int: "ticking int"
proof -
  have "t < int (nat t + 1)" for t by simp
  then show ?thesis unfolding ticking_def mono_def by (metis of_nat_le_iff)
qed

definition sorted_keys :: map_order where
  "sorted_keys m = sorted_list_of_set (dom m)"

lemma map_keys_sorted: "map_keys sorted_keys"
  by (simp add: map_keys_def sorted_keys_def)

lemma city_vnd: "rng_ok r \<Longrightarrow> vnd_inv city city_sol r"
  using city_wf city_small city_tour by (simp add: vnd_inv_def)

text \<open>A search without time returns the solution of the first descent.\<close>

lemma city_early: "\<exists>best t. LocalSearch int sorted_keys (\<lambda>_. int) 4 city_sol 0 0 (best, t)"
proof -
  have hs: "hotel city (StartHotelID city)" "hotel city (EndHotelID city)" by (simp_all add: city_hotel)
  have late: "startSearch int 4 city_sol 0 0 0 \<noteq> Some (Inr s)" for s
    by (auto simp: startSearch_def bind_eq_Some_conv Let_def split: if_splits)
  have "tour city (routes city_sol)" "SolInstance city_sol = city" using city_tour by simp_all
  from startSearch_ok [OF city_wf city_small this(2,1) ticking_int hs, of 4 0 0 0] late
  obtain best t where "startSearch int 4 city_sol 0 0 0 = Some (Inl (best, t))" by blast
  then show ?thesis by (blast intro: LocalSearch.early)
qed

text \<open>Two goroutines that have found a tour of the target score.\<close>

definition lucky :: worker where
  "lucky = \<lparr>wPc = AtTarget, wRng = \<lparr>tap = 0, feed = 1, vec = []\<rparr>, wBest = city_sol\<lparr>TotalScore := two\<rparr>, wFoundAt = 0,
     wDeadline = 0, wForce = 1, wNoImprove = 0, wClock = 2\<rparr>"

definition two_lucky :: system where
  "two_lucky = \<lparr>workers = [lucky, lucky], doneClosed = False, results = [None, None], panicked = False\<rparr>"

definition lucky_search :: search where
  "lucky_search = \<lparr>sInst = city, sTarget = one, sStart = 0, sBest = city_sol, sFoundAt = 0, sRemaining = 10 ^ 9, sNbGRASP = 2\<rparr>"

lemma lucky_target: "targetReached (sTarget lucky_search) (wBest lucky)"
  by (simp add: targetReached_def lucky_search_def lucky_def fgt64_iff fge64_iff one_cmp two_cmp)

end
