(* ===== verification/Driver_Examples.thy ===== *)
theory Driver_Examples
  imports Driver_Spec Examples
begin

text \<open>
  A run of the driver at which the hypotheses of its properties hold: an instance with two hotels and a
  site in one place, whose greedy tour reaches the known score, so that the search is skipped.
\<close>

abbreviation hamlet_os :: "(string \<Rightarrow> string option, string \<times> nat list) os" where
  "hamlet_os \<equiv> mem_os [''Inst13.txt'']"

definition hamlet_text :: string where
  "hamlet_text = concat (map (\<lambda>l. l @ [newline])
     [''1 1 1'', ''10'', ''10'', ''H0 0 0 0 0 0 0'', ''H1 0 0 0 0 0 0'', ''S2 0 0 200 0 0 9''])"

definition hamlet_points :: "Point list" where
  "hamlet_points =
     [\<lparr>pID = 0, pType = TypeHotel, pX = 0, pY = 0, pScore = 0, pOpenTime = 0, pCloseTime = 0, pServiceTime = 0\<rparr>,
      \<lparr>pID = 1, pType = TypeHotel, pX = 0, pY = 0, pScore = 0, pOpenTime = 0, pCloseTime = 0, pServiceTime = 0\<rparr>,
      \<lparr>pID = 2, pType = TypeSite, pX = 0, pY = 0, pScore = 0x4069000000000000, pOpenTime = 0,
       pCloseTime = 0x4022000000000000, pServiceTime = 0\<rparr>]"

definition hamlet :: Instance where
  "hamlet = \<lparr>Name = ''Inst13.txt'', NbDays = 1, MaxDist = ten, MaxDistPerDay = [ten], Points = hamlet_points,
     HotelIDs = [0, 1], SiteIDs = [2], DistMatrix = [[0, 0, 0], [0, 0, 0], [0, 0, 0]], StartHotelID = 0, EndHotelID = 1\<rparr>"

lemma hamlet_lines:
  "text_lines hamlet_text = [''1 1 1'', ''10'', ''10'', ''H0 0 0 0 0 0 0'', ''H1 0 0 0 0 0 0'', ''S2 0 0 200 0 0 9'']"
  "scan_error hamlet_text = None"
proof -
  have "\<forall>l \<in> set [''1 1 1'', ''10'', ''10'', ''H0 0 0 0 0 0 0'', ''H1 0 0 0 0 0 0'', ''S2 0 0 200 0 0 9''].
      newline \<notin> set l \<and> length l < MaxScanTokenSize \<and> dropCR l = l" by (simp add: dropCR_def MaxScanTokenSize_def)
  from text_lines_concat [OF this]
  show "text_lines hamlet_text = [''1 1 1'', ''10'', ''10'', ''H0 0 0 0 0 0 0'', ''H1 0 0 0 0 0 0'', ''S2 0 0 200 0 0 9'']"
    "scan_error hamlet_text = None" by (simp_all only: hamlet_text_def scan_error_def if_False)
qed

lemma hamlet_content:
  "content [''1 1 1'', ''10'', ''10'', ''H0 0 0 0 0 0 0'', ''H1 0 0 0 0 0 0'', ''S2 0 0 200 0 0 9''] =
    [''1 1 1'', ''10'', ''10'', ''H0 0 0 0 0 0 0'', ''H1 0 0 0 0 0 0'', ''S2 0 0 200 0 0 9'']"
  by code_simp

lemma hamlet_header: "Fields ''1 1 1'' = Some [''1'', ''1'', ''1'']" "Atoi ''1'' = (1, None)"
  by code_simp+

lemma hamlet_ten: "ParseFloat ''10'' = Some (ten, None)"
  by code_simp

lemma hamlet_budgets: "parseBudgets ''10'' = Some [ten]"
  by code_simp

lemma hamlet_parsed:
  "parsePoints [''H0 0 0 0 0 0 0'', ''H1 0 0 0 0 0 0'', ''S2 0 0 200 0 0 9''] =
    Some \<lparr>plPoints = hamlet_points, plHotels = [0, 1], plSites = [2], plCounter = 3\<rparr>"
  by code_simp

lemma hamlet_made:
  "makeInstance ''Inst13.txt'' 1 ten [ten] \<lparr>plPoints = hamlet_points, plHotels = [0, 1], plSites = [2], plCounter = 3\<rparr> = Some hamlet"
  by code_simp

lemmas hamlet_parts = hamlet_header hamlet_ten hamlet_budgets hamlet_parsed hamlet_made

lemma hamlet_load: "load_text ''Inst13.txt'' hamlet_text = Some (Inr hamlet)"
proof -
  have "\<not> length [''1'', ''1'', ''1''] < 3" "[''1'', ''1'', ''1''] ! 2 = ''1''" by simp_all
  then show ?thesis
    unfolding load_text_def hamlet_lines hamlet_content list.case hamlet_header(1) Option.bind.simps
    by (simp only: if_False hamlet_header hamlet_ten hamlet_budgets hamlet_parsed hamlet_made list.case option.case prod.case
        Option.bind.simps fst_conv)
qed

text \<open>Evaluation: the loop of the greedy construction, and the digits without their table.\<close>

declare greedyVisits.simps [code] formatBase10_digits [code]

lemma hamlet_first: "firstSolution hamlet (targetOf ''13'') = Some (tour_solution hamlet [[0, 2, 1]], True)"
  by code_simp

definition hamlet_sol :: Solution where "hamlet_sol = tour_solution hamlet [[0, 2, 1]]"

lemma hamlet_chosen: "chosenSolution hamlet_sol hamlet_sol True = Some (Some hamlet_sol)"
  by code_simp

lemma hamlet_report: "reportDays hamlet hamlet_sol = Some [''  Jour 1 : 1 sites, dist=0.00 / 10.00'']"
  by code_simp

lemma hamlet_paths: "numStr ''Inst13.txt'' = ''13''" "outputPath ''Inst13.txt'' = ''solutions/Instance13.sol''"
    "timePath ''Inst13.txt'' = ''solutions/Instance13.time''"
  by code_simp+

lemma hamlet_better: "shouldWrite (TotalScore hamlet_sol) 5000 (f64_minus_1, f64_999999999)"
  by code_simp

lemma hamlet_score: "fmtFloat (TotalScore hamlet_sol) 0 = Some ''200''" "TotalScore hamlet_sol = fnat 200"
  by code_simp+

lemma hamlet_days: "day_lines (Days hamlet_sol) = ''0 2 1'' @ [newline]"
  by code_simp

lemma hamlet_time: "fmtInteger (word_of_int (Microseconds 5000)) True = ''5''"
  by code_simp

lemma hamlet_sel: "Points hamlet = hamlet_points" "StartHotelID hamlet = 0" "EndHotelID hamlet = 1" "NbDays hamlet = 1" "HotelIDs hamlet = [0, 1]"
  by (simp_all add: hamlet_def)

lemma hamlet_kinds: "hotel hamlet p \<longleftrightarrow> p \<in> {0, 1}" "site hamlet p \<longleftrightarrow> p = 2"
proof -
  have r: "in_range hamlet p \<longleftrightarrow> p \<in> {0, 1, 2}" by (auto simp: in_range_def hamlet_sel hamlet_points_def)
  show "hotel hamlet p \<longleftrightarrow> p \<in> {0, 1}" "site hamlet p \<longleftrightarrow> p = 2"
    by (auto simp: hotel_def site_def r hamlet_sel hamlet_points_def)
qed

lemma hamlet_runnable: "runnable hamlet"
proof -
  have "wf_inst hamlet"
    using makeInstance_spec [OF parsePoints_ok [OF hamlet_parsed], of "''Inst13.txt''" 1 ten "[ten]"]
    unfolding hamlet_made by (auto simp: hamlet_points_def)
  moreover have "small hamlet" by (simp add: small_def hamlet_sel hamlet_points_def)
  ultimately show ?thesis using hamlet_kinds(1) by (simp add: runnable_def hamlet_sel)
qed

lemma hamlet_whole: "whole_scores hamlet (\<lambda>_. 200)"
proof -
  have "pScore (pt hamlet 2) = fnat 200" by code_simp
  then show ?thesis by (simp add: whole_scores_def hamlet_kinds)
qed

definition hamlet_fs :: "string \<Rightarrow> string option" where
  "hamlet_fs = [''Inst13.txt'' \<mapsto> hamlet_text]"

lemma hamlet_loads: "LoadInstance (osRead hamlet_os) (osOpen hamlet_os hamlet_fs) ''Inst13.txt'' = Some (Inr hamlet)"
  by (simp add: portions.LoadInstance_text mem_os_def hamlet_fs_def hamlet_load)

definition hamlet_after :: "string \<Rightarrow> string option" where
  "hamlet_after = hamlet_fs(''solutions/Instance13.sol'' \<mapsto> ''200'' @ newline # ''0 2 1'' @ [newline],
     ''solutions/Instance13.time'' \<mapsto> ''5'')"

lemma hamlet_fs_new: "hamlet_fs ''solutions/Instance13.sol'' = None" "hamlet_fs ''solutions/Instance13.time'' = None"
  by (simp_all add: hamlet_fs_def)

lemma hamlet_printable: "\<forall>day \<in> set (Days hamlet_sol). printable day"
proof -
  have "map dayLine (Days hamlet_sol) = [''0 2 1'']" "map (map PointID \<circ> Steps) (Days hamlet_sol) = [[0, 2, 1]]" by code_simp+
  then show ?thesis by (auto simp: printable_def MaxScanTokenSize_def)
qed

lemma hamlet_written:
  "WriteSolution hamlet_os hamlet_sol ''solutions/Instance13.sol'' hamlet_fs =
     Some (None, hamlet_fs(''solutions/Instance13.sol'' \<mapsto> ''200'' @ newline # ''0 2 1'' @ [newline]))"
proof -
  let ?out = "''solutions/Instance13.sol''"
  have w: "WriteSolution hamlet_os hamlet_sol ?out hamlet_fs =
      Some (writeDays hamlet_os ?out (Days hamlet_sol) (hamlet_fs(?out \<mapsto> ''200'' @ [newline])))"
    by (simp add: WriteSolution_def hamlet_score(1) mem_os_def)
  obtain err fs1 where d: "writeDays hamlet_os ?out (Days hamlet_sol) (hamlet_fs(?out \<mapsto> ''200'' @ [newline])) = (err, fs1)"
    by fastforce
  have "err = None \<and> fs1 = (hamlet_fs(?out \<mapsto> ''200'' @ [newline]))(?out \<mapsto> (''200'' @ [newline]) @ day_lines (Days hamlet_sol))"
    by (rule mem.writeDays_appends [OF _ d]) simp
  then show ?thesis unfolding w d by (simp add: hamlet_days)
qed

lemma hamlet_records: "recordSolution hamlet_os ''Inst13.txt'' hamlet hamlet_sol 5000 hamlet_fs = Some hamlet_after"
proof -
  have old: "oldResult hamlet_os hamlet_fs ''solutions/Instance13.sol'' ''solutions/Instance13.time'' = Some (f64_minus_1, f64_999999999)"
    by (simp add: oldResult_def mem_os_def hamlet_fs_new)
  have f: "osWriteFile hamlet_os fs p t = fs(p \<mapsto> t)" for fs p t by (simp add: mem_os_def)
  show ?thesis
    unfolding recordSolution_def hamlet_report hamlet_paths Option.bind.simps old hamlet_written Let_def
    by (simp only: hamlet_better if_True Option.bind.simps prod.case f hamlet_time hamlet_after_def simp_thms if_False)
qed

lemma hamlet_changed: "hamlet_after (outputPath ''Inst13.txt'') \<noteq> hamlet_fs (outputPath ''Inst13.txt'')" "hamlet_after \<noteq> hamlet_fs"
proof -
  show "hamlet_after (outputPath ''Inst13.txt'') \<noteq> hamlet_fs (outputPath ''Inst13.txt'')"
    by (simp add: hamlet_paths hamlet_fs_new hamlet_after_def)
  then show "hamlet_after \<noteq> hamlet_fs" by auto
qed

theorem hamlet_run: "runInstance hamlet_os int sorted_keys (\<lambda>_. int) 4 ''Inst13.txt'' hamlet_fs hamlet_after"
proof (rule runInstance.solved [OF hamlet_loads])
  show "firstSolution hamlet (targetOf (numStr ''Inst13.txt'')) = Some (hamlet_sol, True)"
    by (simp only: hamlet_paths hamlet_first hamlet_sol_def)
  show "if True then hamlet_sol = hamlet_sol
    else LocalSearch int sorted_keys (\<lambda>_. int) 4 hamlet_sol searchDuration (targetOf (numStr ''Inst13.txt'')) (hamlet_sol, 5000)" by simp
  show "chosenSolution hamlet_sol hamlet_sol True = Some (Some hamlet_sol)" by (rule hamlet_chosen)
  show "(case Some hamlet_sol of None \<Rightarrow> Some hamlet_fs
    | Some sol \<Rightarrow> recordSolution hamlet_os ''Inst13.txt'' hamlet sol 5000 hamlet_fs) = Some hamlet_after" by (simp add: hamlet_records)
qed

section \<open>The whole program on this instance\<close>

abbreviation steady :: "string \<Rightarrow> clock \<times> map_order \<times> (int \<Rightarrow> clock)" where
  "steady \<equiv> \<lambda>_. (int, sorted_keys, \<lambda>_. int)"

lemma steady_clocked: "clocked steady"
  by (simp add: clocked_def map_keys_sorted ticking_int)

lemma hamlet_warmUp: "warmUp hamlet_os hamlet_fs ''Inst13.txt'' = Some ()"
proof -
  obtain w where "SolveGreedy hamlet = Some w" "EvaluateScore w = Some (tour_solution hamlet [[0, 2, 1]])"
    using hamlet_first by (auto simp: firstSolution_def bind_eq_Some_conv)
  then show ?thesis by (simp add: warmUp_def hamlet_loads)
qed

lemma hamlet_glob: "osGlob hamlet_os (osMkdirAll hamlet_os hamlet_fs d) pattern = Some [''Inst13.txt'']"
  by (simp add: mem_os_def hamlet_fs_def)

theorem hamlet_main: "runMain hamlet_os steady 4 hamlet_fs hamlet_after"
proof -
  have d: "osMkdirAll hamlet_os hamlet_fs p = hamlet_fs" for p by (simp add: mem_os_def)
  have g: "osGlob hamlet_os hamlet_fs pattern = Some [''Inst13.txt'']" for pattern using hamlet_glob unfolding d .
  show ?thesis unfolding runMain_def Let_def d g using hamlet_warmUp hamlet_run by simp
qed

lemma hamlet_instances: "instances (\<lambda>fs. fs) {''Inst13.txt''} hamlet_fs = {hamlet}"
  by (auto simp: instances_def hamlet_fs_def hamlet_load)

lemma hamlet_instances_good: "\<forall>inst \<in> instances (\<lambda>fs. fs) {''Inst13.txt''} hamlet_fs. runnable inst \<and> (\<exists>f. whole_scores inst f)"
  unfolding hamlet_instances using hamlet_runnable hamlet_whole by blast

lemma hamlet_apart: "''Inst13.txt'' \<noteq> outputPath q \<and> ''Inst13.txt'' \<noteq> timePath q"
proof -
  have "timePath q = ''solutions/Instance'' @ numStr q @ ''.time''"
    using TrimSuffix_append [of "''solutions/Instance'' @ numStr q" "''.sol''"] by (simp add: timePath_def outputPath_def)
  then show ?thesis by (simp add: outputPath_def)
qed

end
