(* ===== verification/Real_Examples.thy ===== *)
theory Real_Examples
  imports Real_Tour Driver_Examples
begin

text \<open>
  An instance on a right triangle with the sides 3, 4 and 5, at which the hypotheses of the properties of
  distances and of exact tours hold.
\<close>

definition three :: f64 where "three = 0x4008000000000000"
definition four :: f64 where "four = 0x4010000000000000"
definition five :: f64 where "five = 0x4014000000000000"

definition corner :: "NodeType \<Rightarrow> int \<Rightarrow> f64 \<Rightarrow> f64 \<Rightarrow> Point" where
  "corner ty i x y = \<lparr>pID = i, pType = ty, pX = x, pY = y, pScore = (if ty = TypeSite then one else 0),
     pOpenTime = (if ty = TypeSite then five else 0), pCloseTime = five, pServiceTime = (if ty = TypeSite then one else 0)\<rparr>"

definition triangle :: Instance where
  "triangle = \<lparr>Name = ''triangle'', NbDays = 1, MaxDist = ten, MaxDistPerDay = [],
     Points = [corner TypeHotel 0 0 0, corner TypeHotel 1 three four, corner TypeSite 2 three 0],
     HotelIDs = [0, 1], SiteIDs = [2],
     DistMatrix = [[0, five, three], [five, 0, four], [three, four, 0]], StartHotelID = 0, EndHotelID = 1\<rparr>"

lemma float_values: "fval three = 3" "fval four = 4" "fval five = 5" "fval one = 1" "fval ten = 10"
  by (simp_all add: fval_def mval_def f64_mag_def bit_63_iff three_def four_def five_def one_def ten_def)

lemma float_finite: "f64_finite three" "f64_finite four" "f64_finite five" "f64_finite one" "f64_finite ten"
  by (simp_all add: f64_finite_def f64_mag_def three_def four_def five_def one_def ten_def)

lemma moderate_values: "moderate 60 3" "moderate 60 4" "moderate 60 5" "moderate 60 1" "moderate 60 0"
  by (simp_all add: moderate_def)

lemmas float_facts = float_values float_finite moderate_values

lemma triangle_sel [simp]:
  "length (Points triangle) = 3" "length (DistMatrix triangle) = 3" "NbDays triangle = 1" "StartHotelID triangle = 0"
  "EndHotelID triangle = 1" "HotelIDs triangle = [0, 1]" "SiteIDs triangle = [2]" "\<forall>row \<in> set (DistMatrix triangle). length row = 3"
  by (simp_all add: triangle_def)

lemma triangle_range: "in_range triangle p \<longleftrightarrow> p \<in> {0, 1, 2}"
  by (auto simp: in_range_def)

lemma triangle_kinds: "hotel triangle p \<longleftrightarrow> p \<in> {0, 1}" "site triangle p \<longleftrightarrow> p = 2"
  unfolding hotel_def site_def triangle_range by (auto simp: triangle_def corner_def)

lemma triangle_id: "i < 3 \<Longrightarrow> pID (Points triangle ! i) = int i"
proof -
  assume "i < 3"
  then have "i \<in> {0, 1, 2}" by auto
  then show ?thesis by (elim insertE emptyE) (simp_all add: triangle_def corner_def)
qed

lemma triangle_wf: "wf_inst triangle"
  unfolding wf_inst_def
proof (intro conjI)
  show "\<forall>i < length (Points triangle). pID (Points triangle ! i) = int i" using triangle_id by simp
  show "\<forall>row \<in> set (DistMatrix triangle). length row = length (Points triangle)" using triangle_sel(8) by simp
  show "set (HotelIDs triangle) = {p. hotel triangle p}" unfolding triangle_kinds triangle_sel by auto
  show "set (SiteIDs triangle) = {p. site triangle p}" unfolding triangle_kinds triangle_sel by auto
qed (simp_all add: triangle_range)

text \<open>The distances of the corners are known without running the square root, by the theorem on integer coordinates.\<close>

lemma exact_distance:
  assumes "is_int (pX p) x1" "is_int (pY p) y1" "is_int (pX q) x2" "is_int (pY q) y2"
    and "(x1 - x2)\<^sup>2 + (y1 - y2)\<^sup>2 = z\<^sup>2" "0 < z" "z < 2 ^ 20" "f64_finite f" "fval f = of_int z"
  shows "Distance p q = f"
proof -
  have "z\<^sup>2 < (2 ^ 20)\<^sup>2" using assms(6,7) by (intro power_strict_mono) simp_all
  then have "nearest_float (sqrt (of_int (z\<^sup>2))) (Distance p q)" using Distance_nearest [OF assms(1-4)] assms(5) by simp
  then show ?thesis using assms(6,8,9) by (intro nearest_exact) simp_all
qed

lemma int_values: "is_int 0 0" "is_int three 3" "is_int four 4"
  by (simp_all add: is_int_def float_facts)

lemma triangle_distances:
  "Distance (corner a i 0 0) (corner b j three four) = five" "Distance (corner a i 0 0) (corner b j three 0) = three"
  "Distance (corner a i three four) (corner b j three 0) = four"
proof -
  show "Distance (corner a i 0 0) (corner b j three four) = five"
    by (rule exact_distance [of _ 0 0 _ 3 4 5]) (simp_all add: corner_def int_values float_facts)
  show "Distance (corner a i 0 0) (corner b j three 0) = three"
    by (rule exact_distance [of _ 0 0 _ 3 0 3]) (simp_all add: corner_def int_values float_facts)
  show "Distance (corner a i three four) (corner b j three 0) = four"
    by (rule exact_distance [of _ 3 4 _ 3 0 4]) (simp_all add: corner_def int_values float_facts)
qed

lemma triangle_measured: "measured triangle"
proof -
  have "DistMatrix triangle ! a ! b = pair_dist triangle a b" if "a < 3" "b < 3" for a b
  proof -
    from that have "a \<in> {0, 1, 2}" "b \<in> {0, 1, 2}" by auto
    then show ?thesis
      by (elim insertE emptyE) (simp_all add: pair_dist_def triangle_def triangle_distances)
  qed
  moreover have "\<forall>p \<in> set (Points triangle). ordinary p"
    by (simp add: triangle_def corner_def ordinary_def placed_def float_facts)
  ultimately show ?thesis by (simp add: measured_def)
qed

lemma triangle_placed: "\<forall>p \<in> set (Points triangle). placed 60 p"
  using triangle_measured by (simp add: measured_def ordinary_def)

lemma triangle_euclid: "euclid (Points triangle ! 0) (Points triangle ! Suc 0) = 5"
  by (simp add: triangle_def corner_def euclid_def float_facts)

lemma triangle_budgets: "finite_budgets triangle"
  by (simp add: finite_budgets_def budget_def triangle_def float_facts)

definition triangle_sol :: Solution where "triangle_sol = tour_solution triangle [[0, 2, 1]]"

lemma triangle_sol_sel [simp]: "SolInstance triangle_sol = triangle" "routes triangle_sol = [[0, 2, 1]]"
  by (simp_all add: triangle_sol_def tour_solution_def routes_def tour_day_def route_def)

lemma triangle_known: "known_points triangle_sol"
  by (simp add: known_points_def triangle_range)

lemma triangle_verdict: "map_option snd (EvaluateSolution triangle_sol) = Some None"
  by code_simp

end
