(* ===== verification/Spec2Isabelle.thy ===== *)
theory Spec2Isabelle
  imports Insertion Two_Opt Swap_Move Real_Examples
begin

text \<open>
  A verification development of GoTouriste, a solver for the orienteering problem with hotels and
  time windows written in Go: \<open>src/*.go\<close>, with the parts of the Go distribution under \<open>src/go\<close> that
  its results rest on.

  \<^bold>\<open>The program.\<close> \<open>main.go\<close> takes the instances in a directory one by one. \<open>parser.go\<close> reads an
  instance, \<open>solver.go\<close> builds a first tour greedily, \<open>optimizer.go\<close> improves it: a descent through
  five neighbourhoods, random shaking around it, and one search per processor. \<open>validator.go\<close> replays
  and checks the tour, \<open>evaluator.go\<close> sums its score, and \<open>writer.go\<close> writes it when it is better
  than what an earlier run left in the file.

  \<^bold>\<open>How the code is read.\<close> Go's slices are lists with checked accesses, and a call that may panic or
  may not end returns an option (\<open>Go_Prelude\<close>). A \<open>float64\<close> is its 64 bits, and the operations on
  it are those of the soft-float of the Go run-time, translated operation by operation from
  \<open>runtime/softfloat64.go\<close> with \<open>math/sqrt.go\<close> (\<open>Go_Float64\<close>); no fused multiply-add is assumed.
  Integers that never wrap are \<open>int\<close>; those of the conversions, of the random source and of the sort
  are words. A string is the list of its bytes. A pointer to a solution or to the search state is its
  value, passed and returned; where two variables share a solution (\<open>main\<close> after a skipped search)
  the model says so. Errors are constructors that hold the printed values.

  \<^bold>\<open>What is a parameter.\<close> The operating system is a record \<open>os\<close> of functions on an abstract state
  of the files; the laws the code relies on are the locales \<open>file_reader\<close> and \<open>regular_file\<close>
  (\<open>Go_Scanner_Spec\<close>, \<open>Parser_Spec\<close>: a read brings a portion of what is left) and \<open>file_system\<close>
  (\<open>Writer_Spec\<close>: what is written is held), interpreted on a file system in memory whose reads bring
  portions of any size. A clock is the sequence of its readings, and only its passing of every
  deadline is assumed. The order in which a map is ranged over is a function of its keys that may
  return them in any order. The goroutines of the search run in any interleaving of their steps.

  \<^bold>\<open>The theories.\<close>
  \<^item> The run-time. \<open>Go_Prelude\<close>: slices, loops, shared lemmas. \<open>Go_Float64\<close>: the operations;
    \<open>Go_Float64_Order\<close>: the integer key that their comparisons compare; \<open>Go_Float64_Diff\<close>: the sign of
    a difference; \<open>Go_Float64_Int\<close>: the integers below \<open>2^53\<close> among the floats, whose sums are exact.
    \<open>Go_Float64_Round\<close>: the value of a float as a real number, and that sums, differences, products and
    quotients are the floats nearest to the exact results, ties to even, as IEEE 754 prescribes;
    \<open>Go_Sqrt\<close>: the same for the root; \<open>Go_Float64_Error\<close>: the order of the values and the relative error
    of a chain of operations.
    \<open>Go_Rand\<close>, \<open>Go_Rand_Returns\<close>: \<open>math/rand\<close>, its bounds, and why its rejection loop ends.
    \<open>Go_Sort\<close>: \<open>sort.Slice\<close> with its fall-back to heapsort.
  \<^item> Text. \<open>Go_Strings\<close>: fields, trimming, prefixes, UTF-8. \<open>Go_Atoi\<close>: integers. \<open>Go_Decimal\<close>,
    \<open>Go_Decimal_Spec\<close>: the multiprecision decimals and the value of a shift. \<open>Go_Pow10\<close>, \<open>Go_Atof\<close>,
    \<open>Go_Atof_Spec\<close>: \<open>ParseFloat\<close> with its table of powers, that it returns, and its errors.
    \<open>Go_Atof_Round\<close>: a decimal number of the kind the instances hold is read as the float nearest to it.
    \<open>Go_Ftoa\<close>, \<open>Go_Ftoa_Spec\<close>: \<open>%.nf\<close>; an integer is written as its digits and parsed back exactly.
    \<open>Go_Scanner\<close>, \<open>Go_Scanner_Spec\<close>: \<open>bufio.Scanner\<close> delivers the lines of the text, whatever the
    sizes of the reads.
  \<^item> The data. \<open>Models\<close>, \<open>Models_Spec\<close>: \<open>models.go\<close>. \<open>Parser\<close>, \<open>Parser_Spec\<close>: \<open>parser.go\<close>, equal to a
    parser of the text, and the instances it makes. \<open>Writer\<close>, \<open>Writer_Spec\<close>: \<open>writer.go\<close> and the text it
    leaves. \<open>Evaluator\<close>, \<open>Validator\<close>: \<open>evaluator.go\<close>, \<open>validator.go\<close>. \<open>Tour_Spec\<close> states what a
    timetable and a valid tour are, \<open>Validator_Spec\<close> proves that the validator decides exactly that. \<open>Distance_Spec\<close>:
    the error of a computed distance; \<open>Real_Tour\<close>: the rules over the real numbers, with Euclidean
    distances, and that the verdict of the validator is theirs up to a margin of \<open>2^-43\<close>.
  \<^item> The construction. \<open>Solver\<close>, \<open>Solver_Spec\<close>: \<open>solver.go\<close>, its termination and the tours it builds.
  \<^item> The search, \<open>optimizer.go\<close>. \<open>Day_Eval\<close>, \<open>Search_State\<close>, \<open>Tour_Shape\<close>: the evaluation of a day, the
    search state, what every move preserves. \<open>Best_Choice\<close> holds the interface of the loops that keep
    a best move, interpreted on the comparisons of the program. \<open>Insertion\<close>, \<open>Two_Opt\<close>, \<open>Swap_Move\<close>,
    \<open>Relocate\<close>, \<open>Hotel_Swap\<close>: the five neighbourhoods. \<open>Descent\<close>: \<open>applyVND\<close>. \<open>Shake\<close>, \<open>Shake_Spec\<close>:
    \<open>applyShake\<close>. \<open>Local_Search\<close>, \<open>Local_Search_Spec\<close>: \<open>LocalSearch\<close>, its workers as steps on the
    shared channel, and the merge of their results. \<open>Search_System\<close>: the reachable states of the
    workers, with the close of a closed channel as a state of its own.
  \<^item> The driver. \<open>Driver\<close>: \<open>main.go\<close>. \<open>Driver_Spec\<close>: what a run of the program does to the files.
  \<^item> \<open>Examples\<close>, \<open>Driver_Examples\<close>, \<open>Real_Examples\<close>: small instances at which the hypotheses of the
    properties hold, the second with a run of the whole program, the third with distances that are not trivial.

  \<^bold>\<open>Bounds.\<close> The sort is proved for slices shorter than \<open>2^62\<close> elements and the draws for bounds up
  to \<open>2^30\<close>, so that the conversions to \<open>int32\<close> and the shifts are exact; an instance has far fewer
  points. The text of a score is proved exact for integers below \<open>2^52\<close>; the scores of the instances
  are integers of a few hundred. The exact rules are compared with the validator for coordinates and
  times that are zero or between \<open>2^-60\<close> and \<open>2^60\<close> and days of at most 128 points: each leg adds four
  roundings and at most six to the range of the exponent, which leaves the margin below \<open>520 * 2^-53\<close>. The
  rounding of a sum is proved unless its value is subnormal while an operand is not: there \<open>fpack64\<close>
  returns a wrong float (\<open>cancellation_misrounds\<close>). Numbers are read exactly rounded up to 19 digits whose
  value without the point is below \<open>2^52\<close>. No fuel is used: the loops without a bound in their text are partial
  functions with a proof that they return.

  \<^bold>\<open>Not modelled.\<close> \<open>NewInstance\<close> is never called, and the nil points it makes have no place
  in the type of an instance. The console is left out but for the lines of the
  days, whose accesses may panic. Of the Go distribution only what the program calls is modelled: no
  32-bit floats, no format but \<open>%d\<close> and \<open>%.nf\<close> without flags, no split function but \<open>ScanLines\<close>; not
  the compiler, the scheduler, the garbage collector and the system calls. The run-time's memory is
  unbounded in the model. The workers share the channel \<open>done\<close>, one slot each for their
  results, and what they only read, so their steps are interleaved without data races.
\<close>

section \<open>Properties\<close>



text \<open>C2. EvaluateSolution decides the rules of a tour: on a well-formed instance and known points it never panics, it reports no error exactly when every day starts and ends at a hotel as prescribed, reaches every site before it closes and keeps its budget and no site is visited twice, an accepted solution is rewritten to its timetable, score and length, and no verdict changes a route.\<close>

theorem validator_decides:
  assumes "wf_inst (SolInstance sol)" "known_points sol"
  shows "\<exists>sol' e. EvaluateSolution sol = Some (sol', e) \<and> routes sol' = routes sol \<and>
    (e = None \<longleftrightarrow> valid_routes (SolInstance sol) (routes sol)) \<and> (e = None \<longrightarrow> sol' = revalued sol)"
  using EvaluateSolution_ok [OF assms] EvaluateSolution_err [OF assms] routes_revalued [of sol]
  by (cases "valid_routes (SolInstance sol) (routes sol)") auto

lemma validator_decides_witness:
  "\<exists>sol' e. EvaluateSolution city_sol = Some (sol', e) \<and> routes sol' = [[0, 2, 1], [1, 3, 1]]"
  using validator_decides [of city_sol] city_wf city_known by auto



text \<open>C4. The whole program never lowers a recorded score: from any start, on files whose reads and writes do not fail and for instances whose scores are integers with a sum below 2^52, every file that is not the solution or the time of an instance is left alone, and every file of a solution ends as it was, or with the text of a tour that the validator accepts for one of the instances, which the next run reads back with exactly its score and which is not worse than what the file held before.\<close>

theorem driver_keeps_best:
  assumes "file_system os left held" "runMain os env numCPU fs fs'" "clocked env"
    and "osGlob os (osMkdirAll os fs ''solutions'') ''instances/Inst*.txt'' = Some ps"
    and "\<forall>inst \<in> instances held (set ps) fs. runnable inst \<and> (\<exists>f. whole_scores inst f)"
    and "\<forall>p \<in> set ps. \<forall>q. p \<noteq> outputPath q \<and> p \<noteq> timePath q"
  shows "(\<forall>q. (\<forall>p \<in> set ps. q \<noteq> outputPath p \<and> q \<noteq> timePath p) \<longrightarrow> held fs' q = held fs q) \<and>
    (\<forall>q. kept_best (instances held (set ps) fs) (held fs (outputPath q)) (held fs' (outputPath q)))"
  by (rule file_system.main_keeps_best [OF assms])

lemma driver_keeps_best_witness:
  "\<exists>sol. accepted hamlet sol \<and> hamlet_after (outputPath ''Inst13.txt'') = solution_text sol \<and>
    stored_score (hamlet_after (outputPath ''Inst13.txt'')) = TotalScore sol"
  using driver_keeps_best [OF mem.file_system_axioms hamlet_main steady_clocked hamlet_glob] hamlet_instances_good hamlet_apart hamlet_changed(1)
  by (auto simp: kept_best_def hamlet_instances)

text \<open>C5. The verdict of the validator, which computes with floats, is the one of the rules over the real numbers up to a margin of 2^-43: on a loaded instance with ordinary numbers (coordinates and times zero or between 2^-60 and 2^60, days of at most 128 points), a tour that keeps the exact rules, with Euclidean distances and exact waits, when the closing times and budgets are scaled by 1 - 2^-43 is accepted, an accepted tour keeps them when they are scaled by 1 + 2^-43, and the recorded length of a day is its Euclidean length up to 130 roundings.\<close>

theorem verdict_is_exact:
  assumes "wf_inst (SolInstance sol)" "known_points sol" "measured (SolInstance sol)" "finite_budgets (SolInstance sol)"
    and "\<forall>ps \<in> set (routes sol). length ps \<le> 128"
  shows "\<exists>sol' e. EvaluateSolution sol = Some (sol', e) \<and>
    (true_tour (1 - 1 / 2 ^ 43) (SolInstance sol) (routes sol) \<longrightarrow> e = None) \<and>
    (e = None \<longrightarrow> true_tour (1 + 1 / 2 ^ 43) (SolInstance sol) (routes sol) \<and>
       (\<forall>day \<in> set (Days sol'). Steps day \<noteq> [] \<longrightarrow>
          accurate 130 (DistTotal day) (true_length (SolInstance sol) (hd (route day)) (tl (route day)))))"
  by (rule verdict_exact [OF assms])

lemma verdict_is_exact_witness:
  "true_tour (1 + 1 / 2 ^ 43) triangle [[0, 2, 1]]"
  using verdict_is_exact [of triangle_sol] triangle_wf triangle_known triangle_measured triangle_budgets triangle_verdict
  by auto

text \<open>C6. Whatever the files do, the driver records only tours that the validator accepts: a run that changes the files has chosen a tour of the loaded instance that keeps all rules, with its timetable and its score recomputed by the validator, the earlier result was read and is worse, and the change is the writing of this tour followed, when that succeeded, by the writing of its time.\<close>

theorem driver_records_accepted:
  assumes "runInstance os clk keys clks numCPU path fs fs'" "ticking clk" "\<forall>w. ticking (clks w)" "map_keys keys"
    and "LoadInstance (osRead os) (osOpen os fs) path = Some (Inr inst)" "runnable inst"
  shows "fs' = fs \<or> (\<exists>sol elapsed old err fs1. accepted inst sol \<and>
    oldResult os fs (outputPath path) (timePath path) = Some old \<and> shouldWrite (TotalScore sol) elapsed old \<and>
    WriteSolution os sol (outputPath path) fs = Some (err, fs1) \<and>
    fs' = (if err = None then osWriteFile os fs1 (timePath path) (fmtInteger (word_of_int (Microseconds elapsed)) True)
           else fs1))"
  using run_records [OF assms] unfolding records_def by blast

lemma driver_records_accepted_witness:
  "\<exists>sol elapsed old. accepted hamlet sol \<and>
    oldResult hamlet_os hamlet_fs (outputPath ''Inst13.txt'') (timePath ''Inst13.txt'') = Some old \<and>
    shouldWrite (TotalScore sol) elapsed old"
  using driver_records_accepted [OF hamlet_run ticking_int _ map_keys_sorted hamlet_loads hamlet_runnable]
    hamlet_changed(2) ticking_int by blast

text \<open>C7. LocalSearch ends under every schedule: it returns early, or the goroutines make a bounded number of steps in total, no reachable state is stuck before all goroutines have exited, the merge of their results then returns, and the only other end is a panic, which needs a positive target score.\<close>

theorem search_returns:
  assumes "wf_inst inst" "small inst" "SolInstance sol = inst" "tour inst (routes sol)"
    and "hotel inst (StartHotelID inst)" "hotel inst (EndHotelID inst)"
    and "ticking clk" "\<forall>w. ticking (clks w)" "map_keys keys"
  shows "(\<exists>r. startSearch clk numCPU sol maxDuration target 0 = Some (Inl r)) \<or>
    (\<exists>s st. startSearch clk numCPU sol maxDuration target 0 = Some (Inr s) \<and>
      startWorkers s clks (nbWorkersOf numCPU) = Some st \<and>
      (\<exists>N. \<forall>k st'. (sysStep s keys clks ^^ k) st st' \<longrightarrow> k \<le> N) \<and>
      (\<forall>st'. (sysStep s keys clks)\<^sup>*\<^sup>* st st' \<longrightarrow>
        (if panicked st' then fgt64 target 0
         else if all_exited st' then \<exists>r. LocalSearch clk keys clks numCPU sol maxDuration target r
         else \<exists>st''. sysStep s keys clks st' st'')))"
  by (rule LocalSearch_returns [OF assms])

lemma search_returns_witness:
  "\<exists>x. startSearch int 8 city_sol (10 ^ 12) 0 0 = Some x"
  using search_returns [OF city_wf city_small _ _ _ _ ticking_int _ map_keys_sorted, of city_sol "\<lambda>_. int" 8 "10 ^ 12" 0]
    city_tour ticking_int by (auto simp: city_hotel)





text \<open>C10. The variable neighbourhood descent returns on every clock that passes its deadline: its five neighbourhoods never panic, the loop leaves a solution of the same instance whose routes are a tour, only days that were re-evaluated as feasible were written, the random source stays good and an evaluated solution stays evaluated.\<close>

theorem descent_returns:
  assumes "vnd_inv inst sol r" "ticking clk"
  shows "\<exists>sol' r' n'. applyVND clk deadline sol r n = Some (sol', r', n') \<and> vnd_inv inst sol' r' \<and>
    replanned sol sol' \<and> n \<le> n' \<and> (evaluated sol \<longrightarrow> evaluated sol')"
  by (rule applyVND_ok [OF assms])

lemma descent_returns_witness:
  "\<exists>r sol' r' n'. Seed 42 = Some r \<and> applyVND int 1000 city_sol r 0 = Some (sol', r', n') \<and> tour city (routes sol')"
proof -
  obtain r where r: "Seed 42 = Some r" "rng_ok r" using Seed_ok by blast
  from descent_returns [OF city_vnd [OF r(2)] ticking_int, of 1000 0] r(1) show ?thesis by (auto simp: vnd_inv_def)
qed

text \<open>C11. The loops over bestInsertion and bestSwap end without the help of the clock: each insertion visits one more site, and each swap raises the scores of the visited sites, because a positive difference of floats means a greater score.\<close>

theorem inner_loops_end:
  assumes "searching inst sol ss"
  shows "(\<exists>sol' ss' n'. insertLoop clk deadline sol ss n = Some (sol', ss', n') \<and> replanned sol sol' \<and> searching inst sol' ss') \<and>
    (\<exists>sol' ss' n'. swapLoop clk deadline sol ss n = Some (sol', ss', n') \<and> replanned sol sol' \<and> searching inst sol' ss')"
  using insertLoop_returns [OF assms, of clk deadline n] swapLoop_returns [OF assms, of clk deadline n] by blast

lemma inner_loops_end_witness:
  "\<exists>sol' ss' n'. swapLoop (\<lambda>_. 0) 1 city_sol city_state 0 = Some (sol', ss', n')"
  using inner_loops_end [OF city_searching, of "\<lambda>_. 0" 1 0] by blast

text \<open>C12. A shake of every strength returns, its result does not depend on the order of the map iteration, and it leaves a tour of the same instance with an evaluated score in which no new site is visited; the strongest one empties every day.\<close>

theorem shake_keeps_tour:
  assumes "vnd_inv inst sol r"
  shows "\<exists>sol' r'. (\<forall>keys. map_keys keys \<longrightarrow> applyShake keys sol force r = Some (sol', r')) \<and> vnd_inv inst sol' r' \<and>
    evaluated sol' \<and> visited_sites inst (routes sol') \<subseteq> visited_sites inst (routes sol) \<and>
    (force > 3 \<longrightarrow> visited_sites inst (routes sol') = {})"
  by (rule applyShake_ok [OF assms])

lemma shake_keeps_tour_witness:
  "\<exists>r sol' r'. applyShake sorted_keys city_sol 4 r = Some (sol', r') \<and> visited_sites city (routes sol') = {}"
proof -
  obtain r where r: "Seed 42 = Some r" "rng_ok r" using Seed_ok by blast
  from shake_keeps_tour [OF city_vnd [OF r(2)], of 4] map_keys_sorted show ?thesis by auto
qed



text \<open>C14. A gain that is computed as a difference can be trusted: if the soft-float subtraction gives a value greater than zero, the first operand is greater than the second, whatever the rounding.\<close>

theorem positive_difference_is_greater:
  assumes "fgt64 (fsub64 a b) 0"
  shows "fgt64 a b"
  by (rule fsub64_positive [OF assms])

lemma positive_difference_is_greater_witness:
  "fgt64 two 0"
proof -
  have "fsub64 two 0 = two" by (simp add: two_def fsub64_def fneg64_def fadd64_def funpack64_def fpack64_def norm_up.simps norm_down.simps Let_def)
  then show ?thesis using positive_difference_is_greater [of two 0] by (simp add: fgt64_iff two_cmp one_cmp)
qed

text \<open>C15. bestInsertion inserts a best unvisited site or proves there is none: it never panics, keeps the tour a tour and the search state in step with it, and when it returns true no feasible insertion that the pruning lets through has a greater score, or the same score and a shorter day; when it returns false no such insertion has a positive score and nothing was changed.\<close>

theorem insertion_is_best:
  assumes "searching inst sol ss"
  shows "\<exists>b sol' ss'. bestInsertion sol ss = Some (b, sol', ss') \<and> replanned sol sol' \<and> searching inst sol' ss' \<and>
    (if b then \<exists>u d pos. best_insertion sol u d pos \<and>
         routes sol' = (routes sol)[d := insert_at (routes sol ! d) pos u] \<and>
         visited_sites inst (routes sol') = insert u (visited_sites inst (routes sol)) \<and>
         TotalScore sol' = fadd64 (TotalScore sol) (pScore (pt inst u))
     else sol' = sol \<and> ss' = ss \<and>
       (\<forall>u d pos. site inst u \<longrightarrow> u \<notin> visited_sites inst (routes sol) \<longrightarrow>
          insertion sol u d pos \<longrightarrow> \<not> fgt64 (pScore (pt inst u)) 0))"
  by (rule bestInsertion_searching [OF assms])

lemma insertion_is_best_witness:
  "\<exists>b sol' ss'. bestInsertion city_sol city_state = Some (b, sol', ss') \<and> searching city sol' ss'"
  using insertion_is_best [OF city_searching] by blast

text \<open>C16. bestSwap replaces a planned site by a best unvisited one or proves that no swap gains: it never panics, keeps the tour and the search state in step, takes a swap with the greatest gain in score (the shortest day among equals) of those the pruning lets through, and otherwise changes nothing and no such swap has a positive gain.\<close>

theorem swap_is_best:
  assumes "searching inst sol ss"
  shows "\<exists>b sol' ss'. bestSwap sol ss = Some (b, sol', ss') \<and> replanned sol sol' \<and> searching inst sol' ss' \<and>
    (if b then \<exists>u d pos. best_swap sol u d pos \<and> routes sol' = (routes sol)[d := (routes sol ! d)[pos := u]] \<and>
         visited_sites inst (routes sol') = insert u (visited_sites inst (routes sol)) - {routes sol ! d ! pos} \<and>
         TotalScore sol' = fadd64 (TotalScore sol) (swap_gain sol u d pos)
     else sol' = sol \<and> ss' = ss \<and>
       (\<forall>u d pos. site inst u \<longrightarrow> u \<notin> visited_sites inst (routes sol) \<longrightarrow>
          swap sol u d pos \<longrightarrow> \<not> fgt64 (swap_gain sol u d pos) 0))"
  by (rule bestSwap_searching [OF assms])

lemma swap_is_best_witness:
  "\<exists>b sol' ss'. bestSwap city_sol city_state = Some (b, sol', ss') \<and> searching city sol' ss'"
  using swap_is_best [OF city_searching] by blast

text \<open>C17. apply2OptAllDays returns, its loop over a day ends because every pass makes the day strictly shorter, and the result is a local optimum: every day keeps its ends and its set of points, is feasible and strictly shorter where it changed, and no reversal of a segment gives a feasible shorter day.\<close>

theorem two_opt_is_local_optimum:
  assumes "wf_inst (SolInstance sol)" "tour (SolInstance sol) (routes sol)"
  shows "\<exists>changed sol'. apply2OptAllDays sol = Some (changed, sol') \<and> replanned sol sol' \<and>
    tour (SolInstance sol) (routes sol') \<and>
    visited_sites (SolInstance sol) (routes sol') = visited_sites (SolInstance sol) (routes sol) \<and>
    TotalScore sol' = TotalScore sol \<and> (\<not> changed \<longrightarrow> sol' = sol) \<and>
    (\<forall>d < length (Days sol). \<exists>c. two_opt_of (SolInstance sol) (int d) (Days sol ! d) c (Days sol' ! d))"
  by (rule apply2OptAllDays_spec [OF assms])

lemma two_opt_is_local_optimum_witness:
  "\<exists>changed sol'. apply2OptAllDays city_sol = Some (changed, sol') \<and> tour city (routes sol')"
  using two_opt_is_local_optimum [of city_sol] city_wf city_tour by auto

text \<open>C18. applyRelocate never panics and always returns, for every state of the random source and number of iterations: after it the solution is a tour again, the search state tracks it, no visited site was lost and only days that were re-evaluated as feasible were written.\<close>

theorem relocate_keeps_search:
  assumes "searching inst sol ss" "small inst" "rng_ok r"
  shows "\<exists>b sol' ss' r'. applyRelocate sol ss r maxIter = Some (b, sol', ss', r') \<and> rng_ok r' \<and> replanned sol sol' \<and>
    searching inst sol' ss' \<and> visited_sites inst (routes sol) \<subseteq> visited_sites inst (routes sol')"
  by (rule applyRelocate_ok [OF assms])

lemma relocate_keeps_search_witness:
  "\<exists>r b sol' ss' r'. Seed 42 = Some r \<and> applyRelocate city_sol city_state r 2000 = Some (b, sol', ss', r') \<and>
    searching city sol' ss'"
proof -
  obtain r where r: "Seed 42 = Some r" "rng_ok r" using Seed_ok by blast
  with relocate_keeps_search [OF city_searching city_small r(2), of 2000] show ?thesis by blast
qed

text \<open>C19. tryHotelSwap never panics and keeps the tour: every day still runs from a hotel to a hotel, the next day starts where the day before ends, the first and the last hotel are the prescribed ones, the visited sites are the same and only days that are feasible with the new hotel were written.\<close>

theorem hotel_swap_keeps_tour:
  assumes "wf_inst inst" "tour inst (routes sol)" "SolInstance sol = inst"
  shows "\<exists>b sol'. tryHotelSwap sol = Some (b, sol') \<and> replanned sol sol' \<and> tour inst (routes sol') \<and>
    visited_sites inst (routes sol') = visited_sites inst (routes sol)"
  by (rule tryHotelSwap_ok [OF assms])

lemma hotel_swap_keeps_tour_witness:
  "\<exists>b sol'. tryHotelSwap city_sol = Some (b, sol') \<and> tour city (routes sol')"
  using hotel_swap_keeps_tour [of city city_sol] city_wf city_tour by auto

text \<open>C20. The loop of tryHotelSwap over the hotels keeps the last hotel that makes the two days feasible and shorter together, not the one that makes them shortest: every hotel is compared with the current days only.\<close>

theorem hotel_loop_takes_last:
  assumes "wf_inst (SolInstance sol)" "tour (SolInstance sol) (routes sol)" "Suc d < length (Days sol)"
  shows "go_range (tryHotel (SolInstance sol) (int d) (Days sol ! d) (Days sol ! Suc d) (last (routes sol ! d)))
      (HotelIDs (SolInstance sol)) (-1) =
    Some (case chosen_hotel sol d of None \<Rightarrow> -1 | Some h \<Rightarrow> h)"
proof -
  have "\<forall>h \<in> set (HotelIDs (SolInstance sol)). hotel (SolInstance sol) h" using assms(1) by (simp add: wf_inst_def)
  from tryHotel_loop [OF assms this, of "-1"] show ?thesis by (simp add: chosen_hotel_def Let_def)
qed

lemma hotel_loop_takes_last_witness:
  "go_range (tryHotel city 0 (Days city_sol ! 0) (Days city_sol ! 1) 1) [0, 1] (-1) =
    Some (case chosen_hotel city_sol 0 of None \<Rightarrow> -1 | Some h \<Rightarrow> h)"
  using hotel_loop_takes_last [of city_sol 0] city_wf city_tour by simp

text \<open>C21. What the neighbourhood moves have in common is enough for the validator: a solution whose days are those of a valid one except for days that were re-evaluated as feasible, and whose routes are a tour, is valid again.\<close>

theorem moves_keep_valid:
  assumes "wf_inst (SolInstance sol)" "replanned sol sol'" "tour (SolInstance sol) (routes sol')"
    and "valid_routes (SolInstance sol) (routes sol)"
  shows "\<exists>sol''. EvaluateSolution sol' = Some (sol'', None) \<and> routes sol'' = routes sol'"
proof -
  have i: "SolInstance sol' = SolInstance sol" using assms(2) by (simp add: replanned_def)
  then have "known_points sol'" using assms(3) tour_known_points [of sol'] by simp
  moreover have "valid_routes (SolInstance sol') (routes sol')" using replanned_valid [OF assms(2-4)] i by simp
  ultimately show ?thesis using EvaluateSolution_ok [of sol'] assms(1) i routes_revalued [of sol'] by simp
qed

lemma moves_keep_valid_witness:
  "\<exists>sol''. EvaluateSolution city_sol = Some (sol'', None) \<and> routes sol'' = [[0, 2, 1], [1, 3, 1]]"
  using moves_keep_valid [of city_sol city_sol] city_wf city_tour city_valid by simp

text \<open>C22. evalDay computes the timetable of a route: on a well-formed instance a route that starts at a hotel is reported feasible exactly when every site is reached before it closes and no arrival or departure is later than the budget of the day, and then the steps and the length are those of the timetable.\<close>

theorem day_is_timetable:
  assumes "wf_inst inst" "hotel inst p" "\<forall>q \<in> set qs. in_range inst q" "0 \<le> d"
  shows "evalDay inst d (p # qs) =
    Some (if feasible inst (budget inst d) (p # qs) then (True, length_of inst (p # qs), plan inst (p # qs))
          else (False, 0, []))"
  by (rule evalDay_spec [OF assms])

lemma day_is_timetable_witness:
  "evalDay city 0 [0, 2, 1] =
    Some (if feasible city (budget city 0) [0, 2, 1] then (True, length_of city [0, 2, 1], plan city [0, 2, 1])
          else (False, 0, []))"
  using day_is_timetable [of city 0 "[2, 1]" 0] city_wf by (simp add: city_hotel city_range)

text \<open>C23. evalDayFast is evalDay without the steps: for every instance, day and list of points, also an ill-formed one on which both panic, it returns the same verdict and the same length.\<close>

theorem fast_day_is_day:
  "evalDayFast inst d ps = map_option (\<lambda>(ok, len, steps). (ok, len)) (evalDay inst d ps)"
  by (rule evalDayFast_eq)

text \<open>C24. newSearchState builds a state that tracks its solution: the flags mark exactly the visited sites and the list of unvisited sites holds every other site exactly once.\<close>

theorem state_tracks_solution:
  assumes "wf_inst (SolInstance sol)" "known_points sol"
  shows "\<exists>ss. newSearchState sol = Some ss \<and> tracks (SolInstance sol) ss (visited_sites (SolInstance sol) (routes sol))"
  by (rule newSearchState_tracks [OF assms])

lemma state_tracks_solution_witness:
  "\<exists>ss. newSearchState city_sol = Some ss \<and> tracks city ss {2, 3}"
  using state_tracks_solution [of city_sol] city_wf city_known by (simp add: city_visited)

text \<open>C25. One selection step of the greedy construction: scanning the points and selecting never panics; a chosen candidate is one of the unvisited sites that can be served and left in time, and in the deterministic mode none has a greater ratio; nothing is chosen only when no candidate is left (or, in the deterministic mode, none has a non-negative ratio).\<close>

theorem greedy_choice:
  assumes "wf_inst inst" "in_range inst loc" "0 \<le> d" "length visited = length (Points inst)"
    and "source_ok rcl rng" "length (Points inst) < 2 ^ 62"
  shows "\<exists>r b cs ch rng'. scanPoints inst rcl m d visited loc t = Some (r, b, cs) \<and>
    selectCandidate rcl r b cs rng = Some (ch, rng') \<and> source_ok rcl rng' \<and>
    chosen_from rcl (cands inst m d visited loc t) ch"
  by (rule select_spec [OF assms])

lemma greedy_choice_witness:
  "\<exists>r b cs ch rng'. scanPoints city 1 0 0 [False, False, True, False, False] 0 0 = Some (r, b, cs) \<and>
    selectCandidate 1 r b cs None = Some (ch, rng') \<and>
    chosen_from 1 (cands city 0 0 [False, False, True, False, False] 0 0) ch"
  using greedy_choice [of city 0 0 "[False, False, True, False, False]" 1 None 0 0] city_wf
  by (auto simp: city_range source_ok_def)

text \<open>C26. The randomized greedy construction returns for every mode and every bound of the candidate list up to 2^30 that has a good random source: its inner loop, which has no bound in its text, ends because every pass marks an unvisited site, and every day of the result is a greedy path closed by a hotel.\<close>

theorem randomized_greedy_returns:
  assumes "wf_inst inst" "length (Points inst) < 2 ^ 62"
    and "hotel inst (StartHotelID inst)" "hotel inst (EndHotelID inst)" "rclSize \<le> 2 ^ 30" "rng_ok r"
  shows "\<exists>rs rng'. SolveGreedyRandomized inst rclSize (Some r) m = Some (tour_solution inst rs, rng') \<and>
    length rs = nat (NbDays inst) \<and> greedy_tour inst rclSize m 0 {} (StartHotelID inst) rs"
proof -
  have "source_ok rclSize (Some r)" using assms(5,6) by (simp add: source_ok_def)
  from greedy_returns [OF assms(1-4) this, of m] show ?thesis by (auto simp: SolveGreedyRandomized_def)
qed

lemma randomized_greedy_returns_witness:
  "\<exists>r rs rng'. Seed 1 = Some r \<and> SolveGreedyRandomized city 3 (Some r) 2 = Some (tour_solution city rs, rng') \<and>
    greedy_tour city 3 2 0 {} 0 rs"
proof -
  obtain r where r: "Seed 1 = Some r" "rng_ok r" using Seed_ok by blast
  with randomized_greedy_returns [of city 3 r 2] city_wf show ?thesis by (auto simp: city_hotel)
qed

text \<open>C27. LoadInstance is a function of the text of the file: whatever portions the reads of a regular file bring, through the buffer of the scanner that shifts, grows and stops at the first line that is too long, the result is the one of the reference parser on the lines of the text, errors included.\<close>

theorem load_is_text:
  assumes "regular_file sys left"
  shows "LoadInstance sys files filePath =
    (case files filePath of None \<Rightarrow> Some (Inl CannotOpen) | Some file \<Rightarrow> load_text filePath (left file))"
  by (rule regular_file.LoadInstance_text [OF assms])

lemma load_is_text_witness:
  "LoadInstance portion_read (\<lambda>_. Some (hamlet_text, [0, 2, 40])) ''Inst13.txt'' = Some (Inr hamlet)"
  using load_is_text [OF portions.regular_file_axioms, of "\<lambda>_. Some (hamlet_text, [0, 2, 40])" "''Inst13.txt''"]
  by (simp add: hamlet_load)



text \<open>C29. What WriteSolution writes can be read back: on files whose writes do not fail, for an integer score below 2^52 and days that fit into a line, the first line of the file parses to the score, bit for bit, and the fields of the line of every day are the identifiers of its steps.\<close>

theorem written_solution_reads_back:
  assumes "file_system os left held" "WriteSolution os sol p fs = Some (None, fs')"
    and "TotalScore sol = fuint64to64 (word_of_nat n)" "n < 2 ^ 52" "\<forall>day \<in> set (Days sol). printable day"
  shows "\<exists>t l ls. held fs' p = Some t \<and> text_lines t = l # ls \<and> scan_error t = None \<and>
    ParseFloat (TrimSpace l) = Some (TotalScore sol, None) \<and>
    list_all2 (\<lambda>l day. \<exists>ws. Fields l = Some ws \<and> map Atoi ws = map (\<lambda>step. (PointID step, None)) (Steps day)) ls (Days sol)"
proof -
  obtain t where t: "solution_text sol = Some t" "held fs' = (held fs)(p \<mapsto> t)"
    using file_system.WriteSolution_text [OF assms(1,2)] by auto
  have "text_lines t = digits_of n # map dayLine (Days sol) \<and> scan_error t = None"
    using solution_text_lines [OF assms(3-5)] t(1) by auto
  moreover have "list_all2 (\<lambda>l day. \<exists>ws. Fields l = Some ws \<and> map Atoi ws = map (\<lambda>step. (PointID step, None)) (Steps day))
      (map dayLine (Days sol)) (Days sol)"
    unfolding list_all2_map1 list_all2_same using assms(5) dayLine_Fields by metis
  ultimately show ?thesis using t(2) ParseFloat_digits [OF assms(4)] assms(3) by (auto simp: TrimSpace_digits)
qed

lemma written_solution_reads_back_witness:
  "\<exists>l ls. text_lines (''200'' @ newline # ''0 2 1'' @ [newline]) = l # ls \<and>
    ParseFloat (TrimSpace l) = Some (TotalScore hamlet_sol, None)"
  using written_solution_reads_back [OF mem.file_system_axioms hamlet_written hamlet_score(2) _ hamlet_printable] by auto

text \<open>C30. The two evaluations agree: EvaluateScore leaves a solution that the validator has just accepted and rewritten as it is, score and length included.\<close>

theorem score_agrees:
  assumes "wf_inst (SolInstance sol)" "known_points sol" "\<forall>day \<in> set (Days sol). Steps day \<noteq> []"
    and "EvaluateSolution sol = Some (sol', None)"
  shows "EvaluateScore sol' = Some sol'"
proof -
  have "valid_routes (SolInstance sol) (routes sol)"
    using EvaluateSolution_err [OF assms(1,2)] assms(4) by auto
  then have "sol' = revalued sol" using EvaluateSolution_ok [OF assms(1,2)] assms(4) by simp
  then show ?thesis using EvaluateScore_revalued [OF assms(2,3)] by simp
qed

lemma score_agrees_witness:
  "\<exists>sol'. EvaluateSolution city_sol = Some (sol', None) \<and> EvaluateScore sol' = Some sol'"
proof -
  obtain sol' where s: "EvaluateSolution city_sol = Some (sol', None)"
    using EvaluateSolution_ok [of city_sol] city_wf city_known city_valid by auto
  have "\<forall>day \<in> set (Days city_sol). Steps day \<noteq> []" by (simp add: city_sol_def tour_solution_def tour_day_def)
  with s score_agrees [of city_sol sol'] city_wf city_known show ?thesis by auto
qed

text \<open>C31. sort.Slice (pattern-defeating quicksort with its fall-backs) returns for every comparison, also an inconsistent one, never reads or writes out of range, and leaves a permutation of the slice.\<close>

theorem slice_sorts_to_permutation:
  assumes "length xs < 2 ^ 62"
  shows "\<exists>ys. Slice lt xs = Some ys \<and> mset ys = mset xs"
  by (rule Slice_returns_permuted [OF assms])

lemma slice_sorts_to_permutation_witness:
  "\<exists>ys. Slice (\<lambda>a b. a < b) [3, 1, 2 :: int] = Some ys \<and> mset ys = mset [3, 1, 2]"
  using slice_sorts_to_permutation [of "[3, 1, 2 :: int]"] by simp

text \<open>C32. A draw ends and is in range: for a good source and a bound up to 2^30 the rejection loop of Intn accepts a value after finitely many steps, whatever the state of the additive generator, and the value lies in [0, n).\<close>

theorem draw_returns_in_range:
  assumes "rng_ok r" "0 < n" "n \<le> 2 ^ 30"
  shows "\<exists>v r'. Intn n r = Some (v, r') \<and> 0 \<le> v \<and> v < n \<and> rng_ok r'"
  by (rule Intn_returns [OF assms])

lemma draw_returns_in_range_witness:
  "\<exists>r v r'. Seed 42 = Some r \<and> Intn 10 r = Some (v, r') \<and> 0 \<le> v \<and> v < 10"
proof -
  obtain r where r: "Seed 42 = Some r" "rng_ok r" using Seed_ok by blast
  with draw_returns_in_range [OF r(2), of 10] show ?thesis by auto
qed

text \<open>C33. Shuffle with the exchanging closure returns a permutation, for every good source and every slice of at most 2^30 elements: the rejection loops of its draws end, no index is out of range, and the elements keep their multiplicities.\<close>

theorem shuffle_permutes:
  assumes "rng_ok r" "length xs \<le> 2 ^ 30"
  shows "\<exists>ys r'. Shuffle (int (length xs)) go_swap xs r = Some (ys, r') \<and> mset ys = mset xs \<and> rng_ok r'"
  by (rule Shuffle_permutation [OF assms])

lemma shuffle_permutes_witness:
  "\<exists>r ys r'. Shuffle 3 go_swap [5, 6, 7 :: int] r = Some (ys, r') \<and> mset ys = mset [5, 6, 7]"
proof -
  obtain r where r: "Seed 1 = Some r" "rng_ok r" using Seed_ok by blast
  then show ?thesis using shuffle_permutes [OF r(2), of "[5, 6, 7 :: int]"] by auto
qed

text \<open>C34. ComputeDistMatrix fills a square matrix completely, without an access out of range, and its entries are distances: the matrix is symmetric with a zero diagonal, and for points whose coordinates are zero or between 2^-k and 2^k for some k up to 400 every entry is finite and the Euclidean distance up to three roundings, a relative error of about 3 * 2^-53.\<close>

theorem matrix_is_accurate:
  assumes "square (length (Points inst)) (DistMatrix inst)" "\<forall>p \<in> set (Points inst). placed k p" "k \<le> 400"
  shows "\<exists>m. ComputeDistMatrix inst = Some (inst\<lparr>DistMatrix := m\<rparr>) \<and> square (length (Points inst)) m \<and>
    (\<forall>a < length (Points inst). \<forall>b < length (Points inst). m ! a ! b = m ! b ! a \<and> m ! a ! a = 0 \<and>
       accurate 3 (m ! a ! b) (euclid (Points inst ! a) (Points inst ! b)))"
proof -
  let ?n = "length (Points inst)"
  obtain m where m: "ComputeDistMatrix inst = Some (inst\<lparr>DistMatrix := m\<rparr>)" "square ?n m"
    "\<forall>a < ?n. \<forall>b < ?n. m ! a ! b = pair_dist inst a b"
    using ComputeDistMatrix_spec [OF assms(1)] by (elim exE conjE)
  have "m ! a ! b = m ! b ! a \<and> m ! a ! a = 0 \<and> accurate 3 (m ! a ! b) (euclid (Points inst ! a) (Points inst ! b))"
    if "a < ?n" "b < ?n" for a b
  proof -
    have "placed k (Points inst ! a)" "placed k (Points inst ! b)" using assms(2) that by simp_all
    from pair_dist_placed(1) [OF this assms(3)] show ?thesis
      using m(3) that pair_dist_facts(1) [of inst a b] pair_dist_facts(2) [of inst a] by simp
  qed
  with m(1,2) show ?thesis by (intro exI [of _ m] conjI allI impI) simp_all
qed

lemma matrix_is_accurate_witness:
  "\<exists>m. ComputeDistMatrix triangle = Some (triangle\<lparr>DistMatrix := m\<rparr>) \<and> accurate 3 (m ! 0 ! 1) 5"
proof -
  have "square (length (Points triangle)) (DistMatrix triangle)" by (simp add: square_def)
  from matrix_is_accurate [OF this triangle_placed] obtain m where
    m: "ComputeDistMatrix triangle = Some (triangle\<lparr>DistMatrix := m\<rparr>)"
      "\<forall>a < 3. \<forall>b < 3. m ! a ! b = m ! b ! a \<and> m ! a ! a = 0 \<and> accurate 3 (m ! a ! b) (euclid (Points triangle ! a) (Points triangle ! b))"
    by auto
  then have "accurate 3 (m ! 0 ! 1) (euclid (Points triangle ! 0) (Points triangle ! 1))" by (metis one_less_numeral_iff semiring_norm(77) zero_less_numeral)
  then have "accurate 3 (m ! 0 ! 1) 5" using triangle_euclid by simp
  with m(1) show ?thesis by blast
qed

text \<open>C35. Products, quotients and square roots of floats are rounded as the IEEE standard says: for finite floats each result is the float nearest to the exact value, ties to even, subnormal and overflowing results included; the quotient of two 128-bit and 64-bit words and the bit-by-bit root behind them are exact with their remainders.\<close>

theorem products_round:
  assumes "f64_finite f" "f64_finite g"
  shows "nearest_float (fval f * fval g) (fmul64 f g) \<and>
    (fval g \<noteq> 0 \<longrightarrow> nearest_float (fval f / fval g) (fdiv64 f g)) \<and>
    (0 \<le> fval f \<longrightarrow> nearest_float (sqrt (fval f)) (Sqrt f))"
  using fmul64_nearest [OF assms] fdiv64_nearest [OF assms] Sqrt_nearest [OF assms(1)] by blast

lemma products_round_witness:
  "nearest_float (4 / 3) (fdiv64 four three) \<and> nearest_float 2 (Sqrt four)"
  using products_round [of four three] by (simp add: float_facts)

text \<open>C36. Sums and differences of floats are rounded as the IEEE standard says: for finite floats the result is the float nearest to the exact value, ties to even, and infinite when the value is too large, unless the value is subnormal while an operand is not; there the packing of the soft-float loses bits, and the difference of two numbers just above 2^-1020 comes out half as large as it is.\<close>

theorem sums_round:
  assumes "f64_finite f" "f64_finite g" "packs_sum (fval f) (fval g)" "packs_sum (fval f) (- fval g)"
  shows "nearest_float (fval f + fval g) (fadd64 f g) \<and> nearest_float (fval f - fval g) (fsub64 f g) \<and>
    fval (fsub64 0x0030000000000001 0x0030000000000000) = (fval 0x0030000000000001 - fval 0x0030000000000000) / 2"
  using fadd64_nearest [OF assms(1-3)] fsub64_nearest [OF assms(1,2,4)] cancellation_misrounds by simp

lemma sums_round_witness:
  "nearest_float 9 (fadd64 five four) \<and> nearest_float 1 (fsub64 five four)"
  using sums_round [of five four] by (simp add: float_facts packs_sum_def)

text \<open>C37. ParseFloat reads decimal numbers as they are rounded: for an optional sign and at most 19 digits with or without a decimal point, of a value below 2^52 when the point is left out, the result is the float nearest to the number, without an error; this covers every field of the instances.\<close>

theorem parse_rounds:
  assumes "decimal_text s ip fp" "digits_from 0 (ip @ fp) < 2 ^ 52" "sign \<in> {[], ''+'', ''-''}"
  shows "\<exists>v. ParseFloat (sign @ s) = Some (v, None) \<and>
    nearest_float ((if sign = ''-'' then - 1 else 1) * decimal_value ip fp) v"
  by (rule ParseFloat_nearest [OF assms])

lemma parse_rounds_witness:
  "\<exists>v. ParseFloat ''-5.29'' = Some (v, None) \<and> nearest_float (- (529 / 100)) v"
  using parse_rounds [of "''5.29''" "''5''" "''29''" "''-''"]
  by (simp add: decimal_text_def digits_from_def decimal_value_def is_digit_def)


text \<open>C39. Shifting a multiprecision decimal multiplies its value by a power of two: for every well-formed decimal that is not zero and every shift, left or right, the table of new digits and the bounded buffer never lead to a panic, the result is well-formed with the same sign, is never above the exact product, and equals it when no digit was dropped.\<close>

theorem decimal_shift_scales:
  assumes "wf_dec a" "dD a \<noteq> []"
  shows "\<exists>a'. Shift a k = Some a' \<and> wf_dec a' \<and> dD a' \<noteq> [] \<and> dNeg a' = dNeg a \<and>
    dval a' \<le> dval a * 2 powi k \<and> (\<not> dTrunc a' \<longrightarrow> dval a' = dval a * 2 powi k)"
  using Shift_rests [OF assms, of k] unfolding rests_on_def by blast

lemma decimal_shift_scales_witness:
  "\<exists>a'. Shift (zeroDecimal\<lparr>dD := [5], dDp := 1\<rparr>) (-3) = Some a' \<and> wf_dec a'"
  using decimal_shift_scales [of "zeroDecimal\<lparr>dD := [5], dDp := 1\<rparr>" "-3"]
  by (auto simp: wf_dec_def zeroDecimal_def digitCap_def digits_def)

text \<open>C40. The comparisons of floats are those of the real numbers they stand for: fcmp64 reports a NaN as unordered, and for finite floats the three comparisons are the order and the equality of the values, the two zeros being equal.\<close>

theorem float_order_is_real_order:
  "(f64_nan x \<or> f64_nan y \<longrightarrow> \<not> fgt64 x y \<and> \<not> fge64 x y \<and> \<not> feq64 x y) \<and>
    (f64_finite x \<and> f64_finite y \<longrightarrow>
       (fgt64 x y \<longleftrightarrow> fval y < fval x) \<and> (fge64 x y \<longleftrightarrow> fval y \<le> fval x) \<and> (feq64 x y \<longleftrightarrow> fval x = fval y))"
  using fgt64_fval fge64_fval feq64_fval by (auto simp: fgt64_iff fge64_iff feq64_iff)

lemma float_order_is_real_order_witness:
  "fgt64 five four \<and> \<not> feq64 three four"
  using float_order_is_real_order [of five four] float_order_is_real_order [of three four] by (simp add: float_facts)

end
